(* ===== verification/Json.thy ===== *)
theory Json
  imports Prelude
begin

text \<open>
  The JSON values the source passes around (\<open>serde_json::Value\<close>) and the text an approval
  digest is taken of (\<open>canonical\<close> in cep/src/approval.rs).

  A number is carried as the text it prints as; an object is the list of its members, keys
  distinct. How a scalar prints is \<open>serde_json\<close>'s: it is the parameter \<open>tx\<close> of
  \<open>canonical\<close>, and \<open>scalar_printer tx\<close> says what the digest relies on.
\<close>

datatype json =
    JNull
  | JBool bool
  | JNum string
  | JStr string
  | JArr "json list"
  | JObj "(string \<times> json) list"

definition obj_get :: "string \<Rightarrow> (string \<times> json) list \<Rightarrow> json option" where
  "obj_get k m = map_of m k"

definition obj_remove :: "string \<Rightarrow> (string \<times> json) list \<Rightarrow> (string \<times> json) list" where
  "obj_remove k m = filter (\<lambda>(k', v). k' \<noteq> k) m"

text \<open>The numbers of a value are number tokens, at every level.\<close>

definition num_char :: "char \<Rightarrow> bool" where
  "num_char c \<longleftrightarrow> c \<in> set ''0123456789+-.eE''"

definition num_text :: "string \<Rightarrow> bool" where
  "num_text t \<longleftrightarrow> t \<noteq> [] \<and> hd t \<in> set ''-0123456789'' \<and> list_all num_char t"

primrec jwf :: "json \<Rightarrow> bool" where
  "jwf JNull = True"
| "jwf (JBool b) = True"
| "jwf (JNum t) = num_text t"
| "jwf (JStr s) = True"
| "jwf (JArr vs) = list_all id (map jwf vs)"
| "jwf (JObj kvs) = list_all snd (map (map_prod id jwf) kvs)"

lemma jwf_obj [simp]: "list_all snd (map (map_prod id jwf) kvs) = (\<forall>(k, v)\<in>set kvs. jwf v)"
  by (induction kvs) auto

lemma jwf_arr [simp]: "list_all id (map jwf vs) = (\<forall>v\<in>set vs. jwf v)"
  by (induction vs) auto

text \<open>The same members in key order, at every level.\<close>

primrec norm_keys :: "json \<Rightarrow> json" where
  "norm_keys JNull = JNull"
| "norm_keys (JBool b) = JBool b"
| "norm_keys (JNum t) = JNum t"
| "norm_keys (JStr s) = JStr s"
| "norm_keys (JArr vs) = JArr (map norm_keys vs)"
| "norm_keys (JObj kvs) = JObj (sort_key fst (map (map_prod id norm_keys) kvs))"

fun is_scalar :: "json \<Rightarrow> bool" where
  "is_scalar (JArr _) = False"
| "is_scalar (JObj _) = False"
| "is_scalar _ = True"

fun join :: "string \<Rightarrow> string list \<Rightarrow> string" where
  "join sep [] = []"
| "join sep [x] = x"
| "join sep (x # y # zs) = x @ sep @ join sep (y # zs)"

section \<open>Numbers and strings of a value\<close>

definition U64_MAX :: nat where
  "U64_MAX = 2 ^ 64 - 1"

text \<open>\<open>Number::as_u64\<close>: a number without sign, fraction and exponent, in range.\<close>

definition as_u64 :: "string \<Rightarrow> nat option" where
  "as_u64 t = (if t \<noteq> [] \<and> list_all is_digit t \<and> text_nat t \<le> U64_MAX then Some (text_nat t) else None)"

definition json_nat :: "nat \<Rightarrow> json" where
  "json_nat n = JNum (nat_text n)"

text \<open>\<open>Value::as_u64\<close> and \<open>Value::as_str\<close>.\<close>

fun json_u64 :: "json \<Rightarrow> nat option" where
  "json_u64 (JNum t) = as_u64 t"
| "json_u64 _ = None"

fun json_str :: "json \<Rightarrow> string option" where
  "json_str (JStr s) = Some s"
| "json_str _ = None"

text \<open>\<open>Value::get\<close> of a name.\<close>

definition member_of :: "string \<Rightarrow> json \<Rightarrow> json option" where
  "member_of k v = (case v of JObj m \<Rightarrow> obj_get k m | _ \<Rightarrow> None)"

text \<open>\<open>Map::insert\<close> and \<open>Map::extend\<close>.\<close>

definition obj_insert :: "string \<Rightarrow> json \<Rightarrow> (string \<times> json) list \<Rightarrow> (string \<times> json) list" where
  "obj_insert k v m = AList.update k v m"

definition obj_extend :: "(string \<times> json) list \<Rightarrow> (string \<times> json) list \<Rightarrow> (string \<times> json) list" where
  "obj_extend new m = foldl (\<lambda>m (k, v). obj_insert k v m) m new"

lemma json_u64_json_nat [simp]: "n \<le> U64_MAX \<Longrightarrow> json_u64 (json_nat n) = Some n"
  by (simp add: json_nat_def as_u64_def)

lemma obj_get_insert [simp]: "obj_get k (obj_insert k' v m) = (if k = k' then Some v else obj_get k m)"
  by (simp add: obj_get_def obj_insert_def update_conv' fun_upd_def)

lemma obj_get_remove [simp]: "obj_get k (obj_remove k' obj) = (if k = k' then None else obj_get k obj)"
  by (induction obj) (auto simp: obj_get_def obj_remove_def)

section \<open>The canonical text of params\<close>

definition member_text :: "(json \<Rightarrow> string) \<Rightarrow> string \<times> string \<Rightarrow> string" where
  "member_text tx kt = tx (JStr (fst kt)) @ '':'' @ snd kt"

primrec canonical :: "(json \<Rightarrow> string) \<Rightarrow> json \<Rightarrow> string" where
  "canonical tx JNull = tx JNull"
| "canonical tx (JBool b) = tx (JBool b)"
| "canonical tx (JNum t) = tx (JNum t)"
| "canonical tx (JStr s) = tx (JStr s)"
| "canonical tx (JArr vs) = ''['' @ join '','' (map (canonical tx) vs) @ '']''"
| "canonical tx (JObj kvs) =
     ''{'' @ join '','' (map (member_text tx) (sort_key fst (map (map_prod id (canonical tx)) kvs))) @ ''}''"

text \<open>
  What the digest relies on: a scalar prints as one JSON token. The token is not empty, starts
  with none of the six structural characters, and can be told from what follows it when that is
  nothing or one of the characters that follow a value or a key in the text.
\<close>

definition follows :: "string \<Rightarrow> bool" where
  "follows x \<longleftrightarrow> x = [] \<or> hd x \<in> {CHR '','', CHR '':'', CHR '']'', CHR ''}''}"

definition scalar_printer :: "(json \<Rightarrow> string) \<Rightarrow> bool" where
  "scalar_printer tx \<longleftrightarrow>
     (\<forall>a. is_scalar a \<longrightarrow> jwf a \<longrightarrow> tx a \<noteq> [] \<and>
        hd (tx a) \<notin> {CHR '','', CHR '':'', CHR ''['', CHR '']'', CHR ''{'', CHR ''}''}) \<and>
     (\<forall>a b x y. is_scalar a \<longrightarrow> jwf a \<longrightarrow> is_scalar b \<longrightarrow> jwf b \<longrightarrow> follows x \<longrightarrow> follows y \<longrightarrow>
        tx a @ x = tx b @ y \<longrightarrow> a = b \<and> x = y)"

lemma scalar_printer_hd:
  "scalar_printer tx \<Longrightarrow> is_scalar a \<Longrightarrow> jwf a \<Longrightarrow> tx a \<noteq> [] \<and>
     hd (tx a) \<notin> {CHR '','', CHR '':'', CHR ''['', CHR '']'', CHR ''{'', CHR ''}''}"
  by (simp add: scalar_printer_def)

lemma scalar_printer_eq:
  "scalar_printer tx \<Longrightarrow> is_scalar a \<Longrightarrow> jwf a \<Longrightarrow> is_scalar b \<Longrightarrow> jwf b \<Longrightarrow> follows x \<Longrightarrow> follows y \<Longrightarrow>
     tx a @ x = tx b @ y \<Longrightarrow> a = b \<and> x = y"
  by (simp add: scalar_printer_def)

subsection \<open>Key order does not matter\<close>

lemma sort_key_map_fst:
  "(\<And>p. p \<in> set xs \<Longrightarrow> fst (f p) = fst p) \<Longrightarrow> sort_key fst (map f xs) = map f (sort_key fst xs)"
proof (induction xs)
  case Nil
  then show ?case by simp
next
  case (Cons a xs)
  have ins: "insort_key fst (f a) (map f ys) = map f (insort_key fst a ys)"
    if "\<And>p. p \<in> insert a (set ys) \<Longrightarrow> fst (f p) = fst p" for ys
    using that by (induction ys) auto
  have "insort_key fst (f a) (map f (sort_key fst xs)) = map f (insort_key fst a (sort_key fst xs))"
    by (rule ins) (use Cons.prems in auto)
  with Cons show ?case by simp
qed

lemma sort_key_idem [simp]: "sort_key f (sort_key f xs) = sort_key f xs"
  by (rule sort_key_id_if_sorted) simp

lemma canonical_norm: "canonical tx (norm_keys v) = canonical tx v"
proof (induction v)
  case (JArr vs)
  then show ?case by (simp cong: map_cong)
next
  case (JObj kvs)
  let ?n = "map_prod id norm_keys" and ?c = "map_prod id (canonical tx)"
  have eq: "map (?c \<circ> ?n) kvs = map ?c kvs"
    using JObj by (force intro: map_cong [OF refl])
  have "sort_key fst (map ?c (sort_key fst (map ?n kvs))) = sort_key fst (map (?c \<circ> ?n) kvs)"
    by (simp add: sort_key_map_fst)
  then have "sort_key fst (map ?c (sort_key fst (map ?n kvs))) = sort_key fst (map ?c kvs)"
    by (simp only: eq)
  then show ?case by (simp only: norm_keys.simps canonical.simps)
qed simp_all

subsection \<open>The text determines the value\<close>

lemma canonical_hd:
  assumes "scalar_printer tx" and "jwf v"
  shows "canonical tx v \<noteq> [] \<and> hd (canonical tx v) \<notin> {CHR '','', CHR '':'', CHR '']'', CHR ''}''}"
  using scalar_printer_hd [OF assms(1), of v] assms(2) by (cases v) auto

lemma join_eq:
  assumes unamb: "\<And>a b x y. a \<in> set as \<Longrightarrow> b \<in> set bs \<Longrightarrow> follows x \<Longrightarrow> follows y \<Longrightarrow>
      t a @ x = t b @ y \<Longrightarrow> g a = g b \<and> x = y"
    and start: "\<And>a. a \<in> set as \<union> set bs \<Longrightarrow> t a \<noteq> [] \<and> hd (t a) \<noteq> c"
    and close: "c \<in> {CHR '']'', CHR ''}''}"
    and eq: "join '','' (map t as) @ c # x = join '','' (map t bs) @ c # y"
  shows "map g as = map g bs \<and> x = y"
  using unamb start eq
proof (induction as arbitrary: bs)
  case Nil
  then show ?case
  proof (cases bs)
    case Cons
    with Nil.prems(2) [of "hd bs"] Nil.prems(3) show ?thesis
      by (cases "tl bs"; cases "t (hd bs)") auto
  qed simp
next
  case (Cons a as)
  from Cons.prems(2) [of a] have ne: "t a \<noteq> []" "hd (t a) \<noteq> c" by auto
  show ?case
  proof (cases bs)
    case Nil
    with Cons.prems(3) ne show ?thesis by (cases as; cases "t a") auto
  next
    case (Cons b bs')
    define xa where "xa = (if as = [] then c # x else '','' @ join '','' (map t as) @ c # x)"
    define yb where "yb = (if bs' = [] then c # y else '','' @ join '','' (map t bs') @ c # y)"
    have fol: "follows xa" "follows yb" using close by (auto simp: xa_def yb_def follows_def)
    have "t a @ xa = t b @ yb"
      using Cons.prems(3) Cons by (cases as; cases bs') (auto simp: xa_def yb_def)
    with Cons.prems(1) [of a b xa yb] fol Cons have gab: "g a = g b" and xy: "xa = yb" by auto
    have cc: "c \<noteq> CHR '',''" using close by auto
    show ?thesis
    proof (cases "as = []")
      case True
      with xy cc have "bs' = []" "x = y" by (auto simp: xa_def yb_def split: if_splits)
      with True gab Cons show ?thesis by simp
    next
      case False
      with xy cc have ne': "bs' \<noteq> []"
        and tl: "join '','' (map t as) @ c # x = join '','' (map t bs') @ c # y"
        by (auto simp: xa_def yb_def split: if_splits)
      have "map g as = map g bs' \<and> x = y"
        by (rule Cons.IH [OF _ _ tl]) (use Cons.prems(1,2) Cons in auto)
      with gab Cons show ?thesis by simp
    qed
  qed
qed

lemma canonical_obj:
  "canonical tx (JObj kvs) =
     ''{'' @ join '','' (map (\<lambda>(k, v). member_text tx (k, canonical tx v)) (sort_key fst kvs)) @ ''}''"
proof -
  have "map (member_text tx) (sort_key fst (map (map_prod id (canonical tx)) kvs)) =
      map (\<lambda>(k, v). member_text tx (k, canonical tx v)) (sort_key fst kvs)"
    by (simp add: sort_key_map_fst split_def comp_def map_prod_def)
  then show ?thesis by (simp only: canonical.simps)
qed

lemma norm_obj: "norm_keys (JObj kvs) = JObj (map (\<lambda>(k, v). (k, norm_keys v)) (sort_key fst kvs))"
  by (simp add: sort_key_map_fst split_def map_prod_def)

lemma member_text_hd:
  "scalar_printer tx \<Longrightarrow> member_text tx (k, t) \<noteq> [] \<and> hd (member_text tx (k, t)) \<noteq> CHR ''}''"
  using scalar_printer_hd [of tx "JStr k"] by (auto simp: member_text_def)

lemma canonical_scalar: "is_scalar v \<Longrightarrow> canonical tx v = tx v"
  by (cases v) auto

lemma canonical_compound: "\<not> is_scalar w \<Longrightarrow> canonical tx w \<noteq> [] \<and> hd (canonical tx w) \<in> {CHR ''['', CHR ''{''}"
  by (cases w) auto

lemma scalar_text_not_compound:
  assumes "scalar_printer tx" and "is_scalar v" and "jwf v" and "\<not> is_scalar w"
  shows "tx v @ x \<noteq> canonical tx w @ y"
proof
  assume "tx v @ x = canonical tx w @ y"
  then have "hd (tx v) = hd (canonical tx w)"
    by (metis assms canonical_compound scalar_printer_hd hd_append2)
  then show False
    using scalar_printer_hd [OF assms(1-3)] canonical_compound [OF assms(4), of tx] by auto
qed

lemma canonical_scalar_eq:
  assumes "scalar_printer tx" and "is_scalar v" and "jwf v" and "jwf w" and "follows x" and "follows y"
    and "canonical tx v @ x = canonical tx w @ y"
  shows "norm_keys v = norm_keys w \<and> x = y"
proof (cases "is_scalar w")
  case True
  with assms(2,7) have "tx v @ x = tx w @ y" by (simp only: canonical_scalar)
  from scalar_printer_eq [OF assms(1,2,3) True assms(4-6) this] show ?thesis by blast
next
  case False
  with scalar_text_not_compound [OF assms(1,2,3) False] assms(2,7) show ?thesis
    by (metis canonical_scalar)
qed

lemma canonical_eq:
  assumes tx: "scalar_printer tx"
  shows "jwf v \<Longrightarrow> jwf w \<Longrightarrow> follows x \<Longrightarrow> follows y \<Longrightarrow> canonical tx v @ x = canonical tx w @ y \<Longrightarrow>
    norm_keys v = norm_keys w \<and> x = y"
proof (induction v arbitrary: w x y)
  case (JArr vs)
  show ?case
  proof (cases w)
    case w: (JArr ws)
    have eq: "join '','' (map (canonical tx) vs) @ CHR '']'' # x = join '','' (map (canonical tx) ws) @ CHR '']'' # y"
      using JArr.prems(5) w by simp
    have wf: "\<And>a. a \<in> set vs \<union> set ws \<Longrightarrow> jwf a" using JArr.prems(1,2) w by auto
    have "map norm_keys vs = map norm_keys ws \<and> x = y"
    proof (rule join_eq [OF _ _ _ eq])
      fix a b x' y'
      assume "a \<in> set vs" "b \<in> set ws" "follows x'" "follows y'" "canonical tx a @ x' = canonical tx b @ y'"
      then show "norm_keys a = norm_keys b \<and> x' = y'" using wf by (intro JArr.IH) auto
    next
      fix a assume "a \<in> set vs \<union> set ws"
      then show "canonical tx a \<noteq> [] \<and> hd (canonical tx a) \<noteq> CHR '']''"
        using canonical_hd [OF tx wf, of a] by blast
    qed simp
    with w show ?thesis by simp
  next
    case (JObj kvs)
    with JArr.prems show ?thesis by simp
  qed (use JArr.prems(2,5) scalar_text_not_compound [OF tx, of w "JArr vs" y x] in
      \<open>simp_all add: canonical_scalar del: canonical.simps(5)\<close>)
next
  case (JObj kvs)
  show ?case
  proof (cases w)
    case (JArr ws)
    with JObj.prems show ?thesis by simp
  next
    case w: (JObj kws)
    let ?t = "\<lambda>(k, v). member_text tx (k, canonical tx v)" and ?g = "\<lambda>(k, v). (k, norm_keys v)"
    have eq: "join '','' (map ?t (sort_key fst kvs)) @ CHR ''}'' # x =
        join '','' (map ?t (sort_key fst kws)) @ CHR ''}'' # y"
      using JObj.prems(5) w by (simp only: canonical_obj) simp
    have "map ?g (sort_key fst kvs) = map ?g (sort_key fst kws) \<and> x = y"
    proof (rule join_eq [OF _ _ _ eq])
      fix p q x' y'
      assume p: "p \<in> set (sort_key fst kvs)" and q: "q \<in> set (sort_key fst kws)"
        and fol: "follows x'" "follows y'" and t: "?t p @ x' = ?t q @ y'"
      obtain k v l w' where pq: "p = (k, v)" "q = (l, w')" by fastforce
      have "follows ('':'' @ z)" for z by (simp add: follows_def)
      then have "JStr k = JStr l \<and> '':'' @ canonical tx v @ x' = '':'' @ canonical tx w' @ y'"
        using t by (intro scalar_printer_eq [OF tx]) (simp_all add: pq member_text_def)
      then have kl: "k = l" "canonical tx v @ x' = canonical tx w' @ y'" by simp_all
      have "jwf v" "jwf w'" using p q JObj.prems(1,2) w by (auto simp: pq)
      with JObj.IH [of p v w' x' y'] p fol kl show "?g p = ?g q \<and> x' = y'" by (simp add: pq)
    qed (use member_text_hd [OF tx] in auto)
    with w show ?thesis by (simp only: norm_obj)
  qed (use JObj.prems(2,5) scalar_text_not_compound [OF tx, of w "JObj kvs" y x] in
      \<open>simp_all add: canonical_scalar del: canonical.simps(6)\<close>)
qed (rule canonical_scalar_eq [OF tx]; (assumption | simp only: is_scalar.simps))+

lemma canonical_inj:
  "scalar_printer tx \<Longrightarrow> jwf v \<Longrightarrow> jwf w \<Longrightarrow> canonical tx v = canonical tx w \<longleftrightarrow> norm_keys v = norm_keys w"
  using canonical_eq [of tx v w "[]" "[]"] canonical_norm [of tx v] canonical_norm [of tx w]
  by (auto simp: follows_def)

section \<open>A scalar printer\<close>

text \<open>
  One printer that meets \<open>scalar_printer\<close>: the keywords, the number's own text, and a string
  between quotes with the quote and the backslash escaped.
\<close>

definition quote_char :: char where "quote_char = CHR 0x22"
definition backslash_char :: char where "backslash_char = CHR 0x5C"

fun escape_text :: "string \<Rightarrow> string" where
  "escape_text [] = []"
| "escape_text (c # cs) =
     (if c = quote_char \<or> c = backslash_char then [backslash_char, c] else [c]) @ escape_text cs"

fun scalar_text :: "json \<Rightarrow> string" where
  "scalar_text JNull = ''null''"
| "scalar_text (JBool True) = ''true''"
| "scalar_text (JBool False) = ''false''"
| "scalar_text (JNum t) = t"
| "scalar_text (JStr s) = quote_char # escape_text s @ [quote_char]"
| "scalar_text _ = []"

lemma quote_not_backslash [simp]: "quote_char \<noteq> backslash_char" "backslash_char \<noteq> quote_char"
  by (simp_all add: quote_char_def backslash_char_def)

lemma escape_eq:
  "escape_text s @ quote_char # x = escape_text t @ quote_char # y \<Longrightarrow> s = t \<and> x = y"
proof (induction s arbitrary: t)
  case Nil
  then show ?case by (cases t) (auto split: if_splits)
next
  case (Cons c cs)
  show ?case
  proof (cases t)
    case Nil
    with Cons.prems show ?thesis by (auto split: if_splits)
  next
    case (Cons d ds)
    with Cons.prems have "c = d" "escape_text cs @ quote_char # x = escape_text ds @ quote_char # y"
      by (auto split: if_splits)
    with Cons.IH Cons show ?thesis by auto
  qed
qed

lemma num_text_eq:
  assumes "num_text t" and "num_text u" and "follows x" and "follows y" and "t @ x = u @ y"
  shows "t = u \<and> x = y"
proof -
  have stop: "x = [] \<or> \<not> num_char (hd x)" if "follows x" for x
    using that by (auto simp: follows_def num_char_def)
  have "takeWhile num_char (t @ x) = t" if "num_text t" "follows x" for t x
    using that stop [of x] by (cases x) (auto simp: num_text_def list_all_iff takeWhile_append2)
  with assms show ?thesis by (metis append_eq_append_conv)
qed

lemma num_text_hd: "num_text t \<Longrightarrow> \<exists>c cs. t = c # cs \<and> c \<in> set ''-0123456789''"
  by (cases t) (simp_all add: num_text_def)

fun scalar_class :: "json \<Rightarrow> nat" where
  "scalar_class JNull = 0"
| "scalar_class (JBool b) = (if b then 1 else 2)"
| "scalar_class (JNum t) = 3"
| "scalar_class _ = 4"

definition char_class :: "char \<Rightarrow> nat" where
  "char_class c = (if c = CHR ''n'' then 0 else if c = CHR ''t'' then 1 else if c = CHR ''f'' then 2
     else if c = quote_char then 4 else 3)"

lemma scalar_text_hd:
  "is_scalar a \<Longrightarrow> jwf a \<Longrightarrow> scalar_text a \<noteq> [] \<and> char_class (hd (scalar_text a)) = scalar_class a"
  by (cases a rule: scalar_text.cases)
     (auto simp: char_class_def quote_char_def dest!: num_text_hd)

lemma scalar_text_eq:
  assumes a: "is_scalar a" "jwf a" and b: "is_scalar b" "jwf b" and fol: "follows x" "follows y"
    and eq: "scalar_text a @ x = scalar_text b @ y"
  shows "a = b \<and> x = y"
proof -
  have "hd (scalar_text a) = hd (scalar_text b)"
    using scalar_text_hd [OF a] scalar_text_hd [OF b] eq by (metis hd_append2)
  then have cl: "scalar_class a = scalar_class b"
    using scalar_text_hd [OF a] scalar_text_hd [OF b] by simp
  show ?thesis
  proof (cases "\<exists>t u. a = JNum t \<and> b = JNum u")
    case True
    with num_text_eq [OF _ _ fol] a b eq show ?thesis by auto
  next
    case False
    with cl eq a b show ?thesis
      by (cases a rule: scalar_text.cases; cases b rule: scalar_text.cases) (auto dest: escape_eq)
  qed
qed

lemma scalar_printer_text: "scalar_printer scalar_text"
  unfolding scalar_printer_def
proof (intro conjI allI impI)
  fix a assume a: "is_scalar a" "jwf a"
  then show "scalar_text a \<noteq> []" by (cases a rule: scalar_text.cases) (auto simp: num_text_def)
  from a show "hd (scalar_text a) \<notin> {CHR '','', CHR '':'', CHR ''['', CHR '']'', CHR ''{'', CHR ''}''}"
    by (cases a rule: scalar_text.cases) (auto simp: num_text_def quote_char_def)
qed (use scalar_text_eq in blast)+

end
