(* ===== verification/Cep_Error.thy ===== *)
theory Cep_Error
  imports Json
begin

text \<open>
  cep/src/error.rs: the \<open>error\<close> member of a response. \<open>code\<close> is one of the JSON-RPC codes or a
  server code, \<open>data\<close> may carry the stable \<open>type\<close> clients switch on.
\<close>

definition PARSE_ERROR :: int where "PARSE_ERROR = -32700"
definition INVALID_REQUEST :: int where "INVALID_REQUEST = -32600"
definition METHOD_NOT_FOUND :: int where "METHOD_NOT_FOUND = -32601"
definition INVALID_PARAMS :: int where "INVALID_PARAMS = -32602"
definition INTERNAL_ERROR :: int where "INTERNAL_ERROR = -32603"
definition UNAUTHENTICATED :: int where "UNAUTHENTICATED = -32001"
definition FORBIDDEN :: int where "FORBIDDEN = -32002"
definition APPROVAL_REQUIRED :: int where "APPROVAL_REQUIRED = -32003"
definition NOT_FOUND :: int where "NOT_FOUND = -32004"
definition CONFLICT :: int where "CONFLICT = -32005"
definition TOO_LARGE :: int where "TOO_LARGE = -32006"
definition NOT_IMPLEMENTED :: int where "NOT_IMPLEMENTED = -32007"
definition CANCELLED :: int where "CANCELLED = -32008"
definition TIMEOUT :: int where "TIMEOUT = -32009"
definition UNAVAILABLE :: int where "UNAVAILABLE = -32010"

lemmas error_codes = PARSE_ERROR_def INVALID_REQUEST_def METHOD_NOT_FOUND_def INVALID_PARAMS_def
  INTERNAL_ERROR_def UNAUTHENTICATED_def FORBIDDEN_def APPROVAL_REQUIRED_def NOT_FOUND_def
  CONFLICT_def TOO_LARGE_def NOT_IMPLEMENTED_def CANCELLED_def TIMEOUT_def UNAVAILABLE_def

record cep_error =
  err_code :: int
  err_message :: string
  err_data :: "json option"

definition new_error :: "int \<Rightarrow> string \<Rightarrow> json option \<Rightarrow> cep_error" where
  "new_error code msg d = \<lparr>err_code = code, err_message = msg, err_data = d\<rparr>"

text \<open>\<open>typed\<close>: \<open>data.type\<close> names the error and the members of an object \<open>extra\<close> join it
  (a member named \<open>type\<close> would replace the name).\<close>

definition typed_error :: "int \<Rightarrow> string \<Rightarrow> string \<Rightarrow> json \<Rightarrow> cep_error" where
  "typed_error code kind msg extra = new_error code msg (Some (JObj
     (case extra of
        JObj m \<Rightarrow> fold (\<lambda>(k, v) d. AList.update k v d) m [(''type'', JStr kind)]
      | _ \<Rightarrow> [(''type'', JStr kind)])))"

definition parse_error :: cep_error where
  "parse_error = new_error PARSE_ERROR ''Parse error'' None"

definition invalid_request :: "string \<Rightarrow> cep_error" where
  "invalid_request reason = typed_error INVALID_REQUEST ''invalid_request'' reason JNull"

definition method_not_found :: "string \<Rightarrow> string list \<Rightarrow> string list \<Rightarrow> cep_error" where
  "method_not_found method did_you_mean group_methods =
     new_error METHOD_NOT_FOUND (''Method not found: '' @ method)
       (Some (JObj [(''did_you_mean'', JArr (map JStr did_you_mean)),
                    (''group_methods'', JArr (map JStr group_methods))]))"

definition invalid_params :: "string \<Rightarrow> json list \<Rightarrow> json option \<Rightarrow> cep_error" where
  "invalid_params msg errors example =
     typed_error INVALID_PARAMS ''invalid_params'' msg
       (JObj [(''errors'', JArr errors), (''example'', case example of None \<Rightarrow> JNull | Some e \<Rightarrow> e)])"

definition internal_error :: "string \<Rightarrow> cep_error" where
  "internal_error trace_id = new_error INTERNAL_ERROR ''Internal error'' (Some (JObj [(''trace_id'', JStr trace_id)]))"

definition unauthenticated :: cep_error where
  "unauthenticated = typed_error UNAUTHENTICATED ''unauthenticated'' ''A valid Bearer token is required'' JNull"

definition forbidden :: "string \<Rightarrow> cep_error" where
  "forbidden needs = typed_error FORBIDDEN ''forbidden'' (''Not allowed: needs '' @ needs) (JObj [(''needs'', JStr needs)])"

definition approval_required :: "string \<Rightarrow> string \<Rightarrow> string \<Rightarrow> string \<Rightarrow> cep_error" where
  "approval_required approval_id action target expires_at =
     typed_error APPROVAL_REQUIRED ''approval_required'' ''Approval required''
       (JObj [(''approval_id'', JStr approval_id), (''action'', JStr action),
              (''target'', JStr target), (''expires_at'', JStr expires_at)])"

definition not_found :: "string \<Rightarrow> string \<Rightarrow> cep_error" where
  "not_found kind msg = typed_error NOT_FOUND kind msg JNull"

definition conflict :: "string \<Rightarrow> string \<Rightarrow> cep_error" where
  "conflict kind msg = typed_error CONFLICT kind msg JNull"

definition too_large :: "nat \<Rightarrow> nat \<Rightarrow> cep_error" where
  "too_large limit got = typed_error TOO_LARGE ''too_large'' (''Over the limit of '' @ nat_text limit)
     (JObj [(''limit'', JNum (nat_text limit)), (''got'', JNum (nat_text got))])"

definition not_implemented :: "string \<Rightarrow> cep_error" where
  "not_implemented what = typed_error NOT_IMPLEMENTED ''not_implemented'' (what @ '' is not implemented yet'') JNull"

definition cancelled_error :: cep_error where
  "cancelled_error = typed_error CANCELLED ''cancelled'' ''Cancelled'' JNull"

definition timeout_error :: "string \<Rightarrow> cep_error" where
  "timeout_error msg = typed_error TIMEOUT ''timeout'' msg JNull"

definition unavailable :: "string \<Rightarrow> string \<Rightarrow> cep_error" where
  "unavailable kind msg = typed_error UNAVAILABLE kind msg JNull"

lemmas error_defs = new_error_def typed_error_def parse_error_def invalid_request_def method_not_found_def
  invalid_params_def internal_error_def unauthenticated_def forbidden_def approval_required_def not_found_def
  conflict_def too_large_def not_implemented_def cancelled_error_def timeout_error_def unavailable_def

text \<open>The stable \<open>data.type\<close>, when the error has one.\<close>

definition error_kind :: "cep_error \<Rightarrow> string option" where
  "error_kind e =
     (case err_data e of
        Some (JObj m) \<Rightarrow> (case obj_get ''type'' m of Some (JStr k) \<Rightarrow> Some k | _ \<Rightarrow> None)
      | _ \<Rightarrow> None)"

definition error_json :: "cep_error \<Rightarrow> json" where
  "error_json e = JObj ([(''code'', JNum (if err_code e < 0 then ''-'' @ nat_text (nat (- err_code e)) else nat_text (nat (err_code e)))),
      (''message'', JStr (err_message e))] @ (case err_data e of None \<Rightarrow> [] | Some d \<Rightarrow> [(''data'', d)]))"

lemma err_code_simps [simp]:
  "err_code parse_error = PARSE_ERROR"
  "err_code (invalid_request r) = INVALID_REQUEST"
  "err_code (method_not_found m ds gs) = METHOD_NOT_FOUND"
  "err_code (invalid_params r es ex) = INVALID_PARAMS"
  "err_code (internal_error t) = INTERNAL_ERROR"
  "err_code unauthenticated = UNAUTHENTICATED"
  "err_code (forbidden n) = FORBIDDEN"
  "err_code (approval_required a b c d) = APPROVAL_REQUIRED"
  "err_code (not_found k r) = NOT_FOUND"
  "err_code (conflict k r) = CONFLICT"
  "err_code (too_large l g) = TOO_LARGE"
  "err_code (not_implemented w) = NOT_IMPLEMENTED"
  "err_code cancelled_error = CANCELLED"
  "err_code (timeout_error r) = TIMEOUT"
  "err_code (unavailable k r) = UNAVAILABLE"
  by (simp_all add: error_defs)

lemma error_kind_simps [simp]:
  "error_kind (invalid_request r) = Some ''invalid_request''"
  "error_kind (invalid_params r es ex) = Some ''invalid_params''"
  "error_kind (forbidden n) = Some ''forbidden''"
  "error_kind (approval_required a b c d) = Some ''approval_required''"
  "error_kind (not_found k r) = Some k"
  "error_kind (conflict k r) = Some k"
  "error_kind cancelled_error = Some ''cancelled''"
  "error_kind (timeout_error r) = Some ''timeout''"
  "error_kind (unavailable k r) = Some k"
  by (simp_all add: error_kind_def error_defs obj_get_def)

end
