(* ===== verification/Cep_Principal.thy ===== *)
theory Cep_Principal
  imports Cep_Error
begin

text \<open>
  cep/src/principal.rs: who calls and what the caller may do. A path is its list of components,
  so \<open>Path::starts_with\<close> is the prefix relation on them.
\<close>

type_synonym path = "string list"

datatype scope = Read | Write | Exec | Admin

definition scope_all :: "scope list" where
  "scope_all = [Read, Write, Exec, Admin]"

fun scope_name :: "scope \<Rightarrow> string" where
  "scope_name Read = ''read''"
| "scope_name Write = ''write''"
| "scope_name Exec = ''exec''"
| "scope_name Admin = ''admin''"

datatype on_denied = DenyError | DenyAsk

record principal =
  pr_id :: string
  pr_scopes :: "scope list"
  pr_roots :: "path list option"
  pr_on_denied :: on_denied
  pr_owner :: bool

definition owner_principal :: principal where
  "owner_principal = \<lparr>pr_id = ''owner'', pr_scopes = scope_all, pr_roots = None, pr_on_denied = DenyError, pr_owner = True\<rparr>"

definition has_scope :: "principal \<Rightarrow> scope \<Rightarrow> bool" where
  "has_scope p s \<longleftrightarrow> s \<in> set (pr_scopes p)"

text \<open>The check every call goes through before its method runs.\<close>

definition allow :: "principal \<Rightarrow> scope \<Rightarrow> bool \<Rightarrow> cep_error + unit" where
  "allow p s owner_only =
     (if owner_only \<and> \<not> pr_owner p then Inl (forbidden ''owner'')
      else if \<not> has_scope p s then Inl (forbidden (scope_name s))
      else Inr ())"

definition within_roots :: "principal \<Rightarrow> path \<Rightarrow> bool" where
  "within_roots p path = (case pr_roots p of None \<Rightarrow> True | Some roots \<Rightarrow> list_ex (\<lambda>root. prefix root path) roots)"

lemma scope_all_complete: "s \<in> set scope_all"
  by (cases s) (simp_all add: scope_all_def)

lemma allow_ok: "allow p s oo = Inr () \<longleftrightarrow> (oo \<longrightarrow> pr_owner p) \<and> s \<in> set (pr_scopes p)"
  by (simp add: allow_def has_scope_def)

lemma allow_denied: "allow p s oo = Inl e \<Longrightarrow> err_code e = FORBIDDEN"
  by (auto simp: allow_def split: if_splits)

lemma allow_denied_kind:
  assumes "\<not> ((oo \<longrightarrow> pr_owner p) \<and> has_scope p s)"
  obtains e where "allow p s oo = Inl e" and "error_kind e = Some ''forbidden''"
  using assms that by (cases "oo \<and> \<not> pr_owner p") (auto simp: allow_def)

lemma owner_allowed [simp]: "allow owner_principal s oo = Inr ()"
  by (simp add: allow_ok owner_principal_def scope_all_complete)

lemma owner_within_roots [simp]: "within_roots owner_principal path"
  by (simp add: within_roots_def owner_principal_def)

text \<open>Inside a root is closed under going deeper, and a sibling whose name only starts the same is outside.\<close>

lemma within_roots_deeper: "within_roots p path \<Longrightarrow> within_roots p (path @ rest)"
  by (auto simp: within_roots_def list_ex_iff intro: prefix_prefix split: option.splits)

end
