(* ===== verification/Cep_Approval.thy ===== *)
theory Cep_Approval
  imports Cep_Principal
begin

text \<open>
  cep/src/approval.rs: the owner's yes for one exact call. The store keeps the approvals by id and
  the waiters (the sending halves of one-shot channels, numbered here) by approval id. Every
  operation takes the clock reading its source makes (\<open>now\<close>, milliseconds) as an argument and
  \<open>request\<close> takes the id that \<open>uuid\<close> draws; \<open>fmt\<close> stands for chrono's RFC 3339 printer.
\<close>

definition MAX_KEPT :: nat where "MAX_KEPT = 256"

datatype status = Pending | Approved | Rejected | Used

record approval =
  ap_id :: string
  ap_principal :: string
  ap_method :: string
  ap_target :: string
  ap_digest :: string
  ap_created_at :: string
  ap_expires_at :: string
  ap_status :: status
  ap_expires_ms :: nat

record decision =
  dec_approved :: bool
  dec_feedback :: "string option"

record approval_store =
  as_ttl :: nat
  as_items :: "(string, approval) hmap"
  as_waiters :: "(string, nat) hmap"

definition params_digest :: "(string \<Rightarrow> string) \<Rightarrow> (json \<Rightarrow> string) \<Rightarrow> json \<Rightarrow> string" where
  "params_digest sha tx params = sha (canonical tx params)"

definition new_store :: "nat \<Rightarrow> approval_store" where
  "new_store ttl = \<lparr>as_ttl = ttl, as_items = [], as_waiters = []\<rparr>"

section \<open>Operations\<close>

definition keep_approval :: "nat \<Rightarrow> approval \<Rightarrow> bool" where
  "keep_approval now a \<longleftrightarrow> ap_expires_ms a > now \<and> ap_status a \<noteq> Used \<and> ap_status a \<noteq> Rejected"

text \<open>The \<open>while\<close> loop of \<open>prune\<close>: it does not end when the id of the oldest entry is not its key.\<close>

partial_function (option) evict :: "(string, approval) hmap \<Rightarrow> (string, approval) hmap option" where
  "evict items =
     (if length items \<ge> MAX_KEPT
      then (case min_by_key ap_expires_ms (hm_values items) of
              None \<Rightarrow> Some items
            | Some oldest \<Rightarrow> evict (hm_remove (ap_id oldest) items))
      else Some items)"

definition prune :: "(string, approval) hmap \<Rightarrow> nat \<Rightarrow> (string, approval) hmap option" where
  "prune items now = evict (hm_retain (\<lambda>_. keep_approval now) items)"

definition fresh_approval ::
  "(nat \<Rightarrow> string) \<Rightarrow> nat \<Rightarrow> nat \<Rightarrow> string \<Rightarrow> string \<Rightarrow> string \<Rightarrow> string \<Rightarrow> string \<Rightarrow> approval" where
  "fresh_approval fmt ttl now uid caller method digest target =
     \<lparr>ap_id = ''ap_'' @ uid, ap_principal = caller, ap_method = method, ap_target = target,
      ap_digest = digest, ap_created_at = fmt now, ap_expires_at = fmt (now + ttl),
      ap_status = Pending, ap_expires_ms = now + ttl\<rparr>"

definition request ::
  "(nat \<Rightarrow> string) \<Rightarrow> nat \<Rightarrow> string \<Rightarrow> string \<Rightarrow> string \<Rightarrow> string \<Rightarrow> string \<Rightarrow> approval_store
     \<Rightarrow> (approval \<times> approval_store) option" where
  "request fmt now uid caller method digest target st =
     (let approval = fresh_approval fmt (as_ttl st) now uid caller method digest target in
      case prune (as_items st) now of
        None \<Rightarrow> None
      | Some items \<Rightarrow> Some (approval, st\<lparr>as_items := hm_insert (ap_id approval) approval items\<rparr>))"

definition usable :: "nat \<Rightarrow> string \<Rightarrow> string \<Rightarrow> string \<Rightarrow> approval \<Rightarrow> bool" where
  "usable now caller method digest a \<longleftrightarrow>
     ap_status a = Approved \<and> ap_expires_ms a > now \<and> ap_principal a = caller \<and>
     ap_method a = method \<and> ap_digest a = digest"

definition consume ::
  "nat \<Rightarrow> string \<Rightarrow> string \<Rightarrow> string \<Rightarrow> string \<Rightarrow> approval_store \<Rightarrow> bool \<times> approval_store" where
  "consume now i caller method digest st =
     (case hm_get i (as_items st) of
        None \<Rightarrow> (False, st)
      | Some a \<Rightarrow>
          if usable now caller method digest a
          then (True, st\<lparr>as_items := hm_insert i (a\<lparr>ap_status := Used\<rparr>) (as_items st)\<rparr>)
          else (False, st))"

fun status_debug :: "status \<Rightarrow> string" where
  "status_debug Pending = ''Pending''"
| "status_debug Approved = ''Approved''"
| "status_debug Rejected = ''Rejected''"
| "status_debug Used = ''Used''"

text \<open>\<open>decide\<close> also returns what it sent to a waiter, if one was registered.\<close>

definition decide ::
  "nat \<Rightarrow> string \<Rightarrow> bool \<Rightarrow> string option \<Rightarrow> approval_store
     \<Rightarrow> (cep_error + approval) \<times> (nat \<times> decision) option \<times> approval_store" where
  "decide now i approved feedback st =
     (case hm_get i (as_items st) of
        Some a \<Rightarrow>
          if \<not> ap_expires_ms a > now
          then (Inl (not_found ''approval_not_found'' (''No pending approval '' @ i)), None, st)
          else if ap_status a \<noteq> Pending
          then (Inl (conflict ''approval_decided''
                  (''Approval '' @ i @ '' is already '' @ status_debug (ap_status a))), None, st)
          else
            let decided = a\<lparr>ap_status := if approved then Approved else Rejected\<rparr> in
            (Inr decided,
             map_option (\<lambda>w. (w, \<lparr>dec_approved = approved, dec_feedback = feedback\<rparr>)) (hm_get i (as_waiters st)),
             st\<lparr>as_items := hm_insert i decided (as_items st), as_waiters := hm_remove i (as_waiters st)\<rparr>)
      | None \<Rightarrow> (Inl (not_found ''approval_not_found'' (''No pending approval '' @ i)), None, st))"

definition await :: "string \<Rightarrow> nat \<Rightarrow> approval_store \<Rightarrow> approval_store" where
  "await i w st = st\<lparr>as_waiters := hm_insert i w (as_waiters st)\<rparr>"

definition forget :: "string \<Rightarrow> approval_store \<Rightarrow> approval_store" where
  "forget i st =
     (let st = st\<lparr>as_waiters := hm_remove i (as_waiters st)\<rparr> in
      case hm_get i (as_items st) of
        Some a \<Rightarrow> if ap_status a = Pending then st\<lparr>as_items := hm_remove i (as_items st)\<rparr> else st
      | None \<Rightarrow> st)"

definition pending :: "nat \<Rightarrow> approval_store \<Rightarrow> (approval list \<times> approval_store) option" where
  "pending now st =
     (case prune (as_items st) now of
        None \<Rightarrow> None
      | Some items \<Rightarrow>
          Some (sort_key ap_expires_ms (filter (\<lambda>a. ap_status a = Pending) (hm_values items)),
                st\<lparr>as_items := items\<rparr>))"

section \<open>Well-formed stores\<close>

definition items_ok :: "(string, approval) hmap \<Rightarrow> bool" where
  "items_ok items \<longleftrightarrow> hm_ok items \<and> (\<forall>(k, a)\<in>set items. ap_id a = k)"

lemma items_ok_get: "items_ok items \<Longrightarrow> hm_get i items = Some a \<Longrightarrow> ap_id a = i"
  by (auto simp: items_ok_def dest: hm_get_set)

lemma items_ok_Nil [simp]: "items_ok []"
  by (simp add: items_ok_def)

lemma items_ok_retain [inv_intros]: "items_ok items \<Longrightarrow> items_ok (hm_retain P items)"
  by (auto simp: items_ok_def)

lemma items_ok_remove [inv_intros]: "items_ok items \<Longrightarrow> items_ok (hm_remove i items)"
  by (auto simp: items_ok_def set_hm_remove)

lemma items_ok_insert [inv_intros]: "items_ok items \<Longrightarrow> ap_id a = i \<Longrightarrow> items_ok (hm_insert i a items)"
  by (auto simp: items_ok_def set_hm_insert)

text \<open>What eviction and pruning leave is a part of the map, never larger than the limit.\<close>

lemma evict_ok:
  assumes "items_ok items"
  shows "\<exists>kept. evict items = Some kept \<and> items_ok kept \<and> length kept < MAX_KEPT \<and>
    (\<forall>i a. hm_get i kept = Some a \<longrightarrow> hm_get i items = Some a) \<and>
    (length items < MAX_KEPT \<longrightarrow> kept = items)"
  using assms
proof (induction "length items" arbitrary: items rule: less_induct)
  case less
  show ?case
  proof (cases "length items < MAX_KEPT")
    case True
    with less.prems show ?thesis by (simp add: evict.simps)
  next
    case False
    then have "hm_values items \<noteq> []" by (auto simp: hm_values_def MAX_KEPT_def)
    then obtain a where a: "min_by_key ap_expires_ms (hm_values items) = Some a"
      by (meson min_by_key_None option.exhaust)
    from min_by_key_Some [OF a] obtain k where "(k, a) \<in> set items" by (auto simp: hm_values_def)
    with less.prems have k: "ap_id a \<in> fst ` set items" by (force simp: items_ok_def)
    from less.hyps [OF length_hm_remove_less [OF k] items_ok_remove [OF less.prems]] obtain kept
      where "evict (hm_remove (ap_id a) items) = Some kept" "items_ok kept" "length kept < MAX_KEPT"
        "\<And>i b. hm_get i kept = Some b \<Longrightarrow> hm_get i (hm_remove (ap_id a) items) = Some b" by blast
    with False a show ?thesis by (subst evict.simps) (simp; metis option.distinct(1))
  qed
qed

lemma prune_ok:
  assumes "items_ok items"
  shows "\<exists>kept. prune items now = Some kept \<and> items_ok kept \<and> length kept < MAX_KEPT \<and>
    (\<forall>i a. hm_get i kept = Some a \<longrightarrow> hm_get i items = Some a \<and> keep_approval now a) \<and>
    (length items < MAX_KEPT \<longrightarrow> kept = hm_retain (\<lambda>_. keep_approval now) items)"
proof -
  let ?r = "hm_retain (\<lambda>_. keep_approval now) items"
  have get: "hm_get i ?r = Some a \<Longrightarrow> hm_get i items = Some a \<and> keep_approval now a" for i a
    using assms by (auto simp: items_ok_def hm_get_retain split: option.splits if_splits)
  have "length ?r \<le> length items" by (rule length_hm_retain_le)
  with evict_ok [OF items_ok_retain [OF assms], of "\<lambda>_. keep_approval now"] get show ?thesis
    unfolding prune_def by fastforce
qed

lemma prune_SomeD:
  assumes "items_ok items" and "prune items now = Some kept"
  shows "items_ok kept" and "length kept < MAX_KEPT"
    and "hm_get i kept = Some a \<Longrightarrow> hm_get i items = Some a \<and> keep_approval now a"
    and "length items < MAX_KEPT \<Longrightarrow> kept = hm_retain (\<lambda>_. keep_approval now) items"
  using prune_ok [OF assms(1), of now] assms(2) by auto

text \<open>Eviction takes the entries that expire first: none that stays expires before one that went.\<close>

lemma evict_oldest:
  assumes "items_ok items" and "evict items = Some kept"
    and "hm_get i items = Some a" and "hm_get i kept = None" and "hm_get j kept = Some b"
  shows "ap_expires_ms a \<le> ap_expires_ms b"
  using assms
proof (induction "length items" arbitrary: items rule: less_induct)
  case less
  show ?case
  proof (cases "length items < MAX_KEPT")
    case True
    with less.prems show ?thesis by (simp add: evict.simps)
  next
    case False
    then have "hm_values items \<noteq> []" by (auto simp: hm_values_def MAX_KEPT_def)
    then obtain o1 where o1: "min_by_key ap_expires_ms (hm_values items) = Some o1"
      by (meson min_by_key_None option.exhaust)
    note least = min_by_key_Some [OF o1]
    from least obtain k where "(k, o1) \<in> set items" by (auto simp: hm_values_def)
    with less.prems(1) have k: "ap_id o1 \<in> fst ` set items" and ko: "hm_get (ap_id o1) items = Some o1"
      by (force simp: items_ok_def, auto simp: items_ok_def hm_get_in_set)
    have ev: "evict (hm_remove (ap_id o1) items) = Some kept"
      using less.prems(2) False o1 by (simp add: evict.simps [of items])
    show ?thesis
    proof (cases "i = ap_id o1")
      case True
      with ko less.prems(3) have "a = o1" by simp
      moreover have "hm_get j items = Some b" using evict_ok [OF less.prems(1)] less.prems(2,5) by auto
      ultimately show ?thesis using least by (force simp: hm_values_def dest: hm_get_set)
    next
      case False
      with less.hyps [OF length_hm_remove_less [OF k] items_ok_remove [OF less.prems(1)] ev] less.prems
      show ?thesis by simp
    qed
  qed
qed

section \<open>Histories of the store\<close>

text \<open>
  One event per operation that changed the store; refused operations and \<open>await\<close> leave the
  approvals as they are. Events carry the clock reading, which need not be monotone.
\<close>

datatype approval_event =
    Requested nat approval
  | Decided nat string bool
  | Consumed nat string string string string
  | Forgot string
  | Awaited string nat
  | Listed nat

inductive approval_step ::
  "(nat \<Rightarrow> string) \<Rightarrow> approval_event list \<Rightarrow> approval_store \<Rightarrow> approval_event \<Rightarrow> approval_store \<Rightarrow> bool"
  for fmt :: "nat \<Rightarrow> string" where
  step_request:
    "request fmt now uid caller method digest target st = Some (a, st') \<Longrightarrow>
     \<forall>t b. Requested t b \<in> set es \<longrightarrow> ap_id b \<noteq> ap_id a \<Longrightarrow>
     approval_step fmt es st (Requested now a) st'"
| step_decide:
    "decide now i approved feedback st = (Inr a, sent, st') \<Longrightarrow>
     approval_step fmt es st (Decided now i approved) st'"
| step_consume:
    "consume now i caller method digest st = (True, st') \<Longrightarrow>
     approval_step fmt es st (Consumed now i caller method digest) st'"
| step_forget: "forget i st = st' \<Longrightarrow> approval_step fmt es st (Forgot i) st'"
| step_await: "await i w st = st' \<Longrightarrow> approval_step fmt es st (Awaited i w) st'"
| step_list: "pending now st = Some (as, st') \<Longrightarrow> approval_step fmt es st (Listed now) st'"

inductive_cases approval_step_cases: "approval_step fmt es st e st'"

definition requested :: "nat \<Rightarrow> approval_event list \<Rightarrow> approval \<Rightarrow> bool" where
  "requested ttl es a \<longleftrightarrow>
     (\<exists>t b. Requested t b \<in> set es \<and> ap_id b = ap_id a \<and> ap_principal b = ap_principal a \<and>
        ap_method b = ap_method a \<and> ap_digest b = ap_digest a \<and> ap_expires_ms a = t + ttl)"

definition decided_as :: "bool \<Rightarrow> string \<Rightarrow> approval_event list \<Rightarrow> bool" where
  "decided_as b i es \<longleftrightarrow> (\<exists>t. Decided t i b \<in> set es)"

definition consumed :: "string \<Rightarrow> approval_event list \<Rightarrow> bool" where
  "consumed i es \<longleftrightarrow> (\<exists>t p m d. Consumed t i p m d \<in> set es)"

definition known :: "string \<Rightarrow> approval_event list \<Rightarrow> bool" where
  "known i es \<longleftrightarrow> (\<exists>t a. Requested t a \<in> set es \<and> ap_id a = i)"

text \<open>The status of an entry tells what has happened to its approval so far.\<close>

fun status_tells :: "status \<Rightarrow> string \<Rightarrow> approval_event list \<Rightarrow> bool" where
  "status_tells Pending i es \<longleftrightarrow> \<not> decided_as True i es \<and> \<not> decided_as False i es \<and> \<not> consumed i es"
| "status_tells Approved i es \<longleftrightarrow> decided_as True i es \<and> \<not> decided_as False i es \<and> \<not> consumed i es"
| "status_tells Rejected i es \<longleftrightarrow> decided_as False i es \<and> \<not> decided_as True i es \<and> \<not> consumed i es"
| "status_tells Used i es \<longleftrightarrow> decided_as True i es \<and> \<not> decided_as False i es \<and> consumed i es"

definition approval_inv :: "nat \<Rightarrow> approval_event list \<Rightarrow> approval_store \<Rightarrow> bool" where
  "approval_inv ttl es st \<longleftrightarrow>
     as_ttl st = ttl \<and> items_ok (as_items st) \<and> length (as_items st) \<le> MAX_KEPT \<and>
     (\<forall>i. decided_as True i es \<or> decided_as False i es \<or> consumed i es \<longrightarrow> known i es) \<and>
     (\<forall>i a. hm_get i (as_items st) = Some a \<longrightarrow> requested ttl es a \<and> status_tells (ap_status a) i es)"

lemmas event_defs = requested_def decided_as_def consumed_def known_def

lemma status_tells_cong:
  "decided_as True i es = decided_as True i es' \<Longrightarrow> decided_as False i es = decided_as False i es' \<Longrightarrow>
   consumed i es = consumed i es' \<Longrightarrow> status_tells st i es = status_tells st i es'"
  by (cases st) auto

lemma event_Cons [simp]:
  "decided_as b i (Decided t j c # es) \<longleftrightarrow> (i = j \<and> b = c) \<or> decided_as b i es"
  "decided_as b i (Consumed t j p m d # es) \<longleftrightarrow> decided_as b i es"
  "decided_as b i (Requested t a # es) \<longleftrightarrow> decided_as b i es"
  "decided_as b i (Forgot j # es) \<longleftrightarrow> decided_as b i es"
  "decided_as b i (Awaited j w # es) \<longleftrightarrow> decided_as b i es"
  "decided_as b i (Listed t # es) \<longleftrightarrow> decided_as b i es"
  "consumed i (Decided t j c # es) \<longleftrightarrow> consumed i es"
  "consumed i (Consumed t j p m d # es) \<longleftrightarrow> i = j \<or> consumed i es"
  "consumed i (Requested t a # es) \<longleftrightarrow> consumed i es"
  "consumed i (Forgot j # es) \<longleftrightarrow> consumed i es"
  "consumed i (Awaited j w # es) \<longleftrightarrow> consumed i es"
  "consumed i (Listed t # es) \<longleftrightarrow> consumed i es"
  "known i (Requested t a # es) \<longleftrightarrow> ap_id a = i \<or> known i es"
  "known i (Decided t j c # es) \<longleftrightarrow> known i es"
  "known i (Consumed t j p m d # es) \<longleftrightarrow> known i es"
  "known i (Forgot j # es) \<longleftrightarrow> known i es"
  "known i (Awaited j w # es) \<longleftrightarrow> known i es"
  "known i (Listed t # es) \<longleftrightarrow> known i es"
  by (auto simp: event_defs)

lemma requested_Cons: "requested ttl es a \<Longrightarrow> requested ttl (e # es) a"
  by (auto simp: requested_def)

lemma requested_new: "ap_expires_ms a = t + ttl \<Longrightarrow> requested ttl (Requested t a # es) a"
  unfolding requested_def by (rule exI [of _ t], rule exI [of _ a]) simp

lemma requested_status [simp]: "requested ttl es (a\<lparr>ap_status := s\<rparr>) = requested ttl es a"
  by (simp add: requested_def)

lemma requested_known: "requested ttl es a \<Longrightarrow> known (ap_id a) es"
  by (auto simp: requested_def known_def)

section \<open>The invariant along every run\<close>

lemma inv_new [inv_intros]: "approval_inv ttl [] (new_store ttl)"
  by (simp add: approval_inv_def new_store_def event_defs)

lemma inv_known:
  assumes "approval_inv ttl es st"
  shows "decided_as b i es \<Longrightarrow> known i es" and "consumed i es \<Longrightarrow> known i es"
  using assms by (cases b; auto simp: approval_inv_def)+

lemma inv_get:
  "approval_inv ttl es st \<Longrightarrow> hm_get i (as_items st) = Some a \<Longrightarrow>
     ap_id a = i \<and> requested ttl es a \<and> status_tells (ap_status a) i es"
  by (auto simp: approval_inv_def dest: items_ok_get)

lemma approval_invI:
  assumes "as_ttl st = ttl" and "items_ok (as_items st)" and "length (as_items st) \<le> MAX_KEPT"
    and "\<And>b i. decided_as b i es \<Longrightarrow> known i es" and "\<And>i. consumed i es \<Longrightarrow> known i es"
    and "\<And>i a. hm_get i (as_items st) = Some a \<Longrightarrow> requested ttl es a"
    and "\<And>i a. hm_get i (as_items st) = Some a \<Longrightarrow> status_tells (ap_status a) i es"
  shows "approval_inv ttl es st"
  using assms unfolding approval_inv_def by blast

lemma inv_parts:
  assumes "approval_inv ttl es st"
  shows "as_ttl st = ttl" and "items_ok (as_items st)" and "length (as_items st) \<le> MAX_KEPT"
  using assms by (simp_all add: approval_inv_def)

lemma inv_part:
  assumes "approval_inv ttl es st" and "items_ok kept" and "length kept \<le> MAX_KEPT"
    and "\<And>i a. hm_get i kept = Some a \<Longrightarrow> hm_get i (as_items st) = Some a"
    and "\<And>b i. decided_as b i (e # es) = decided_as b i es" and "\<And>i. consumed i (e # es) = consumed i es"
    and "\<And>i. known i (e # es) = known i es" and "as_items st' = kept" and "as_ttl st' = as_ttl st"
  shows "approval_inv ttl (e # es) st'"
proof (rule approval_invI)
  fix i a
  assume "hm_get i (as_items st') = Some a"
  with assms(4,8) have "hm_get i (as_items st) = Some a" by simp
  from inv_get [OF assms(1) this] show "requested ttl (e # es) a" "status_tells (ap_status a) i (e # es)"
    by (auto simp: requested_Cons status_tells_cong [where es = "e # es" and es' = es] assms(5,6))
qed (use assms inv_parts [OF assms(1)] inv_known [OF assms(1)] in auto)

lemma length_prune_insert:
  "items_ok items \<Longrightarrow> prune items now = Some kept \<Longrightarrow> length (hm_insert i a kept) \<le> MAX_KEPT"
  using length_hm_insert_le [of i a kept] prune_SomeD(2) [of items now kept] by simp

lemma inv_request [inv_intros]:
  assumes inv: "approval_inv ttl es st"
    and req: "request fmt now uid caller method digest target st = Some (a, st')"
    and fresh: "\<forall>t b. Requested t b \<in> set es \<longrightarrow> ap_id b \<noteq> ap_id a"
  shows "approval_inv ttl (Requested now a # es) st'"
proof -
  from inv have ok: "items_ok (as_items st)" "as_ttl st = ttl" by (simp_all add: approval_inv_def)
  from req obtain kept where kept: "prune (as_items st) now = Some kept"
    and a: "a = fresh_approval fmt ttl now uid caller method digest target"
    and st': "st' = st\<lparr>as_items := hm_insert (ap_id a) a kept\<rparr>"
    by (auto simp: request_def Let_def ok split: option.splits)
  note p = prune_SomeD [OF ok(1) kept]
  have new: "\<not> known (ap_id a) es" using fresh by (auto simp: known_def)
  have old: "hm_get i (as_items st) = Some b" if "hm_get i kept = Some b" for i b
    using p(3) [OF that] by simp
  let ?es = "Requested now a # es"
  show ?thesis
  proof (rule approval_invI)
    fix i b
    assume "hm_get i (as_items st') = Some b"
    then have b: "i = ap_id a \<and> b = a \<or> i \<noteq> ap_id a \<and> hm_get i kept = Some b"
      by (simp add: st' split: if_splits)
    have "requested ttl ?es a" by (rule requested_new) (simp add: a fresh_approval_def)
    with b inv_get [OF inv old, of i b] show "requested ttl ?es b" by (auto intro: requested_Cons)
    have "\<not> decided_as c (ap_id a) es \<and> \<not> consumed (ap_id a) es" for c
      using new inv_known [OF inv] by blast
    then have "status_tells (ap_status a) (ap_id a) ?es" by (simp add: a fresh_approval_def)
    moreover have "status_tells s i ?es = status_tells s i es" for s
      by (intro status_tells_cong) simp_all
    ultimately show "status_tells (ap_status b) i ?es"
      using b inv_get [OF inv old, of i b] by metis
  qed (use inv_known [OF inv] in \<open>auto simp: st' ok items_ok_insert [OF p(1)] length_prune_insert [OF ok(1) kept]\<close>)
qed

lemma inv_decide [inv_intros]:
  assumes inv: "approval_inv ttl es st" and dec: "decide now i b fb st = (Inr a, sent, st')"
  shows "approval_inv ttl (Decided now i b # es) st'"
proof -
  from dec obtain a0 where a0: "hm_get i (as_items st) = Some a0" "ap_status a0 = Pending"
    and st': "as_items st' = hm_insert i (a0\<lparr>ap_status := if b then Approved else Rejected\<rparr>) (as_items st)"
      "as_ttl st' = as_ttl st"
    by (auto simp: decide_def Let_def split: option.splits if_splits)
  have id: "ap_id a0 = i" and rq: "requested ttl es a0" and un: "status_tells Pending i es"
    using inv_get [OF inv a0(1)] a0(2) by auto
  let ?es = "Decided now i b # es"
  have other: "status_tells s j ?es = status_tells s j es" if "j \<noteq> i" for s j
    using that by (intro status_tells_cong) auto
  show ?thesis
  proof (rule approval_invI)
    fix j c
    assume "hm_get j (as_items st') = Some c"
    then have c: "j = i \<and> c = a0\<lparr>ap_status := if b then Approved else Rejected\<rparr> \<or> j \<noteq> i \<and> hm_get j (as_items st) = Some c"
      by (simp add: st' split: if_splits)
    with rq inv_get [OF inv, of j c] show "requested ttl ?es c" by (auto intro: requested_Cons)
    from c un other inv_get [OF inv, of j c] show "status_tells (ap_status c) j ?es" by auto
  qed (use inv_parts [OF inv] inv_known [OF inv] requested_known [OF rq] id a0 in
       \<open>auto simp: st' length_hm_insert_present intro!: inv_intros\<close>)
qed

lemma inv_consume [inv_intros]:
  assumes inv: "approval_inv ttl es st" and con: "consume now i p m d st = (True, st')"
  shows "approval_inv ttl (Consumed now i p m d # es) st'"
proof -
  from con obtain a0 where a0: "hm_get i (as_items st) = Some a0" "ap_status a0 = Approved"
    and st': "st' = st\<lparr>as_items := hm_insert i (a0\<lparr>ap_status := Used\<rparr>) (as_items st)\<rparr>"
    by (auto simp: consume_def usable_def split: option.splits if_splits)
  have id: "ap_id a0 = i" and rq: "requested ttl es a0" and un: "status_tells Approved i es"
    using inv_get [OF inv a0(1)] a0(2) by auto
  let ?es = "Consumed now i p m d # es"
  have other: "status_tells s j ?es = status_tells s j es" if "j \<noteq> i" for s j
    using that by (intro status_tells_cong) auto
  show ?thesis
  proof (rule approval_invI)
    fix j c
    assume "hm_get j (as_items st') = Some c"
    then have c: "j = i \<and> c = a0\<lparr>ap_status := Used\<rparr> \<or> j \<noteq> i \<and> hm_get j (as_items st) = Some c"
      by (simp add: st' split: if_splits)
    with rq inv_get [OF inv, of j c] show "requested ttl ?es c" by (auto intro: requested_Cons)
    from c un other inv_get [OF inv, of j c] show "status_tells (ap_status c) j ?es" by auto
  qed (use inv_parts [OF inv] inv_known [OF inv] requested_known [OF rq] id a0 in
       \<open>auto simp: st' length_hm_insert_present intro!: inv_intros\<close>)
qed

lemma inv_forget [inv_intros]:
  assumes inv: "approval_inv ttl es st"
  shows "approval_inv ttl (Forgot i # es) (forget i st)"
proof (rule inv_part [OF inv])
  have ok: "items_ok (as_items st)" and le: "length (as_items st) \<le> MAX_KEPT"
    using inv by (simp_all add: approval_inv_def)
  show "items_ok (as_items (forget i st))"
    using ok by (auto simp: forget_def Let_def intro: inv_intros split: option.splits)
  show "length (as_items (forget i st)) \<le> MAX_KEPT"
    using le length_hm_remove_le [of i "as_items st"] by (auto simp: forget_def Let_def split: option.splits)
qed (auto simp: forget_def Let_def split: option.splits if_splits)

lemma inv_list [inv_intros]:
  assumes inv: "approval_inv ttl es st" and "pending now st = Some (as, st')"
  shows "approval_inv ttl (Listed now # es) st'"
proof -
  have ok: "items_ok (as_items st)" using inv by (simp add: approval_inv_def)
  from assms(2) obtain kept where kept: "prune (as_items st) now = Some kept"
    and st': "st' = st\<lparr>as_items := kept\<rparr>"
    by (auto simp: pending_def split: option.splits)
  from prune_SomeD [OF ok kept] show ?thesis
    by (intro inv_part [OF inv, where kept = kept]) (auto simp: st')
qed

lemma inv_await [inv_intros]: "approval_inv ttl es st \<Longrightarrow> approval_inv ttl (Awaited i w # es) (await i w st)"
  by (rule inv_part) (auto simp: await_def approval_inv_def)

lemma inv_approval_step: "approval_inv ttl es st \<Longrightarrow> approval_step fmt es st e st' \<Longrightarrow> approval_inv ttl (e # es) st'"
  by (erule approval_step_cases) (auto intro: inv_intros)

interpretation approvals: invariant_system "approval_step fmt" "\<lambda>st. st = new_store ttl" "approval_inv ttl"
  for fmt ttl
  by unfold_locales (auto intro: inv_approval_step inv_intros)

section \<open>Properties\<close>

lemma consume_event:
  assumes "approval_inv ttl es st" and "approval_step fmt es st (Consumed t i p m d) st'"
  shows "(\<exists>t0 a. Requested t0 a \<in> set es \<and> ap_id a = i \<and> ap_principal a = p \<and> ap_method a = m \<and>
      ap_digest a = d \<and> t < t0 + ttl) \<and> decided_as True i es \<and> \<not> decided_as False i es \<and> \<not> consumed i es"
proof -
  from assms(2) have "consume t i p m d st = (True, st')" by (auto elim: approval_step_cases)
  then obtain a where a: "hm_get i (as_items st) = Some a" "usable t p m d a"
    by (auto simp: consume_def split: option.splits if_splits)
  with inv_get [OF assms(1) a(1)] show ?thesis
    by (fastforce simp: usable_def requested_def)
qed

text \<open>
  C1. Along every run of the store, whatever the clock does: a call let through by \<open>consume\<close> was
  asked for earlier with the same principal, method and params digest, less than the time to live
  ago; the owner said yes to it earlier and never said no; and it was not let through before.
\<close>

theorem approval_is_for_one_exact_call:
  assumes "runs (approval_step fmt) (new_store ttl) (newer @ Consumed t i p m d # es) st"
  shows "(\<exists>t0 a. Requested t0 a \<in> set es \<and> ap_id a = i \<and> ap_principal a = p \<and> ap_method a = m \<and>
      ap_digest a = d \<and> t < t0 + ttl) \<and>
    (\<exists>t1. Decided t1 i True \<in> set es) \<and> (\<forall>t1. Decided t1 i False \<notin> set es) \<and>
    (\<forall>t1 p1 m1 d1. Consumed t1 i p1 m1 d1 \<notin> set es)"
proof -
  from approvals.step_before [OF refl assms] obtain s s'
    where "approval_inv ttl es s" "approval_step fmt es s (Consumed t i p m d) s'" by blast
  from consume_event [OF this] show ?thesis by (auto simp: decided_as_def consumed_def)
qed

text \<open>The approval of a first run: asked for at 0, granted at 1, used at 2.\<close>

abbreviation (input) demo_approval :: approval where
  "demo_approval \<equiv> fresh_approval nat_text 10 0 ''1'' ''ext'' ''fs.write'' ''digest'' ''/x''"

abbreviation (input) demo_store :: "status \<Rightarrow> approval_store" where
  "demo_store s \<equiv> \<lparr>as_ttl = 10, as_items = [(''ap_1'', demo_approval\<lparr>ap_status := s\<rparr>)], as_waiters = []\<rparr>"

lemma demo_request:
  "request nat_text 0 ''1'' ''ext'' ''fs.write'' ''digest'' ''/x'' (new_store 10) = Some (demo_approval, demo_store Pending)"
  by (simp add: request_def Let_def prune_def evict.simps MAX_KEPT_def new_store_def hm_retain_def hm_insert_def
      fresh_approval_def)

lemma demo_decide:
  "decide 1 ''ap_1'' True None (demo_store Pending) = (Inr (demo_approval\<lparr>ap_status := Approved\<rparr>), None, demo_store Approved)"
  by (simp add: decide_def Let_def hm_get_def fresh_approval_def hm_insert_def hm_remove_def)

lemma demo_consume:
  "consume 2 ''ap_1'' ''ext'' ''fs.write'' ''digest'' (demo_store Approved) = (True, demo_store Used)"
  by (simp add: consume_def usable_def hm_get_def fresh_approval_def hm_insert_def)

lemma demo_run:
  "runs (approval_step nat_text) (new_store 10)
     ([] @ Consumed 2 ''ap_1'' ''ext'' ''fs.write'' ''digest'' # [Decided 1 ''ap_1'' True, Requested 0 demo_approval])
     (demo_store Used)"
proof -
  have "runs (approval_step nat_text) (new_store 10) [Requested 0 demo_approval] (demo_store Pending)"
    by (rule runs_step, rule runs_start, rule step_request [OF demo_request]) simp
  then have "runs (approval_step nat_text) (new_store 10) [Decided 1 ''ap_1'' True, Requested 0 demo_approval] (demo_store Approved)"
    by (rule runs_step) (rule step_decide [OF demo_decide])
  then have "runs (approval_step nat_text) (new_store 10)
      (Consumed 2 ''ap_1'' ''ext'' ''fs.write'' ''digest'' # [Decided 1 ''ap_1'' True, Requested 0 demo_approval]) (demo_store Used)"
    by (rule runs_step) (rule step_consume [OF demo_consume])
  then show ?thesis by simp
qed

lemma approval_is_for_one_exact_call_witness:
  "\<exists>t1. Decided t1 ''ap_1'' True \<in> set [Decided 1 ''ap_1'' True, Requested 0 demo_approval]"
  using approval_is_for_one_exact_call [OF demo_run] by blast

text \<open>
  The whole life of an approval: what \<open>request\<close> returned, decided with yes and then no other
  answer before it expires, lets exactly the call with the same principal, method and digest
  through, once; decided with no, it lets nothing through. A registered waiter is sent the answer.
\<close>

theorem approval_life:
  assumes "items_ok (as_items st)" and "request fmt t uid p m d target st = Some (a, st1)"
    and "t1 < t + as_ttl st" and "t2 < t + as_ttl st"
  shows "\<exists>a' sent st2. decide t1 (ap_id a) yes feedback (await (ap_id a) w st1) = (Inr a', sent, st2) \<and>
    sent = Some (w, \<lparr>dec_approved = yes, dec_feedback = feedback\<rparr>) \<and>
    fst (consume t2 (ap_id a) p' m' d' st2) = (yes \<and> p' = p \<and> m' = m \<and> d' = d) \<and>
    fst (consume t2 (ap_id a) p m d (snd (consume t2 (ap_id a) p m d st2))) = False \<and>
    (\<exists>e. fst (decide t2 (ap_id a) again feedback' st2) = Inl e \<and> error_kind e = Some ''approval_decided'')"
proof -
  from assms(2) obtain kept where a: "a = fresh_approval fmt (as_ttl st) t uid p m d target"
    and st1: "st1 = st\<lparr>as_items := hm_insert (ap_id a) a kept\<rparr>"
    by (auto simp: request_def Let_def split: option.splits)
  show ?thesis
    using assms(3,4)
    by (cases yes) (auto simp: st1 await_def decide_def Let_def consume_def usable_def a fresh_approval_def)
qed

lemma approval_life_witness:
  "\<exists>a' sent st2. decide 1 ''ap_1'' True None (await ''ap_1'' 7 (demo_store Pending)) = (Inr a', sent, st2) \<and>
     fst (consume 2 ''ap_1'' ''ext'' ''fs.write'' ''digest'' st2)"
  using approval_life [OF _ demo_request, of 1 2 True None 7 "''ext''" "''fs.write''" "''digest''"]
  by (fastforce simp: new_store_def fresh_approval_def)



text \<open>
  C30. The digest is of the value, not of the order its keys were written in: two params have one
  digest when they are equal up to the order of object members, at every depth, and otherwise only
  when SHA-256 maps two different texts to one digest.
\<close>

theorem params_digest_of_value:
  assumes "scalar_printer tx" and "jwf v" and "jwf w"
  shows "params_digest sha tx v = params_digest sha tx w \<longleftrightarrow>
    norm_keys v = norm_keys w \<or>
    (canonical tx v \<noteq> canonical tx w \<and> sha (canonical tx v) = sha (canonical tx w))"
  using canonical_inj [OF assms] by (auto simp: params_digest_def)

lemma params_digest_of_value_witness:
  "params_digest id scalar_text (JObj [(''a'', JNum ''1''), (''b'', JArr [JNull])]) =
   params_digest id scalar_text (JObj [(''b'', JArr [JNull]), (''a'', JNum ''1'')])"
  by (subst params_digest_of_value [OF scalar_printer_text]) (simp_all add: num_text_def num_char_def)

end
