(* ===== verification/Cep_Task.thy ===== *)
theory Cep_Task
  imports Cep_Principal
begin

text \<open>
  cep/src/task.rs: tasks for long work, owned by the principal that started them. The store keeps
  the tasks by id and, beside them, the cancel flags (the \<open>Arc<AtomicBool>\<close> a task shares with the
  handle its work holds, which outlives the task's entry). The spawned future is not code of the
  store: its end is the operation \<open>finish\<close>, called once with the outcome of the work.
\<close>

definition MAX_EVENTS :: nat where "MAX_EVENTS = 1000"
definition POLL_MS :: nat where "POLL_MS = 500"
definition MAX_WAIT_MS :: nat where "MAX_WAIT_MS = 30000"

datatype task_status = Working | InputRequired | Completed | Failed | Cancelled

fun is_terminal :: "task_status \<Rightarrow> bool" where
  "is_terminal Working = False"
| "is_terminal InputRequired = False"
| "is_terminal Completed = True"
| "is_terminal Failed = True"
| "is_terminal Cancelled = True"

fun task_status_name :: "task_status \<Rightarrow> string" where
  "task_status_name Working = ''working''"
| "task_status_name InputRequired = ''input_required''"
| "task_status_name Completed = ''completed''"
| "task_status_name Failed = ''failed''"
| "task_status_name Cancelled = ''cancelled''"

record progress =
  pg_done :: nat
  pg_total :: "nat option"
  pg_unit :: "string option"
  pg_message :: "string option"

type_synonym outcome = "cep_error + json"

record task =
  tk_principal :: string
  tk_method :: string
  tk_status :: task_status
  tk_message :: "string option"
  tk_created :: nat
  tk_updated :: nat
  tk_ttl :: nat
  tk_progress :: "progress option"
  tk_events :: "(nat \<times> json) list"
  tk_next :: nat
  tk_outcome :: "outcome option"
  tk_finished :: bool

record task_store =
  ts_max_running :: nat
  ts_default_ttl :: nat
  ts_max_ttl :: nat
  ts_tasks :: "(string, task) hmap"
  ts_cancel :: "(string, bool) hmap"

section \<open>Views\<close>

definition opt_member :: "string \<Rightarrow> json option \<Rightarrow> (string \<times> json) list" where
  "opt_member k v = (case v of None \<Rightarrow> [] | Some x \<Rightarrow> [(k, x)])"

definition progress_json :: "progress \<Rightarrow> json" where
  "progress_json p = JObj ([(''done'', json_nat (pg_done p))]
     @ opt_member ''total'' (map_option json_nat (pg_total p))
     @ opt_member ''unit'' (map_option JStr (pg_unit p))
     @ opt_member ''message'' (map_option JStr (pg_message p)))"

definition events_after :: "nat \<Rightarrow> task \<Rightarrow> json list" where
  "events_after after t = map snd (filter (\<lambda>(q, _). q > after) (tk_events t))"

definition view :: "(nat \<Rightarrow> string) \<Rightarrow> string \<Rightarrow> nat option \<Rightarrow> task \<Rightarrow> json" where
  "view fmt i after t = JObj (
     [(''task_id'', JStr i), (''method'', JStr (tk_method t)),
      (''status'', JStr (task_status_name (tk_status t))),
      (''created_at'', JStr (fmt (tk_created t))), (''last_updated_at'', JStr (fmt (tk_updated t))),
      (''ttl_ms'', json_nat (tk_ttl t)), (''poll_ms'', json_nat POLL_MS)]
     @ opt_member ''status_message'' (map_option JStr (tk_message t))
     @ opt_member ''progress'' (map_option progress_json (tk_progress t))
     @ (case after of None \<Rightarrow> []
        | Some a \<Rightarrow> [(''events'', JArr (events_after a t)), (''next'', json_nat (tk_next t - 1))]))"

section \<open>Operations\<close>

definition new_task_store :: "nat \<Rightarrow> nat \<Rightarrow> nat \<Rightarrow> task_store" where
  "new_task_store max_running default_ttl max_ttl =
     \<lparr>ts_max_running = max_running, ts_default_ttl = default_ttl, ts_max_ttl = max_ttl, ts_tasks = [], ts_cancel = []\<rparr>"

definition unexpired :: "nat \<Rightarrow> task \<Rightarrow> bool" where
  "unexpired now t \<longleftrightarrow> tk_created t + tk_ttl t > now"

definition running :: "string \<Rightarrow> (string, task) hmap \<Rightarrow> nat" where
  "running who tasks = length (filter (\<lambda>t. tk_principal t = who \<and> \<not> is_terminal (tk_status t)) (hm_values tasks))"

definition new_task :: "task_store \<Rightarrow> nat \<Rightarrow> string \<Rightarrow> string \<Rightarrow> nat option \<Rightarrow> task" where
  "new_task st now who meth ttl =
     \<lparr>tk_principal = who, tk_method = meth, tk_status = Working, tk_message = None,
      tk_created = now, tk_updated = now,
      tk_ttl = min (case ttl of None \<Rightarrow> ts_default_ttl st | Some n \<Rightarrow> n) (ts_max_ttl st),
      tk_progress = None, tk_events = [], tk_next = 1, tk_outcome = None, tk_finished = False\<rparr>"

definition task_start ::
  "(nat \<Rightarrow> string) \<Rightarrow> nat \<Rightarrow> string \<Rightarrow> string \<Rightarrow> string \<Rightarrow> nat option \<Rightarrow> task_store \<Rightarrow> outcome \<times> task_store" where
  "task_start fmt now uid who meth ttl st =
     (let i = ''t_'' @ uid; tasks = hm_retain (\<lambda>_. unexpired now) (ts_tasks st); n = running who tasks in
      if n \<ge> ts_max_running st
      then (Inl (conflict ''too_many_tasks'' (nat_text n @ '' tasks are already running'')), st\<lparr>ts_tasks := tasks\<rparr>)
      else let t = new_task st now who meth ttl in
        (Inr (view fmt i None t),
         st\<lparr>ts_tasks := hm_insert i t tasks, ts_cancel := hm_insert i False (ts_cancel st)\<rparr>))"

definition update_task :: "nat \<Rightarrow> string \<Rightarrow> (task \<Rightarrow> task) \<Rightarrow> task_store \<Rightarrow> task_store" where
  "update_task now i change st =
     (case hm_get i (ts_tasks st) of
        None \<Rightarrow> st
      | Some t \<Rightarrow> st\<lparr>ts_tasks := hm_insert i (change t \<lparr>tk_updated := now\<rparr>) (ts_tasks st)\<rparr>)"

definition report_progress :: "nat \<Rightarrow> string \<Rightarrow> progress \<Rightarrow> task_store \<Rightarrow> task_store" where
  "report_progress now i p = update_task now i (\<lambda>t. t\<lparr>tk_progress := Some p\<rparr>)"

definition push_event :: "json \<Rightarrow> task \<Rightarrow> task" where
  "push_event ev t =
     (let evs = tk_events t @ [(tk_next t, ev)] in
      t\<lparr>tk_events := (if length evs > MAX_EVENTS then tl evs else evs), tk_next := tk_next t + 1\<rparr>)"

definition report_event :: "nat \<Rightarrow> string \<Rightarrow> json \<Rightarrow> task_store \<Rightarrow> task_store" where
  "report_event now i ev = update_task now i (push_event ev)"

definition is_cancelled :: "string \<Rightarrow> task_store \<Rightarrow> bool" where
  "is_cancelled i st = (hm_get i (ts_cancel st) = Some True)"

definition end_task :: "outcome \<Rightarrow> task \<Rightarrow> task" where
  "end_task out t =
     (let t = (if tk_status t \<noteq> Cancelled
        then t\<lparr>tk_status := (case out of Inr _ \<Rightarrow> Completed | Inl _ \<Rightarrow> Failed),
               tk_message := (case out of Inl e \<Rightarrow> Some (err_message e) | Inr _ \<Rightarrow> tk_message t),
               tk_outcome := Some out\<rparr>
        else t)
      in t\<lparr>tk_finished := True\<rparr>)"

definition finish :: "nat \<Rightarrow> string \<Rightarrow> outcome \<Rightarrow> task_store \<Rightarrow> task_store" where
  "finish now i out = update_task now i (end_task out)"

definition owned :: "nat \<Rightarrow> string \<Rightarrow> string \<Rightarrow> task_store \<Rightarrow> cep_error + task" where
  "owned now who i st =
     (case hm_get i (ts_tasks st) of
        Some t \<Rightarrow> if tk_principal t = who \<and> unexpired now t then Inr t
                  else Inl (not_found ''task_not_found'' (''No task '' @ i))
      | None \<Rightarrow> Inl (not_found ''task_not_found'' (''No task '' @ i)))"

definition get_task :: "(nat \<Rightarrow> string) \<Rightarrow> nat \<Rightarrow> string \<Rightarrow> string \<Rightarrow> nat option \<Rightarrow> task_store \<Rightarrow> outcome" where
  "get_task fmt now who i after st =
     (case owned now who i st of
        Inl e \<Rightarrow> Inl e
      | Inr t \<Rightarrow> Inr (view fmt i (Some (case after of None \<Rightarrow> 0 | Some a \<Rightarrow> a)) t))"

definition wait_time :: "nat \<Rightarrow> nat" where
  "wait_time wait_ms = min wait_ms MAX_WAIT_MS"

text \<open>\<open>result\<close> looks at the store twice: at \<open>st\<close> before it waits (\<open>None\<close> means that it waits) and,
  up to \<open>wait_time\<close> later, at \<open>st'\<close>.\<close>

definition result_now :: "nat \<Rightarrow> string \<Rightarrow> string \<Rightarrow> task_store \<Rightarrow> outcome option" where
  "result_now now who i st =
     (case owned now who i st of
        Inl e \<Rightarrow> Some (Inl e)
      | Inr t \<Rightarrow> if tk_status t = Cancelled then Some (Inl cancelled_error) else tk_outcome t)"

definition result_later :: "nat \<Rightarrow> string \<Rightarrow> string \<Rightarrow> task_store \<Rightarrow> outcome" where
  "result_later now who i st =
     (case owned now who i st of
        Inl e \<Rightarrow> Inl e
      | Inr t \<Rightarrow>
          if tk_status t = Cancelled then Inl cancelled_error
          else (case tk_outcome t of
                  Some out \<Rightarrow> out
                | None \<Rightarrow> Inl (timeout_error (''Task '' @ i @ '' is still running''))))"

definition task_result :: "nat \<Rightarrow> task_store \<Rightarrow> nat \<Rightarrow> task_store \<Rightarrow> string \<Rightarrow> string \<Rightarrow> outcome" where
  "task_result now st now' st' who i =
     (case result_now now who i st of Some out \<Rightarrow> out | None \<Rightarrow> result_later now' who i st')"

definition cancel_change :: "task \<Rightarrow> task" where
  "cancel_change t = t\<lparr>tk_status := Cancelled, tk_message := Some ''Cancelled by request'', tk_finished := True\<rparr>"

definition cancel_task :: "(nat \<Rightarrow> string) \<Rightarrow> nat \<Rightarrow> string \<Rightarrow> string \<Rightarrow> task_store \<Rightarrow> outcome \<times> task_store" where
  "cancel_task fmt now who i st =
     (case owned now who i st of
        Inl e \<Rightarrow> (Inl e, st)
      | Inr t \<Rightarrow>
          if is_terminal (tk_status t)
          then (Inl (invalid_params (''Task '' @ i @ '' has already ended'') [] None), st)
          else let t' = cancel_change t \<lparr>tk_updated := now\<rparr> in
            (Inr (view fmt i None t'),
             st\<lparr>ts_tasks := hm_insert i t' (ts_tasks st), ts_cancel := hm_insert i True (ts_cancel st)\<rparr>))"

definition list_tasks :: "(nat \<Rightarrow> string) \<Rightarrow> nat \<Rightarrow> string \<Rightarrow> task_store \<Rightarrow> json list" where
  "list_tasks fmt now who st =
     map (\<lambda>(i, t). view fmt i None t)
       (sort_key (\<lambda>(_, t). - int (tk_created t))
         (filter (\<lambda>(_, t). tk_principal t = who \<and> unexpired now t) (ts_tasks st)))"

section \<open>Histories of the store\<close>

text \<open>
  The events of a run: a start that was let through or refused (a refused one drops expired tasks),
  what the work of a task reports through its handle, its end, and a cancel. The handle exists
  from the start on, also when the entry is gone; the work ends once.
\<close>

datatype task_event =
    Started nat string string
  | Refused nat string
  | Progressed nat string progress
  | Emitted nat string json
  | Ended nat string outcome
  | CancelledBy nat string string

definition started :: "string \<Rightarrow> task_event list \<Rightarrow> bool" where
  "started i es \<longleftrightarrow> (\<exists>t who. Started t who i \<in> set es)"

definition ended :: "string \<Rightarrow> task_event list \<Rightarrow> bool" where
  "ended i es \<longleftrightarrow> (\<exists>t out. Ended t i out \<in> set es)"

definition cancelled_in :: "string \<Rightarrow> task_event list \<Rightarrow> bool" where
  "cancelled_in i es \<longleftrightarrow> (\<exists>t who. CancelledBy t who i \<in> set es)"

fun emitted :: "string \<Rightarrow> task_event list \<Rightarrow> json list" where
  "emitted i [] = []"
| "emitted i (Emitted t j ev # es) = (if j = i then emitted i es @ [ev] else emitted i es)"
| "emitted i (_ # es) = emitted i es"

inductive task_step ::
  "(nat \<Rightarrow> string) \<Rightarrow> task_event list \<Rightarrow> task_store \<Rightarrow> task_event \<Rightarrow> task_store \<Rightarrow> bool"
  for fmt :: "nat \<Rightarrow> string" where
  task_step_start:
    "task_start fmt now uid who meth ttl st = (Inr v, st') \<Longrightarrow> i = ''t_'' @ uid \<Longrightarrow> \<not> started i es \<Longrightarrow>
     task_step fmt es st (Started now who i) st'"
| task_step_refuse:
    "task_start fmt now uid who meth ttl st = (Inl e, st') \<Longrightarrow> task_step fmt es st (Refused now who) st'"
| task_step_progress:
    "started i es \<Longrightarrow> report_progress now i p st = st' \<Longrightarrow> task_step fmt es st (Progressed now i p) st'"
| task_step_event:
    "started i es \<Longrightarrow> report_event now i ev st = st' \<Longrightarrow> task_step fmt es st (Emitted now i ev) st'"
| task_step_end:
    "started i es \<Longrightarrow> \<not> ended i es \<Longrightarrow> finish now i out st = st' \<Longrightarrow> task_step fmt es st (Ended now i out) st'"
| task_step_cancel:
    "cancel_task fmt now who i st = (Inr v, st') \<Longrightarrow> task_step fmt es st (CancelledBy now who i) st'"

inductive_cases task_step_cases: "task_step fmt es st e st'"

lemma started_Cons [simp]:
  "started i (e # es) \<longleftrightarrow> (case e of Started t who j \<Rightarrow> i = j | _ \<Rightarrow> False) \<or> started i es"
  by (cases e) (auto simp: started_def)

lemma cancelled_in_Cons [simp]:
  "cancelled_in i (e # es) \<longleftrightarrow> (case e of CancelledBy t who j \<Rightarrow> i = j | _ \<Rightarrow> False) \<or> cancelled_in i es"
  by (cases e) (auto simp: cancelled_in_def)

lemma ended_Cons [simp]:
  "ended i (e # es) \<longleftrightarrow> (case e of Ended t j out \<Rightarrow> i = j | _ \<Rightarrow> False) \<or> ended i es"
  by (cases e) (auto simp: ended_def)

lemma not_ended_Cons: "(\<And>t out. e \<noteq> Ended t i out) \<Longrightarrow> ended i (e # es) = ended i es"
  by (cases e) auto

section \<open>Invariant\<close>

text \<open>What a task's entry says of the history: its events are the last (at most 1000) its work
  emitted, numbered from 1 without a gap; its status, outcome and flags agree.\<close>

definition numbered :: "nat \<Rightarrow> 'a list \<Rightarrow> (nat \<times> 'a) list" where
  "numbered n xs = zip [n ..< n + length xs] xs"

definition log_ok :: "json list \<Rightarrow> task \<Rightarrow> bool" where
  "log_ok evs t \<longleftrightarrow> tk_next t = Suc (length evs) \<and>
     tk_events t = drop (length evs - MAX_EVENTS) (numbered 1 evs)"

definition status_ok :: "string \<Rightarrow> task_event list \<Rightarrow> bool option \<Rightarrow> task \<Rightarrow> bool" where
  "status_ok i es flag t \<longleftrightarrow>
     (case tk_status t of
        Completed \<Rightarrow> (\<exists>v. tk_outcome t = Some (Inr v)) | Failed \<Rightarrow> (\<exists>e. tk_outcome t = Some (Inl e))
      | _ \<Rightarrow> tk_outcome t = None) \<and>
     tk_finished t = is_terminal (tk_status t) \<and>
     flag = Some (tk_status t = Cancelled) \<and> (tk_status t = Cancelled \<longleftrightarrow> cancelled_in i es) \<and>
     (tk_status t \<noteq> Cancelled \<longrightarrow> (\<forall>out. tk_outcome t = Some out \<longleftrightarrow> (\<exists>n. Ended n i out \<in> set es))) \<and>
     (ended i es \<longrightarrow> is_terminal (tk_status t)) \<and>
     (\<exists>n. Started n (tk_principal t) i \<in> set es)"

definition entry_ok :: "task_event list \<Rightarrow> task_store \<Rightarrow> string \<Rightarrow> task \<Rightarrow> bool" where
  "entry_ok es st i t \<longleftrightarrow> log_ok (emitted i es) t \<and> status_ok i es (hm_get i (ts_cancel st)) t"

definition task_inv :: "nat \<Rightarrow> task_event list \<Rightarrow> task_store \<Rightarrow> bool" where
  "task_inv limit es st \<longleftrightarrow>
     ts_max_running st = limit \<and> hm_ok (ts_tasks st) \<and> (\<forall>who. running who (ts_tasks st) \<le> limit) \<and>
     (\<forall>i. \<not> started i es \<longrightarrow> emitted i es = [] \<and> \<not> ended i es \<and> \<not> cancelled_in i es) \<and>
     (\<forall>i t. hm_get i (ts_tasks st) = Some t \<longrightarrow> entry_ok es st i t)"

lemma task_invI:
  assumes "ts_max_running st = limit" and "hm_ok (ts_tasks st)"
    and "\<And>who. running who (ts_tasks st) \<le> limit"
    and "\<And>i. \<not> started i es \<Longrightarrow> emitted i es = [] \<and> \<not> ended i es \<and> \<not> cancelled_in i es"
    and "\<And>i t. hm_get i (ts_tasks st) = Some t \<Longrightarrow> entry_ok es st i t"
  shows "task_inv limit es st"
  using assms unfolding task_inv_def by blast

lemma task_invD:
  assumes "task_inv limit es st"
  shows "ts_max_running st = limit" and "hm_ok (ts_tasks st)" and "running who (ts_tasks st) \<le> limit"
    and "\<not> started i es \<Longrightarrow> emitted i es = [] \<and> \<not> ended i es \<and> \<not> cancelled_in i es"
    and "hm_get i (ts_tasks st) = Some t \<Longrightarrow> entry_ok es st i t"
  using assms unfolding task_inv_def by blast+

subsection \<open>Counting the running tasks\<close>

abbreviation (input) runs_for :: "string \<Rightarrow> task \<Rightarrow> bool" where
  "runs_for who t \<equiv> tk_principal t = who \<and> \<not> is_terminal (tk_status t)"

lemma running_Cons [simp]:
  "running who ((i, t) # tasks) = (if runs_for who t then 1 else 0) + running who tasks"
  by (simp add: running_def hm_values_def)

lemma running_Nil [simp]: "running who [] = 0"
  by (simp add: running_def hm_values_def)

lemma running_retain: "running who (hm_retain P tasks) \<le> running who tasks"
  by (induction tasks) (auto simp: hm_retain_def split: prod.splits)

lemma running_insert_new: "running who (hm_insert i t tasks) \<le> (if runs_for who t then 1 else 0) + running who tasks"
  by (induction tasks) (auto simp: hm_insert_def)

lemma running_insert_old:
  "hm_get i tasks = Some t0 \<Longrightarrow> (runs_for who t \<Longrightarrow> runs_for who t0) \<Longrightarrow>
   running who (hm_insert i t tasks) \<le> running who tasks"
  by (induction tasks) (auto simp: hm_insert_def hm_get_def split: if_splits)

subsection \<open>The event log\<close>

lemma numbered_snoc: "numbered n (xs @ [x]) = numbered n xs @ [(n + length xs, x)]"
  by (simp add: numbered_def)

lemma length_numbered [simp]: "length (numbered n xs) = length xs"
  by (simp add: numbered_def)

lemma tl_drop_le: "n \<le> length xs \<Longrightarrow> tl (drop n xs @ [x]) = drop (Suc n) (xs @ [x])"
proof (induction xs arbitrary: n)
  case (Cons y ys)
  then show ?case by (cases n) simp_all
qed simp

lemma log_ok_new: "log_ok [] (new_task st now who meth ttl)"
  by (simp add: log_ok_def new_task_def numbered_def)

lemma log_ok_cong:
  "tk_events t' = tk_events t \<Longrightarrow> tk_next t' = tk_next t \<Longrightarrow> log_ok evs t' = log_ok evs t"
  by (simp add: log_ok_def)

lemma log_ok_push:
  assumes "log_ok evs t"
  shows "log_ok (evs @ [ev]) (push_event ev t)"
proof (cases "MAX_EVENTS \<le> length evs")
  case True
  let ?n = "length evs - MAX_EVENTS"
  have "length (tk_events t @ [(tk_next t, ev)]) > MAX_EVENTS"
    using assms True by (simp add: log_ok_def)
  then have "tk_events (push_event ev t) = tl (drop ?n (numbered 1 evs) @ [(Suc (length evs), ev)])"
    using assms by (simp add: push_event_def Let_def log_ok_def)
  also have "\<dots> = drop (Suc ?n) (numbered 1 (evs @ [ev]))"
    by (simp add: tl_drop_le numbered_snoc)
  finally show ?thesis using assms True by (simp add: log_ok_def push_event_def Let_def Suc_diff_le)
next
  case False
  with assms show ?thesis by (simp add: log_ok_def push_event_def Let_def numbered_snoc)
qed

text \<open>Reading after a cursor is dropping that many of the events that were emitted.\<close>

lemma filter_numbered: "map snd (filter (\<lambda>(q, _). q > a) (numbered n xs)) = drop (Suc a - n) xs"
proof (induction xs arbitrary: n)
  case Nil
  then show ?case by (simp add: numbered_def)
next
  case (Cons x xs)
  have eq: "numbered n (x # xs) = (n, x) # numbered (Suc n) xs"
    by (simp add: numbered_def upt_conv_Cons del: upt_Suc)
  show ?case
  proof (cases "a < n")
    case True
    with Cons.IH [of "Suc n"] show ?thesis by (simp add: eq)
  next
    case False
    then have "Suc a - n = Suc (Suc a - Suc n)" by simp
    with Cons.IH [of "Suc n"] False show ?thesis by (simp add: eq)
  qed
qed

lemma drop_numbered: "drop k (numbered n xs) = numbered (n + k) (drop k xs)"
  by (cases "k \<le> length xs") (simp_all add: numbered_def drop_zip)

lemma events_after_log:
  assumes "log_ok evs t"
  shows "events_after a t = drop (max a (length evs - MAX_EVENTS)) evs"
proof -
  let ?k = "length evs - MAX_EVENTS"
  have "tk_events t = numbered (1 + ?k) (drop ?k evs)"
    using assms by (simp only: log_ok_def drop_numbered)
  then have "events_after a t = drop (Suc a - (1 + ?k)) (drop ?k evs)"
    by (simp only: events_after_def filter_numbered)
  also have "\<dots> = drop (max a ?k) evs" by (cases "a \<le> ?k") (simp_all add: max_def)
  finally show ?thesis .
qed

subsection \<open>Every step keeps the invariant\<close>

lemma entry_ok_frame:
  assumes "entry_ok es st i t" and "emitted i (e # es) = emitted i es" and "\<And>t out. e \<noteq> Ended t i out"
    and "cancelled_in i (e # es) = cancelled_in i es" and "hm_get i (ts_cancel st') = hm_get i (ts_cancel st)"
  shows "entry_ok (e # es) st' i t"
proof -
  have "Ended n i out \<in> set (e # es) \<longleftrightarrow> Ended n i out \<in> set es" for n out using assms(3) by auto
  with assms not_ended_Cons [of e i es] show ?thesis
    unfolding entry_ok_def status_ok_def by (auto simp del: ended_Cons cancelled_in_Cons)
qed

lemma entry_ok_change:
  assumes "entry_ok es st i t" and "log_ok (emitted i (e # es)) t'"
    and "tk_status t' = tk_status t" "tk_outcome t' = tk_outcome t" "tk_finished t' = tk_finished t"
      "tk_principal t' = tk_principal t" and "\<And>t out. e \<noteq> Ended t i out"
    and "cancelled_in i (e # es) = cancelled_in i es" and "ts_cancel st' = ts_cancel st"
  shows "entry_ok (e # es) st' i t'"
proof -
  have "Ended n i out \<in> set (e # es) \<longleftrightarrow> Ended n i out \<in> set es" for n out using assms(7) by auto
  with assms not_ended_Cons [of e i es] show ?thesis unfolding entry_ok_def status_ok_def
    by (cases "tk_status t") (auto simp del: ended_Cons cancelled_in_Cons)
qed

text \<open>An event about a task that is started: only that entry changes, and it does not start to run.\<close>

lemma inv_one:
  assumes inv: "task_inv limit es st" and i: "started i es" and old: "hm_get i (ts_tasks st) = Some t"
    and st': "ts_max_running st' = ts_max_running st" "ts_tasks st' = hm_insert i t' (ts_tasks st)"
      "\<And>j. j \<noteq> i \<Longrightarrow> hm_get j (ts_cancel st') = hm_get j (ts_cancel st)"
    and e: "\<And>j. started j (e # es) = started j es" "\<And>j. j \<noteq> i \<Longrightarrow> emitted j (e # es) = emitted j es"
      "\<And>j t out. j \<noteq> i \<Longrightarrow> e \<noteq> Ended t j out"
      "\<And>j. j \<noteq> i \<Longrightarrow> cancelled_in j (e # es) = cancelled_in j es"
    and run: "\<And>who. runs_for who t' \<Longrightarrow> runs_for who t" and new: "entry_ok (e # es) st' i t'"
  shows "task_inv limit (e # es) st'"
proof (rule task_invI)
  show "ts_max_running st' = limit" "hm_ok (ts_tasks st')" using task_invD(1,2) [OF inv] st' by auto
  show "running who (ts_tasks st') \<le> limit" for who
    using running_insert_old [OF old run] task_invD(3) [OF inv, of who] st'(2) by (metis le_trans)
  fix j
  show "emitted j (e # es) = [] \<and> \<not> ended j (e # es) \<and> \<not> cancelled_in j (e # es)" if "\<not> started j (e # es)"
    using that i e task_invD(4) [OF inv, of j] not_ended_Cons [of e j es] by metis
  show "entry_ok (e # es) st' j u" if "hm_get j (ts_tasks st') = Some u" for u
    using that new st' e task_invD(5) [OF inv, of j u] entry_ok_frame [of es st j u e st']
    by (cases "j = i") auto
qed

text \<open>Such an event when the entry is gone changes nothing.\<close>

lemma inv_none:
  assumes inv: "task_inv limit es st" and i: "started i es" and old: "hm_get i (ts_tasks st) = None"
    and e: "\<And>j. started j (e # es) = started j es" "\<And>j. j \<noteq> i \<Longrightarrow> emitted j (e # es) = emitted j es"
      "\<And>j t out. j \<noteq> i \<Longrightarrow> e \<noteq> Ended t j out"
      "\<And>j. j \<noteq> i \<Longrightarrow> cancelled_in j (e # es) = cancelled_in j es"
  shows "task_inv limit (e # es) st"
proof (rule task_invI)
  fix j
  show "emitted j (e # es) = [] \<and> \<not> ended j (e # es) \<and> \<not> cancelled_in j (e # es)" if "\<not> started j (e # es)"
    using that i e task_invD(4) [OF inv, of j] not_ended_Cons [of e j es] by metis
  show "entry_ok (e # es) st j u" if "hm_get j (ts_tasks st) = Some u" for u
    using that old e task_invD(5) [OF inv, of j u] entry_ok_frame [of es st j u e st] by (cases "j = i") auto
qed (use task_invD [OF inv] in auto)

lemma inv_progress:
  assumes inv: "task_inv limit es st" and "started i es"
  shows "task_inv limit (Progressed now i p # es) (report_progress now i p st)"
proof (cases "hm_get i (ts_tasks st)")
  case None
  from inv_none [OF inv assms(2) None, of "Progressed now i p"] None show ?thesis
    by (simp add: report_progress_def update_task_def)
next
  case (Some t)
  let ?t = "t\<lparr>tk_progress := Some p, tk_updated := now\<rparr>"
  have "log_ok (emitted i es) t" using task_invD(5) [OF inv Some] by (simp add: entry_ok_def)
  then have l: "log_ok (emitted i es) ?t" by (simp add: log_ok_def)
  show ?thesis
    by (rule inv_one [OF inv assms(2) Some, where t' = ?t], auto simp: report_progress_def update_task_def Some)
       (rule entry_ok_change [OF task_invD(5) [OF inv Some]], auto simp: l)
qed

lemma inv_event:
  assumes inv: "task_inv limit es st" and "started i es"
  shows "task_inv limit (Emitted now i ev # es) (report_event now i ev st)"
proof (cases "hm_get i (ts_tasks st)")
  case None
  from inv_none [OF inv assms(2) None, of "Emitted now i ev"] None show ?thesis
    by (simp add: report_event_def update_task_def)
next
  case (Some t)
  let ?t = "push_event ev t \<lparr>tk_updated := now\<rparr>"
  have "log_ok (emitted i es) t" using task_invD(5) [OF inv Some] by (simp add: entry_ok_def)
  from log_ok_push [OF this, of ev] have l: "log_ok (emitted i es @ [ev]) ?t" by (simp add: log_ok_def)
  have same: "tk_status (push_event ev t) = tk_status t" "tk_outcome (push_event ev t) = tk_outcome t"
    "tk_finished (push_event ev t) = tk_finished t" "tk_principal (push_event ev t) = tk_principal t"
    by (simp_all add: push_event_def Let_def)
  show ?thesis
    by (rule inv_one [OF inv assms(2) Some, where t' = ?t], auto simp: report_event_def update_task_def Some same)
       (rule entry_ok_change [OF task_invD(5) [OF inv Some]], auto simp: l same)
qed

lemma end_task_same [simp]:
  "tk_principal (end_task out t) = tk_principal t" "tk_events (end_task out t) = tk_events t"
  "tk_next (end_task out t) = tk_next t" "tk_created (end_task out t) = tk_created t"
  "is_terminal (tk_status (end_task out t))" "tk_ttl (end_task out t) = tk_ttl t"
  by (auto simp: end_task_def Let_def split: sum.splits)

lemma inv_end:
  assumes inv: "task_inv limit es st" and i: "started i es" "\<not> ended i es"
  shows "task_inv limit (Ended now i out # es) (finish now i out st)"
proof (cases "hm_get i (ts_tasks st)")
  case None
  from inv_none [OF inv i(1) None, of "Ended now i out"] None show ?thesis
    by (simp add: finish_def update_task_def)
next
  case (Some t)
  let ?t = "end_task out t \<lparr>tk_updated := now\<rparr>"
  have old: "entry_ok es st i t" by (rule task_invD(5) [OF inv Some])
  have "Ended n i o' \<notin> set es" for n o' using i(2) by (auto simp: ended_def)
  then have "entry_ok (Ended now i out # es) (finish now i out st) i ?t"
    using old i(2) unfolding entry_ok_def
    by (auto simp: finish_def update_task_def Some log_ok_def status_ok_def end_task_def Let_def
        split: sum.splits task_status.splits)
  then show ?thesis
    by (intro inv_one [OF inv i(1) Some, where t' = ?t]) (auto simp: finish_def update_task_def Some)
qed

lemma inv_cancel:
  assumes inv: "task_inv limit es st" and c: "cancel_task fmt now who i st = (Inr v, st')"
  shows "task_inv limit (CancelledBy now who i # es) st'"
proof -
  from c obtain t where t: "hm_get i (ts_tasks st) = Some t" "\<not> is_terminal (tk_status t)"
    and tasks: "ts_tasks st' = hm_insert i (cancel_change t \<lparr>tk_updated := now\<rparr>) (ts_tasks st)"
    and rest: "ts_max_running st' = ts_max_running st" "ts_cancel st' = hm_insert i True (ts_cancel st)"
    by (auto simp: cancel_task_def owned_def Let_def split: option.splits if_splits)
  have old: "entry_ok es st i t" by (rule task_invD(5) [OF inv t(1)])
  then have st: "started i es" by (auto simp: entry_ok_def status_ok_def started_def)
  have "entry_ok (CancelledBy now who i # es) st' i (cancel_change t \<lparr>tk_updated := now\<rparr>)"
    using old t(2) unfolding entry_ok_def
    by (cases "tk_status t") (auto simp: rest log_ok_def status_ok_def cancel_change_def)
  then show ?thesis
    by (intro inv_one [OF inv st t(1)]) (auto simp: tasks rest cancel_change_def)
qed

lemma inv_start_or_refuse:
  assumes inv: "task_inv limit es st" and s: "task_start fmt now uid who meth ttl st = (r, st')"
    and e: "e = (case r of Inr v \<Rightarrow> Started now who (''t_'' @ uid) | Inl x \<Rightarrow> Refused now who)"
    and fresh: "\<And>v. r = Inr v \<Longrightarrow> \<not> started (''t_'' @ uid) es"
  shows "task_inv limit (e # es) st'"
proof -
  let ?i = "''t_'' @ uid" and ?kept = "hm_retain (\<lambda>_. unexpired now) (ts_tasks st)"
  let ?t = "new_task st now who meth ttl"
  have kept: "hm_get j (ts_tasks st) = Some u" if "hm_get j ?kept = Some u" for j u
    using that task_invD(2) [OF inv] by (auto simp: hm_get_retain split: option.splits if_splits)
  have le: "running p ?kept \<le> limit" for p
    using running_retain [of p "\<lambda>_. unexpired now" "ts_tasks st"] task_invD(3) [OF inv, of p] by simp
  have ok: "hm_ok ?kept" using task_invD(2) [OF inv] by auto
  show ?thesis
  proof (cases r)
    case (Inl x)
    with s have st': "st' = st\<lparr>ts_tasks := ?kept\<rparr>"
      by (auto simp: task_start_def Let_def split: if_splits)
    have "entry_ok (e # es) st' j u" if "hm_get j (ts_tasks st') = Some u" for j u
      using that Inl e st' kept task_invD(5) [OF inv, of j u]
      by (intro entry_ok_frame [of es st]) auto
    then show ?thesis
      using task_invD [OF inv] ok le Inl e by (intro task_invI) (auto simp: st')
  next
    case (Inr v)
    with s have st': "st' = st\<lparr>ts_tasks := hm_insert ?i ?t ?kept, ts_cancel := hm_insert ?i False (ts_cancel st)\<rparr>"
      and lt: "running who ?kept < ts_max_running st"
      by (auto simp: task_start_def Let_def split: if_splits)
    have runs: "running p (ts_tasks st') \<le> limit" for p
      using running_insert_new [of p ?i ?t ?kept] le [of p] lt task_invD(1) [OF inv]
      by (cases "p = who") (auto simp: st' new_task_def)
    have new: "entry_ok (e # es) st' ?i ?t"
      using fresh [OF Inr] task_invD(4) [OF inv, of ?i] Inr e
      by (simp add: entry_ok_def log_ok_new st') (auto simp: status_ok_def new_task_def ended_def)
    have "entry_ok (e # es) st' j u" if "hm_get j (ts_tasks st') = Some u" for j u
    proof (cases "j = ?i")
      case True
      with that new show ?thesis by (simp add: st')
    next
      case False
      with that have "entry_ok es st j u" using kept task_invD(5) [OF inv, of j u] by (simp add: st')
      with False Inr e show ?thesis by (intro entry_ok_frame [of es st]) (auto simp: st')
    qed
    then show ?thesis
      using task_invD(1,4) [OF inv] ok runs Inr e by (intro task_invI) (auto simp: st')
  qed
qed

lemma inv_task_step:
  assumes inv: "task_inv limit es st" and step: "task_step fmt es st e st'"
  shows "task_inv limit (e # es) st'"
  using step
proof (cases rule: task_step.cases)
  case (task_step_start now uid who meth ttl v i)
  with inv_start_or_refuse [OF inv, of fmt now uid who meth ttl "Inr v" st' e] show ?thesis by simp
next
  case (task_step_refuse now uid who meth ttl x)
  with inv_start_or_refuse [OF inv, of fmt now uid who meth ttl "Inl x" st' e] show ?thesis by simp
qed (use inv_progress [OF inv] inv_event [OF inv] inv_end [OF inv] inv_cancel [OF inv] in auto)

lemma inv_new_tasks: "task_inv limit [] (new_task_store limit dttl mttl)"
  by (rule task_invI) (simp_all add: new_task_store_def started_def ended_def cancelled_in_def)

interpretation tasks: invariant_system "task_step fmt" "\<lambda>st. st = new_task_store limit dttl mttl" "task_inv limit"
  for fmt limit dttl mttl
  by unfold_locales (auto intro: inv_task_step inv_new_tasks)

section \<open>Properties\<close>

lemma tasks_inv_runs:
  "runs (task_step fmt) (new_task_store limit dttl mttl) es st \<Longrightarrow> task_inv limit es st"
  by (rule tasks.inv_runs [OF refl])

lemma owned_Inr: "owned now who i st = Inr t \<longleftrightarrow>
    hm_get i (ts_tasks st) = Some t \<and> tk_principal t = who \<and> unexpired now t"
  by (auto simp: owned_def split: option.splits)

lemma status_ok_outcome:
  assumes "status_ok i es flag t"
  shows "tk_status t = Cancelled \<longleftrightarrow> cancelled_in i es"
    and "tk_status t \<noteq> Cancelled \<Longrightarrow> tk_outcome t = Some out \<longleftrightarrow> (\<exists>n. Ended n i out \<in> set es)"
    and "ended i es \<Longrightarrow> is_terminal (tk_status t)"
    and "flag = Some (cancelled_in i es)"
  using assms by (auto simp: status_ok_def)

text \<open>
  C6. Along every run, what \<open>tasks.result\<close> answers the owner of a live task is what happened to
  it: \<open>cancelled\<close> if it was cancelled, whatever its work returned; else exactly the outcome its
  work ended with, a value or an error; else, and only while the work has not ended, a timeout.
  The handle of the work sees a cancel exactly when there was one.
\<close>

theorem task_result_is_outcome:
  assumes "runs (task_step fmt) (new_task_store limit dttl mttl) es st" and "owned now who i st = Inr t"
  shows "(cancelled_in i es \<longrightarrow> result_later now who i st = Inl cancelled_error) \<and>
    (\<forall>n out. \<not> cancelled_in i es \<longrightarrow> Ended n i out \<in> set es \<longrightarrow> result_later now who i st = out) \<and>
    (\<not> cancelled_in i es \<and> \<not> ended i es \<longrightarrow>
       result_later now who i st = Inl (timeout_error (''Task '' @ i @ '' is still running''))) \<and>
    (\<forall>out. result_now now who i st = Some out \<longrightarrow> out = result_later now who i st) \<and>
    is_cancelled i st = cancelled_in i es"
proof -
  from assms(2) have "hm_get i (ts_tasks st) = Some t" by (simp add: owned_Inr)
  from task_invD(5) [OF tasks_inv_runs [OF assms(1)] this] have "status_ok i es (hm_get i (ts_cancel st)) t"
    by (simp add: entry_ok_def)
  note h = status_ok_outcome [OF this]
  have "tk_outcome t = Some out" if "\<not> cancelled_in i es" "Ended n i out \<in> set es" for n out
    using that h(1,2) by blast
  moreover have "tk_outcome t = None" if "\<not> cancelled_in i es" "\<not> ended i es"
    using that h(1,2) by (cases "tk_outcome t") (auto simp: ended_def)
  ultimately show ?thesis
    unfolding result_later_def result_now_def is_cancelled_def using assms(2) h(1,4) by auto
qed

text \<open>A first run: a task is started, emits one event, and ends with an error.\<close>

abbreviation (input) demo_task_events :: "task_event list" where
  "demo_task_events \<equiv> [Ended 3 ''t_1'' (Inl cancelled_error), Emitted 2 ''t_1'' JNull, Started 1 ''owner'' ''t_1'']"

lemma demo_task_run:
  "\<exists>st t. runs (task_step nat_text) (new_task_store 2 100 100) demo_task_events st \<and>
     owned 4 ''owner'' ''t_1'' st = Inr t \<and> tk_outcome t = Some (Inl cancelled_error)"
proof -
  let ?s0 = "new_task_store 2 100 100"
  let ?t1 = "new_task ?s0 1 ''owner'' ''tools.build'' None"
  let ?s1 = "?s0\<lparr>ts_tasks := [(''t_1'', ?t1)], ts_cancel := [(''t_1'', False)]\<rparr>"
  let ?s2 = "report_event 2 ''t_1'' JNull ?s1"
  let ?s3 = "finish 3 ''t_1'' (Inl cancelled_error) ?s2"
  have "task_start nat_text 1 ''1'' ''owner'' ''tools.build'' None ?s0 = (Inr (view nat_text ''t_1'' None ?t1), ?s1)"
    by (simp add: task_start_def Let_def new_task_store_def hm_retain_def hm_insert_def)
  from task_step_start [OF this] have "task_step nat_text [] ?s0 (Started 1 ''owner'' ''t_1'') ?s1"
    by (simp add: started_def)
  then have "runs (task_step nat_text) ?s0 [Started 1 ''owner'' ''t_1''] ?s1"
    by (rule runs_step [OF runs_start])
  then have "runs (task_step nat_text) ?s0 [Emitted 2 ''t_1'' JNull, Started 1 ''owner'' ''t_1''] ?s2"
    by (rule runs_step) (rule task_step_event, simp_all)
  then have "runs (task_step nat_text) ?s0 demo_task_events ?s3"
    by (rule runs_step) (rule task_step_end, simp_all add: started_def ended_def)
  moreover have "hm_get ''t_1'' (ts_tasks ?s3) =
      Some (end_task (Inl cancelled_error) (push_event JNull ?t1\<lparr>tk_updated := 2\<rparr>) \<lparr>tk_updated := 3\<rparr>)"
    by (simp add: finish_def report_event_def update_task_def hm_get_def hm_insert_def)
  ultimately show ?thesis
    by (intro exI [of _ ?s3])
       (auto simp: owned_def unexpired_def end_task_def push_event_def new_task_def new_task_store_def Let_def)
qed

lemma task_result_is_outcome_witness:
  "\<exists>st. result_later 4 ''owner'' ''t_1'' st = Inl cancelled_error \<and>
     runs (task_step nat_text) (new_task_store 2 100 100) demo_task_events st"
proof -
  from demo_task_run obtain st t where r: "runs (task_step nat_text) (new_task_store 2 100 100) demo_task_events st"
    and t: "owned 4 ''owner'' ''t_1'' st = Inr t" "tk_outcome t = Some (Inl cancelled_error)" by blast
  have "Ended 3 ''t_1'' (Inl cancelled_error) \<in> set demo_task_events" "\<not> cancelled_in ''t_1'' demo_task_events"
    by (simp_all add: cancelled_in_def)
  with task_result_is_outcome [OF r t(1)] have "result_later 4 ''owner'' ''t_1'' st = Inl cancelled_error"
    by blast
  with r show ?thesis by blast
qed

text \<open>
  C20. Polling loses and repeats nothing: a client that polled when the history was \<open>es\<close> and polls
  again with the cursor \<open>next\<close> it was given gets exactly the events emitted since, in order, if
  they are at most 1000, and the last 1000 of them otherwise; and the new cursor counts them all.
\<close>

theorem polling_gets_every_event:
  assumes "runs (task_step fmt) (new_task_store limit dttl mttl) es st" and "owned now who i st = Inr t"
    and "runs (task_step fmt) (new_task_store limit dttl mttl) (newer @ es) st'" and "owned now' who i st' = Inr t'"
  shows "\<exists>m. get_task fmt now' who i (Some (tk_next t - 1)) st' = Inr (JObj m) \<and>
    obj_get ''events'' m = Some (JArr (drop (length (emitted i newer) - MAX_EVENTS) (emitted i newer))) \<and>
    obj_get ''next'' m = Some (json_nat (length (emitted i es) + length (emitted i newer)))"
proof -
  have app: "emitted i (xs @ ys) = emitted i ys @ emitted i xs" for xs ys
    by (induction xs rule: emitted.induct) simp_all
  have "log_ok (emitted i es) t"
    using task_invD(5) [OF tasks_inv_runs [OF assms(1)], of i t] assms(2) by (auto simp: entry_ok_def owned_Inr)
  then have n: "tk_next t = Suc (length (emitted i es))" by (simp add: log_ok_def)
  have l: "log_ok (emitted i es @ emitted i newer) t'"
    using task_invD(5) [OF tasks_inv_runs [OF assms(3)], of i t'] assms(4) by (auto simp: entry_ok_def owned_Inr app)
  have "drop (max a (a + k - c)) (xs @ ys) = drop (k - c) ys" if "length xs = a" "length ys = k"
    for a k c and xs ys :: "json list"
    using that by (cases "k \<le> c") (simp_all add: max_def)
  then have "events_after (tk_next t - 1) t' = drop (length (emitted i newer) - MAX_EVENTS) (emitted i newer)"
    by (simp add: events_after_log [OF l] n)
  moreover have "tk_next t' = Suc (length (emitted i es) + length (emitted i newer))"
    using l by (simp add: log_ok_def)
  ultimately show ?thesis
    using assms(4) by (auto simp: get_task_def view_def obj_get_def opt_member_def split: option.splits)
qed

lemma polling_gets_every_event_witness:
  "\<exists>st m. get_task nat_text 4 ''owner'' ''t_1'' (Some 1) st = Inr (JObj m) \<and> obj_get ''events'' m = Some (JArr [])"
proof -
  from demo_task_run obtain st t where r: "runs (task_step nat_text) (new_task_store 2 100 100) demo_task_events st"
    and t: "owned 4 ''owner'' ''t_1'' st = Inr t" by blast
  have "log_ok (emitted ''t_1'' demo_task_events) t"
    using task_invD(5) [OF tasks_inv_runs [OF r], of "''t_1''" t] t by (auto simp: entry_ok_def owned_Inr)
  then have "tk_next t - 1 = 1" by (simp add: log_ok_def)
  with polling_gets_every_event [OF r t, of "[]" st 4 t] r t show ?thesis by auto
qed

text \<open>
  C31. No principal ever has more than the limit of running tasks, along every run; and a start is
  refused exactly when the caller already has that many unexpired ones, with \<open>too_many_tasks\<close>.
\<close>

theorem running_tasks_limited:
  assumes "runs (task_step fmt) (new_task_store limit dttl mttl) es st"
  shows "running who (ts_tasks st) \<le> limit \<and>
    (case task_start fmt now uid who meth ttl st of
       (Inl e, _) \<Rightarrow> error_kind e = Some ''too_many_tasks'' \<and>
         running who (hm_retain (\<lambda>_. unexpired now) (ts_tasks st)) = limit
     | (Inr _, st') \<Rightarrow> running who (hm_retain (\<lambda>_. unexpired now) (ts_tasks st)) < limit \<and>
         hm_get (''t_'' @ uid) (ts_tasks st') = Some (new_task st now who meth ttl))"
proof -
  note inv = tasks_inv_runs [OF assms]
  have "running who (hm_retain (\<lambda>_. unexpired now) (ts_tasks st)) \<le> limit"
    using running_retain [of who "\<lambda>_. unexpired now" "ts_tasks st"] task_invD(3) [OF inv, of who] by simp
  with task_invD(1,3) [OF inv] show ?thesis by (auto simp: task_start_def Let_def)
qed

lemma running_tasks_limited_witness: "\<exists>st :: task_store. running ''owner'' (ts_tasks st) \<le> 2 \<and> ts_tasks st \<noteq> []"
proof -
  from demo_task_run obtain st t where r: "runs (task_step nat_text) (new_task_store 2 100 100) demo_task_events st"
    and t: "owned 4 ''owner'' ''t_1'' st = Inr t" by blast
  from t have "ts_tasks st \<noteq> []" by (auto simp: owned_Inr)
  moreover have "running ''owner'' (ts_tasks st) \<le> 2"
    by (rule conjunct1 [OF running_tasks_limited [OF r, where who = "''owner''"]])
  ultimately show ?thesis by blast
qed

text \<open>
  C32. A task is its owner's: every operation of another principal answers what it answers for an
  id that names no task, and changes nothing, and the owner's list alone shows the task.
\<close>

theorem task_isolation:
  assumes "hm_get i (ts_tasks st) = Some t" and "tk_principal t \<noteq> who"
  shows "get_task fmt now who i after st = get_task fmt now who i after (st\<lparr>ts_tasks := hm_remove i (ts_tasks st)\<rparr>) \<and>
    task_result now st now' st who i = Inl (not_found ''task_not_found'' (''No task '' @ i)) \<and>
    cancel_task fmt now who i st = (Inl (not_found ''task_not_found'' (''No task '' @ i)), st) \<and>
    list_tasks fmt now who st = list_tasks fmt now who (st\<lparr>ts_tasks := filter (\<lambda>(_, u). tk_principal u = who) (ts_tasks st)\<rparr>)"
  using assms
  by (simp add: get_task_def task_result_def result_now_def cancel_task_def owned_def list_tasks_def)
     (auto intro!: arg_cong [where f = "map _"] arg_cong [where f = "sort_key _"] filter_cong)

lemma task_isolation_witness:
  "cancel_task nat_text 5 ''mcp'' ''t_1''
     (new_task_store 2 9 9 \<lparr>ts_tasks := [(''t_1'', new_task (new_task_store 2 9 9) 1 ''owner'' ''m'' None)]\<rparr>) =
   (Inl (not_found ''task_not_found'' ''No task t_1''),
     new_task_store 2 9 9 \<lparr>ts_tasks := [(''t_1'', new_task (new_task_store 2 9 9) 1 ''owner'' ''m'' None)]\<rparr>)"
  using task_isolation [of "''t_1''" "new_task_store 2 9 9 \<lparr>ts_tasks := [(''t_1'', new_task (new_task_store 2 9 9) 1 ''owner'' ''m'' None)]\<rparr>"
      "new_task (new_task_store 2 9 9) 1 ''owner'' ''m'' None" "''mcp''" nat_text 5]
  by (simp add: hm_get_def new_task_def new_task_store_def)

end
