(* ===== verification/Cep_Registry.thy ===== *)
theory Cep_Registry
  imports Cep_Approval Cep_Task "HOL-Library.Product_Lexorder"
begin

text \<open>
  cep/src/registry.rs: what is known of a method, the table of methods, and a call as its method
  sees it. The table is a \<open>BTreeMap\<close>: the list of its entries in name order. The generated
  deserializer of a method's params and the serializer of its result are parameters (\<open>de\<close>,
  \<open>ser\<close>), and so is \<open>strsim\<close>'s edit distance (\<open>lev\<close>).
\<close>

datatype execution = Sync | Task

record error_doc =
  ed_code :: int
  ed_kind :: string
  ed_when :: string

record method_meta =
  mm_summary :: string
  mm_scope :: scope
  mm_execution :: execution
  mm_destructive :: bool
  mm_idempotent :: bool
  mm_mcp :: bool
  mm_owner_only :: bool
  mm_example_params :: json
  mm_example_result :: json
  mm_errors :: "error_doc list"

definition meta_new :: "scope \<Rightarrow> string \<Rightarrow> method_meta" where
  "meta_new scope summary =
     \<lparr>mm_summary = summary, mm_scope = scope, mm_execution = Sync, mm_destructive = False,
      mm_idempotent = (scope = Read), mm_mcp = True, mm_owner_only = False,
      mm_example_params = JObj [], mm_example_result = JNull, mm_errors = []\<rparr>"

definition meta_example :: "json \<Rightarrow> json \<Rightarrow> method_meta \<Rightarrow> method_meta" where
  "meta_example params result m = m\<lparr>mm_example_params := params, mm_example_result := result\<rparr>"

definition meta_error :: "int \<Rightarrow> string \<Rightarrow> string \<Rightarrow> method_meta \<Rightarrow> method_meta" where
  "meta_error code kind when m =
     m\<lparr>mm_errors := mm_errors m @ [\<lparr>ed_code = code, ed_kind = kind, ed_when = when\<rparr>]\<rparr>"

definition meta_task :: "method_meta \<Rightarrow> method_meta" where
  "meta_task m = m\<lparr>mm_execution := Task\<rparr>"

definition meta_destructive :: "method_meta \<Rightarrow> method_meta" where
  "meta_destructive m = m\<lparr>mm_destructive := True\<rparr>"

definition meta_idempotent :: "bool \<Rightarrow> method_meta \<Rightarrow> method_meta" where
  "meta_idempotent b m = m\<lparr>mm_idempotent := b\<rparr>"

definition meta_no_mcp :: "method_meta \<Rightarrow> method_meta" where
  "meta_no_mcp m = m\<lparr>mm_mcp := False\<rparr>"

definition meta_owner_only :: "method_meta \<Rightarrow> method_meta" where
  "meta_owner_only m = m\<lparr>mm_owner_only := True, mm_mcp := False\<rparr>"

section \<open>Calls\<close>

text \<open>A call without its flag: \<open>approved\<close> is shared by the clones of a call and is passed along.\<close>

record call =
  ca_principal :: principal
  ca_method :: string
  ca_digest :: string
  ca_approval :: "string option"

text \<open>\<open>None\<close> when \<open>request\<close> does not return. \<open>now1\<close> is read by \<open>consume\<close>, \<open>now2\<close> by \<open>request\<close>.\<close>

definition try_approval :: "nat \<Rightarrow> call \<Rightarrow> approval_store \<Rightarrow> bool \<times> approval_store" where
  "try_approval now1 c st =
     (case ca_approval c of
        Some i \<Rightarrow> consume now1 i (pr_id (ca_principal c)) (ca_method c) (ca_digest c) st
      | None \<Rightarrow> (False, st))"

definition require_approval ::
  "(nat \<Rightarrow> string) \<Rightarrow> nat \<Rightarrow> nat \<Rightarrow> string \<Rightarrow> call \<Rightarrow> string \<Rightarrow> bool \<Rightarrow> approval_store
     \<Rightarrow> ((cep_error + unit) \<times> bool \<times> approval_store) option" where
  "require_approval fmt now1 now2 uid c target approved st =
     (if approved then Some (Inr (), approved, st)
      else case try_approval now1 c st of
        (True, st') \<Rightarrow> Some (Inr (), True, st')
      | (False, st') \<Rightarrow>
          (case request fmt now2 uid (pr_id (ca_principal c)) (ca_method c) (ca_digest c) target st' of
             None \<Rightarrow> None
           | Some (a, st'') \<Rightarrow>
               Some (Inl (approval_required (ap_id a) (ca_method c) target (ap_expires_at a)), approved, st'')))"

definition path_display :: "path \<Rightarrow> string" where
  "path_display p = join ''/'' p"

definition check_path ::
  "(nat \<Rightarrow> string) \<Rightarrow> nat \<Rightarrow> nat \<Rightarrow> string \<Rightarrow> call \<Rightarrow> path \<Rightarrow> bool \<Rightarrow> approval_store
     \<Rightarrow> ((cep_error + unit) \<times> bool \<times> approval_store) option" where
  "check_path fmt now1 now2 uid c resolved approved st =
     (if within_roots (ca_principal c) resolved then Some (Inr (), approved, st)
      else case pr_on_denied (ca_principal c) of
        DenyError \<Rightarrow> Some (Inl (forbidden ''roots''), approved, st)
      | DenyAsk \<Rightarrow> require_approval fmt now1 now2 uid c (path_display resolved) approved st)"

definition start_call_task ::
  "(nat \<Rightarrow> string) \<Rightarrow> nat \<Rightarrow> string \<Rightarrow> call \<Rightarrow> task_store \<Rightarrow> outcome \<times> task_store" where
  "start_call_task fmt now uid c ts =
     (case task_start fmt now uid (pr_id (ca_principal c)) (ca_method c) None ts of
        (Inl e, ts') \<Rightarrow> (Inl e, ts')
      | (Inr v, ts') \<Rightarrow> (Inr (JObj [(''task'', v)]), ts'))"

section \<open>The method table\<close>

text \<open>A handler takes the context, the call, its params and the state of the host; \<open>None\<close> is a panic.\<close>

type_synonym ('c, 'w) handler = "'c \<Rightarrow> call \<Rightarrow> json \<Rightarrow> 'w \<Rightarrow> outcome option \<times> 'w"

record ('c, 'w) cep_method =
  me_name :: string
  me_meta :: method_meta
  me_params_schema :: json
  me_result_schema :: json
  me_handler :: "('c, 'w) handler"

type_synonym ('c, 'w) registry = "(string \<times> ('c, 'w) cep_method) list"

definition lower_letter :: "char \<Rightarrow> bool" where
  "lower_letter c \<longleftrightarrow> 97 \<le> (of_char c :: nat) \<and> (of_char c :: nat) \<le> 122"

definition digit_char :: "char \<Rightarrow> bool" where
  "digit_char c \<longleftrightarrow> 48 \<le> (of_char c :: nat) \<and> (of_char c :: nat) \<le> 57"

definition name_word :: "string \<Rightarrow> bool" where
  "name_word w \<longleftrightarrow> w \<noteq> [] \<and> lower_letter (hd w) \<and>
     list_all (\<lambda>c. lower_letter c \<or> digit_char c \<or> c = CHR ''_'') w"

definition valid_name :: "string \<Rightarrow> bool" where
  "valid_name name =
     (case split_once CHR ''.'' name of
        Some (g, v) \<Rightarrow> if g = ''rpc'' then v = ''discover''
                        else name_word g \<and> name_word v \<and> \<not> contains v ''.''
      | None \<Rightarrow> False)"

definition params_error :: "string \<Rightarrow> string \<Rightarrow> json \<Rightarrow> cep_error" where
  "params_error path msg example =
     invalid_params (''Invalid params: '' @ msg)
       [JObj [(''message'', JStr msg), (''path'', JStr (if path = ''.'' then [] else path))]] (Some example)"

text \<open>The handler \<open>add\<close> builds: params that do not read are answered at once; the result is serialized.\<close>

definition wrap_handler ::
  "(json \<Rightarrow> (string \<times> string) + 'p) \<Rightarrow> ('r \<Rightarrow> json option) \<Rightarrow> json
     \<Rightarrow> ('c \<Rightarrow> call \<Rightarrow> 'p \<Rightarrow> 'w \<Rightarrow> (cep_error + 'r) option \<times> 'w) \<Rightarrow> ('c, 'w) handler" where
  "wrap_handler de ser example meth ctx c params w =
     (case de params of
        Inl (path, msg) \<Rightarrow> (Some (Inl (params_error path msg example)), w)
      | Inr p \<Rightarrow>
          (case meth ctx c p w of
             (None, w') \<Rightarrow> (None, w')
           | (Some (Inl e), w') \<Rightarrow> (Some (Inl e), w')
           | (Some (Inr r), w') \<Rightarrow>
               (Some (case ser r of Some v \<Rightarrow> Inr v | None \<Rightarrow> Inl (internal_error ''serialize'')), w')))"

text \<open>\<open>add\<close> panics (\<open>None\<close>) on a bad or known name, or an example that is missing or does not read.\<close>

definition add_method ::
  "string \<Rightarrow> method_meta \<Rightarrow> (json \<Rightarrow> (string \<times> string) + 'p) \<Rightarrow> ('r \<Rightarrow> json option) \<Rightarrow> json \<Rightarrow> json
     \<Rightarrow> ('c \<Rightarrow> call \<Rightarrow> 'p \<Rightarrow> 'w \<Rightarrow> (cep_error + 'r) option \<times> 'w)
     \<Rightarrow> ('c, 'w) registry \<Rightarrow> ('c, 'w) registry option" where
  "add_method name m de ser params_schema result_schema meth reg =
     (if \<not> valid_name name then None
      else if map_of reg name \<noteq> None then None
      else if mm_example_result m = JNull then None
      else if isl (de (mm_example_params m)) then None
      else Some (insort_key fst (name, \<lparr>me_name = name, me_meta = m, me_params_schema = params_schema,
             me_result_schema = result_schema,
             me_handler = wrap_handler de ser (mm_example_params m) meth\<rparr>) reg))"

definition first_part :: "string \<Rightarrow> string" where
  "first_part name = hd (split_on (\<lambda>c. c = CHR ''.'') name)"

definition suggestions :: "(string \<Rightarrow> string \<Rightarrow> nat) \<Rightarrow> ('c, 'w) registry \<Rightarrow> string \<Rightarrow> string list \<times> string list" where
  "suggestions lev reg name =
     (let close = sort_key (\<lambda>(d, k). (d, k)) (filter (\<lambda>(d, _). d \<le> 3) (map (\<lambda>(k, _). (lev name k, k)) reg)) in
      (map snd (take 3 close), filter (\<lambda>k. first_part k = first_part name) (map fst reg)))"

definition digest_of :: "(string \<Rightarrow> string) \<Rightarrow> (json \<Rightarrow> string) \<Rightarrow> (string \<times> json) list \<Rightarrow> string" where
  "digest_of sha tx params = params_digest sha tx (JObj params)"

section \<open>The table is ordered and its names are valid\<close>

definition registry_ok :: "('c, 'w) registry \<Rightarrow> bool" where
  "registry_ok reg \<longleftrightarrow> sorted (map fst reg) \<and> distinct (map fst reg) \<and>
     list_all (\<lambda>(k, m). me_name m = k \<and> valid_name k \<and> mm_example_result (me_meta m) \<noteq> JNull) reg"

lemma registry_ok_Nil [inv_intros]: "registry_ok []"
  by (simp add: registry_ok_def)

lemma registry_ok_add [inv_intros]:
  assumes "registry_ok reg" and "add_method name m de ser ps rs meth reg = Some reg'"
  shows "registry_ok reg'"
proof -
  let ?e = "\<lparr>me_name = name, me_meta = m, me_params_schema = ps, me_result_schema = rs,
    me_handler = wrap_handler de ser (mm_example_params m) meth\<rparr>"
  from assms(2) have v: "valid_name name" "map_of reg name = None" "mm_example_result m \<noteq> JNull"
    and reg': "reg' = insort_key fst (name, ?e) reg"
    by (auto simp: add_method_def split: if_splits)
  obtain e where e: "me_name e = name" "me_meta e = m" "reg' = insort_key fst (name, e) reg"
    using that [of ?e] reg' by simp
  have "map fst (insort_key fst x xs) = insort (fst x) (map fst xs)" for x :: "string \<times> ('a, 'b) cep_method" and xs
    by (induction xs) auto
  then have "map fst reg' = insort name (map fst reg)" by (simp add: e(3))
  then have "distinct (map fst reg') = distinct (name # map fst reg)" "sorted (map fst reg')"
    using assms(1) by (simp_all add: distinct_insort sorted_insort registry_ok_def)
  then show ?thesis
    using assms(1) v e by (auto simp: registry_ok_def map_of_eq_None_iff list_all_iff set_insort_key)
qed

lemma lookup_add:
  "add_method name m de ser ps rs meth reg = Some reg' \<Longrightarrow> map_of reg' k =
     (if k = name then Some \<lparr>me_name = name, me_meta = m, me_params_schema = ps, me_result_schema = rs,
        me_handler = wrap_handler de ser (mm_example_params m) meth\<rparr> else map_of reg k)"
proof -
  have ins: "map_of (insort_key fst (name, e) xs) k = (if k = name then Some e else map_of xs k)"
    if "map_of xs name = None" for e and xs :: "('a, 'b) registry"
    using that by (induction xs) (auto split: if_splits)
  show "add_method name m de ser ps rs meth reg = Some reg' \<Longrightarrow> ?thesis"
    using ins by (auto simp: add_method_def split: if_splits)
qed

text \<open>
  What an unknown name is answered with: at most three registered names, each at edit distance
  at most 3, nearest first; and a registered name as near as one of them is left out only when
  there are three that are as near or nearer. The group is all the methods of the same group.
\<close>

theorem suggestions_are_closest:
  assumes "suggestions lev reg name = (close, grp)"
  shows "length close \<le> 3 \<and> sorted (map (lev name) close) \<and>
    (\<forall>k\<in>set close. k \<in> fst ` set reg \<and> lev name k \<le> 3) \<and>
    (\<forall>k\<in>fst ` set reg. lev name k \<le> 3 \<longrightarrow> k \<in> set close \<or>
        length close = 3 \<and> (\<forall>c\<in>set close. lev name c \<le> lev name k)) \<and>
    (\<forall>k. k \<in> set grp \<longleftrightarrow> k \<in> fst ` set reg \<and> first_part k = first_part name)"
proof -
  define cs where "cs = sort_key (\<lambda>(d, k). (d, k)) (filter (\<lambda>(d, _). d \<le> 3) (map (\<lambda>(k, _). (lev name k, k)) reg))"
  have close: "close = map snd (take 3 cs)" and grp: "grp = filter (\<lambda>k. first_part k = first_part name) (map fst reg)"
    using assms by (simp_all add: suggestions_def cs_def)
  have set_cs: "set cs = {(d, k). d = lev name k \<and> d \<le> 3 \<and> k \<in> fst ` set reg}"
    by (force simp: cs_def)
  have "sorted cs" using sorted_sort_key [of "\<lambda>(d, k). (d, k)"] unfolding cs_def by (simp add: case_prod_beta')
  then have "sorted (map fst cs)"
    unfolding sorted_map by (rule sorted_wrt_mono_rel [rotated]) (auto simp: less_eq_prod_def)
  have lev: "map (lev name) (map snd (take 3 cs)) = take 3 (map fst cs)"
    using set_cs by (auto simp: take_map dest: in_set_takeD intro!: map_cong)
  have 1: "sorted (map (lev name) close)"
    using \<open>sorted (map fst cs)\<close> unfolding close lev by (rule sorted_wrt_take)
  have 2: "k \<in> set close \<Longrightarrow> k \<in> fst ` set reg \<and> lev name k \<le> 3" for k
    using set_cs by (auto simp: close dest!: in_set_takeD)
  have 3: "k \<in> set close \<or> length close = 3 \<and> (\<forall>c\<in>set close. lev name c \<le> lev name k)"
    if "k \<in> fst ` set reg" "lev name k \<le> 3" for k
  proof (cases "(lev name k, k) \<in> set (take 3 cs)")
    case True
    then show ?thesis by (force simp: close)
  next
    case False
    have "(lev name k, k) \<in> set cs" using that set_cs by simp
    with False have late: "(lev name k, k) \<in> set (drop 3 cs)"
      by (metis append_take_drop_id set_append Un_iff)
    then have "length cs > 3" by (cases "length cs \<le> 3") auto
    have "lev name c \<le> lev name k" if "c \<in> set close" for c
    proof -
      from that obtain d where "(d, c) \<in> set (take 3 cs)" by (auto simp: close)
      moreover then have "d = lev name c" using set_cs by (auto dest!: in_set_takeD)
      moreover have "sorted (take 3 cs @ drop 3 cs)" using \<open>sorted cs\<close> by simp
      ultimately show ?thesis using late by (fastforce simp: sorted_append less_eq_prod_def simp del: append_take_drop_id)
    qed
    with \<open>length cs > 3\<close> show ?thesis by (simp add: close)
  qed
  show ?thesis using 1 2 3 by (auto simp: close grp)
qed

lemma suggestions_are_closest_witness:
  "suggestions (\<lambda>a b. if a = b then 0 else 2) ([] :: (unit, unit) registry) ''fs.red'' = ([], []) \<and>
   sorted (map (\<lambda>_. 2 :: nat) ([] :: string list))"
  using suggestions_are_closest [of "\<lambda>a b. if a = b then 0 else 2" "[] :: (unit, unit) registry" "''fs.red''" "[]" "[]"]
  by (simp add: suggestions_def)

section \<open>Calls over one approval store\<close>

text \<open>
  Several calls, numbered, share the store. Each checks as often as it likes, in any interleaving
  with the owner and with other requests. Only a call consumes.
\<close>

datatype call_event =
    Other approval_event
  | Passed nat "approval_event option"
  | Asked nat approval_event

fun approval_history :: "call_event list \<Rightarrow> approval_event list" where
  "approval_history [] = []"
| "approval_history (Other e # es) = e # approval_history es"
| "approval_history (Passed k None # es) = approval_history es"
| "approval_history (Passed k (Some e) # es) = e # approval_history es"
| "approval_history (Asked k e # es) = e # approval_history es"

record call_state =
  cs_store :: approval_store
  cs_approved :: "nat \<Rightarrow> bool"

definition consumed_by :: "nat \<Rightarrow> call \<Rightarrow> string \<Rightarrow> approval_event" where
  "consumed_by now c i = Consumed now i (pr_id (ca_principal c)) (ca_method c) (ca_digest c)"

inductive call_step ::
  "(nat \<Rightarrow> string) \<Rightarrow> (nat \<Rightarrow> call) \<Rightarrow> call_event list \<Rightarrow> call_state \<Rightarrow> call_event \<Rightarrow> call_state \<Rightarrow> bool"
  for fmt :: "nat \<Rightarrow> string" and calls :: "nat \<Rightarrow> call" where
  call_step_other:
    "approval_step fmt (approval_history es) (cs_store s) e st' \<Longrightarrow> (\<And>t i p m d. e \<noteq> Consumed t i p m d) \<Longrightarrow>
     call_step fmt calls es s (Other e) (s\<lparr>cs_store := st'\<rparr>)"
| call_step_pass:
    "require_approval fmt now1 now2 uid (calls k) target (cs_approved s k) (cs_store s) = Some (Inr (), b, st') \<Longrightarrow>
     ev = (if cs_approved s k then None else map_option (consumed_by now1 (calls k)) (ca_approval (calls k))) \<Longrightarrow>
     call_step fmt calls es s (Passed k ev) (s\<lparr>cs_store := st', cs_approved := (cs_approved s)(k := b)\<rparr>)"
| call_step_ask:
    "\<not> cs_approved s k \<Longrightarrow> try_approval now1 (calls k) (cs_store s) = (False, st1) \<Longrightarrow>
     request fmt now2 uid (pr_id (ca_principal (calls k))) (ca_method (calls k)) (ca_digest (calls k)) target st1 = Some (a, st') \<Longrightarrow>
     \<forall>t b. Requested t b \<in> set (approval_history es) \<longrightarrow> ap_id b \<noteq> ap_id a \<Longrightarrow>
     call_step fmt calls es s (Asked k (Requested now2 a)) (s\<lparr>cs_store := st'\<rparr>)"

definition call_inv :: "nat \<Rightarrow> (nat \<Rightarrow> call) \<Rightarrow> call_event list \<Rightarrow> call_state \<Rightarrow> bool" where
  "call_inv ttl calls es s \<longleftrightarrow>
     approval_inv ttl (approval_history es) (cs_store s) \<and>
     (\<forall>k ev. Passed k ev \<in> set es \<longrightarrow> cs_approved s k) \<and>
     (\<forall>k. cs_approved s k \<longrightarrow> (\<exists>i t. ca_approval (calls k) = Some i \<and>
        consumed_by t (calls k) i \<in> set (approval_history es))) \<and>
     (\<forall>k l. cs_approved s k \<longrightarrow> cs_approved s l \<longrightarrow> k \<noteq> l \<longrightarrow> ca_approval (calls k) \<noteq> ca_approval (calls l))"

lemma try_approval_False: "try_approval now c st = (False, st') \<Longrightarrow> st' = st"
  by (auto simp: try_approval_def consume_def split: option.splits if_splits)

lemma history_Cons: "set (approval_history es) \<subseteq> set (approval_history (e # es))"
proof (cases e)
  case (Passed k ev)
  then show ?thesis by (cases ev) auto
qed auto

lemma call_inv_mono:
  assumes inv: "call_inv ttl calls es s" and st: "approval_inv ttl (approval_history (e # es)) (cs_store s')"
    and same: "cs_approved s' = cs_approved s" and e: "\<And>k ev. e = Passed k ev \<Longrightarrow> cs_approved s k"
  shows "call_inv ttl calls (e # es) s'"
  using assms history_Cons [of es e] unfolding call_inv_def by fastforce

lemma call_inv_pass:
  assumes inv: "call_inv ttl calls es s" and k: "\<not> cs_approved s k" and i: "ca_approval (calls k) = Some i"
    and c: "consume now i (pr_id (ca_principal (calls k))) (ca_method (calls k)) (ca_digest (calls k)) (cs_store s) = (True, st')"
  shows "call_inv ttl calls (Passed k (Some (consumed_by now (calls k) i)) # es)
           (s\<lparr>cs_store := st', cs_approved := (cs_approved s)(k := True)\<rparr>)"
proof -
  have ainv: "approval_inv ttl (approval_history es) (cs_store s)" using inv by (simp add: call_inv_def)
  from c obtain a where a: "hm_get i (as_items (cs_store s)) = Some a" "ap_status a = Approved"
    by (auto simp: consume_def usable_def split: option.splits if_splits)
  have fresh: "\<not> consumed i (approval_history es)"
    using inv_get [OF ainv a(1)] a(2) by simp
  have other: "ca_approval (calls l) \<noteq> Some i" if l: "cs_approved s l" for l
  proof
    assume "ca_approval (calls l) = Some i"
    moreover from inv l have "\<exists>j t. ca_approval (calls l) = Some j \<and> consumed_by t (calls l) j \<in> set (approval_history es)"
      by (simp add: call_inv_def)
    ultimately show False using fresh by (auto simp: consumed_def consumed_by_def)
  qed
  let ?e = "consumed_by now (calls k) i" and ?s = "s\<lparr>cs_store := st', cs_approved := (cs_approved s)(k := True)\<rparr>"
  have 1: "approval_inv ttl (?e # approval_history es) st'"
    unfolding consumed_by_def by (rule inv_consume [OF ainv c])
  have 2: "\<exists>j t. ca_approval (calls l) = Some j \<and> consumed_by t (calls l) j \<in> set (?e # approval_history es)"
    if "cs_approved ?s l" for l
  proof (cases "l = k")
    case False
    with that inv have "\<exists>j t. ca_approval (calls l) = Some j \<and> consumed_by t (calls l) j \<in> set (approval_history es)"
      by (simp add: call_inv_def)
    then show ?thesis by (metis list.set_intros(2))
  qed (use i in auto)
  have 3: "ca_approval (calls l) \<noteq> ca_approval (calls m)" if "cs_approved ?s l" "cs_approved ?s m" "l \<noteq> m" for l m
    using that i inv other [of l] other [of m] by (cases "l = k"; cases "m = k") (auto simp: call_inv_def)
  have 4: "cs_approved ?s l" if "Passed l ev \<in> set (Passed k (Some ?e) # es)" for l ev
    using that inv by (auto simp: call_inv_def)
  show ?thesis
    unfolding call_inv_def approval_history.simps
    by (intro conjI allI impI) (use 1 in simp, rule 4, assumption, rule 2, assumption, rule 3)
qed

lemma call_inv_step:
  assumes inv: "call_inv ttl calls es s" and step: "call_step fmt calls es s e s'"
  shows "call_inv ttl calls (e # es) s'"
  using step
proof (cases rule: call_step.cases)
  case (call_step_other ev st')
  have "approval_inv ttl (approval_history es) (cs_store s)" using inv by (simp add: call_inv_def)
  from inv_approval_step [OF this call_step_other(3)] show ?thesis
    unfolding call_step_other(1,2) by (intro call_inv_mono [OF inv]) simp_all
next
  case (call_step_pass now1 now2 uid k target b st' ev)
  show ?thesis
  proof (cases "cs_approved s k")
    case True
    with call_step_pass have "b \<and> st' = cs_store s \<and> ev = None" by (auto simp: require_approval_def)
    moreover have "(cs_approved s)(k := True) = cs_approved s" using True by (intro ext) simp
    ultimately show ?thesis
      using True inv unfolding call_step_pass(1,2) by (intro call_inv_mono [OF inv]) (auto simp: call_inv_def)
  next
    case False
    with call_step_pass(3) have "b" and t: "try_approval now1 (calls k) (cs_store s) = (True, st')"
      by (auto simp: require_approval_def split: prod.splits bool.splits option.splits)
    from t obtain i where i: "ca_approval (calls k) = Some i"
      and c: "consume now1 i (pr_id (ca_principal (calls k))) (ca_method (calls k)) (ca_digest (calls k)) (cs_store s) = (True, st')"
      by (auto simp: try_approval_def split: option.splits)
    with call_inv_pass [OF inv False i c] \<open>b\<close> False call_step_pass(4) show ?thesis
      unfolding call_step_pass(1,2) by simp
  qed
next
  case (call_step_ask k now1 st1 now2 uid target a st')
  have "st1 = cs_store s" by (rule try_approval_False [OF call_step_ask(4)])
  with call_step_ask inv_request [of ttl "approval_history es" "cs_store s"] inv show ?thesis
    unfolding call_step_ask(1,2) by (intro call_inv_mono [OF inv]) (auto simp: call_inv_def)
qed

definition call_start :: "nat \<Rightarrow> call_state" where
  "call_start ttl = \<lparr>cs_store = new_store ttl, cs_approved = (\<lambda>_. False)\<rparr>"

lemma call_inv_start: "call_inv ttl calls [] (call_start ttl)"
  by (simp add: call_inv_def call_start_def inv_new)

interpretation calls: invariant_system "call_step fmt calls" "\<lambda>s. s = call_start ttl" "call_inv ttl calls"
  for fmt calls ttl
  by unfold_locales (auto intro: call_inv_step call_inv_start)

lemma call_store_run:
  assumes "runs (call_step fmt calls) (call_start ttl) es s"
  shows "runs (approval_step fmt) (new_store ttl) (approval_history es) (cs_store s)"
  using assms
proof (induction rule: runs.induct)
  case runs_start
  show ?case by (auto simp: call_start_def intro: runs.runs_start)
next
  case (runs_step es t e u)
  note r = runs_step.IH
  from runs_step.hyps(2) show ?case
  proof (cases rule: call_step.cases)
    case call_step_other
    with r show ?thesis by (auto intro: runs.runs_step)
  next
    case (call_step_pass now1 now2 uid k target b st' ev)
    show ?thesis
    proof (cases "cs_approved t k")
      case True
      with call_step_pass r show ?thesis by (auto simp: require_approval_def)
    next
      case False
      with call_step_pass obtain i where ev: "ev = Some (consumed_by now1 (calls k) i)"
        "consume now1 i (pr_id (ca_principal (calls k))) (ca_method (calls k)) (ca_digest (calls k)) (cs_store t) = (True, st')"
        by (auto simp: require_approval_def try_approval_def split: prod.splits bool.splits option.splits)
      then have "runs (approval_step fmt) (new_store ttl) (consumed_by now1 (calls k) i # approval_history es) st'"
        unfolding consumed_by_def by (intro runs.runs_step [OF r] step_consume)
      then show ?thesis using call_step_pass(1,2) ev by simp
    qed
  next
    case call_step_ask
    with r show ?thesis by (auto dest: try_approval_False intro: runs.runs_step step_request)
  qed
qed

text \<open>
  C2. However calls, owner and store interleave: a call that ever passed its approval check named an
  approval that the owner granted for its own principal, method and params digest, and no two
  calls ever pass on the same approval, also when one call checks many times.
\<close>

theorem one_approval_one_call:
  assumes "runs (call_step fmt calls) (call_start ttl) es s" and "Passed k ev \<in> set es"
  shows "\<exists>i. ca_approval (calls k) = Some i \<and>
    (\<exists>t a. Requested t a \<in> set (approval_history es) \<and> ap_id a = i \<and> ap_principal a = pr_id (ca_principal (calls k)) \<and>
        ap_method a = ca_method (calls k) \<and> ap_digest a = ca_digest (calls k)) \<and>
    (\<exists>t. Decided t i True \<in> set (approval_history es)) \<and>
    (\<forall>l ev'. Passed l ev' \<in> set es \<longrightarrow> l \<noteq> k \<longrightarrow> ca_approval (calls l) \<noteq> Some i)"
proof -
  have inv: "call_inv ttl calls es s" by (rule calls.inv_runs [OF refl assms(1)])
  with assms(2) obtain i t where i: "ca_approval (calls k) = Some i"
    and c: "consumed_by t (calls k) i \<in> set (approval_history es)"
    unfolding call_inv_def by blast
  note r = call_store_run [OF assms(1)]
  from c obtain newer older where h: "approval_history es = newer @ consumed_by t (calls k) i # older"
    by (meson split_list)
  from approvals.step_before [OF refl r [unfolded h]]
  obtain s1 s2 where "approval_inv ttl older s1" "approval_step fmt older s1 (consumed_by t (calls k) i) s2"
    by blast
  from consume_event [OF this [unfolded consumed_by_def]]
  have "(\<exists>t0 a. Requested t0 a \<in> set older \<and> ap_id a = i \<and> ap_principal a = pr_id (ca_principal (calls k)) \<and>
      ap_method a = ca_method (calls k) \<and> ap_digest a = ca_digest (calls k)) \<and> (\<exists>t. Decided t i True \<in> set older)"
    by (auto simp: decided_as_def)
  moreover have "ca_approval (calls l) \<noteq> Some i" if "Passed l ev' \<in> set es" "l \<noteq> k" for l ev'
    using inv that assms(2) i unfolding call_inv_def by metis
  ultimately show ?thesis using i h by auto
qed

abbreviation (input) demo_call :: call where
  "demo_call \<equiv> \<lparr>ca_principal = owner_principal\<lparr>pr_id := ''ext''\<rparr>, ca_method = ''fs.write'', ca_digest = ''digest'',
     ca_approval = Some ''ap_1''\<rparr>"

lemma one_approval_one_call_witness:
  "\<exists>s. runs (call_step nat_text (\<lambda>_. demo_call)) (call_start 10)
     [Passed 0 (Some (consumed_by 2 demo_call ''ap_1'')), Other (Decided 1 ''ap_1'' True), Other (Requested 0 demo_approval)] s \<and>
   (\<exists>t. Decided t ''ap_1'' True \<in> set [Decided 1 ''ap_1'' True, Requested 0 demo_approval])"
proof -
  let ?r = "runs (call_step nat_text (\<lambda>_. demo_call)) (call_start 10)"
  let ?s1 = "\<lparr>cs_store = demo_store Pending, cs_approved = (\<lambda>_. False)\<rparr>"
  have "?r [Other (Requested 0 demo_approval)] (call_start 10\<lparr>cs_store := demo_store Pending\<rparr>)"
    by (intro runs_step [OF runs_start] call_step_other step_request)
       (auto simp: call_start_def intro: demo_request)
  then have "?r [Other (Requested 0 demo_approval)] ?s1" by (simp add: call_start_def)
  then have "?r [Other (Decided 1 ''ap_1'' True), Other (Requested 0 demo_approval)] (?s1\<lparr>cs_store := demo_store Approved\<rparr>)"
    by (rule runs_step) (intro call_step_other step_decide, use demo_decide in auto)
  moreover have "call_step nat_text (\<lambda>_. demo_call) [Other (Decided 1 ''ap_1'' True), Other (Requested 0 demo_approval)]
      (?s1\<lparr>cs_store := demo_store Approved\<rparr>) (Passed 0 (Some (consumed_by 2 demo_call ''ap_1'')))
      (?s1\<lparr>cs_store := demo_store Used, cs_approved := (\<lambda>_. False)(0 := True)\<rparr>)"
    using call_step_pass [of nat_text 2 2 "[]" "\<lambda>_. demo_call" 0 "[]" "?s1\<lparr>cs_store := demo_store Approved\<rparr>" True
        "demo_store Used" "Some (consumed_by 2 demo_call ''ap_1'')"] demo_consume
    by (simp add: require_approval_def try_approval_def)
  ultimately have r: "?r [Passed 0 (Some (consumed_by 2 demo_call ''ap_1'')), Other (Decided 1 ''ap_1'' True),
      Other (Requested 0 demo_approval)] (?s1\<lparr>cs_store := demo_store Used, cs_approved := (\<lambda>_. False)(0 := True)\<rparr>)"
    by (rule runs_step)
  from one_approval_one_call [OF r, of 0] have "\<exists>t. Decided t ''ap_1'' True \<in> set [consumed_by 2 demo_call ''ap_1'',
      Decided 1 ''ap_1'' True, Requested 0 demo_approval]" by simp
  with r show ?thesis by (auto simp: consumed_by_def)
qed

end
