(* ===== verification/Cep_Envelope.thy ===== *)
theory Cep_Envelope
  imports Cep_Error
begin

text \<open>
  cep/src/envelope.rs: the JSON-RPC envelope. \<open>serde_json::from_slice\<close> is the parameter \<open>read\<close>
  and the deserializer of \<open>params._meta\<close> the parameter \<open>meta_of\<close> (\<open>Inl\<close> its error text). A
  \<open>serde_json::Map\<close> is ordered by key; the order matters here only for which unknown member an
  error names.
\<close>

record call_meta =
  cm_approval :: "string option"
  cm_trace :: "string option"

definition default_meta :: call_meta where
  "default_meta = \<lparr>cm_approval = None, cm_trace = None\<rparr>"

record rpc_request =
  rq_id :: "json option"
  rq_method :: string
  rq_params :: "(string \<times> json) list"
  rq_meta :: call_meta

type_synonym rpc_item = "(json \<times> cep_error) + rpc_request"

datatype incoming = Single rpc_item | Batch "rpc_item list"

fun nat_max :: "nat list \<Rightarrow> nat" where
  "nat_max [] = 0"
| "nat_max (n # ns) = max n (nat_max ns)"

primrec depth :: "json \<Rightarrow> nat" where
  "depth JNull = 0"
| "depth (JBool b) = 0"
| "depth (JNum t) = 0"
| "depth (JStr s) = 0"
| "depth (JArr vs) = 1 + nat_max (map depth vs)"
| "depth (JObj kvs) = 1 + nat_max (map snd (map (map_prod id depth) kvs))"

text \<open>The id member: absent, readable, or neither.\<close>

fun id_ok :: "json \<Rightarrow> bool" where
  "id_ok (JStr _) = True"
| "id_ok (JNum _) = True"
| "id_ok JNull = True"
| "id_ok _ = False"

definition read_params :: "json option \<Rightarrow> (string \<times> json) list option" where
  "read_params p = (case p of None \<Rightarrow> Some [] | Some JNull \<Rightarrow> Some [] | Some (JObj m) \<Rightarrow> Some m | _ \<Rightarrow> None)"

definition read_id :: "(string \<times> json) list \<Rightarrow> (json \<times> cep_error) + json option" where
  "read_id obj =
     (case obj_get ''id'' obj of
        None \<Rightarrow> Inr None
      | Some i \<Rightarrow> if id_ok i then Inr (Some i)
                  else Inl (JNull, invalid_request ''`id` must be a string, a number or null''))"

definition read_meta :: "(json \<Rightarrow> string + call_meta) \<Rightarrow> json \<Rightarrow> (string \<times> json) list \<Rightarrow> (json \<times> cep_error) + call_meta" where
  "read_meta meta_of reply_id params =
     (case obj_get ''_meta'' params of
        None \<Rightarrow> Inr default_meta
      | Some v \<Rightarrow>
          (case meta_of v of
             Inl e \<Rightarrow> Inl (reply_id, invalid_params (''`_meta`: '' @ e) [] None)
           | Inr m \<Rightarrow> Inr m))"

definition version_message :: string where
  "version_message = ''`jsonrpc` must be '' @ [CHR 0x22] @ ''2.0'' @ [CHR 0x22]"

text \<open>What follows the id: the version, the method, the params, no other member, the meta data.\<close>

definition read_members ::
  "(json \<Rightarrow> string + call_meta) \<Rightarrow> json option \<Rightarrow> (string \<times> json) list \<Rightarrow> rpc_item" where
  "read_members meta_of rid obj =
     (let reply_id = (case rid of None \<Rightarrow> JNull | Some i \<Rightarrow> i) in
      if obj_get ''jsonrpc'' obj \<noteq> Some (JStr ''2.0'') then Inl (reply_id, invalid_request version_message)
      else case obj_get ''method'' obj of
        Some (JStr meth) \<Rightarrow>
          let obj = obj_remove ''method'' obj in
          (case read_params (obj_get ''params'' obj) of
             None \<Rightarrow> Inl (reply_id, invalid_params ''`params` must be an object (by name)'' [] None)
           | Some params \<Rightarrow>
               (case find (\<lambda>k. k \<noteq> ''jsonrpc'') (map fst (obj_remove ''params'' obj)) of
                  Some k \<Rightarrow> Inl (reply_id, invalid_request (''Unknown member `'' @ k @ ''`''))
                | None \<Rightarrow>
                    (case read_meta meta_of reply_id params of
                       Inl e \<Rightarrow> Inl e
                     | Inr m \<Rightarrow> Inr \<lparr>rq_id = rid, rq_method = meth,
                         rq_params = obj_remove ''_meta'' params, rq_meta = m\<rparr>)))
      | _ \<Rightarrow> Inl (reply_id, invalid_request ''`method` must be a string''))"

definition rpc_request_of :: "(json \<Rightarrow> string + call_meta) \<Rightarrow> json \<Rightarrow> rpc_item" where
  "rpc_request_of meta_of value =
     (case value of
        JObj obj \<Rightarrow> (case read_id obj of Inl e \<Rightarrow> Inl e | Inr rid \<Rightarrow> read_members meta_of rid (obj_remove ''id'' obj))
      | _ \<Rightarrow> Inl (JNull, invalid_request ''A request must be an object''))"

definition parse_body ::
  "(string \<Rightarrow> json option) \<Rightarrow> (json \<Rightarrow> string + call_meta) \<Rightarrow> nat \<Rightarrow> nat \<Rightarrow> string \<Rightarrow> cep_error + incoming" where
  "parse_body read meta_of max_batch max_depth body =
     (case read body of
        None \<Rightarrow> Inl parse_error
      | Some value \<Rightarrow>
          if depth value > max_depth
          then Inl (invalid_request (''JSON nested deeper than '' @ nat_text max_depth))
          else case value of
            JArr items \<Rightarrow>
              if items = [] then Inl (invalid_request ''Empty batch'')
              else if length items > max_batch
              then Inl (invalid_request (''Batch of '' @ nat_text (length items) @ '' is over the limit of '' @ nat_text max_batch))
              else Inr (Batch (map (rpc_request_of meta_of) items))
          | other \<Rightarrow> Inr (Single (rpc_request_of meta_of other)))"

definition ok_reply :: "json \<Rightarrow> json \<Rightarrow> json" where
  "ok_reply i result = JObj [(''id'', i), (''jsonrpc'', JStr ''2.0''), (''result'', result)]"

definition err_reply :: "json \<Rightarrow> cep_error \<Rightarrow> json" where
  "err_reply i e = JObj [(''error'', error_json e), (''id'', i), (''jsonrpc'', JStr ''2.0'')]"

section \<open>Lookups after removals\<close>

lemma set_obj_remove [simp]: "set (obj_remove k obj) = {(k', v) \<in> set obj. k' \<noteq> k}"
  by (auto simp: obj_remove_def)

lemma find_key_None: "find (\<lambda>k. k \<noteq> j) (map fst obj) = None \<longleftrightarrow> fst ` set obj \<subseteq> {j}"
  by (auto simp: find_None_iff)

section \<open>Properties\<close>

text \<open>
  C24. A value is taken as a request exactly when it is an object with no member but \<open>id\<close>,
  \<open>jsonrpc\<close>, \<open>method\<close> and \<open>params\<close>, the id (if there is one) is a string, a number or null, the
  version is 2.0, the method is a string, the params are an object, null or absent, and the meta
  data (if there is any) reads; and the request holds just these, the params without \<open>_meta\<close>.
\<close>

theorem request_accepted_iff:
  "rpc_request_of meta_of v = Inr r \<longleftrightarrow>
     (\<exists>obj params. v = JObj obj \<and> fst ` set obj \<subseteq> {''id'', ''jsonrpc'', ''method'', ''params''} \<and>
        rq_id r = obj_get ''id'' obj \<and> (case rq_id r of None \<Rightarrow> True | Some i \<Rightarrow> id_ok i) \<and>
        obj_get ''jsonrpc'' obj = Some (JStr ''2.0'') \<and>
        obj_get ''method'' obj = Some (JStr (rq_method r)) \<and>
        read_params (obj_get ''params'' obj) = Some params \<and> rq_params r = obj_remove ''_meta'' params \<and>
        (case obj_get ''_meta'' params of None \<Rightarrow> rq_meta r = default_meta | Some mv \<Rightarrow> meta_of mv = Inr (rq_meta r)))"
  (is "?l = ?r")
proof -
  have members: "read_members meta_of rid obj = Inr r \<longleftrightarrow>
      (\<exists>params. fst ` set obj \<subseteq> {''jsonrpc'', ''method'', ''params''} \<and> rq_id r = rid \<and>
        obj_get ''jsonrpc'' obj = Some (JStr ''2.0'') \<and> obj_get ''method'' obj = Some (JStr (rq_method r)) \<and>
        read_params (obj_get ''params'' obj) = Some params \<and> rq_params r = obj_remove ''_meta'' params \<and>
        (case obj_get ''_meta'' params of None \<Rightarrow> rq_meta r = default_meta | Some mv \<Rightarrow> meta_of mv = Inr (rq_meta r)))"
    for rid obj
  proof -
    have k: "find (\<lambda>k. k \<noteq> ''jsonrpc'') (map fst (obj_remove ''params'' (obj_remove ''method'' obj))) = None \<longleftrightarrow>
        fst ` set obj \<subseteq> {''jsonrpc'', ''method'', ''params''}"
      unfolding find_key_None by (force simp: image_subset_iff)
    show ?thesis
    proof (cases "fst ` set obj \<subseteq> {''jsonrpc'', ''method'', ''params''}")
      case True
      with k have "find (\<lambda>k. k \<noteq> ''jsonrpc'') (map fst (obj_remove ''params'' (obj_remove ''method'' obj))) = None"
        by blast
      then show ?thesis
        using True
        by (cases r; cases "read_params (obj_get ''params'' obj)"; cases "obj_get ''method'' obj")
           (auto simp: read_members_def Let_def read_meta_def split: option.splits json.splits sum.splits if_splits)
    next
      case False
      with k obtain j where "find (\<lambda>k. k \<noteq> ''jsonrpc'') (map fst (obj_remove ''params'' (obj_remove ''method'' obj))) = Some j"
        by fastforce
      then show ?thesis
        using False by (auto simp: read_members_def Let_def split: option.splits json.splits)
    qed
  qed
  have sub: "fst ` set (obj_remove ''id'' obj) \<subseteq> {''jsonrpc'', ''method'', ''params''} \<longleftrightarrow>
      fst ` set obj \<subseteq> {''id'', ''jsonrpc'', ''method'', ''params''}" for obj :: "(string \<times> json) list"
    by (force simp: image_subset_iff)
  show ?thesis
    unfolding rpc_request_of_def read_id_def
    by (cases v) (auto simp: members sub simp del: set_obj_remove split: option.splits if_splits)
qed

text \<open>
  Every refused request is answered under its own id whenever that id is readable, and under
  null otherwise, with \<open>invalid_request\<close> or \<open>invalid_params\<close>.
\<close>

theorem refused_request_keeps_id:
  assumes "rpc_request_of meta_of v = Inl (reply_id, e)"
  shows "(err_code e = INVALID_REQUEST \<or> err_code e = INVALID_PARAMS) \<and>
    reply_id = (case v of JObj obj \<Rightarrow> (case obj_get ''id'' obj of Some i \<Rightarrow> if id_ok i then i else JNull | None \<Rightarrow> JNull)
                | _ \<Rightarrow> JNull)"
proof -
  have "(err_code e = INVALID_REQUEST \<or> err_code e = INVALID_PARAMS) \<and> reply_id = (case rid of None \<Rightarrow> JNull | Some i \<Rightarrow> i)"
    if "read_members meta_of rid obj = Inl (reply_id, e)" for rid obj
    using that
    by (auto simp: read_members_def Let_def read_meta_def split: option.splits json.splits sum.splits if_splits)
  from this [of None] this [of "Some _"] assms show ?thesis
    by (cases v) (auto simp: rpc_request_of_def read_id_def split: option.splits if_splits)
qed

lemma refused_request_keeps_id_witness:
  "fst (projl (rpc_request_of (\<lambda>_. Inl []) (JObj [(''id'', JNum ''7''), (''jsonrpc'', JStr ''1.0'')]))) = JNum ''7''"
  using refused_request_keeps_id [of "\<lambda>_. Inl []" "JObj [(''id'', JNum ''7''), (''jsonrpc'', JStr ''1.0'')]"
      "JNum ''7''" "invalid_request version_message"]
  by (simp add: rpc_request_of_def read_id_def obj_get_def read_members_def obj_remove_def)

text \<open>
  A body that is taken is inside the limits: a batch has at least one item and at most
  \<open>max_batch\<close>, one for each element in the order of the array, and no value in it is nested
  deeper than \<open>max_depth\<close>; each body that is not JSON, too deep, empty or too long is refused whole.
\<close>

theorem parse_within_limits:
  "(\<forall>inc. parse_body read meta_of max_batch max_depth body = Inr inc \<longrightarrow>
      (\<exists>v. read body = Some v \<and> depth v \<le> max_depth \<and>
        (case inc of
           Batch items \<Rightarrow> \<exists>vs. v = JArr vs \<and> items = map (rpc_request_of meta_of) vs \<and>
             1 \<le> length items \<and> length items \<le> max_batch \<and> (\<forall>w\<in>set vs. depth w < max_depth)
         | Single item \<Rightarrow> item = rpc_request_of meta_of v \<and> (\<forall>vs. v \<noteq> JArr vs)))) \<and>
   (\<forall>e. parse_body read meta_of max_batch max_depth body = Inl e \<longrightarrow>
      (case read body of None \<Rightarrow> e = parse_error
       | Some v \<Rightarrow> err_code e = INVALID_REQUEST \<and>
           (depth v > max_depth \<or> v = JArr [] \<or> (\<exists>vs. v = JArr vs \<and> length vs > max_batch))))"
proof -
  have max_ge: "n \<in> set ns \<Longrightarrow> n \<le> nat_max ns" for n ns by (induction ns) auto
  have "depth w < max_depth" if "\<not> max_depth < Suc (nat_max (map depth vs))" "w \<in> set vs" for w vs
    using that max_ge [of "depth w" "map depth vs"] by auto
  then show ?thesis
    by (auto simp: parse_body_def Suc_le_eq split: option.splits json.splits if_splits)
qed

lemma parse_within_limits_witness:
  "\<exists>e. parse_body (\<lambda>_. Some (JArr [])) (\<lambda>_. Inl []) 32 64 ''[]'' = Inl e \<and> err_code e = INVALID_REQUEST"
proof -
  have "parse_body (\<lambda>_. Some (JArr [])) (\<lambda>_. Inl []) 32 64 ''[]'' = Inl (invalid_request ''Empty batch'')"
    by (simp add: parse_body_def)
  with parse_within_limits [of "\<lambda>_. Some (JArr [])" "\<lambda>_. Inl []" 32 64 "''[]''"] show ?thesis by auto
qed

end
