(* ===== verification/Cep_Dispatch.thy ===== *)
theory Cep_Dispatch
  imports Cep_Registry Cep_Envelope
begin

text \<open>
  cep/src/dispatch.rs: one entry for every transport. Handlers run over the state \<open>'w\<close> of the
  host; what the engine itself adds is the audit log, returned here as the list of new entries.
  The engine record carries the third-party functions it calls (SHA-256, scalar printing, edit
  distance, JSON reading); \<open>env\<close> holds the trace id and the elapsed time an invocation reads.
\<close>

record limits =
  li_max_batch :: nat
  li_max_depth :: nat

definition default_limits :: limits where
  "default_limits = \<lparr>li_max_batch = 32, li_max_depth = 64\<rparr>"

record audit_entry =
  au_principal :: string
  au_method :: string
  au_scope :: "scope option"
  au_digest :: string
  au_code :: "int option"
  au_ms :: nat

record ('c, 'w) engine =
  en_registry :: "('c, 'w) registry"
  en_limits :: limits
  en_audit :: bool
  en_sha :: "string \<Rightarrow> string"
  en_tx :: "json \<Rightarrow> string"
  en_lev :: "string \<Rightarrow> string \<Rightarrow> nat"
  en_read :: "string \<Rightarrow> json option"
  en_meta_of :: "json \<Rightarrow> string + call_meta"

record invoke_env =
  ie_trace :: string
  ie_ms :: nat

definition record_audit ::
  "('c, 'w) engine \<Rightarrow> principal \<Rightarrow> string \<Rightarrow> scope option \<Rightarrow> string \<Rightarrow> int option \<Rightarrow> nat \<Rightarrow> audit_entry list" where
  "record_audit en p meth sc digest code ms =
     (if en_audit en
      then [\<lparr>au_principal = pr_id p, au_method = meth, au_scope = sc, au_digest = digest, au_code = code, au_ms = ms\<rparr>]
      else [])"

definition denial_code :: "int option \<Rightarrow> bool" where
  "denial_code c \<longleftrightarrow> c = Some UNAUTHENTICATED \<or> c = Some FORBIDDEN \<or> c = Some APPROVAL_REQUIRED"

definition outcome_code :: "outcome \<Rightarrow> int option" where
  "outcome_code out = (case out of Inl e \<Rightarrow> Some (err_code e) | Inr _ \<Rightarrow> None)"

definition invoke ::
  "('c, 'w) engine \<Rightarrow> invoke_env \<Rightarrow> 'c \<Rightarrow> principal \<Rightarrow> string \<Rightarrow> (string \<times> json) list \<Rightarrow> call_meta \<Rightarrow> 'w
     \<Rightarrow> outcome \<times> 'w \<times> audit_entry list" where
  "invoke en env ctx p meth params m w =
     (let digest = digest_of (en_sha en) (en_tx en) params in
      case map_of (en_registry en) meth of
        None \<Rightarrow>
          (case suggestions (en_lev en) (en_registry en) meth of
             (close, grp) \<Rightarrow> (Inl (method_not_found meth close grp), w, []))
      | Some entry \<Rightarrow>
          let sc = mm_scope (me_meta entry) in
          (case allow p sc (mm_owner_only (me_meta entry)) of
             Inl denied \<Rightarrow>
               (Inl denied, w,
                record_audit en p (me_name entry) (Some sc) digest (Some (err_code denied)) (ie_ms env))
           | Inr _ \<Rightarrow>
               let c = \<lparr>ca_principal = p, ca_method = me_name entry, ca_digest = digest, ca_approval = cm_approval m\<rparr> in
               (case me_handler entry ctx c (JObj params) w of
                  (got, w') \<Rightarrow>
                    let out = (case got of Some out \<Rightarrow> out | None \<Rightarrow> Inl (internal_error (ie_trace env)));
                        code = outcome_code out
                    in (out, w',
                        if sc \<noteq> Read \<or> denial_code code
                        then record_audit en p (me_name entry) (Some sc) digest code (ie_ms env) else []))))"

definition answer_item ::
  "('c, 'w) engine \<Rightarrow> invoke_env \<Rightarrow> 'c \<Rightarrow> principal \<Rightarrow> rpc_item \<Rightarrow> 'w \<Rightarrow> json option \<times> 'w \<times> audit_entry list" where
  "answer_item en env ctx p item w =
     (case item of
        Inl (i, e) \<Rightarrow> (Some (err_reply i e), w, [])
      | Inr r \<Rightarrow>
          (case invoke en env ctx p (rq_method r) (rq_params r) (rq_meta r) w of
             (out, w', log) \<Rightarrow>
               (case rq_id r of
                  None \<Rightarrow> None
                | Some i \<Rightarrow> Some (case out of Inr v \<Rightarrow> ok_reply i v | Inl e \<Rightarrow> err_reply i e), w', log)))"

text \<open>The items of a batch, in order, one after another.\<close>

fun answer_batch ::
  "('c, 'w) engine \<Rightarrow> (nat \<Rightarrow> invoke_env) \<Rightarrow> nat \<Rightarrow> 'c \<Rightarrow> principal \<Rightarrow> rpc_item list \<Rightarrow> 'w
     \<Rightarrow> json list \<times> 'w \<times> audit_entry list" where
  "answer_batch en envs n ctx p [] w = ([], w, [])"
| "answer_batch en envs n ctx p (item # items) w =
     (case answer_item en (envs n) ctx p item w of
        (reply, w', log) \<Rightarrow>
          (case answer_batch en envs (Suc n) ctx p items w' of
             (replies, w'', log') \<Rightarrow>
               ((case reply of None \<Rightarrow> replies | Some r \<Rightarrow> r # replies), w'', log @ log')))"

definition call_body ::
  "('c, 'w) engine \<Rightarrow> (nat \<Rightarrow> invoke_env) \<Rightarrow> 'c \<Rightarrow> principal \<Rightarrow> string \<Rightarrow> 'w
     \<Rightarrow> json option \<times> 'w \<times> audit_entry list" where
  "call_body en envs ctx p body w =
     (case parse_body (en_read en) (en_meta_of en) (li_max_batch (en_limits en)) (li_max_depth (en_limits en)) body of
        Inl e \<Rightarrow> (Some (err_reply JNull e), w, [])
      | Inr (Single item) \<Rightarrow> answer_item en (envs 0) ctx p item w
      | Inr (Batch items) \<Rightarrow>
          (case answer_batch en envs 0 ctx p items w of
             (replies, w', log) \<Rightarrow> (if replies = [] then None else Some (JArr replies), w', log)))"

section \<open>Properties\<close>

lemmas invoke_unfold = invoke_def Let_def record_audit_def

text \<open>
  C4. The gate of every call. A method that is not registered, or that the caller may not call,
  is answered without running any handler: the host's state is untouched. A registered method
  runs only for a caller that has its scope (and is the owner where it is owner-only), and the
  answer is then what its handler returned, a panic being an internal error with the trace id.
\<close>

theorem invoke_gate:
  assumes "invoke en env ctx p meth params m w = (out, w', log)"
  shows "case map_of (en_registry en) meth of
      None \<Rightarrow> w' = w \<and> log = [] \<and> (\<exists>e. out = Inl e \<and> err_code e = METHOD_NOT_FOUND)
    | Some entry \<Rightarrow>
        if has_scope p (mm_scope (me_meta entry)) \<and> (mm_owner_only (me_meta entry) \<longrightarrow> pr_owner p)
        then \<exists>got. me_handler entry ctx \<lparr>ca_principal = p, ca_method = me_name entry,
                 ca_digest = digest_of (en_sha en) (en_tx en) params, ca_approval = cm_approval m\<rparr> (JObj params) w = (got, w') \<and>
               (case got of Some r \<Rightarrow> out = r | None \<Rightarrow> out = Inl (internal_error (ie_trace env)))
        else w' = w \<and> (\<exists>e. out = Inl e \<and> error_kind e = Some ''forbidden'')"
proof (cases "map_of (en_registry en) meth")
  case None
  with assms show ?thesis by (auto simp: invoke_unfold split: prod.splits)
next
  case (Some entry)
  show ?thesis
  proof (cases "has_scope p (mm_scope (me_meta entry)) \<and> (mm_owner_only (me_meta entry) \<longrightarrow> pr_owner p)")
    case True
    then have "allow p (mm_scope (me_meta entry)) (mm_owner_only (me_meta entry)) = Inr ()" by (auto simp: allow_def)
    with assms Some True show ?thesis by (auto simp: invoke_unfold split: prod.splits option.splits)
  next
    case False
    then have "\<not> ((mm_owner_only (me_meta entry) \<longrightarrow> pr_owner p) \<and> has_scope p (mm_scope (me_meta entry)))" by blast
    then obtain e where "allow p (mm_scope (me_meta entry)) (mm_owner_only (me_meta entry)) = Inl e"
      "error_kind e = Some ''forbidden''" by (rule allow_denied_kind)
    with assms Some False show ?thesis by (auto simp: invoke_unfold)
  qed
qed

text \<open>An engine with one method, \<open>fs.write\<close>, that sets the host's state to 1 and panics on empty params.\<close>

definition demo_method :: "(unit, nat) cep_method" where
  "demo_method = \<lparr>me_name = ''fs.write'', me_meta = meta_example (JObj []) (JBool True) (meta_new Write ''Writes''),
     me_params_schema = JNull, me_result_schema = JNull,
     me_handler = (\<lambda>_ _ params w. (if params = JObj [] then None else Some (Inr (JBool True)), 1))\<rparr>"

definition demo_engine :: "(unit, nat) engine" where
  "demo_engine = \<lparr>en_registry = [(''fs.write'', demo_method)], en_limits = default_limits, en_audit = True,
     en_sha = id, en_tx = scalar_text, en_lev = (\<lambda>_ _. 9),
     en_read = (\<lambda>_. Some (JArr [JNull, JObj [(''id'', JNum ''1''), (''jsonrpc'', JStr ''2.0''), (''method'', JStr ''fs.write'')]])),
     en_meta_of = (\<lambda>_. Inl [])\<rparr>"

abbreviation (input) demo_env :: invoke_env where
  "demo_env \<equiv> \<lparr>ie_trace = ''t'', ie_ms = 3\<rparr>"

lemma invoke_gate_witness:
  "fst (snd (invoke demo_engine demo_env () (owner_principal\<lparr>pr_scopes := [Read]\<rparr>) ''fs.write'' [(''a'', JNull)] default_meta 0)) = 0"
proof -
  obtain out w' log where r: "invoke demo_engine demo_env () (owner_principal\<lparr>pr_scopes := [Read]\<rparr>) ''fs.write''
      [(''a'', JNull)] default_meta 0 = (out, w', log)" by (metis prod_cases3)
  from invoke_gate [OF r] r show ?thesis
    by (simp add: demo_engine_def demo_method_def has_scope_def meta_example_def meta_new_def)
qed

text \<open>
  The audit log. With a log attached, an invocation of a registered method leaves exactly one
  entry when the method writes, executes or administers, or when the answer is a denial, and none
  otherwise; the entry names the caller, the method, its scope and the digest of the params an
  approval would be bound to, and carries the code of the answer that was given.
\<close>

theorem audit_complete:
  assumes "invoke en env ctx p meth params m w = (out, w', log)"
    and "map_of (en_registry en) meth = Some entry" and "en_audit en"
  shows "log = (if mm_scope (me_meta entry) \<noteq> Read \<or> denial_code (outcome_code out)
      then [\<lparr>au_principal = pr_id p, au_method = me_name entry, au_scope = Some (mm_scope (me_meta entry)),
             au_digest = params_digest (en_sha en) (en_tx en) (JObj params), au_code = outcome_code out, au_ms = ie_ms env\<rparr>]
      else [])"
proof (cases "allow p (mm_scope (me_meta entry)) (mm_owner_only (me_meta entry))")
  case (Inl e)
  then have "err_code e = FORBIDDEN" by (rule allow_denied)
  with Inl assms show ?thesis
    by (auto simp: invoke_unfold digest_of_def denial_code_def outcome_code_def)
next
  case (Inr u)
  with assms show ?thesis by (auto simp: invoke_unfold digest_of_def split: prod.splits)
qed

lemma audit_complete_witness:
  "map au_code (snd (snd (invoke demo_engine demo_env () owner_principal ''fs.write'' [] default_meta 0))) = [Some INTERNAL_ERROR]"
proof -
  obtain out w' log where r: "invoke demo_engine demo_env () owner_principal ''fs.write'' [] default_meta 0 = (out, w', log)"
    by (metis prod_cases3)
  moreover from r have "outcome_code out = Some INTERNAL_ERROR"
    by (auto simp: invoke_def Let_def demo_engine_def demo_method_def meta_example_def meta_new_def outcome_code_def)
  ultimately show ?thesis
    using audit_complete [OF r, of demo_method]
    by (simp add: demo_engine_def demo_method_def meta_example_def meta_new_def)
qed

definition reply_ids :: "rpc_item \<Rightarrow> json list" where
  "reply_ids item = (case item of Inl (i, _) \<Rightarrow> [i] | Inr r \<Rightarrow> (case rq_id r of None \<Rightarrow> [] | Some i \<Rightarrow> [i]))"

definition id_of_reply :: "json \<Rightarrow> json option" where
  "id_of_reply v = (case v of JObj m \<Rightarrow> obj_get ''id'' m | _ \<Rightarrow> None)"

lemma id_of_reply_simps [simp]:
  "id_of_reply (ok_reply i v) = Some i" "id_of_reply (err_reply i e) = Some i"
  by (simp_all add: id_of_reply_def ok_reply_def err_reply_def obj_get_def)

lemma answer_item_ids:
  "answer_item en env ctx p item w = (reply, w', log) \<Longrightarrow>
     map Some (reply_ids item) = (case reply of None \<Rightarrow> [] | Some v \<Rightarrow> [id_of_reply v])"
  by (auto simp: answer_item_def reply_ids_def split: sum.splits option.splits prod.splits)

lemma answer_batch_ids:
  "answer_batch en envs n ctx p items w = (replies, w', log) \<Longrightarrow>
     map id_of_reply replies = map Some (concat (map reply_ids items))"
proof (induction items arbitrary: n w replies w' log)
  case (Cons item items)
  obtain reply w1 l1 where i: "answer_item en (envs n) ctx p item w = (reply, w1, l1)" by (metis prod_cases3)
  obtain rs w2 l2 where b: "answer_batch en envs (Suc n) ctx p items w1 = (rs, w2, l2)" by (metis prod_cases3)
  from Cons.IH [OF b] answer_item_ids [OF i] Cons.prems i b show ?case by (cases reply) auto
qed simp

text \<open>
  C21. Every request gets its answer: a batch is answered by the list of replies, in the order of
  its items, each under the id of its request, with nothing for a notification; a batch of
  notifications alone, and a single notification, are not answered at all. A body that could not
  be taken is answered once, under null, and nothing runs.
\<close>

theorem every_request_answered:
  assumes "call_body en envs ctx p body w = (reply, w', log)"
  shows "case parse_body (en_read en) (en_meta_of en) (li_max_batch (en_limits en)) (li_max_depth (en_limits en)) body of
      Inl e \<Rightarrow> reply = Some (err_reply JNull e) \<and> w' = w \<and> log = []
    | Inr (Single item) \<Rightarrow> (case reply of None \<Rightarrow> reply_ids item = [] | Some v \<Rightarrow> map Some (reply_ids item) = [id_of_reply v])
    | Inr (Batch items) \<Rightarrow>
        (if concat (map reply_ids items) = [] then reply = None
         else \<exists>replies. reply = Some (JArr replies) \<and>
           map id_of_reply replies = map Some (concat (map reply_ids items)))"
proof (cases "parse_body (en_read en) (en_meta_of en) (li_max_batch (en_limits en)) (li_max_depth (en_limits en)) body")
  case (Inl e)
  with assms show ?thesis by (simp add: call_body_def)
next
  case (Inr inc)
  show ?thesis
  proof (cases inc)
    case (Single item)
    with assms Inr have "answer_item en (envs 0) ctx p item w = (reply, w', log)" by (simp add: call_body_def)
    from answer_item_ids [OF this] Single Inr show ?thesis by (auto split: option.splits)
  next
    case (Batch items)
    obtain replies w1 l1 where b: "answer_batch en envs 0 ctx p items w = (replies, w1, l1)" by (metis prod_cases3)
    from answer_batch_ids [OF b] have ids: "map id_of_reply replies = map Some (concat (map reply_ids items))" .
    then have "replies = [] \<longleftrightarrow> concat (map reply_ids items) = []" by (metis map_is_Nil_conv)
    with assms Inr Batch b ids show ?thesis by (auto simp: call_body_def)
  qed
qed

lemma every_request_answered_witness:
  "\<exists>rs. fst (call_body demo_engine (\<lambda>_. demo_env) () owner_principal [] 0) = Some (JArr rs) \<and>
     map id_of_reply rs = [Some JNull, Some (JNum ''1'')]"
proof -
  obtain reply w' log where r: "call_body demo_engine (\<lambda>_. demo_env) () owner_principal [] 0 = (reply, w', log)"
    by (metis prod_cases3)
  have "parse_body (en_read demo_engine) (en_meta_of demo_engine) (li_max_batch (en_limits demo_engine))
      (li_max_depth (en_limits demo_engine)) [] = Inr (Batch [Inl (JNull, invalid_request ''A request must be an object''),
        Inr \<lparr>rq_id = Some (JNum ''1''), rq_method = ''fs.write'', rq_params = [], rq_meta = default_meta\<rparr>])"
    by (simp add: parse_body_def demo_engine_def default_limits_def rpc_request_of_def read_id_def read_members_def
        obj_get_def obj_remove_def read_params_def read_meta_def)
  with every_request_answered [OF r] r show ?thesis by (auto simp: reply_ids_def)
qed

end
