(* ===== verification/Cep_Discover.thy ===== *)
theory Cep_Discover
  imports Cep_Dispatch
begin

text \<open>
  cep/src/discover.rs: the OpenRPC document, built once from the method table and filtered for each
  caller. An object's members are kept as the list in which they were put; \<open>serde_json\<close> sorts them.
\<close>

definition OPENRPC :: string where "OPENRPC = ''1.3.2''"
definition CEP_VERSION :: nat where "CEP_VERSION = 1"

record discovery_entry =
  de_group :: string
  de_scope :: scope
  de_owner_only :: bool
  de_doc :: json

record discovery =
  di_info :: json
  di_entries :: "discovery_entry list"
  di_schemas :: "(string \<times> json) list"

definition retarget_text :: "string \<Rightarrow> string" where
  "retarget_text t = (case strip_prefix ''#/$defs/'' t of Some name \<Rightarrow> ''#/components/schemas/'' @ name | None \<Rightarrow> t)"

definition retarget_member :: "string \<times> json \<Rightarrow> string \<times> json" where
  "retarget_member kv =
     (case kv of (k, JStr t) \<Rightarrow> (if k = ''$ref'' then (k, JStr (retarget_text t)) else kv) | _ \<Rightarrow> kv)"

primrec retarget :: "json \<Rightarrow> json" where
  "retarget JNull = JNull"
| "retarget (JBool b) = JBool b"
| "retarget (JNum t) = JNum t"
| "retarget (JStr s) = JStr s"
| "retarget (JArr vs) = JArr (map retarget vs)"
| "retarget (JObj kvs) = JObj (map retarget_member (map (map_prod id retarget) kvs))"

definition lift_schema :: "json \<Rightarrow> (string \<times> json) list \<Rightarrow> json \<times> (string \<times> json) list" where
  "lift_schema schema schemas =
     (case schema of
        JObj m \<Rightarrow>
          (retarget (JObj (obj_remove ''$schema'' (obj_remove ''$defs'' m))),
           case obj_get ''$defs'' m of
             Some (JObj defs) \<Rightarrow> fold (\<lambda>(name, def) ss. AList.update name (retarget def) ss) defs schemas
           | _ \<Rightarrow> schemas)
      | _ \<Rightarrow> (retarget schema, schemas))"

definition str_items :: "json option \<Rightarrow> string list" where
  "str_items v = (case v of Some (JArr vs) \<Rightarrow> List.map_filter (\<lambda>x. case x of JStr s \<Rightarrow> Some s | _ \<Rightarrow> None) vs | _ \<Rightarrow> [])"

definition members :: "json option \<Rightarrow> (string \<times> json) list" where
  "members v = (case v of Some (JObj m) \<Rightarrow> m | _ \<Rightarrow> [])"

fun execution_name :: "execution \<Rightarrow> string" where
  "execution_name Sync = ''sync''"
| "execution_name Task = ''task''"

definition json_int :: "int \<Rightarrow> json" where
  "json_int i = JNum (if i < 0 then ''-'' @ nat_text (nat (- i)) else nat_text (nat i))"

definition method_doc :: "('c, 'w) cep_method \<Rightarrow> json \<Rightarrow> json \<Rightarrow> json" where
  "method_doc me params result =
     (let m = me_meta me; required = str_items (member_of ''required'' params) in
      JObj [(''name'', JStr (me_name me)), (''summary'', JStr (mm_summary m)), (''paramStructure'', JStr ''by-name''),
        (''params'', JArr (map (\<lambda>(k, s). JObj [(''name'', JStr k), (''required'', JBool (k \<in> set required)), (''schema'', s)])
           (members (member_of ''properties'' params)))),
        (''result'', JObj [(''name'', JStr ''result''), (''schema'', result)]),
        (''errors'', JArr (map (\<lambda>e. JObj [(''code'', json_int (ed_code e)), (''message'', JStr (ed_when e)),
           (''data'', JObj [(''type'', JStr (ed_kind e))])]) (mm_errors m))),
        (''examples'', JArr [JObj [(''name'', JStr ''example''),
           (''params'', JArr (map (\<lambda>(k, v). JObj [(''name'', JStr k), (''value'', v)]) (members (Some (mm_example_params m))))),
           (''result'', JObj [(''name'', JStr ''result''), (''value'', mm_example_result m)])]]),
        (''x-cep'', JObj [(''scope'', JStr (scope_name (mm_scope m))), (''execution'', JStr (execution_name (mm_execution m))),
           (''destructive'', JBool (mm_destructive m)), (''idempotent'', JBool (mm_idempotent m)),
           (''mcp'', JBool (mm_mcp m)), (''owner_only'', JBool (mm_owner_only m))])])"

fun build_entries ::
  "('c, 'w) registry \<Rightarrow> (string \<times> json) list \<Rightarrow> discovery_entry list \<times> (string \<times> json) list" where
  "build_entries [] schemas = ([], schemas)"
| "build_entries ((k, me) # reg) schemas =
     (case lift_schema (me_params_schema me) schemas of
        (params, schemas1) \<Rightarrow>
          (case lift_schema (me_result_schema me) schemas1 of
             (result, schemas2) \<Rightarrow>
               (case build_entries reg schemas2 of
                  (entries, schemas3) \<Rightarrow>
                    (\<lparr>de_group = first_part (me_name me), de_scope = mm_scope (me_meta me),
                      de_owner_only = mm_owner_only (me_meta me), de_doc = method_doc me params result\<rparr> # entries,
                     schemas3))))"

definition build_discovery :: "('c, 'w) registry \<Rightarrow> string \<Rightarrow> string \<Rightarrow> discovery" where
  "build_discovery reg title version =
     (case build_entries reg [] of
        (entries, schemas) \<Rightarrow>
          \<lparr>di_info = JObj [(''title'', JStr title), (''version'', JStr version), (''x-cep-version'', json_nat CEP_VERSION)],
           di_entries = entries, di_schemas = schemas\<rparr>)"

definition document :: "discovery \<Rightarrow> principal \<Rightarrow> string option \<Rightarrow> json" where
  "document d p grp =
     JObj [(''openrpc'', JStr OPENRPC), (''info'', di_info d),
       (''methods'', JArr (map de_doc (filter (\<lambda>e. case grp of None \<Rightarrow> True | Some g \<Rightarrow> de_group e = g)
           (filter (\<lambda>e. \<not> isl (allow p (de_scope e) (de_owner_only e))) (di_entries d))))),
       (''components'', JObj [(''schemas'', JObj (di_schemas d))])]"

section \<open>Properties\<close>

lemma build_entries_shape:
  "map (\<lambda>e. (de_group e, de_scope e, de_owner_only e, member_of ''name'' (de_doc e))) (fst (build_entries reg schemas)) =
   map (\<lambda>(k, me). (first_part (me_name me), mm_scope (me_meta me), mm_owner_only (me_meta me), Some (JStr (me_name me)))) reg"
proof (induction reg arbitrary: schemas)
  case (Cons e reg)
  obtain k me where e: "e = (k, me)" by fastforce
  obtain a1 s1 where l1: "lift_schema (me_params_schema me) schemas = (a1, s1)" by fastforce
  obtain a2 s2 where l2: "lift_schema (me_result_schema me) s1 = (a2, s2)" by fastforce
  obtain es s3 where b: "build_entries reg s2 = (es, s3)" by fastforce
  from Cons.IH [of s2] show ?case
    by (simp add: e l1 l2 b) (simp add: method_doc_def Let_def member_of_def obj_get_def)
qed simp

definition documented_names :: "json \<Rightarrow> json option list" where
  "documented_names doc =
     (case member_of ''methods'' doc of Some (JArr ms) \<Rightarrow> map (member_of ''name'') ms | _ \<Rightarrow> [])"

lemma filter_by_shape:
  assumes "map f xs = map g ys" and "\<And>x. P x = Q (f x)" and "\<And>y. R y = Q (g y)" and "\<And>x. h x = k (f x)"
  shows "map h (filter P xs) = map (k \<circ> g) (filter R ys)"
proof -
  have "map h (filter P xs) = map k (filter Q (map f xs))" using assms(2,4) by (induction xs) auto
  also have "\<dots> = map (k \<circ> g) (filter R ys)" unfolding assms(1) using assms(3) by (induction ys) auto
  finally show ?thesis .
qed

text \<open>The group asked for, and the gate as discovery tests it.\<close>

abbreviation (input) in_group :: "string option \<Rightarrow> string \<Rightarrow> bool" where
  "in_group grp g \<equiv> (case grp of None \<Rightarrow> True | Some h \<Rightarrow> g = h)"

abbreviation (input) open_to :: "principal \<Rightarrow> ('c, 'w) cep_method \<Rightarrow> bool" where
  "open_to p me \<equiv> \<not> isl (allow p (mm_scope (me_meta me)) (mm_owner_only (me_meta me)))"

lemma documented_filter:
  "documented_names (document (build_discovery reg title version) p grp) =
     map ((\<lambda>(g, sc, oo, n). n) \<circ> (\<lambda>(k, me). (first_part (me_name me), mm_scope (me_meta me), mm_owner_only (me_meta me), Some (JStr (me_name me)))))
       (filter (\<lambda>(k, me). in_group grp (first_part (me_name me)) \<and> open_to p me) reg)"
proof -
  have "documented_names (document (build_discovery reg title version) p grp) =
      map (\<lambda>e. member_of ''name'' (de_doc e))
        (filter (\<lambda>e. in_group grp (de_group e) \<and> \<not> isl (allow p (de_scope e) (de_owner_only e))) (fst (build_entries reg [])))"
    by (simp add: documented_names_def document_def build_discovery_def member_of_def obj_get_def comp_def conj_commute
        split: prod.splits cong: conj_cong)
  also have "\<dots> = map ((\<lambda>(g, sc, oo, n). n) \<circ> (\<lambda>(k, me). (first_part (me_name me), mm_scope (me_meta me), mm_owner_only (me_meta me), Some (JStr (me_name me)))))
       (filter (\<lambda>(k, me). in_group grp (first_part (me_name me)) \<and> open_to p me) reg)"
    by (rule filter_by_shape [OF build_entries_shape, where Q = "\<lambda>(g, sc, oo, n). in_group grp g \<and> \<not> isl (allow p sc oo)"]) auto
  finally show ?thesis .
qed

lemma registry_ok_entry:
  assumes "registry_ok reg" and "(k, me) \<in> set reg"
  shows "me_name me = k" and "map_of reg k = Some me"
  using assms by (auto simp: registry_ok_def list_all_iff)

lemma open_entries:
  assumes "registry_ok reg"
  shows "filter (\<lambda>(k, me). in_group grp (first_part (me_name me)) \<and> open_to p me) reg =
    filter (\<lambda>x. in_group grp (first_part (fst x)) \<and> (\<exists>me. map_of reg (fst x) = Some me \<and>
      allow p (mm_scope (me_meta me)) (mm_owner_only (me_meta me)) = Inr ())) reg"
proof (rule filter_cong [OF refl])
  fix x assume "x \<in> set reg"
  moreover obtain k me where x: "x = (k, me)" by fastforce
  ultimately have "me_name me = k" "map_of reg k = Some me" using registry_ok_entry [OF assms] by blast+
  then show "(case x of (k, me) \<Rightarrow> in_group grp (first_part (me_name me)) \<and> open_to p me) =
      (in_group grp (first_part (fst x)) \<and> (\<exists>me. map_of reg (fst x) = Some me \<and>
        allow p (mm_scope (me_meta me)) (mm_owner_only (me_meta me)) = Inr ()))"
    by (cases "allow p (mm_scope (me_meta me)) (mm_owner_only (me_meta me))") (simp_all add: x split: option.splits)
qed

text \<open>
  What discovery shows a caller is what dispatch lets it call: the document lists, in the order
  of the table, exactly the registered methods (of the group asked for) whose invocation by this
  caller is not refused at the gate.
\<close>

theorem discovery_matches_dispatch:
  assumes "registry_ok (en_registry en)"
  shows "documented_names (document (build_discovery (en_registry en) title version) p grp) =
    map (Some \<circ> JStr) (filter (\<lambda>k. (case grp of None \<Rightarrow> True | Some g \<Rightarrow> first_part k = g) \<and>
        (\<exists>me. map_of (en_registry en) k = Some me \<and> allow p (mm_scope (me_meta me)) (mm_owner_only (me_meta me)) = Inr ()))
      (map fst (en_registry en)))"
proof -
  have eq: "map ((\<lambda>(g, sc, oo, n). n) \<circ> (\<lambda>(k, me). (first_part (me_name me), mm_scope (me_meta me), mm_owner_only (me_meta me), Some (JStr (me_name me))))) xs =
      map (Some \<circ> JStr \<circ> fst) xs" if "set xs \<subseteq> set (en_registry en)" for xs
    using that registry_ok_entry(1) [OF assms] by (intro map_cong) (auto split: prod.splits)
  show ?thesis
    unfolding documented_filter open_entries [OF assms] filter_map comp_def [of _ fst]
    by (subst eq) (auto simp: comp_def)
qed

lemma discovery_matches_dispatch_witness:
  "documented_names (document (build_discovery (en_registry demo_engine) [] []) (owner_principal\<lparr>pr_scopes := [Read]\<rparr>) None) = []"
proof -
  have "registry_ok (en_registry demo_engine)"
    by (simp add: registry_ok_def demo_engine_def demo_method_def meta_example_def meta_new_def valid_name_def
        name_word_def lower_letter_def digit_char_def contains_def)
  from discovery_matches_dispatch [OF this] show ?thesis
    by (simp add: demo_engine_def demo_method_def meta_example_def meta_new_def allow_def has_scope_def)
qed

text \<open>The references of a schema: every \<open>$ref\<close> text, at any depth.\<close>

primrec schema_refs :: "json \<Rightarrow> string list" where
  "schema_refs JNull = []"
| "schema_refs (JBool b) = []"
| "schema_refs (JNum t) = []"
| "schema_refs (JStr s) = []"
| "schema_refs (JArr vs) = concat (map schema_refs vs)"
| "schema_refs (JObj kvs) =
     List.map_filter (\<lambda>(k, v). if k = ''$ref'' then (case v of JStr t \<Rightarrow> Some t | _ \<Rightarrow> None) else None) kvs
     @ concat (map snd (map (map_prod id schema_refs) kvs))"

lemma retarget_text_prefix: "\<not> prefix ''#/$defs/'' (retarget_text t)"
  by (auto simp: retarget_text_def strip_prefix_def split: if_splits)

lemma retarget_refs: "t \<in> set (schema_refs (retarget v)) \<Longrightarrow> \<not> prefix ''#/$defs/'' t"
proof (induction v arbitrary: t)
  case (JObj kvs)
  have inner: "schema_refs (snd (retarget_member (k, retarget v))) = schema_refs (retarget v)" for k v
    by (auto simp: retarget_member_def split: json.splits)
  from JObj.prems show ?case
  proof (simp only: retarget.simps schema_refs.simps set_append Un_iff, elim disjE, goal_cases)
    case 1
    then obtain k v where "(k, v) \<in> set kvs" and m: "retarget_member (k, retarget v) = (''$ref'', JStr t)"
      by (auto simp: List.map_filter_def split: if_splits json.splits)
    then show ?case using retarget_text_prefix
      by (auto simp: retarget_member_def split: json.splits if_splits)
  next
    case 2
    then obtain k v where "(k, v) \<in> set kvs" "t \<in> set (schema_refs (snd (retarget_member (k, retarget v))))"
      by auto
    with JObj.IH [of "(k, v)" v t] inner show ?case by simp
  qed
qed auto

text \<open>
  A lifted schema stands on its own: no reference in it, nor in the definitions lifted out of
  it, still points into \<open>$defs\<close>, at any depth.
\<close>

theorem lifted_schema_closed:
  assumes "lift_schema schema schemas = (out, schemas')"
    and "\<forall>(k, v)\<in>set schemas. \<forall>t\<in>set (schema_refs v). \<not> prefix ''#/$defs/'' t"
  shows "(\<forall>t\<in>set (schema_refs out). \<not> prefix ''#/$defs/'' t) \<and>
    (\<forall>(k, v)\<in>set schemas'. \<forall>t\<in>set (schema_refs v). \<not> prefix ''#/$defs/'' t)"
proof -
  have upd: "\<forall>(k, v)\<in>set (fold (\<lambda>(name, def) ss. AList.update name (retarget def) ss) defs ss).
      \<forall>t\<in>set (schema_refs v). \<not> prefix ''#/$defs/'' t"
    if "\<forall>(k, v)\<in>set ss. \<forall>t\<in>set (schema_refs v). \<not> prefix ''#/$defs/'' t" for defs ss
    using that
  proof (induction defs arbitrary: ss)
    case (Cons d defs)
    have "set (AList.update (fst d) (retarget (snd d)) ss) \<subseteq> insert (fst d, retarget (snd d)) (set ss)"
      by (induction ss) auto
    with Cons.prems retarget_refs have "\<forall>(k, v)\<in>set (AList.update (fst d) (retarget (snd d)) ss).
        \<forall>t\<in>set (schema_refs v). \<not> prefix ''#/$defs/'' t" by fastforce
    from Cons.IH [OF this] show ?case by (simp add: case_prod_unfold)
  qed simp
  from assms(1) have "\<exists>v. out = retarget v"
    by (cases schema) (simp_all only: lift_schema_def json.case prod.inject, blast+)
  moreover from assms(1) consider "schemas' = schemas"
    | defs where "schemas' = fold (\<lambda>(name, def) ss. AList.update name (retarget def) ss) defs schemas"
    by (auto simp: lift_schema_def split: json.splits option.splits)
  then have "\<forall>(k, v)\<in>set schemas'. \<forall>t\<in>set (schema_refs v). \<not> prefix ''#/$defs/'' t"
  proof cases
    case 1
    with assms(2) show ?thesis by (simp only:)
  next
    case 2
    show ?thesis unfolding 2 by (rule upd [OF assms(2)])
  qed
  ultimately show ?thesis using retarget_refs by blast
qed

lemma lifted_schema_closed_witness:
  "\<not> prefix ''#/$defs/'' (hd (schema_refs (fst (lift_schema (JObj [(''$ref'', JStr ''#/$defs/Path'')]) []))))"
proof -
  have "lift_schema (JObj [(''$ref'', JStr ''#/$defs/Path'')]) [] =
      (JObj [(''$ref'', JStr ''#/components/schemas/Path'')], [])"
    by (simp add: lift_schema_def obj_remove_def obj_get_def retarget_member_def retarget_text_def strip_prefix_def)
  with lifted_schema_closed [OF this] show ?thesis by (simp add: List.map_filter_def)
qed

end
