(* ===== verification/Context_Planner.thy ===== *)
theory Context_Planner
  imports Prelude "HOL-Library.Product_Lexorder" "HOL-Library.Word"
begin

text \<open>
  context/src/planner.rs with the knobs of context/src/policy.rs it reads: which segments go into
  the next prompt. Token counts are \<open>usize\<close> and stay far below its bound, so they are naturals;
  \<open>saturating_sub\<close> is subtraction on them. A score is the bit pattern of its \<open>f32\<close>: \<open>total_cmp\<close>
  compares \<open>total_key\<close>, and \<open>f32::max\<close> agrees with it but for NaN (which a JSON number cannot be)
  and for the sign of zero (which Rust leaves open).
\<close>

record policy =
  po_recent_turns_min :: nat
  po_evidence_cap_pct :: nat
  po_suggestions_cap_pct :: nat
  po_margin_pct :: nat
  po_compact_at_pct :: nat
  po_compact_to_pct :: nat

definition default_policy :: policy where
  "default_policy = \<lparr>po_recent_turns_min = 2, po_evidence_cap_pct = 15, po_suggestions_cap_pct = 5,
     po_margin_pct = 2, po_compact_at_pct = 85, po_compact_to_pct = 60\<rparr>"

datatype seg_class = Protected | History | ToolsInUse | Evidence | Suggestions | Evictable

record segment =
  sg_id :: string
  sg_tokens :: nat
  sg_class :: seg_class
  sg_turn :: nat
  sg_group :: "string option"
  sg_score :: "32 word"

record plan_input =
  pi_n_ctx :: nat
  pi_reserve_answer :: nat
  pi_thinking :: bool
  pi_segments :: "segment list"
  pi_policy :: policy

record plan_decision =
  pd_id :: string
  pd_tokens :: nat
  pd_why :: string

record plan =
  pl_n_ctx :: nat
  pl_reserve_answer :: nat
  pl_reserve_thinking :: nat
  pl_margin :: nat
  pl_protected :: nat
  pl_available :: nat
  pl_used :: nat
  pl_kept :: "plan_decision list"
  pl_dropped :: "plan_decision list"
  pl_recent_short :: bool
  pl_needs_compaction :: bool

datatype plan_error = ProtectedDoesNotFit nat nat

datatype rank = RRecent | RTools | REvidence | RSuggestions | ROlder | REvictable

fun rank_no :: "rank \<Rightarrow> nat" where
  "rank_no RRecent = 0"
| "rank_no RTools = 1"
| "rank_no REvidence = 2"
| "rank_no RSuggestions = 3"
| "rank_no ROlder = 4"
| "rank_no REvictable = 5"

fun rank_why :: "rank \<Rightarrow> string" where
  "rank_why RRecent = ''recent turn''"
| "rank_why RTools = ''tool in use''"
| "rank_why REvidence = ''evidence''"
| "rank_why RSuggestions = ''suggestion''"
| "rank_why ROlder = ''older turn''"
| "rank_why REvictable = ''evictable''"

lemma rank_no_inj [simp]: "rank_no a = rank_no b \<longleftrightarrow> a = b"
  by (cases a; cases b) simp_all

instantiation rank :: linorder
begin

definition less_eq_rank :: "rank \<Rightarrow> rank \<Rightarrow> bool" where
  "less_eq_rank a b \<longleftrightarrow> rank_no a \<le> rank_no b"

definition less_rank :: "rank \<Rightarrow> rank \<Rightarrow> bool" where
  "less_rank a b \<longleftrightarrow> rank_no a < rank_no b"

instance
  by intro_classes (auto simp: less_eq_rank_def less_rank_def)

end

record plan_unit =
  un_rank :: rank
  un_score :: "32 word"
  un_turn :: nat
  un_key :: string
  un_members :: "nat list"
  un_tokens :: nat

definition percent :: "nat \<Rightarrow> nat \<Rightarrow> nat" where
  "percent value pct = value * pct div 100"

definition total_key :: "32 word \<Rightarrow> int" where
  "total_key w = (if sint w < 0 then - 1 - (sint w + 2 ^ 31) else sint w)"

definition score_max :: "32 word \<Rightarrow> 32 word \<Rightarrow> 32 word" where
  "score_max a b = (if total_key a < total_key b then b else a)"

section \<open>The steps of the plan\<close>

definition margin_of :: "plan_input \<Rightarrow> nat" where
  "margin_of inp = percent (pi_n_ctx inp) (po_margin_pct (pi_policy inp))"

definition thinking_of :: "plan_input \<Rightarrow> nat" where
  "thinking_of inp = (if pi_thinking inp then pi_reserve_answer inp else 0)"

definition room_of :: "plan_input \<Rightarrow> nat" where
  "room_of inp = pi_n_ctx inp - (pi_reserve_answer inp + thinking_of inp + margin_of inp)"

definition protected_of :: "plan_input \<Rightarrow> nat" where
  "protected_of inp = sum_list (map sg_tokens (filter (\<lambda>s. sg_class s = Protected) (pi_segments inp)))"

text \<open>The newest turns that have history: sorted, newest first, without repetitions.\<close>

definition history_turns :: "segment list \<Rightarrow> nat list" where
  "history_turns segs = remdups_adj (rev (sort (map sg_turn (filter (\<lambda>s. sg_class s = History) segs))))"

definition recent_turns :: "plan_input \<Rightarrow> nat list" where
  "recent_turns inp = take (po_recent_turns_min (pi_policy inp)) (history_turns (pi_segments inp))"

definition group_key :: "segment \<Rightarrow> string" where
  "group_key s = (case sg_group s of None \<Rightarrow> sg_id s | Some g \<Rightarrow> g)"

definition turn_key :: "nat \<Rightarrow> string" where
  "turn_key n = ''turn '' @ nat_text n"

definition unit_slot :: "nat list \<Rightarrow> segment \<Rightarrow> (rank \<times> string) option" where
  "unit_slot recent s =
     (case sg_class s of
        Protected \<Rightarrow> None
      | History \<Rightarrow> Some (if sg_turn s \<in> set recent then RRecent else ROlder, turn_key (sg_turn s))
      | ToolsInUse \<Rightarrow> Some (RTools, group_key s)
      | Evidence \<Rightarrow> Some (REvidence, group_key s)
      | Suggestions \<Rightarrow> Some (RSuggestions, group_key s)
      | Evictable \<Rightarrow> Some (REvictable, group_key s))"

definition join_unit :: "nat \<Rightarrow> segment \<Rightarrow> plan_unit \<Rightarrow> plan_unit" where
  "join_unit i s u =
     u\<lparr>un_score := score_max (un_score u) (sg_score s), un_turn := max (un_turn u) (sg_turn s),
       un_members := un_members u @ [i], un_tokens := un_tokens u + sg_tokens s\<rparr>"

definition add_segment ::
  "nat list \<Rightarrow> nat \<times> segment \<Rightarrow> (rank \<times> string, plan_unit) hmap \<Rightarrow> (rank \<times> string, plan_unit) hmap" where
  "add_segment recent = (\<lambda>(i, s) units.
     case unit_slot recent s of
       None \<Rightarrow> units
     | Some (r, k) \<Rightarrow>
         let u = (case hm_get (r, k) units of
                    Some u \<Rightarrow> u
                  | None \<Rightarrow> \<lparr>un_rank = r, un_score = sg_score s, un_turn = sg_turn s, un_key = k, un_members = [], un_tokens = 0\<rparr>)
         in hm_insert (r, k) (join_unit i s u) units)"

definition group_units :: "nat list \<Rightarrow> segment list \<Rightarrow> (rank \<times> string, plan_unit) hmap" where
  "group_units recent segs = fold (add_segment recent) (enumerate 0 segs) []"

text \<open>Recent turns go newest first, the other ranks by relevance and then recency.\<close>

definition unit_order :: "plan_unit \<Rightarrow> rank \<times> int \<times> int \<times> string" where
  "unit_order u = (un_rank u, if un_rank u = RRecent then 0 else - total_key (un_score u), - int (un_turn u), un_key u)"

definition ordered_units :: "nat list \<Rightarrow> segment list \<Rightarrow> plan_unit list" where
  "ordered_units recent segs = sort_key unit_order (map snd (sort_key fst (group_units recent segs)))"

definition rank_cap :: "policy \<Rightarrow> nat \<Rightarrow> rank \<Rightarrow> nat option" where
  "rank_cap po available r =
     (case r of
        REvidence \<Rightarrow> Some (percent available (po_evidence_cap_pct po))
      | RSuggestions \<Rightarrow> Some (percent available (po_suggestions_cap_pct po))
      | _ \<Rightarrow> None)"

record admission =
  ad_used :: nat
  ad_by_rank :: "rank \<Rightarrow> nat"
  ad_outcome :: "(bool \<times> string) option list"
  ad_recent :: nat
  ad_needed :: bool

definition refusal :: "policy \<Rightarrow> nat \<Rightarrow> plan_unit \<Rightarrow> admission \<Rightarrow> string option" where
  "refusal po available u st =
     (case rank_cap po available (un_rank u) of
        Some cap \<Rightarrow>
          if ad_by_rank st (un_rank u) + un_tokens u > cap
          then Some (rank_why (un_rank u) @ '': over its cap of '' @ nat_text cap @ '' tokens'')
          else if ad_used st + un_tokens u > available
          then Some (rank_why (un_rank u) @ '': no room ('' @ nat_text (un_tokens u) @ '' tokens, ''
                 @ nat_text (available - ad_used st) @ '' left)'')
          else None
      | None \<Rightarrow>
          if ad_used st + un_tokens u > available
          then Some (rank_why (un_rank u) @ '': no room ('' @ nat_text (un_tokens u) @ '' tokens, ''
                 @ nat_text (available - ad_used st) @ '' left)'')
          else None)"

definition set_members :: "nat list \<Rightarrow> 'a \<Rightarrow> 'a option list \<Rightarrow> 'a option list" where
  "set_members ms x out = fold (\<lambda>i out. out[i := Some x]) ms out"

definition admit :: "policy \<Rightarrow> nat \<Rightarrow> plan_unit \<Rightarrow> admission \<Rightarrow> admission" where
  "admit po available u st =
     (case refusal po available u st of
        None \<Rightarrow>
          st\<lparr>ad_used := ad_used st + un_tokens u,
             ad_by_rank := (ad_by_rank st)(un_rank u := ad_by_rank st (un_rank u) + un_tokens u),
             ad_recent := (if un_rank u = RRecent then ad_recent st + 1 else ad_recent st),
             ad_outcome := set_members (un_members u) (True, rank_why (un_rank u)) (ad_outcome st)\<rparr>
      | Some why \<Rightarrow>
          st\<lparr>ad_needed := (ad_needed st \<or> un_rank u \<noteq> REvictable),
             ad_outcome := set_members (un_members u) (False, why) (ad_outcome st)\<rparr>)"

definition start_admission :: "nat \<Rightarrow> admission" where
  "start_admission n = \<lparr>ad_used = 0, ad_by_rank = (\<lambda>_. 0), ad_outcome = replicate n None, ad_recent = 0, ad_needed = False\<rparr>"

definition admit_all :: "policy \<Rightarrow> nat \<Rightarrow> nat \<Rightarrow> plan_unit list \<Rightarrow> admission" where
  "admit_all po available n us = fold (admit po available) us (start_admission n)"

definition final_outcome :: "(bool \<times> string) option \<Rightarrow> bool \<times> string" where
  "final_outcome o' = (case o' of None \<Rightarrow> (True, ''protected'') | Some x \<Rightarrow> x)"

definition decision_of :: "segment \<times> (bool \<times> string) option \<Rightarrow> plan_decision" where
  "decision_of = (\<lambda>(s, o'). \<lparr>pd_id = sg_id s, pd_tokens = sg_tokens s, pd_why = snd (final_outcome o')\<rparr>)"

definition make_plan :: "plan_input \<Rightarrow> plan_error + plan" where
  "make_plan inp =
     (if protected_of inp > room_of inp then Inl (ProtectedDoesNotFit (protected_of inp) (room_of inp))
      else
        let available = room_of inp - protected_of inp;
            recent = recent_turns inp;
            po = pi_policy inp;
            st = admit_all po available (length (pi_segments inp)) (ordered_units recent (pi_segments inp));
            decided = zip (pi_segments inp) (ad_outcome st)
        in Inr \<lparr>pl_n_ctx = pi_n_ctx inp, pl_reserve_answer = pi_reserve_answer inp, pl_reserve_thinking = thinking_of inp,
             pl_margin = margin_of inp, pl_protected = protected_of inp, pl_available = available,
             pl_used = ad_used st,
             pl_kept = map decision_of (filter (\<lambda>(s, o'). fst (final_outcome o')) decided),
             pl_dropped = map decision_of (filter (\<lambda>(s, o'). \<not> fst (final_outcome o')) decided),
             pl_recent_short = (ad_recent st < length recent),
             pl_needs_compaction = (ad_needed st \<or>
               (available > 0 \<and> ad_used st * 100 \<ge> available * po_compact_at_pct po))\<rparr>)"

section \<open>Units\<close>

text \<open>The positions of the segments that go in one slot.\<close>

definition slot_at :: "nat list \<Rightarrow> segment list \<Rightarrow> nat \<Rightarrow> (rank \<times> string) option" where
  "slot_at recent segs i = unit_slot recent (segs ! i)"

definition members_of :: "nat list \<Rightarrow> segment list \<Rightarrow> rank \<times> string \<Rightarrow> nat list" where
  "members_of recent segs k = filter (\<lambda>i. slot_at recent segs i = Some k) [0 ..< length segs]"

definition tokens_at :: "segment list \<Rightarrow> nat \<Rightarrow> nat" where
  "tokens_at segs i = sg_tokens (segs ! i)"

lemma members_of_snoc:
  "members_of recent (segs @ [s]) k = members_of recent segs k @ (if unit_slot recent s = Some k then [length segs] else [])"
  by (auto simp: members_of_def slot_at_def nth_append intro: filter_cong)

lemma group_units_snoc:
  "group_units recent (segs @ [s]) = add_segment recent (length segs, s) (group_units recent segs)"
  by (simp add: group_units_def enumerate_append_eq)

lemma tokens_at_snoc: "i < length segs \<Longrightarrow> tokens_at (segs @ [s]) i = tokens_at segs i"
  by (simp add: tokens_at_def nth_append)

lemma sum_tokens_snoc:
  "sum_list (map (tokens_at (segs @ [s])) (members_of recent segs k)) = sum_list (map (tokens_at segs) (members_of recent segs k))"
  by (intro arg_cong [where f = sum_list] map_cong) (auto simp: members_of_def tokens_at_snoc)

lemma group_units_get:
  "hm_ok (group_units recent segs) \<and>
   (case hm_get k (group_units recent segs) of
      None \<Rightarrow> members_of recent segs k = []
    | Some u \<Rightarrow> members_of recent segs k \<noteq> [] \<and> un_members u = members_of recent segs k \<and> un_rank u = fst k \<and>
        un_key u = snd k \<and> un_tokens u = sum_list (map (tokens_at segs) (members_of recent segs k)))"
proof (induction segs rule: rev_induct)
  case Nil
  then show ?case by (simp add: group_units_def members_of_def)
next
  case (snoc s segs)
  note IH = conjunct2 [OF snoc.IH] and ok = conjunct1 [OF snoc.IH]
  show ?case
  proof (cases "unit_slot recent s")
    case None
    with IH ok show ?thesis
      by (auto simp: group_units_snoc add_segment_def members_of_snoc sum_tokens_snoc split: option.splits)
  next
    case (Some j)
    obtain r q where j: "j = (r, q)" by fastforce
    show ?thesis
    proof (cases "k = j")
      case False
      with IH ok Some j show ?thesis
        by (auto simp: group_units_snoc add_segment_def Let_def members_of_snoc sum_tokens_snoc split: option.splits)
    next
      case True
      have "tokens_at (segs @ [s]) (length segs) = sg_tokens s" by (simp add: tokens_at_def)
      with IH ok Some j True show ?thesis
        by (auto simp: group_units_snoc add_segment_def Let_def members_of_snoc sum_tokens_snoc join_unit_def
            split: option.splits)
    qed
  qed
qed

text \<open>What the planner relies on of its units: each is a whole slot, and no two share a position.\<close>

definition units_of :: "nat list \<Rightarrow> segment list \<Rightarrow> plan_unit list \<Rightarrow> bool" where
  "units_of recent segs us \<longleftrightarrow>
     (\<forall>u\<in>set us. un_members u = members_of recent segs (un_rank u, un_key u) \<and>
        un_tokens u = sum_list (map (tokens_at segs) (un_members u))) \<and>
     distinct (map (\<lambda>u. (un_rank u, un_key u)) us) \<and>
     (\<forall>i < length segs. \<forall>k. slot_at recent segs i = Some k \<longrightarrow> (\<exists>u\<in>set us. (un_rank u, un_key u) = k))"

lemma ordered_units_of: "units_of recent segs (ordered_units recent segs)"
proof -
  let ?g = "group_units recent segs"
  have ok: "hm_ok ?g" by (rule conjunct1 [OF group_units_get])
  have set_us: "set (ordered_units recent segs) = snd ` set ?g" by (simp add: ordered_units_def)
  have entry: "un_members u = members_of recent segs k \<and> (un_rank u, un_key u) = k \<and>
      un_tokens u = sum_list (map (tokens_at segs) (un_members u))" if "(k, u) \<in> set ?g" for k u
    using that conjunct2 [OF group_units_get [of recent segs k]] hm_get_in_set [OF ok, of k u] by auto
  have "distinct (map (\<lambda>u. (un_rank u, un_key u)) (ordered_units recent segs))"
  proof -
    have eq: "map ((\<lambda>u. (un_rank u, un_key u)) \<circ> snd) ?g = map fst ?g"
      using entry by (intro map_cong) (auto simp: comp_def)
    have sorted: "distinct (map f (sort_key g xs)) = distinct (map f xs)" for f :: "'a \<Rightarrow> 'b" and g :: "'a \<Rightarrow> 'c::linorder" and xs
      by (simp add: distinct_map)
    have "distinct (map ((\<lambda>u. (un_rank u, un_key u)) \<circ> snd) (sort_key fst ?g))"
      unfolding distinct_map set_sort distinct_sort using ok eq
      by (metis distinct_map hm_ok_def)
    then show ?thesis
      by (simp only: ordered_units_def distinct_map set_sort distinct_sort list.map_comp [symmetric] set_map)
  qed
  moreover have "\<exists>u\<in>set (ordered_units recent segs). (un_rank u, un_key u) = k"
    if "i < length segs" "slot_at recent segs i = Some k" for i k
  proof -
    have "i \<in> set (members_of recent segs k)" using that by (simp add: members_of_def)
    then obtain u where "hm_get k ?g = Some u"
      using conjunct2 [OF group_units_get [of recent segs k]] by (cases "hm_get k ?g") auto
    then have ku: "(k, u) \<in> set ?g" by (rule hm_get_set)
    then have "u \<in> snd ` set ?g" by (rule image_eqI [rotated]) simp
    with entry [OF ku] set_us show ?thesis by blast
  qed
  moreover have "un_members u = members_of recent segs (un_rank u, un_key u) \<and>
      un_tokens u = sum_list (map (tokens_at segs) (un_members u))" if "u \<in> set (ordered_units recent segs)" for u
  proof -
    from that set_us obtain k where "(k, u) \<in> set ?g" by auto
    from entry [OF this] show ?thesis by metis
  qed
  ultimately show ?thesis unfolding units_of_def by blast
qed

lemma unit_members_disjoint:
  assumes "units_of recent segs us" and "u \<in> set us" and "v \<in> set us" and "i \<in> set (un_members u)" and "i \<in> set (un_members v)"
  shows "(un_rank u, un_key u) = (un_rank v, un_key v)"
  using assms unfolding units_of_def by (auto simp: members_of_def)

lemma unit_members_less:
  "units_of recent segs us \<Longrightarrow> u \<in> set us \<Longrightarrow> i \<in> set (un_members u) \<Longrightarrow>
     i < length segs \<and> slot_at recent segs i = Some (un_rank u, un_key u)"
  unfolding units_of_def by (auto simp: members_of_def)

lemma unit_members_distinct: "units_of recent segs us \<Longrightarrow> u \<in> set us \<Longrightarrow> distinct (un_members u)"
  unfolding units_of_def by (auto simp: members_of_def)

section \<open>Admission\<close>

lemma nth_set_members:
  "length (set_members ms x out) = length out"
  "i < length out \<Longrightarrow> set_members ms x out ! i = (if i \<in> set ms then Some x else out ! i)"
  unfolding set_members_def by (induction ms arbitrary: out) (auto simp: nth_list_update)

definition kept_at :: "(bool \<times> string) option list \<Rightarrow> nat \<Rightarrow> bool" where
  "kept_at out i \<longleftrightarrow> (\<exists>why. out ! i = Some (True, why))"

definition kept_tokens :: "segment list \<Rightarrow> (nat \<Rightarrow> bool) \<Rightarrow> (bool \<times> string) option list \<Rightarrow> nat" where
  "kept_tokens segs P out = (\<Sum>i | i < length segs \<and> P i \<and> kept_at out i. tokens_at segs i)"

definition rank_at :: "nat list \<Rightarrow> segment list \<Rightarrow> nat \<Rightarrow> rank option" where
  "rank_at recent segs i = map_option fst (slot_at recent segs i)"

text \<open>The state after some of the units: what is counted is what is kept, each unit has one answer,
  and a refused one did not fit under its cap or in what was left.\<close>

definition admitted :: "policy \<Rightarrow> nat \<Rightarrow> nat list \<Rightarrow> segment list \<Rightarrow> plan_unit list \<Rightarrow> admission \<Rightarrow> bool" where
  "admitted po available recent segs seen st \<longleftrightarrow>
     length (ad_outcome st) = length segs \<and>
     ad_used st \<le> available \<and>
     (\<forall>r cap. rank_cap po available r = Some cap \<longrightarrow> ad_by_rank st r \<le> cap) \<and>
     ad_used st = kept_tokens segs (\<lambda>_. True) (ad_outcome st) \<and>
     (\<forall>r. ad_by_rank st r = kept_tokens segs (\<lambda>i. rank_at recent segs i = Some r) (ad_outcome st)) \<and>
     (\<forall>i < length segs. i \<notin> \<Union> (set ` un_members ` set seen) \<longrightarrow> ad_outcome st ! i = None) \<and>
     (\<forall>u\<in>set seen. \<exists>keep why. (\<forall>i\<in>set (un_members u). ad_outcome st ! i = Some (keep, why)) \<and>
        (\<not> keep \<longrightarrow> ad_used st + un_tokens u > available \<or>
           (\<exists>cap. rank_cap po available (un_rank u) = Some cap \<and> ad_by_rank st (un_rank u) + un_tokens u > cap)))"

lemma admittedI:
  assumes "length (ad_outcome st) = length segs" and "ad_used st \<le> available"
    and "\<And>r cap. rank_cap po available r = Some cap \<Longrightarrow> ad_by_rank st r \<le> cap"
    and "ad_used st = kept_tokens segs (\<lambda>_. True) (ad_outcome st)"
    and "\<And>r. ad_by_rank st r = kept_tokens segs (\<lambda>i. rank_at recent segs i = Some r) (ad_outcome st)"
    and "\<And>i. i < length segs \<Longrightarrow> i \<notin> \<Union> (set ` un_members ` set seen) \<Longrightarrow> ad_outcome st ! i = None"
    and "\<And>u. u \<in> set seen \<Longrightarrow> \<exists>keep why. (\<forall>i\<in>set (un_members u). ad_outcome st ! i = Some (keep, why)) \<and>
        (\<not> keep \<longrightarrow> ad_used st + un_tokens u > available \<or>
           (\<exists>cap. rank_cap po available (un_rank u) = Some cap \<and> ad_by_rank st (un_rank u) + un_tokens u > cap))"
  shows "admitted po available recent segs seen st"
  unfolding admitted_def using assms by blast

lemma admittedD:
  assumes "admitted po available recent segs seen st"
  shows "length (ad_outcome st) = length segs" and "ad_used st \<le> available"
    and "rank_cap po available r = Some cap \<Longrightarrow> ad_by_rank st r \<le> cap"
    and "ad_used st = kept_tokens segs (\<lambda>_. True) (ad_outcome st)"
    and "ad_by_rank st r = kept_tokens segs (\<lambda>i. rank_at recent segs i = Some r) (ad_outcome st)"
    and "i < length segs \<Longrightarrow> i \<notin> \<Union> (set ` un_members ` set seen) \<Longrightarrow> ad_outcome st ! i = None"
    and "u \<in> set seen \<Longrightarrow> \<exists>keep why. (\<forall>i\<in>set (un_members u). ad_outcome st ! i = Some (keep, why)) \<and>
        (\<not> keep \<longrightarrow> ad_used st + un_tokens u > available \<or>
           (\<exists>cap. rank_cap po available (un_rank u) = Some cap \<and> ad_by_rank st (un_rank u) + un_tokens u > cap))"
  using assms unfolding admitted_def by blast+

lemma admitted_start:
  "admitted po available recent segs [] (start_admission (length segs))"
  by (simp add: admitted_def start_admission_def kept_tokens_def kept_at_def cong: conj_cong)

lemma kept_tokens_add:
  assumes "\<And>i. i \<in> set ms \<Longrightarrow> i < length segs \<and> out ! i = None" and "distinct ms" and "length out = length segs"
  shows "kept_tokens segs P (set_members ms (True, why) out) =
    kept_tokens segs P out + sum_list (map (tokens_at segs) (filter P ms))"
proof -
  have "{i. i < length segs \<and> P i \<and> kept_at (set_members ms (True, why) out) i} =
      {i. i < length segs \<and> P i \<and> kept_at out i} \<union> set (filter P ms)"
    using assms by (auto simp: kept_at_def nth_set_members split: if_splits)
  moreover have "{i. i < length segs \<and> P i \<and> kept_at out i} \<inter> set (filter P ms) = {}"
    using assms(1) by (auto simp: kept_at_def)
  moreover have "sum_list (map (tokens_at segs) (filter P ms)) = sum (tokens_at segs) (set (filter P ms))"
    using assms(2) by (simp only: sum.distinct_set_conv_list distinct_filter)
  ultimately show ?thesis by (simp add: kept_tokens_def sum.union_disjoint)
qed

lemma kept_tokens_drop:
  assumes "\<And>i. i \<in> set ms \<Longrightarrow> i < length segs \<and> out ! i = None" and "length out = length segs"
  shows "kept_tokens segs P (set_members ms (False, why) out) = kept_tokens segs P out"
  unfolding kept_tokens_def
  by (rule sum.cong) (use assms in \<open>auto simp: kept_at_def nth_set_members split: if_splits\<close>)

lemma refusal_None:
  "refusal po available u st = None \<Longrightarrow> ad_used st + un_tokens u \<le> available \<and>
     (\<forall>cap. rank_cap po available (un_rank u) = Some cap \<longrightarrow> ad_by_rank st (un_rank u) + un_tokens u \<le> cap)"
  by (auto simp: refusal_def split: option.splits if_splits)

lemma refusal_Some:
  "refusal po available u st = Some why \<Longrightarrow> ad_used st + un_tokens u > available \<or>
     (\<exists>cap. rank_cap po available (un_rank u) = Some cap \<and> ad_by_rank st (un_rank u) + un_tokens u > cap)"
  by (auto simp: refusal_def split: option.splits if_splits)

lemma admitted_step:
  assumes units: "units_of recent segs us" and us: "us = seen @ u # later"
    and st: "admitted po available recent segs seen st"
  shows "admitted po available recent segs (seen @ [u]) (admit po available u st)"
proof -
  have u: "u \<in> set us" using us by simp
  have len: "length (ad_outcome st) = length segs" using st by (simp add: admitted_def)
  have apart: "i \<notin> set (un_members v)" if "i \<in> set (un_members u)" "v \<in> set seen" for i v
  proof
    assume "i \<in> set (un_members v)"
    then have "(un_rank u, un_key u) = (un_rank v, un_key v)"
      using unit_members_disjoint [OF units u, of v i] that us by simp
    with units us that(2) show False unfolding units_of_def by force
  qed
  have free: "i < length segs \<and> ad_outcome st ! i = None" if "i \<in> set (un_members u)" for i
    using that unit_members_less [OF units u that] apart [OF that] st unfolding admitted_def by auto
  have dist: "distinct (un_members u)" by (rule unit_members_distinct [OF units u])
  have tok: "sum_list (map (tokens_at segs) (un_members u)) = un_tokens u"
    using units u by (simp add: units_of_def)
  have rank: "filter (\<lambda>i. rank_at recent segs i = Some r) (un_members u) = (if r = un_rank u then un_members u else [])" for r
    using unit_members_less [OF units u] by (auto simp: rank_at_def filter_id_conv filter_empty_conv)
  have other: "set_members (un_members u) x (ad_outcome st) ! i = ad_outcome st ! i"
    if "v \<in> set seen" "i \<in> set (un_members v)" for v i x
    using that apart unit_members_less [OF units, of v i] us len by (auto simp: nth_set_members)
  have mine: "set_members (un_members u) x (ad_outcome st) ! i = Some x" if "i \<in> set (un_members u)" for i x
    using that free len by (simp add: nth_set_members)
  have none: "set_members (un_members u) x (ad_outcome st) ! i = None"
    if "i < length segs" "i \<notin> \<Union> (set ` un_members ` set (seen @ [u]))" for i x
    using that st len unfolding admitted_def by (simp add: nth_set_members)
  show ?thesis
  proof (cases "refusal po available u st")
    case None
    note ok = refusal_None [OF None]
    let ?st = "admit po available u st"
    have st': "ad_used ?st = ad_used st + un_tokens u"
      "ad_by_rank ?st = (ad_by_rank st)(un_rank u := ad_by_rank st (un_rank u) + un_tokens u)"
      "ad_outcome ?st = set_members (un_members u) (True, rank_why (un_rank u)) (ad_outcome st)"
      using None by (simp_all add: admit_def)
    have seen: "\<exists>keep why. (\<forall>i\<in>set (un_members v). ad_outcome ?st ! i = Some (keep, why)) \<and>
        (\<not> keep \<longrightarrow> ad_used ?st + un_tokens v > available \<or>
           (\<exists>cap. rank_cap po available (un_rank v) = Some cap \<and> ad_by_rank ?st (un_rank v) + un_tokens v > cap))"
      if v: "v \<in> set (seen @ [u])" for v
    proof (cases "v \<in> set seen")
      case True
      with st obtain keep why where k: "\<forall>i\<in>set (un_members v). ad_outcome st ! i = Some (keep, why)"
        and d: "\<not> keep \<longrightarrow> ad_used st + un_tokens v > available \<or>
           (\<exists>cap. rank_cap po available (un_rank v) = Some cap \<and> ad_by_rank st (un_rank v) + un_tokens v > cap)"
        unfolding admitted_def by metis
      have "ad_by_rank st r \<le> ad_by_rank ?st r" "ad_used st \<le> ad_used ?st" for r by (simp_all add: st')
      with d have "\<not> keep \<longrightarrow> ad_used ?st + un_tokens v > available \<or>
           (\<exists>cap. rank_cap po available (un_rank v) = Some cap \<and> ad_by_rank ?st (un_rank v) + un_tokens v > cap)"
        by (meson add_le_mono1 less_le_trans)
      with k other [OF True] show ?thesis unfolding st'(3) by metis
    next
      case False
      with v have "v = u" by simp
      with mine show ?thesis unfolding st'(3) by blast
    qed
    have add: "kept_tokens segs P (ad_outcome ?st) =
        kept_tokens segs P (ad_outcome st) + sum_list (map (tokens_at segs) (filter P (un_members u)))" for P
      unfolding st'(3) by (rule kept_tokens_add [OF free dist len])
    have by_rank: "ad_by_rank ?st r = kept_tokens segs (\<lambda>i. rank_at recent segs i = Some r) (ad_outcome ?st)" for r
    proof -
      have "ad_by_rank st r = kept_tokens segs (\<lambda>i. rank_at recent segs i = Some r) (ad_outcome st)"
        using st by (simp add: admitted_def)
      then show ?thesis unfolding add rank by (cases "r = un_rank u") (simp_all add: st'(2) tok)
    qed
    show ?thesis
    proof (rule admittedI)
      show "ad_by_rank ?st r \<le> cap" if "rank_cap po available r = Some cap" for r cap
        using that ok admittedD(3) [OF st that] by (cases "r = un_rank u") (auto simp: st'(2))
      show "ad_used ?st = kept_tokens segs (\<lambda>_. True) (ad_outcome ?st)"
        unfolding add using admittedD(4) [OF st] by (simp add: st'(1) tok)
      show "ad_by_rank ?st r = kept_tokens segs (\<lambda>i. rank_at recent segs i = Some r) (ad_outcome ?st)" for r
        by (rule by_rank)
      show "\<exists>keep why. (\<forall>i\<in>set (un_members v). ad_outcome ?st ! i = Some (keep, why)) \<and>
          (\<not> keep \<longrightarrow> ad_used ?st + un_tokens v > available \<or>
           (\<exists>cap. rank_cap po available (un_rank v) = Some cap \<and> ad_by_rank ?st (un_rank v) + un_tokens v > cap))"
        if "v \<in> set (seen @ [u])" for v
        by (rule seen [OF that])
    qed (use ok len none in \<open>simp_all add: st'(1,3) nth_set_members(1)\<close>)
  next
    case (Some why)
    let ?st = "admit po available u st"
    have st': "ad_used ?st = ad_used st" "ad_by_rank ?st = ad_by_rank st"
      "ad_outcome ?st = set_members (un_members u) (False, why) (ad_outcome st)"
      using Some by (simp_all add: admit_def)
    have seen: "\<exists>keep why. (\<forall>i\<in>set (un_members v). ad_outcome ?st ! i = Some (keep, why)) \<and>
        (\<not> keep \<longrightarrow> ad_used ?st + un_tokens v > available \<or>
           (\<exists>cap. rank_cap po available (un_rank v) = Some cap \<and> ad_by_rank ?st (un_rank v) + un_tokens v > cap))"
      if v: "v \<in> set (seen @ [u])" for v
    proof (cases "v \<in> set seen")
      case True
      from admittedD(7) [OF st True] obtain keep why
        where k: "\<forall>i\<in>set (un_members v). ad_outcome st ! i = Some (keep, why)"
          and d: "\<not> keep \<longrightarrow> ad_used st + un_tokens v > available \<or>
           (\<exists>cap. rank_cap po available (un_rank v) = Some cap \<and> ad_by_rank st (un_rank v) + un_tokens v > cap)" by blast
      show ?thesis
        by (rule exI [of _ keep], rule exI [of _ why]) (use k d other [OF True] in \<open>simp add: st'\<close>)
    next
      case False
      with v have "v = u" by simp
      with mine refusal_Some [OF Some] show ?thesis unfolding st' by blast
    qed
    show ?thesis
      by (rule admittedI, use seen in \<open>simp_all add: st' nth_set_members(1) len none kept_tokens_drop [OF free len]\<close>)
         (use admittedD(2-5) [OF st] in simp_all)
  qed
qed

lemma admitted_all:
  assumes "units_of recent segs us"
  shows "admitted po available recent segs us (admit_all po available (length segs) us)"
proof -
  have "admitted po available recent segs seen (fold (admit po available) seen (start_admission (length segs)))"
    if "us = seen @ later" for seen later
    using that
  proof (induction seen arbitrary: later rule: rev_induct)
    case Nil
    show ?case by (simp add: admitted_start)
  next
    case (snoc u seen)
    with admitted_step [OF assms, of seen u later] show ?case by simp
  qed
  then show ?thesis unfolding admit_all_def by simp
qed

section \<open>The whole plan\<close>

abbreviation (input) available_of :: "plan_input \<Rightarrow> nat" where
  "available_of inp \<equiv> room_of inp - protected_of inp"

abbreviation (input) units_in :: "plan_input \<Rightarrow> plan_unit list" where
  "units_in inp \<equiv> ordered_units (recent_turns inp) (pi_segments inp)"

definition plan_state :: "plan_input \<Rightarrow> admission" where
  "plan_state inp = admit_all (pi_policy inp) (available_of inp) (length (pi_segments inp)) (units_in inp)"

text \<open>Whether the segment at a position stays, and the tokens that stay with a property.\<close>

definition stays :: "plan_input \<Rightarrow> nat \<Rightarrow> bool" where
  "stays inp i \<longleftrightarrow> fst (final_outcome (ad_outcome (plan_state inp) ! i))"

definition stay_tokens :: "plan_input \<Rightarrow> (segment \<Rightarrow> bool) \<Rightarrow> nat" where
  "stay_tokens inp P = (\<Sum>i | i < length (pi_segments inp) \<and> P (pi_segments inp ! i) \<and> stays inp i.
     sg_tokens (pi_segments inp ! i))"

lemma plan_admitted:
  "admitted (pi_policy inp) (available_of inp) (recent_turns inp) (pi_segments inp) (units_in inp) (plan_state inp)"
  unfolding plan_state_def by (rule admitted_all [OF ordered_units_of])

lemma slot_None: "slot_at recent segs i = None \<longleftrightarrow> sg_class (segs ! i) = Protected"
  by (simp add: slot_at_def unit_slot_def split: seg_class.splits)

lemma outcome_cases:
  assumes "i < length (pi_segments inp)"
  shows "if sg_class (pi_segments inp ! i) = Protected then ad_outcome (plan_state inp) ! i = None
    else \<exists>u\<in>set (units_in inp). i \<in> set (un_members u) \<and>
      slot_at (recent_turns inp) (pi_segments inp) i = Some (un_rank u, un_key u) \<and> ad_outcome (plan_state inp) ! i \<noteq> None"
proof (cases "slot_at (recent_turns inp) (pi_segments inp) i")
  case None
  then have "i \<notin> \<Union> (set ` un_members ` set (units_in inp))"
    using unit_members_less [OF ordered_units_of, of _ "recent_turns inp" "pi_segments inp" i] by auto
  with admittedD(6) [OF plan_admitted assms] None show ?thesis by (simp add: slot_None)
next
  case (Some k)
  with ordered_units_of [of "recent_turns inp" "pi_segments inp"] assms obtain u
    where u: "u \<in> set (units_in inp)" "(un_rank u, un_key u) = k" unfolding units_of_def by blast
  with ordered_units_of [of "recent_turns inp" "pi_segments inp"] Some assms have "i \<in> set (un_members u)"
    unfolding units_of_def by (auto simp: members_of_def)
  with admittedD(7) [OF plan_admitted u(1)] u Some have
    "\<exists>u\<in>set (units_in inp). i \<in> set (un_members u) \<and>
      slot_at (recent_turns inp) (pi_segments inp) i = Some (un_rank u, un_key u) \<and> ad_outcome (plan_state inp) ! i \<noteq> None"
    by (metis option.distinct(1))
  with Some slot_None [of "recent_turns inp" "pi_segments inp" i] show ?thesis by auto
qed

lemma stays_iff:
  assumes "i < length (pi_segments inp)"
  shows "stays inp i \<longleftrightarrow> sg_class (pi_segments inp ! i) = Protected \<or> kept_at (ad_outcome (plan_state inp)) i"
  using outcome_cases [OF assms]
  by (cases "ad_outcome (plan_state inp) ! i") (auto simp: stays_def final_outcome_def kept_at_def split: if_splits)

lemma make_plan_Inr:
  "make_plan inp = Inr p \<Longrightarrow> protected_of inp \<le> room_of inp \<and> pl_available p = available_of inp \<and>
     pl_protected p = protected_of inp \<and> pl_used p = ad_used (plan_state inp) \<and>
     pl_recent_short p = (ad_recent (plan_state inp) < length (recent_turns inp)) \<and>
     pl_kept p = map decision_of (filter (\<lambda>(s, o'). fst (final_outcome o')) (zip (pi_segments inp) (ad_outcome (plan_state inp)))) \<and>
     pl_dropped p = map decision_of (filter (\<lambda>(s, o'). \<not> fst (final_outcome o')) (zip (pi_segments inp) (ad_outcome (plan_state inp)))) \<and>
     pl_reserve_answer p = pi_reserve_answer inp \<and> pl_reserve_thinking p = thinking_of inp \<and> pl_margin p = margin_of inp \<and>
     pl_needs_compaction p = (ad_needed (plan_state inp) \<or>
       (available_of inp > 0 \<and> ad_used (plan_state inp) * 100 \<ge> available_of inp * po_compact_at_pct (pi_policy inp)))"
  by (auto simp: make_plan_def Let_def plan_state_def split: if_splits)

lemma zip_index: "length xs = length ys \<Longrightarrow> zip xs ys = map (\<lambda>i. (xs ! i, ys ! i)) [0 ..< length xs]"
  by (rule nth_equalityI) simp_all

lemma stays_fun: "stays inp = (\<lambda>i. fst (final_outcome (ad_outcome (plan_state inp) ! i)))"
  by (rule ext) (simp add: stays_def)

lemma plan_parts:
  assumes "make_plan inp = Inr p"
  shows "pl_kept p = map (\<lambda>i. decision_of (pi_segments inp ! i, ad_outcome (plan_state inp) ! i))
      (filter (stays inp) [0 ..< length (pi_segments inp)])"
    and "pl_dropped p = map (\<lambda>i. decision_of (pi_segments inp ! i, ad_outcome (plan_state inp) ! i))
      (filter (\<lambda>i. \<not> stays inp i) [0 ..< length (pi_segments inp)])"
proof -
  have z: "zip (pi_segments inp) (ad_outcome (plan_state inp)) =
      map (\<lambda>i. (pi_segments inp ! i, ad_outcome (plan_state inp) ! i)) [0 ..< length (pi_segments inp)]"
    by (rule zip_index) (simp add: admittedD(1) [OF plan_admitted])
  have k: "pl_kept p = map decision_of (filter (\<lambda>(s, o'). fst (final_outcome o')) (zip (pi_segments inp) (ad_outcome (plan_state inp))))"
    and d: "pl_dropped p = map decision_of (filter (\<lambda>(s, o'). \<not> fst (final_outcome o')) (zip (pi_segments inp) (ad_outcome (plan_state inp))))"
    using make_plan_Inr [OF assms] by blast+
  show "pl_kept p = map (\<lambda>i. decision_of (pi_segments inp ! i, ad_outcome (plan_state inp) ! i))
      (filter (stays inp) [0 ..< length (pi_segments inp)])"
    unfolding k z stays_fun by (simp add: filter_map comp_def)
  show "pl_dropped p = map (\<lambda>i. decision_of (pi_segments inp ! i, ad_outcome (plan_state inp) ! i))
      (filter (\<lambda>i. \<not> stays inp i) [0 ..< length (pi_segments inp)])"
    unfolding d z stays_fun by (simp add: filter_map comp_def)
qed

lemma sum_list_positions: "sum_list (map f (filter P [0 ..< n])) = (\<Sum>i | i < n \<and> P i. f i :: nat)"
proof -
  have "sum_list (map f (filter P [0 ..< n])) = sum f (set (filter P [0 ..< n]))"
    by (simp only: sum.distinct_set_conv_list distinct_filter distinct_upt)
  then show ?thesis by (simp add: conj_commute)
qed

lemma protected_tokens:
  "protected_of inp = stay_tokens inp (\<lambda>s. sg_class s = Protected)"
proof -
  have "protected_of inp = sum_list (map (tokens_at (pi_segments inp))
      (filter (\<lambda>i. sg_class (pi_segments inp ! i) = Protected) [0 ..< length (pi_segments inp)]))"
    unfolding protected_of_def tokens_at_def
    by (subst map_nth [of "pi_segments inp", symmetric], subst filter_map) (simp add: comp_def)
  also have "\<dots> = stay_tokens inp (\<lambda>s. sg_class s = Protected)"
    unfolding sum_list_positions stay_tokens_def tokens_at_def
    by (rule sum.cong) (auto simp: stays_iff)
  finally show ?thesis .
qed

lemma used_tokens: "ad_used (plan_state inp) = stay_tokens inp (\<lambda>s. sg_class s \<noteq> Protected)"
proof -
  have "\<not> kept_at (ad_outcome (plan_state inp)) i"
    if "i < length (pi_segments inp)" "sg_class (pi_segments inp ! i) = Protected" for i
    using outcome_cases [OF that(1)] that(2) by (simp add: kept_at_def)
  then show ?thesis
    unfolding admittedD(4) [OF plan_admitted] kept_tokens_def stay_tokens_def tokens_at_def
    by (intro sum.cong) (auto simp: stays_iff)
qed

lemma rank_tokens:
  "ad_by_rank (plan_state inp) r = (\<Sum>i | i < length (pi_segments inp) \<and>
     rank_at (recent_turns inp) (pi_segments inp) i = Some r \<and> stays inp i. sg_tokens (pi_segments inp ! i))"
proof -
  have "kept_at (ad_outcome (plan_state inp)) i = stays inp i"
    if "i < length (pi_segments inp)" "rank_at (recent_turns inp) (pi_segments inp) i = Some r" for i
  proof -
    from that(2) have "slot_at (recent_turns inp) (pi_segments inp) i \<noteq> None" by (auto simp: rank_at_def)
    then show ?thesis using that(1) by (simp add: stays_iff slot_None)
  qed
  then show ?thesis
    unfolding admittedD(5) [OF plan_admitted] kept_tokens_def tokens_at_def
    by (intro sum.cong) auto
qed

lemma stay_tokens_split:
  "stay_tokens inp P + stay_tokens inp (\<lambda>s. \<not> P s) = stay_tokens inp (\<lambda>_. True)"
proof -
  let ?n = "length (pi_segments inp)"
  have "{i. i < ?n \<and> stays inp i} = {i. i < ?n \<and> P (pi_segments inp ! i) \<and> stays inp i} \<union>
      {i. i < ?n \<and> \<not> P (pi_segments inp ! i) \<and> stays inp i}" by auto
  moreover have "{i. i < ?n \<and> P (pi_segments inp ! i) \<and> stays inp i} \<inter>
      {i. i < ?n \<and> \<not> P (pi_segments inp ! i) \<and> stays inp i} = {}" by auto
  ultimately show ?thesis by (simp add: stay_tokens_def sum.union_disjoint [symmetric])
qed

text \<open>
  C5. A plan never spends more than there is: the tokens of all kept segments are the protected
  ones plus \<open>used\<close>, \<open>used\<close> is at most \<open>available\<close>, and together with what is reserved for the
  answer, the thinking and the margin they fit in the context. The evidence and the suggestions
  that are kept each stay within their percentage of \<open>available\<close>. It fails exactly when the
  protected segments alone do not fit.
\<close>

theorem plan_within_budget:
  "case make_plan inp of
     Inl (ProtectedDoesNotFit needed room) \<Rightarrow> needed = protected_of inp \<and> room = room_of inp \<and> needed > room
   | Inr p \<Rightarrow>
       protected_of inp \<le> room_of inp \<and>
       sum_list (map pd_tokens (pl_kept p)) = pl_protected p + pl_used p \<and> pl_used p \<le> pl_available p \<and>
       (pl_protected p + pl_used p > 0 \<longrightarrow>
          pl_protected p + pl_used p + pl_reserve_answer p + pl_reserve_thinking p + pl_margin p \<le> pi_n_ctx inp) \<and>
       stay_tokens inp (\<lambda>s. sg_class s = Evidence) \<le> percent (pl_available p) (po_evidence_cap_pct (pi_policy inp)) \<and>
       stay_tokens inp (\<lambda>s. sg_class s = Suggestions) \<le> percent (pl_available p) (po_suggestions_cap_pct (pi_policy inp))"
proof (cases "make_plan inp")
  case (Inl e)
  then show ?thesis by (auto simp: make_plan_def Let_def split: if_splits)
next
  case (Inr p)
  note p = make_plan_Inr [OF Inr]
  have "sum_list (map pd_tokens (pl_kept p)) = stay_tokens inp (\<lambda>_. True)"
    unfolding plan_parts [OF Inr] list.map_comp comp_def
    by (simp add: decision_of_def sum_list_positions stay_tokens_def)
  then have 1: "sum_list (map pd_tokens (pl_kept p)) = pl_protected p + pl_used p"
    using stay_tokens_split [of inp "\<lambda>s. sg_class s = Protected"] p protected_tokens [of inp] used_tokens [of inp] by simp
  have 2: "pl_used p \<le> pl_available p" using admittedD(2) [OF plan_admitted, of inp] p by simp
  have 3: "pl_protected p + pl_used p + pl_reserve_answer p + pl_reserve_thinking p + pl_margin p \<le> pi_n_ctx inp"
    if "pl_protected p + pl_used p > 0"
  proof -
    have "pl_protected p + pl_used p \<le> room_of inp" using 2 p by linarith
    moreover from that this have "room_of inp > 0" by linarith
    ultimately show ?thesis using p by (simp add: room_of_def)
  qed
  have rank: "rank_at (recent_turns inp) (pi_segments inp) i = Some REvidence \<longleftrightarrow> sg_class (pi_segments inp ! i) = Evidence"
    "rank_at (recent_turns inp) (pi_segments inp) i = Some RSuggestions \<longleftrightarrow> sg_class (pi_segments inp ! i) = Suggestions" for i
    by (auto simp: rank_at_def slot_at_def unit_slot_def split: seg_class.splits)
  have 4: "stay_tokens inp (\<lambda>s. sg_class s = Evidence) \<le> percent (pl_available p) (po_evidence_cap_pct (pi_policy inp))"
    "stay_tokens inp (\<lambda>s. sg_class s = Suggestions) \<le> percent (pl_available p) (po_suggestions_cap_pct (pi_policy inp))"
    using admittedD(3) [OF plan_admitted, of inp REvidence] admittedD(3) [OF plan_admitted, of inp RSuggestions] p
    unfolding rank_tokens rank stay_tokens_def by (simp_all add: rank_cap_def)
  show ?thesis using Inr p 1 2 3 4 by simp
qed

lemma plan_within_budget_witness:
  "\<exists>p. make_plan \<lparr>pi_n_ctx = 100, pi_reserve_answer = 10, pi_thinking = True, pi_segments =
       [\<lparr>sg_id = ''s'', sg_tokens = 8, sg_class = Protected, sg_turn = 0, sg_group = None, sg_score = 0\<rparr>],
       pi_policy = default_policy\<rparr> = Inr p \<and> pl_used p \<le> pl_available p \<and> pl_protected p = 8"
  using plan_within_budget [of "\<lparr>pi_n_ctx = 100, pi_reserve_answer = 10, pi_thinking = True, pi_segments =
       [\<lparr>sg_id = ''s'', sg_tokens = 8, sg_class = Protected, sg_turn = 0, sg_group = None, sg_score = 0\<rparr>],
       pi_policy = default_policy\<rparr>"]
  by (simp add: make_plan_def Let_def protected_of_def room_of_def thinking_of_def margin_of_def percent_def default_policy_def)

text \<open>
  Nothing is cut and nothing is reordered: the kept and the left-out segments are the two
  complementary parts of the input in input order, with their own token counts; the protected ones
  are all kept; and segments of one unit (one turn of history, one group of the rest) share one fate.
\<close>

theorem plan_keeps_units_whole:
  assumes "make_plan inp = Inr p"
  shows "map (\<lambda>d. (pd_id d, pd_tokens d)) (pl_kept p) =
      map (\<lambda>i. (sg_id (pi_segments inp ! i), sg_tokens (pi_segments inp ! i))) (filter (stays inp) [0 ..< length (pi_segments inp)]) \<and>
    map (\<lambda>d. (pd_id d, pd_tokens d)) (pl_dropped p) =
      map (\<lambda>i. (sg_id (pi_segments inp ! i), sg_tokens (pi_segments inp ! i))) (filter (\<lambda>i. \<not> stays inp i) [0 ..< length (pi_segments inp)]) \<and>
    (\<forall>i < length (pi_segments inp). sg_class (pi_segments inp ! i) = Protected \<longrightarrow> stays inp i) \<and>
    (\<forall>i < length (pi_segments inp). \<forall>j < length (pi_segments inp).
       slot_at (recent_turns inp) (pi_segments inp) i = slot_at (recent_turns inp) (pi_segments inp) j \<longrightarrow>
       stays inp i = stays inp j)"
proof -
  have "stays inp i = stays inp j"
    if ij: "i < length (pi_segments inp)" "j < length (pi_segments inp)"
      and slot: "slot_at (recent_turns inp) (pi_segments inp) i = slot_at (recent_turns inp) (pi_segments inp) j" for i j
  proof (cases "slot_at (recent_turns inp) (pi_segments inp) i")
    case None
    with slot have "sg_class (pi_segments inp ! i) = Protected" "sg_class (pi_segments inp ! j) = Protected"
      by (metis slot_None)+
    with ij show ?thesis by (simp add: stays_iff)
  next
    case (Some k)
    with ordered_units_of [of "recent_turns inp" "pi_segments inp"] ij(1) obtain u
      where u: "u \<in> set (units_in inp)" "(un_rank u, un_key u) = k" unfolding units_of_def by blast
    then have "un_members u = members_of (recent_turns inp) (pi_segments inp) k"
      using ordered_units_of [of "recent_turns inp" "pi_segments inp"] unfolding units_of_def by blast
    with Some slot ij have "i \<in> set (un_members u)" "j \<in> set (un_members u)" by (simp_all add: members_of_def)
    with admittedD(7) [OF plan_admitted u(1)] have "ad_outcome (plan_state inp) ! i = ad_outcome (plan_state inp) ! j" by metis
    then show ?thesis by (simp add: stays_def)
  qed
  moreover have "stays inp i" if "i < length (pi_segments inp)" "sg_class (pi_segments inp ! i) = Protected" for i
    using that by (simp add: stays_iff)
  moreover have "map (\<lambda>d. (pd_id d, pd_tokens d)) (map (\<lambda>i. decision_of (pi_segments inp ! i, ad_outcome (plan_state inp) ! i)) ps) =
      map (\<lambda>i. (sg_id (pi_segments inp ! i), sg_tokens (pi_segments inp ! i))) ps" for ps
    by (simp add: decision_of_def)
  ultimately show ?thesis unfolding plan_parts [OF assms] by blast
qed

lemma plan_keeps_units_whole_witness:
  "\<exists>p. make_plan \<lparr>pi_n_ctx = 100, pi_reserve_answer = 10, pi_thinking = True, pi_segments =
       [\<lparr>sg_id = ''s'', sg_tokens = 8, sg_class = Protected, sg_turn = 0, sg_group = None, sg_score = 0\<rparr>],
       pi_policy = default_policy\<rparr> = Inr p \<and> map pd_id (pl_kept p) = [''s'']"
proof -
  let ?i = "\<lparr>pi_n_ctx = 100, pi_reserve_answer = 10, pi_thinking = True, pi_segments =
       [\<lparr>sg_id = ''s'', sg_tokens = 8, sg_class = Protected, sg_turn = 0, sg_group = None, sg_score = 0\<rparr>],
       pi_policy = default_policy\<rparr>"
  have "\<exists>p. make_plan ?i = Inr p"
    by (simp add: make_plan_def Let_def protected_of_def room_of_def thinking_of_def margin_of_def percent_def default_policy_def)
  then obtain p where p: "make_plan ?i = Inr p" by blast
  note k = plan_keeps_units_whole [OF p]
  have "stays ?i 0" using conjunct1 [OF conjunct2 [OF conjunct2 [OF k]]] by simp
  with conjunct1 [OF k] have "map (\<lambda>d. (pd_id d, pd_tokens d)) (pl_kept p) = [(''s'', 8)]" by simp
  then have "map fst (map (\<lambda>d. (pd_id d, pd_tokens d)) (pl_kept p)) = [''s'']" by simp
  then have ids: "map pd_id (pl_kept p) = [''s'']" by (simp add: comp_def)
  show ?thesis by (rule exI [of _ p], rule conjI, rule p, rule ids)
qed

definition unit_tokens :: "plan_input \<Rightarrow> nat \<Rightarrow> nat" where
  "unit_tokens inp i = (\<Sum>j | j < length (pi_segments inp) \<and>
     slot_at (recent_turns inp) (pi_segments inp) j = slot_at (recent_turns inp) (pi_segments inp) i.
     sg_tokens (pi_segments inp ! j))"

text \<open>
  Nothing is left out needlessly: a history, tool or evictable segment that is left out belongs
  to a unit that does not fit beside what the plan keeps, and left-out evidence or suggestions
  do not fit beside it or would break their cap.
\<close>

theorem plan_is_maximal:
  assumes "make_plan inp = Inr p" and "i < length (pi_segments inp)" and "\<not> stays inp i"
  shows "pl_used p + unit_tokens inp i > pl_available p \<or>
    (sg_class (pi_segments inp ! i) = Evidence \<and>
      stay_tokens inp (\<lambda>s. sg_class s = Evidence) + unit_tokens inp i > percent (pl_available p) (po_evidence_cap_pct (pi_policy inp))) \<or>
    (sg_class (pi_segments inp ! i) = Suggestions \<and>
      stay_tokens inp (\<lambda>s. sg_class s = Suggestions) + unit_tokens inp i > percent (pl_available p) (po_suggestions_cap_pct (pi_policy inp)))"
proof -
  let ?r = "recent_turns inp" and ?s = "pi_segments inp" and ?out = "ad_outcome (plan_state inp)"
  have "sg_class (?s ! i) \<noteq> Protected" using assms(2,3) by (auto simp: stays_iff)
  with outcome_cases [OF assms(2)] obtain u where u: "u \<in> set (units_in inp)" "i \<in> set (un_members u)"
    and slot: "slot_at ?r ?s i = Some (un_rank u, un_key u)" by auto
  have "\<not> kept_at ?out i" using assms(2,3) by (simp add: stays_iff)
  with admittedD(7) [OF plan_admitted u(1)] u(2)
  have no: "ad_used (plan_state inp) + un_tokens u > available_of inp \<or>
      (\<exists>cap. rank_cap (pi_policy inp) (available_of inp) (un_rank u) = Some cap \<and>
         ad_by_rank (plan_state inp) (un_rank u) + un_tokens u > cap)"
    by (auto simp: kept_at_def)
  have "un_members u = members_of ?r ?s (un_rank u, un_key u)" "un_tokens u = sum_list (map (tokens_at ?s) (un_members u))"
    using ordered_units_of [of ?r ?s] u(1) unfolding units_of_def by blast+
  then have tok: "un_tokens u = unit_tokens inp i"
    unfolding members_of_def unit_tokens_def slot by (simp add: sum_list_positions tokens_at_def)
  have rank: "rank_at ?r ?s j = Some REvidence \<longleftrightarrow> sg_class (?s ! j) = Evidence"
    "rank_at ?r ?s j = Some RSuggestions \<longleftrightarrow> sg_class (?s ! j) = Suggestions" for j
    by (auto simp: rank_at_def slot_at_def unit_slot_def split: seg_class.splits)
  have mine: "rank_at ?r ?s i = Some (un_rank u)" using slot by (simp add: rank_at_def)
  have by_rank: "ad_by_rank (plan_state inp) REvidence = stay_tokens inp (\<lambda>s. sg_class s = Evidence)"
    "ad_by_rank (plan_state inp) RSuggestions = stay_tokens inp (\<lambda>s. sg_class s = Suggestions)"
    unfolding rank_tokens rank stay_tokens_def by simp_all
  have p: "pl_available p = available_of inp" "pl_used p = ad_used (plan_state inp)"
    using make_plan_Inr [OF assms(1)] by blast+
  from no show ?thesis
  proof
    assume "\<exists>cap. rank_cap (pi_policy inp) (available_of inp) (un_rank u) = Some cap \<and>
         ad_by_rank (plan_state inp) (un_rank u) + un_tokens u > cap"
    then show ?thesis
      using mine rank [of i] by_rank tok p by (cases "un_rank u") (simp_all add: rank_cap_def)
  qed (simp add: p tok)
qed

subsection \<open>Recent turns go first\<close>

lemma admit_untouched:
  "i \<notin> \<Union> (set ` un_members ` set us) \<Longrightarrow> i < length (ad_outcome st) \<Longrightarrow>
     ad_outcome (fold (admit po av) us st) ! i = ad_outcome st ! i"
proof (induction us arbitrary: st)
  case (Cons u us)
  have "ad_outcome (admit po av u st) ! i = ad_outcome st ! i \<and> length (ad_outcome (admit po av u st)) = length (ad_outcome st)"
    using Cons.prems by (simp add: admit_def nth_set_members split: option.splits)
  with Cons show ?case by simp
qed simp

lemma admit_uncapped:
  assumes "\<And>u. u \<in> set us \<Longrightarrow> un_rank u = RRecent" and "ad_used st + sum_list (map un_tokens us) \<le> av"
    and "\<And>u i. u \<in> set us \<Longrightarrow> i \<in> set (un_members u) \<Longrightarrow> i < length (ad_outcome st)"
    and "\<And>u v i. u \<in> set us \<Longrightarrow> v \<in> set us \<Longrightarrow> u \<noteq> v \<Longrightarrow> i \<in> set (un_members u) \<Longrightarrow> i \<notin> set (un_members v)"
    and "distinct us"
  shows "ad_recent (fold (admit po av) us st) = ad_recent st + length us \<and>
    (\<forall>u\<in>set us. \<forall>i\<in>set (un_members u). kept_at (ad_outcome (fold (admit po av) us st)) i)"
  using assms
proof (induction us arbitrary: st)
  case (Cons u us)
  let ?st = "admit po av u st"
  have r: "refusal po av u st = None" using Cons.prems(1) [of u] Cons.prems(2) by (simp add: refusal_def rank_cap_def)
  have st: "ad_used ?st = ad_used st + un_tokens u" "ad_recent ?st = Suc (ad_recent st)"
    "length (ad_outcome ?st) = length (ad_outcome st)"
    "\<And>i. i \<in> set (un_members u) \<Longrightarrow> kept_at (ad_outcome ?st) i"
    using r Cons.prems(1) [of u] Cons.prems(3) [of u] by (auto simp: admit_def nth_set_members kept_at_def)
  have u: "kept_at (ad_outcome (fold (admit po av) us ?st)) i" if i: "i \<in> set (un_members u)" for i
  proof -
    have "i \<notin> \<Union> (set ` un_members ` set us)" using Cons.prems(4) [of u _ i] Cons.prems(5) i by auto
    moreover have "i < length (ad_outcome ?st)" using Cons.prems(3) [of u i] i st(3) by simp
    ultimately show ?thesis using st(4) [OF i] by (simp add: kept_at_def admit_untouched)
  qed
  have "ad_recent (fold (admit po av) us ?st) = ad_recent ?st + length us \<and>
      (\<forall>v\<in>set us. \<forall>i\<in>set (un_members v). kept_at (ad_outcome (fold (admit po av) us ?st)) i)"
  proof (rule Cons.IH)
    show "ad_used ?st + sum_list (map un_tokens us) \<le> av" using Cons.prems(2) by (simp add: st)
    show "un_rank v = RRecent" if "v \<in> set us" for v using that Cons.prems(1) by simp
    show "i < length (ad_outcome ?st)" if "v \<in> set us" "i \<in> set (un_members v)" for v i
      using that Cons.prems(3) [of v i] st(3) by simp
    show "i \<notin> set (un_members w)" if "v \<in> set us" "w \<in> set us" "v \<noteq> w" "i \<in> set (un_members v)" for v w i
      using that Cons.prems(4) [of v w i] by simp
    show "distinct us" using Cons.prems(5) by simp
  qed
  with u show ?case by (simp add: st)
qed simp

lemma recent_split:
  "sorted_wrt (\<lambda>u v. un_rank u \<le> un_rank v) us \<Longrightarrow>
     \<exists>rs rest. us = rs @ rest \<and> (\<forall>u\<in>set rs. un_rank u = RRecent) \<and> (\<forall>u\<in>set rest. un_rank u \<noteq> RRecent)"
proof (induction us)
  case (Cons u us)
  then obtain rs rest where h: "us = rs @ rest" "\<forall>u\<in>set rs. un_rank u = RRecent" "\<forall>u\<in>set rest. un_rank u \<noteq> RRecent" by auto
  show ?case
  proof (cases "un_rank u = RRecent")
    case True
    with h show ?thesis by (intro exI [of _ "u # rs"] exI [of _ rest]) simp
  next
    case False
    then have "\<forall>v\<in>set us. un_rank v \<noteq> RRecent"
      using Cons.prems by (cases "un_rank u") (auto simp: less_eq_rank_def)
    with False show ?thesis by (intro exI [of _ "[]"] exI [of _ "u # us"]) simp
  qed
qed simp

lemma recent_prefix:
  obtains rs rest where "units_in inp = rs @ rest" and "\<And>u. u \<in> set rs \<Longrightarrow> un_rank u = RRecent"
    and "\<And>u. u \<in> set rest \<Longrightarrow> un_rank u \<noteq> RRecent"
proof -
  have "sorted (map unit_order (units_in inp))" by (simp add: ordered_units_def)
  then have "sorted_wrt (\<lambda>u v. un_rank u \<le> un_rank v) (units_in inp)"
    unfolding sorted_map by (rule sorted_wrt_mono_rel [rotated]) (auto simp: unit_order_def less_eq_prod_def less_rank_def less_eq_rank_def)
  from recent_split [OF this] show thesis using that by blast
qed

text \<open>Different units share no position, so their tokens add up over the positions.\<close>

lemma units_apart:
  assumes "units_of recent segs us" and "u \<in> set us" and "v \<in> set us" and "u \<noteq> v" and "j \<in> set (un_members u)"
  shows "j \<notin> set (un_members v)"
  using unit_members_disjoint [OF assms(1-3,5)] assms unfolding units_of_def distinct_map inj_on_def by blast

lemma units_distinct: "units_of recent segs us \<Longrightarrow> distinct us"
  unfolding units_of_def distinct_map by blast

lemma unit_tokens_sum:
  assumes "units_of recent segs us" and "distinct vs" and "set vs \<subseteq> set us"
  shows "sum_list (map un_tokens vs) = (\<Sum>j\<in>\<Union> (set ` un_members ` set vs). tokens_at segs j)"
  using assms(2,3)
proof (induction vs)
  case (Cons v vs)
  have "set (un_members v) \<inter> \<Union> (set ` un_members ` set vs) = {}"
    using Cons.prems units_apart [OF assms(1), of v] by auto
  moreover have "un_tokens v = (\<Sum>j\<in>set (un_members v). tokens_at segs j)"
    using assms(1) Cons.prems unit_members_distinct [OF assms(1), of v]
    by (auto simp: units_of_def sum.distinct_set_conv_list)
  ultimately show ?case using Cons by (simp add: sum.union_disjoint)
qed simp

lemma recent_member:
  assumes "u \<in> set (units_in inp)" and "un_rank u = RRecent" and "j \<in> set (un_members u)"
  shows "j < length (pi_segments inp) \<and> sg_class (pi_segments inp ! j) = History \<and>
    sg_turn (pi_segments inp ! j) \<in> set (recent_turns inp)"
  using unit_members_less [OF ordered_units_of assms(1,3)] assms(2)
  by (auto simp: slot_at_def unit_slot_def split: seg_class.splits if_splits)

lemma length_outcome_fold:
  "length (ad_outcome (fold (admit po av) us st)) = length (ad_outcome st)"
  by (induction us arbitrary: st) (auto simp: admit_def nth_set_members split: option.splits)

text \<open>When the recent units fit together, each is kept, whatever is admitted after them.\<close>

lemma recent_units_kept:
  assumes us: "units_in inp = rs @ rest" and rs: "\<And>u. u \<in> set rs \<Longrightarrow> un_rank u = RRecent"
    and fits: "sum_list (map un_tokens rs) \<le> available_of inp" and u: "u \<in> set rs" "i \<in> set (un_members u)"
  shows "kept_at (ad_outcome (plan_state inp)) i"
proof -
  let ?st = "fold (admit (pi_policy inp) (available_of inp)) rs (start_admission (length (pi_segments inp)))"
  note units = ordered_units_of [of "recent_turns inp" "pi_segments inp"]
  have less: "j < length (pi_segments inp)" if "v \<in> set (units_in inp)" "j \<in> set (un_members v)" for v j
    using unit_members_less [OF units that] by simp
  have "\<forall>u\<in>set rs. \<forall>j\<in>set (un_members u). kept_at (ad_outcome ?st) j"
  proof (rule conjunct2 [OF admit_uncapped])
    show "j \<notin> set (un_members w)" if "v \<in> set rs" "w \<in> set rs" "v \<noteq> w" "j \<in> set (un_members v)" for v w j
      using that units_apart [OF units, of v w j] us by simp
    show "j < length (ad_outcome (start_admission (length (pi_segments inp))))" if "v \<in> set rs" "j \<in> set (un_members v)" for v j
      using less [of v j] that us by (simp add: start_admission_def)
  qed (use rs fits us units_distinct [OF units] in \<open>simp_all add: start_admission_def\<close>)
  moreover have "i \<notin> \<Union> (set ` un_members ` set rest)"
    using units_apart [OF units, of u _ i] us u units_distinct [OF units] by auto
  moreover have "i < length (ad_outcome ?st)"
    using less [of u i] us u by (simp add: length_outcome_fold start_admission_def)
  ultimately show ?thesis
    using u by (simp add: plan_state_def admit_all_def us admit_untouched kept_at_def)
qed

text \<open>
  Recent turns have priority over everything else: when the newest \<open>recent_turns_min\<close> turns of
  history fit in \<open>available\<close> together, each of their segments is kept, whatever evidence, tools or
  older turns compete for the room.
\<close>

theorem recent_turns_kept:
  assumes "(\<Sum>i | i < length (pi_segments inp) \<and> sg_class (pi_segments inp ! i) = History \<and>
      sg_turn (pi_segments inp ! i) \<in> set (recent_turns inp). sg_tokens (pi_segments inp ! i)) \<le> room_of inp - protected_of inp"
    and "i < length (pi_segments inp)" and "sg_class (pi_segments inp ! i) = History"
    and "sg_turn (pi_segments inp ! i) \<in> set (recent_turns inp)"
  shows "stays inp i"
proof -
  let ?r = "recent_turns inp" and ?s = "pi_segments inp"
  obtain rs rest where us: "units_in inp = rs @ rest" and rs: "\<And>u. u \<in> set rs \<Longrightarrow> un_rank u = RRecent"
    and rest: "\<And>u. u \<in> set rest \<Longrightarrow> un_rank u \<noteq> RRecent" using recent_prefix [of inp] by blast
  note units = ordered_units_of [of ?r ?s]
  have "sum_list (map un_tokens rs) = (\<Sum>j\<in>\<Union> (set ` un_members ` set rs). tokens_at ?s j)"
    using units_distinct [OF units] us by (intro unit_tokens_sum [OF units]) simp_all
  also have "\<dots> \<le> (\<Sum>i | i < length ?s \<and> sg_class (?s ! i) = History \<and> sg_turn (?s ! i) \<in> set ?r. tokens_at ?s i)"
    using recent_member [of _ inp] us rs by (intro sum_mono2) auto
  finally have fits: "sum_list (map un_tokens rs) \<le> available_of inp" using assms(1) by (simp add: tokens_at_def)
  have "slot_at ?r ?s i = Some (RRecent, turn_key (sg_turn (?s ! i)))"
    using assms(3,4) by (simp add: slot_at_def unit_slot_def)
  with outcome_cases [OF assms(2)] assms(3) obtain u
    where u: "u \<in> set (units_in inp)" "i \<in> set (un_members u)" "un_rank u = RRecent" by auto
  with us rest have "u \<in> set rs" by auto
  from recent_units_kept [OF us rs fits this u(2)] show ?thesis using assms(2) by (simp add: stays_iff)
qed

text \<open>Two one-segment inputs: a turn of history that fits, and an evictable block that does not.\<close>

abbreviation (input) demo_input :: "seg_class \<Rightarrow> nat \<Rightarrow> plan_input" where
  "demo_input c n \<equiv> \<lparr>pi_n_ctx = 100, pi_reserve_answer = 10, pi_thinking = False, pi_segments =
     [\<lparr>sg_id = ''s'', sg_tokens = n, sg_class = c, sg_turn = 1, sg_group = None, sg_score = 0\<rparr>],
     pi_policy = default_policy\<rparr>"

lemma recent_turns_kept_witness: "stays (demo_input History 8) 0"
  by (rule recent_turns_kept)
     (simp_all add: recent_turns_def history_turns_def default_policy_def room_of_def thinking_of_def margin_of_def
       percent_def protected_of_def cong: conj_cong)

lemma plan_is_maximal_witness:
  "\<exists>p. make_plan (demo_input Evictable 200) = Inr p \<and> pl_used p + unit_tokens (demo_input Evictable 200) 0 > pl_available p"
proof -
  let ?i = "demo_input Evictable 200"
  have u: "ordered_units (recent_turns ?i) (pi_segments ?i) =
      [\<lparr>un_rank = REvictable, un_score = 0, un_turn = 1, un_key = ''s'', un_members = [0], un_tokens = 200\<rparr>]"
    by (simp add: ordered_units_def group_units_def add_segment_def unit_slot_def group_key_def join_unit_def score_max_def
        hm_insert_def Let_def)
  have ns: "\<not> stays ?i 0"
    unfolding stays_def plan_state_def admit_all_def u
    by (simp add: admit_def refusal_def rank_cap_def start_admission_def
        room_of_def thinking_of_def margin_of_def percent_def protected_of_def default_policy_def set_members_def final_outcome_def)
  have "\<exists>p. make_plan ?i = Inr p" by (simp add: make_plan_def Let_def protected_of_def)
  then obtain p where p: "make_plan ?i = Inr p" by blast
  from plan_is_maximal [OF p _ ns] have m: "pl_used p + unit_tokens ?i 0 > pl_available p" by simp
  show ?thesis by (rule exI [of _ p], rule conjI, rule p, rule m)
qed

end
