(* ===== verification/Agent_Turn.thy ===== *)
theory Agent_Turn
  imports Prelude
begin

text \<open>
  agents/src/turn.rs: one agent turn, shared by every chat front end. A front end is a record of
  its five operations over its own state \<open>'s\<close>; a generation may fail with an error \<open>'e\<close>.
\<close>

record tool_call =
  tc_name :: string
  tc_arguments :: string
  tc_raw :: string

datatype generated = Answer string "tool_call list" | GenStopped string

datatype call_run = RunDone string | RunClient | RunStop

datatype ended =
    Answered string
  | ClientCall string tool_call
  | Stopped string
  | StepLimit

record ('s, 'e) agent =
  ag_generate :: "nat \<Rightarrow> 's \<Rightarrow> ('e + generated) \<times> 's"
  ag_call :: "tool_call \<Rightarrow> 's \<Rightarrow> call_run \<times> 's"
  ag_record_answer :: "string \<Rightarrow> tool_call list \<Rightarrow> 's \<Rightarrow> 's"
  ag_record_result :: "tool_call \<Rightarrow> string \<Rightarrow> 's \<Rightarrow> 's"
  ag_stopped :: "'s \<Rightarrow> bool"

text \<open>The calls of one answer; \<open>None\<close> when all of them ran and the turn goes on.\<close>

fun run_calls :: "('s, 'e) agent \<Rightarrow> string \<Rightarrow> tool_call list \<Rightarrow> 's \<Rightarrow> ended option \<times> 's" where
  "run_calls a said [] s = (None, s)"
| "run_calls a said (c # cs) s =
     (if ag_stopped a s then (Some (Stopped said), s)
      else case ag_call a c s of
        (RunDone result, s') \<Rightarrow> run_calls a said cs (ag_record_result a c result s')
      | (RunClient, s') \<Rightarrow> (Some (ClientCall said c), s')
      | (RunStop, s') \<Rightarrow> (Some (Stopped said), s'))"

fun run_from :: "('s, 'e) agent \<Rightarrow> nat \<Rightarrow> nat \<Rightarrow> 's \<Rightarrow> ('e + ended) \<times> 's" where
  "run_from a step 0 s = (Inr StepLimit, s)"
| "run_from a step (Suc left) s =
     (if ag_stopped a s then (Inr (Stopped []), s)
      else case ag_generate a step s of
        (Inl e, s') \<Rightarrow> (Inl e, s')
      | (Inr (GenStopped said), s') \<Rightarrow> (Inr (Stopped said), s')
      | (Inr (Answer said calls), s') \<Rightarrow>
          if calls = [] then (Inr (Answered said), s')
          else case run_calls a said calls (ag_record_answer a said calls s') of
            (Some e, s'') \<Rightarrow> (Inr e, s'')
          | (None, s'') \<Rightarrow> run_from a (Suc step) left s'')"

definition run_turn :: "('s, 'e) agent \<Rightarrow> nat \<Rightarrow> 's \<Rightarrow> ('e + ended) \<times> 's" where
  "run_turn a max_steps s = run_from a 0 max_steps s"

section \<open>The transcript of a turn\<close>

text \<open>Any front end with a log of what the turn asked of it, in order.\<close>

datatype turn_event =
    EGenerate nat
  | EAnswer string "tool_call list"
  | ECall tool_call
  | EResult tool_call string

definition logged :: "('s, 'e) agent \<Rightarrow> ('s \<times> turn_event list, 'e) agent" where
  "logged a =
     \<lparr>ag_generate = (\<lambda>n (s, l). case ag_generate a n s of (g, s') \<Rightarrow> (g, s', l @ [EGenerate n])),
      ag_call = (\<lambda>c (s, l). case ag_call a c s of (r, s') \<Rightarrow> (r, s', l @ [ECall c])),
      ag_record_answer = (\<lambda>said cs (s, l). (ag_record_answer a said cs s, l @ [EAnswer said cs])),
      ag_record_result = (\<lambda>c r (s, l). (ag_record_result a c r s, l @ [EResult c r])),
      ag_stopped = (\<lambda>(s, l). ag_stopped a s)\<rparr>"

text \<open>The calls of an answer with their results, and a whole step.\<close>

definition results_log :: "(tool_call \<times> string) list \<Rightarrow> turn_event list" where
  "results_log crs = concat (map (\<lambda>(c, r). [ECall c, EResult c r]) crs)"

definition step_log :: "nat \<Rightarrow> string \<times> (tool_call \<times> string) list \<Rightarrow> turn_event list" where
  "step_log n = (\<lambda>(said, crs). [EGenerate n, EAnswer said (map fst crs)] @ results_log crs)"

definition steps_log :: "nat \<Rightarrow> (string \<times> (tool_call \<times> string) list) list \<Rightarrow> turn_event list" where
  "steps_log n blocks = concat (map (\<lambda>(k, b). step_log k b) (enumerate n blocks))"

text \<open>How the last step looks for each way a turn ends.\<close>

definition last_log :: "nat \<Rightarrow> 'e + ended \<Rightarrow> turn_event list \<Rightarrow> bool" where
  "last_log n res tail \<longleftrightarrow>
     (case res of
        Inl e \<Rightarrow> tail = [EGenerate n]
      | Inr (Answered said) \<Rightarrow> tail = [EGenerate n]
      | Inr StepLimit \<Rightarrow> tail = []
      | Inr (ClientCall said c) \<Rightarrow> \<exists>crs later. tail = [EGenerate n, EAnswer said (map fst crs @ c # later)] @ results_log crs @ [ECall c]
      | Inr (Stopped said) \<Rightarrow> tail = [] \<or> tail = [EGenerate n] \<or>
          (\<exists>crs c later. tail = [EGenerate n, EAnswer said (map fst crs @ c # later)] @ results_log crs \<or>
             tail = [EGenerate n, EAnswer said (map fst crs @ c # later)] @ results_log crs @ [ECall c]))"

lemma logged_simps [simp]:
  "ag_stopped (logged a) (s, l) = ag_stopped a s"
  "ag_record_answer (logged a) said cs (s, l) = (ag_record_answer a said cs s, l @ [EAnswer said cs])"
  "ag_record_result (logged a) c r (s, l) = (ag_record_result a c r s, l @ [EResult c r])"
  "ag_call (logged a) c (s, l) = (fst (ag_call a c s), snd (ag_call a c s), l @ [ECall c])"
  "ag_generate (logged a) n (s, l) = (fst (ag_generate a n s), snd (ag_generate a n s), l @ [EGenerate n])"
  by (simp_all add: logged_def split: prod.splits)

lemma run_calls_log:
  assumes "run_calls (logged a) said cs (s, l) = (res, s', l')"
  shows "\<exists>crs. case res of
      None \<Rightarrow> cs = map fst crs \<and> l' = l @ results_log crs
    | Some (Stopped t) \<Rightarrow> t = said \<and> (\<exists>c later. cs = map fst crs @ c # later \<and>
        (l' = l @ results_log crs \<or> l' = l @ results_log crs @ [ECall c]))
    | Some (ClientCall t c) \<Rightarrow> t = said \<and> (\<exists>later. cs = map fst crs @ c # later \<and> l' = l @ results_log crs @ [ECall c])
    | _ \<Rightarrow> False"
  using assms
proof (induction cs arbitrary: s l)
  case Nil
  then show ?case by (auto intro!: exI [of _ "[]"] simp: results_log_def)
next
  case (Cons c cs)
  show ?case
  proof (cases "\<not> ag_stopped a s \<and> (\<exists>r. fst (ag_call a c s) = RunDone r)")
    case True
    then obtain r where r: "\<not> ag_stopped a s" "fst (ag_call a c s) = RunDone r" by blast
    then have "run_calls (logged a) said cs (ag_record_result a c r (snd (ag_call a c s)), l @ [ECall c, EResult c r]) = (res, s', l')"
      using Cons.prems by simp
    from Cons.IH [OF this] obtain crs where h: "case res of
      None \<Rightarrow> cs = map fst crs \<and> l' = (l @ [ECall c, EResult c r]) @ results_log crs
    | Some (Stopped t) \<Rightarrow> t = said \<and> (\<exists>d later. cs = map fst crs @ d # later \<and>
        (l' = (l @ [ECall c, EResult c r]) @ results_log crs \<or> l' = (l @ [ECall c, EResult c r]) @ results_log crs @ [ECall d]))
    | Some (ClientCall t d) \<Rightarrow> t = said \<and> (\<exists>later. cs = map fst crs @ d # later \<and> l' = (l @ [ECall c, EResult c r]) @ results_log crs @ [ECall d])
    | _ \<Rightarrow> False" by blast
    have "results_log ((c, r) # crs) = [ECall c, EResult c r] @ results_log crs" by (simp add: results_log_def)
    with h show ?thesis
      by (intro exI [of _ "(c, r) # crs"]) (auto split: option.splits ended.splits)
  next
    case False
    with Cons.prems show ?thesis
      by (intro exI [of _ "[]"]) (auto simp: results_log_def split: if_splits call_run.splits)
  qed
qed

lemma run_calls_last:
  assumes "run_calls (logged a) said cs (s, l @ [EGenerate n, EAnswer said cs]) = (Some e, s', l')"
  shows "\<exists>tail. l' = l @ tail \<and> last_log n (Inr e :: 'e + ended) tail \<and> e \<noteq> StepLimit"
proof (cases e)
  case (Stopped t)
  from run_calls_log [OF assms] Stopped obtain crs c later where h: "t = said" "cs = map fst crs @ c # later"
    and l': "l' = (l @ [EGenerate n, EAnswer said cs]) @ results_log crs \<or>
      l' = (l @ [EGenerate n, EAnswer said cs]) @ results_log crs @ [ECall c]" by auto
  let ?a = "[EGenerate n, EAnswer said (map fst crs @ c # later)]"
  have "last_log n (Inr e :: 'e + ended) (?a @ results_log crs)" "last_log n (Inr e :: 'e + ended) (?a @ results_log crs @ [ECall c])"
    unfolding last_log_def Stopped h(1) by auto
  with l' show ?thesis unfolding h(2) using Stopped by (metis append_assoc ended.distinct(11))
next
  case (ClientCall t c)
  from run_calls_log [OF assms] ClientCall obtain crs later where "t = said" "cs = map fst crs @ c # later"
    "l' = (l @ [EGenerate n, EAnswer said cs]) @ results_log crs @ [ECall c]" by auto
  then show ?thesis
    by (intro exI [of _ "[EGenerate n, EAnswer said cs] @ results_log crs @ [ECall c]"]) (auto simp: last_log_def ClientCall)
qed (use run_calls_log [OF assms] in auto)

lemma run_from_log:
  assumes "run_from (logged a) n left (s, l) = (res, s', l')"
  shows "\<exists>blocks tail. l' = l @ steps_log n blocks @ tail \<and> length blocks \<le> left \<and>
    (\<forall>b\<in>set blocks. snd b \<noteq> []) \<and> last_log (n + length blocks) res tail \<and>
    (res = Inr StepLimit \<longleftrightarrow> length blocks = left)"
  using assms
proof (induction left arbitrary: n s l)
  case 0
  then show ?case by (intro exI [of _ "[]"] exI [of _ "[]"]) (auto simp: steps_log_def last_log_def)
next
  case (Suc left)
  have here: ?case if "\<exists>tail. l' = l @ tail \<and> last_log n res tail \<and> res \<noteq> Inr StepLimit"
  proof -
    from that obtain tail where "l' = l @ tail" "last_log n res tail" "res \<noteq> Inr StepLimit" by blast
    then show ?thesis by (intro exI [of _ "[]"] exI [of _ tail]) (simp add: steps_log_def)
  qed
  show ?case
  proof (cases "ag_stopped a s")
    case True
    with Suc.prems show ?thesis by (intro here) (auto simp: last_log_def)
  next
    case False
    obtain g s1 where g: "ag_generate a n s = (g, s1)" by fastforce
    show ?thesis
    proof (cases "\<exists>said calls. g = Inr (Answer said calls) \<and> calls \<noteq> []")
      case False
      then consider e where "g = Inl e" | said where "g = Inr (GenStopped said)" | said where "g = Inr (Answer said [])"
        by (cases g; cases "projr g") auto
      then have "l' = l @ [EGenerate n] \<and> last_log n res [EGenerate n] \<and> res \<noteq> Inr StepLimit"
        by cases (use Suc.prems g \<open>\<not> ag_stopped a s\<close> in \<open>auto simp: last_log_def\<close>)
      then show ?thesis by (intro here exI)
    next
      case True
      then obtain said calls where a: "g = Inr (Answer said calls)" "calls \<noteq> []" by blast
      obtain r s2 l2 where r: "run_calls (logged a) said calls (ag_record_answer a said calls s1, l @ [EGenerate n, EAnswer said calls]) = (r, s2, l2)"
        by (metis prod_cases3)
      note rl = run_calls_log [OF r]
      show ?thesis
      proof (cases r)
        case (Some e)
        with Suc.prems g a r \<open>\<not> ag_stopped a s\<close> have e: "res = Inr e" "l' = l2" by simp_all
        have "\<exists>tail. l' = l @ tail \<and> last_log n res tail \<and> res \<noteq> Inr StepLimit"
          unfolding e using run_calls_last [OF r [unfolded Some]] by simp
        then show ?thesis by (rule here)
      next
        case None
        with rl obtain crs where c: "calls = map fst crs" "l2 = l @ step_log n (said, crs)" by (auto simp: step_log_def)
        from Suc.prems g a r None \<open>\<not> ag_stopped a s\<close> have "run_from (logged a) (Suc n) left (s2, l2) = (res, s', l')" by simp
        from Suc.IH [OF this] obtain blocks tail where "l' = l2 @ steps_log (Suc n) blocks @ tail" "length blocks \<le> left"
          "\<forall>b\<in>set blocks. snd b \<noteq> []" "last_log (Suc n + length blocks) res tail" "res = Inr StepLimit \<longleftrightarrow> length blocks = left" by blast
        with c a(2) show ?thesis
          by (intro exI [of _ "(said, crs) # blocks"] exI [of _ tail]) (auto simp: steps_log_def)
      qed
    qed
  qed
qed

text \<open>
  C27. The protocol of a turn, for every front end: steps are generated in order from 0, at most
  \<open>max_steps\<close> of them; an answer with calls joins the conversation before its calls run; the calls
  run in the order written, each one's result joining the conversation before the next call runs;
  after a client call, a stop or an error nothing more runs; and the step limit is reported
  exactly when all \<open>max_steps\<close> answers made calls and every call ran.
\<close>

theorem turn_transcript:
  assumes "run_turn (logged a) max_steps (s, []) = (res, s', log)"
  shows "\<exists>blocks tail. log = steps_log 0 blocks @ tail \<and> length blocks \<le> max_steps \<and>
    (\<forall>b\<in>set blocks. snd b \<noteq> []) \<and> last_log (length blocks) res tail \<and>
    (res = Inr StepLimit \<longleftrightarrow> length blocks = max_steps)"
  using run_from_log [of a 0 max_steps s "[]"] assms by (simp add: run_turn_def)

text \<open>A front end that answers with one call in step 0 and with text in step 1.\<close>

definition demo_agent :: "(unit, unit) agent" where
  "demo_agent =
     \<lparr>ag_generate = (\<lambda>n s. (Inr (if n = 0 then Answer ''look'' [\<lparr>tc_name = ''ls'', tc_arguments = ''{}'', tc_raw = []\<rparr>] else Answer ''done'' []), s)),
      ag_call = (\<lambda>c s. (RunDone ''a.txt'', s)), ag_record_answer = (\<lambda>_ _ s. s), ag_record_result = (\<lambda>_ _ s. s), ag_stopped = (\<lambda>_. False)\<rparr>"

lemma turn_transcript_witness:
  "\<exists>log. run_turn (logged demo_agent) 3 ((), []) = (Inr (Answered ''done''), (), log) \<and>
     (\<exists>blocks tail. log = steps_log 0 blocks @ tail \<and> length blocks \<le> 3 \<and> tail = [EGenerate (length blocks)])"
proof -
  have r: "run_turn (logged demo_agent) 3 ((), []) = (Inr (Answered ''done''), (),
      [EGenerate 0, EAnswer ''look'' [\<lparr>tc_name = ''ls'', tc_arguments = ''{}'', tc_raw = []\<rparr>],
       ECall \<lparr>tc_name = ''ls'', tc_arguments = ''{}'', tc_raw = []\<rparr>,
       EResult \<lparr>tc_name = ''ls'', tc_arguments = ''{}'', tc_raw = []\<rparr> ''a.txt'', EGenerate 1])"
    by (simp add: run_turn_def eval_nat_numeral) (simp add: demo_agent_def)
  from turn_transcript [OF r] r show ?thesis by (force simp: last_log_def)
qed

end
