(* ===== verification/Context_Compaction.thy ===== *)
theory Context_Compaction
  imports Context_Planner
begin

text \<open>
  context/src/compaction.rs: what to give back when a chat fills its context, cheapest loss first.
\<close>

record step_cost =
  sc_tokens :: nat
  sc_placeholder :: nat
  sc_clearable :: bool

record turn_cost =
  tu_block :: nat
  tu_steps :: "step_cost list"

record compaction_input =
  ci_turns :: "turn_cost list"
  ci_clear_at_least :: nat
  ci_need :: nat
  ci_recent_turns_min :: nat
  ci_keep_recent_steps :: nat

record compaction_plan =
  cp_blocks :: "nat list"
  cp_results :: "(nat \<times> nat) list"
  cp_freed :: nat

definition empty_plan :: compaction_plan where
  "empty_plan = \<lparr>cp_blocks = [], cp_results = [], cp_freed = 0\<rparr>"

fun clear_blocks :: "nat \<Rightarrow> (nat \<times> turn_cost) list \<Rightarrow> compaction_plan \<Rightarrow> compaction_plan" where
  "clear_blocks target [] p = p"
| "clear_blocks target ((i, t) # ts) p =
     (if cp_freed p \<ge> target then p
      else clear_blocks target ts
        (if tu_block t > 0 then p\<lparr>cp_freed := cp_freed p + tu_block t, cp_blocks := cp_blocks p @ [i]\<rparr> else p))"

definition all_steps :: "turn_cost list \<Rightarrow> (nat \<times> nat \<times> step_cost) list" where
  "all_steps turns = concat (map (\<lambda>(t, turn). map (\<lambda>(s, step). (t, s, step)) (enumerate 0 (tu_steps turn))) (enumerate 0 turns))"

fun clear_steps :: "nat \<Rightarrow> (nat \<times> nat \<times> step_cost) list \<Rightarrow> compaction_plan \<Rightarrow> compaction_plan" where
  "clear_steps target [] p = p"
| "clear_steps target ((t, s, step) # ss) p =
     (if cp_freed p \<ge> target then p
      else clear_steps target ss
        (if sc_clearable step \<and> sc_tokens step > sc_placeholder step
         then p\<lparr>cp_freed := cp_freed p + (sc_tokens step - sc_placeholder step), cp_results := cp_results p @ [(t, s)]\<rparr>
         else p))"

definition old_turns :: "compaction_input \<Rightarrow> (nat \<times> turn_cost) list" where
  "old_turns inp = take (length (ci_turns inp) - ci_recent_turns_min inp) (enumerate 0 (ci_turns inp))"

definition old_steps :: "compaction_input \<Rightarrow> (nat \<times> nat \<times> step_cost) list" where
  "old_steps inp = (let steps = all_steps (ci_turns inp) in take (length steps - ci_keep_recent_steps inp) steps)"

definition compact_target :: "compaction_input \<Rightarrow> nat" where
  "compact_target inp = max (ci_clear_at_least inp) (ci_need inp)"

definition compact_chat :: "compaction_input \<Rightarrow> compaction_plan option" where
  "compact_chat inp =
     (let target = compact_target inp;
          p = clear_steps target (old_steps inp) (clear_blocks target (old_turns inp) empty_plan)
      in if cp_freed p \<ge> ci_clear_at_least inp then Some p else None)"

section \<open>Compaction as a greedy prefix\<close>

text \<open>What may be cleared, in the order in which it is given up, with what each piece frees.\<close>

definition eligible :: "compaction_input \<Rightarrow> ((nat + nat \<times> nat) \<times> nat) list" where
  "eligible inp =
     map (\<lambda>(i, t). (Inl i, tu_block t)) (filter (\<lambda>(i, t). tu_block t > 0) (old_turns inp)) @
     map (\<lambda>(t, s, step). (Inr (t, s), sc_tokens step - sc_placeholder step))
       (filter (\<lambda>(t, s, step). sc_clearable step \<and> sc_tokens step > sc_placeholder step) (old_steps inp))"

definition cleared :: "compaction_plan \<Rightarrow> (nat + nat \<times> nat) list" where
  "cleared p = map Inl (cp_blocks p) @ map Inr (cp_results p)"

text \<open>The shortest prefix that reaches the target, or everything.\<close>

fun shortest :: "nat \<Rightarrow> ('a \<times> nat) list \<Rightarrow> ('a \<times> nat) list" where
  "shortest target [] = []"
| "shortest target ((x, n) # xs) = (if target = 0 then [] else (x, n) # shortest (target - n) xs)"

definition freed_by :: "('a \<times> nat) list \<Rightarrow> nat" where
  "freed_by xs = sum_list (map snd xs)"

lemma freed_by_simps [simp]:
  "freed_by [] = 0" "freed_by (x # xs) = snd x + freed_by xs" "freed_by (xs @ ys) = freed_by xs + freed_by ys"
  by (simp_all add: freed_by_def)

lemma shortest_0 [simp]: "shortest 0 xs = []"
  by (cases xs) auto

lemma clear_blocks_shortest:
  "clear_blocks target ts p =
     (let k = shortest (target - cp_freed p) (map (\<lambda>(i, t). (i, tu_block t)) (filter (\<lambda>(i, t). tu_block t > 0) ts))
      in p\<lparr>cp_freed := cp_freed p + freed_by k, cp_blocks := cp_blocks p @ map fst k\<rparr>)"
proof (induction target ts p rule: clear_blocks.induct)
  case (2 target i t ts p)
  then show ?case by (cases "cp_freed p \<ge> target") (auto simp: Let_def)
qed (simp add: Let_def)

lemma clear_steps_shortest:
  "clear_steps target ss p =
     (let k = shortest (target - cp_freed p) (map (\<lambda>(t, s, step). ((t, s), sc_tokens step - sc_placeholder step))
        (filter (\<lambda>(t, s, step). sc_clearable step \<and> sc_tokens step > sc_placeholder step) ss))
      in p\<lparr>cp_freed := cp_freed p + freed_by k, cp_results := cp_results p @ map fst k\<rparr>)"
proof (induction target ss p rule: clear_steps.induct)
  case (2 target t s step ss p)
  then show ?case by (cases "cp_freed p \<ge> target") (auto simp: Let_def)
qed (simp add: Let_def)

lemma shortest_append:
  "shortest target (xs @ ys) = shortest target xs @ shortest (target - freed_by (shortest target xs)) ys"
proof (induction target xs rule: shortest.induct)
  case (2 target x n xs)
  then show ?case by (cases ys; cases "target = 0") auto
qed simp

lemma shortest_map: "shortest target (map (\<lambda>(x, n). (f x, n)) xs) = map (\<lambda>(x, n). (f x, n)) (shortest target xs)"
  by (induction target xs rule: shortest.induct) auto

lemma freed_by_map [simp]: "freed_by (map (\<lambda>(x, n). (f x, n)) xs) = freed_by xs"
  by (induction xs) auto

lemma shortest_is_prefix:
  "\<exists>k \<le> length xs. shortest target xs = take k xs \<and> (k < length xs \<longrightarrow> freed_by (take k xs) \<ge> target) \<and>
     (\<forall>j < k. freed_by (take j xs) < target)"
proof (induction target xs rule: shortest.induct)
  case (2 target x n xs)
  show ?case
  proof (cases "target = 0")
    case False
    with 2 obtain k where k: "k \<le> length xs" "shortest (target - n) xs = take k xs"
      "k < length xs \<longrightarrow> freed_by (take k xs) \<ge> target - n" "\<forall>j < k. freed_by (take j xs) < target - n" by blast
    have "\<forall>j < Suc k. freed_by (take j ((x, n) # xs)) < target"
      using False k(4) by (auto simp: less_Suc_eq_0_disj less_diff_conv add.commute)
    with k False show ?thesis by (intro exI [of _ "Suc k"]) auto
  qed auto
qed simp

lemma freed_by_shortest: "freed_by (shortest target xs) \<ge> min target (freed_by xs)"
  by (induction target xs rule: shortest.induct) auto

lemma compact_is_shortest:
  "compact_chat inp = (let k = shortest (compact_target inp) (eligible inp) in
     if freed_by k \<ge> ci_clear_at_least inp
     then Some \<lparr>cp_blocks = List.map_filter (\<lambda>(x, n). case x of Inl i \<Rightarrow> Some i | Inr _ \<Rightarrow> None) k,
            cp_results = List.map_filter (\<lambda>(x, n). case x of Inr r \<Rightarrow> Some r | Inl _ \<Rightarrow> None) k, cp_freed = freed_by k\<rparr>
     else None)"
proof -
  let ?t = "compact_target inp"
  let ?bs = "map (\<lambda>(i, t). (i, tu_block t)) (filter (\<lambda>(i, t). tu_block t > 0) (old_turns inp))"
  let ?ss = "map (\<lambda>(t, s, step). ((t, s), sc_tokens step - sc_placeholder step))
        (filter (\<lambda>(t, s, step). sc_clearable step \<and> sc_tokens step > sc_placeholder step) (old_steps inp))"
  have "eligible inp = map (\<lambda>(x, n). (Inl x, n)) ?bs @ map (\<lambda>(x, n). (Inr x, n)) ?ss"
    by (simp add: eligible_def comp_def case_prod_unfold)
  then have k: "shortest ?t (eligible inp) = map (\<lambda>(x, n). (Inl x, n)) (shortest ?t ?bs) @
      map (\<lambda>(x, n). (Inr x, n)) (shortest (?t - freed_by (shortest ?t ?bs)) ?ss)"
    by (simp only: shortest_append shortest_map freed_by_map)
  have mf: "List.map_filter (\<lambda>(x, n). case x of Inl i \<Rightarrow> Some i | Inr _ \<Rightarrow> None)
        (map (\<lambda>(x, n). (Inl x, n)) as @ map (\<lambda>(x, n). (Inr x, n)) bs) = map fst as"
    "List.map_filter (\<lambda>(x, n). case x of Inr r \<Rightarrow> Some r | Inl _ \<Rightarrow> None)
        (map (\<lambda>(x, n). (Inl x, n)) as @ map (\<lambda>(x, n). (Inr x, n)) bs) = map fst bs"
    for as :: "('a \<times> nat) list" and bs :: "('b \<times> nat) list"
    by (induction as; induction bs; auto simp: List.map_filter_def)+
  have b: "clear_blocks ?t (old_turns inp) empty_plan =
      empty_plan\<lparr>cp_freed := freed_by (shortest ?t ?bs), cp_blocks := map fst (shortest ?t ?bs)\<rparr>"
    by (subst clear_blocks_shortest) (simp add: empty_plan_def Let_def)
  show ?thesis
    unfolding compact_chat_def Let_def b clear_steps_shortest k mf by (simp add: empty_plan_def)
qed

text \<open>
  C34. Compaction gives up as little as possible, in order: the cleared pieces are a prefix of what
  may be cleared (hint blocks of old turns, oldest first, then results of old steps, oldest first),
  no shorter prefix reaches the target, and it stops short of everything only when the target is
  reached; \<open>freed_tokens\<close> is what they free. And nothing changes exactly when everything that may
  be cleared would free less than \<open>clear_at_least\<close>.
\<close>

theorem compaction_is_least_prefix:
  "case compact_chat inp of
     None \<Rightarrow> freed_by (eligible inp) < ci_clear_at_least inp
   | Some p \<Rightarrow> ci_clear_at_least inp \<le> cp_freed p \<and>
       (\<exists>k \<le> length (eligible inp). cp_freed p = freed_by (take k (eligible inp)) \<and>
          set (cleared p) = fst ` set (take k (eligible inp)) \<and>
          (k < length (eligible inp) \<longrightarrow> cp_freed p \<ge> max (ci_clear_at_least inp) (ci_need inp)) \<and>
          (\<forall>j < k. freed_by (take j (eligible inp)) < max (ci_clear_at_least inp) (ci_need inp)))"
proof -
  obtain k where k: "k \<le> length (eligible inp)" "shortest (compact_target inp) (eligible inp) = take k (eligible inp)"
    "k < length (eligible inp) \<longrightarrow> freed_by (take k (eligible inp)) \<ge> compact_target inp"
    "\<forall>j < k. freed_by (take j (eligible inp)) < compact_target inp"
    using shortest_is_prefix [of "eligible inp" "compact_target inp"] by blast
  have ge: "freed_by (take k (eligible inp)) \<ge> min (compact_target inp) (freed_by (eligible inp))"
    using freed_by_shortest [of "compact_target inp" "eligible inp"] k(2) by simp
  have split: "Inl ` set (List.map_filter (\<lambda>(x, n). case x of Inl i \<Rightarrow> Some i | Inr _ \<Rightarrow> None) xs) \<union>
      Inr ` set (List.map_filter (\<lambda>(x, n). case x of Inr r \<Rightarrow> Some r | Inl _ \<Rightarrow> None) xs) = fst ` set xs"
    for xs :: "(('a + 'b) \<times> nat) list"
  proof (induction xs)
    case (Cons x xs)
    then show ?case by (cases x; cases "fst x") (auto simp: List.map_filter_def)
  qed (simp add: List.map_filter_def)
  show ?thesis
    unfolding compact_is_shortest Let_def k(2)
    using k(1,3,4) ge split [of "take k (eligible inp)"]
    by (auto simp: compact_target_def cleared_def)
qed

lemma compaction_is_least_prefix_witness:
  "\<exists>p. compact_chat \<lparr>ci_turns = [\<lparr>tu_block = 40, tu_steps = []\<rparr>, \<lparr>tu_block = 9, tu_steps = []\<rparr>], ci_clear_at_least = 30,
      ci_need = 0, ci_recent_turns_min = 1, ci_keep_recent_steps = 2\<rparr> = Some p \<and> 30 \<le> cp_freed p"
  using compaction_is_least_prefix [of "\<lparr>ci_turns = [\<lparr>tu_block = 40, tu_steps = []\<rparr>, \<lparr>tu_block = 9, tu_steps = []\<rparr>],
      ci_clear_at_least = 30, ci_need = 0, ci_recent_turns_min = 1, ci_keep_recent_steps = 2\<rparr>"]
  by (simp add: compact_chat_def compact_target_def old_turns_def old_steps_def all_steps_def Let_def empty_plan_def)

end
