(* ===== verification/Engine_Settings.thy ===== *)
theory Engine_Settings
  imports Complex_Main Json
begin

text \<open>
  engine/core/src/settings.rs: the load settings of a model, the load parameters of one request
  that are written over them, the context setting and the thinking budget; and the unit
  conversions of engine/core/src/units.rs.

  An \<open>f64\<close> is the rational it stands for, taken exactly: the code's values are sums and products
  of a few sizes in GB, and the theorems do not depend on its rounding. A \<open>u32\<close> or \<open>u64\<close> is a natural number.
  Sizes are added without an overflow check in the code; they are added exactly here.
\<close>

section \<open>Units\<close>

definition GIB :: nat where
  "GIB = 2 ^ 30"

definition U32_MAX :: nat where
  "U32_MAX = 2 ^ 32 - 1"

definition bytes_to_gib :: "nat \<Rightarrow> rat" where
  "bytes_to_gib bytes = of_nat bytes / of_nat GIB"

text \<open>\<open>as u64\<close> saturates at both ends.\<close>

definition gib_to_bytes :: "rat \<Rightarrow> nat" where
  "gib_to_bytes gib = min (nat (round (gib * of_nat GIB))) U64_MAX"

section \<open>The settings\<close>

datatype feature_state = On | Off | FAuto

datatype kv_cache_quantization = KvAuto | Kv16 | Kv8 | Kv4

fun to_ggml_types :: "kv_cache_quantization \<Rightarrow> int \<times> int" where
  "to_ggml_types Kv4 = (2, 2)"
| "to_ggml_types Kv8 = (8, 8)"
| "to_ggml_types Kv16 = (1, 1)"
| "to_ggml_types KvAuto = (1, 1)"

definition keys_can_shift :: "int \<Rightarrow> bool" where
  "keys_can_shift type_k \<longleftrightarrow> type_k = 0 \<or> type_k = 1"

fun bytes_per_element :: "kv_cache_quantization \<Rightarrow> rat" where
  "bytes_per_element Kv4 = 18 / 32"
| "bytes_per_element Kv8 = 34 / 32"
| "bytes_per_element Kv16 = 2"
| "bytes_per_element KvAuto = 2"

datatype context_shifting_mode = ShiftAuto | ShiftOff | Minimal | Standard | Aggressive | Extreme

datatype thinking_budget = TAuto | TLow | TMedium | THigh | TMax | Tokens nat

record thinking_share =
  share :: rat
  max_tokens :: nat

record thinking_presets =
  low :: thinking_share
  medium :: thinking_share
  high :: thinking_share

definition default_presets :: thinking_presets where
  "default_presets =
     \<lparr>low = \<lparr>share = 1 / 4, max_tokens = 2048\<rparr>,
      medium = \<lparr>share = 1 / 2, max_tokens = 8192\<rparr>,
      high = \<lparr>share = 3 / 4, max_tokens = 32768\<rparr>\<rparr>"

record optimization =
  flash_attention :: feature_state
  kv_cache_quant :: kv_cache_quantization
  context_shifting :: context_shifting_mode
  custom_vram_buffer_gb :: "rat option"
  custom_ram_buffer_gb :: "rat option"
  n_gpu_layers :: "int option"
  think_mode :: feature_state
  batch_size :: "nat option"
  ubatch_size :: "nat option"
  use_mmap :: "bool option"
  custom_context_window :: "nat option"
  n_cpu_moe :: "nat option"
  offload_kqv :: "bool option"
  n_threads :: "int option"
  n_threads_batch :: "int option"
  op_offload :: "bool option"
  reasoning_effort :: thinking_budget
  presets :: thinking_presets
  reasoning_budget_message :: "string option"

definition default_optimization :: optimization where
  "default_optimization =
     \<lparr>flash_attention = FAuto, kv_cache_quant = KvAuto, context_shifting = ShiftAuto,
      custom_vram_buffer_gb = None, custom_ram_buffer_gb = None, n_gpu_layers = None, think_mode = FAuto,
      batch_size = None, ubatch_size = None, use_mmap = None, custom_context_window = None,
      n_cpu_moe = None, offload_kqv = None, n_threads = None, n_threads_batch = None, op_offload = None,
      reasoning_effort = TAuto, presets = default_presets, reasoning_budget_message = None\<rparr>"

definition resolved_threads :: "optimization \<Rightarrow> nat \<Rightarrow> int \<times> int" where
  "resolved_threads opt physical_cores =
     (let filter_pos = (\<lambda>m. case m of Some n \<Rightarrow> if n > 0 then Some n else None | None \<Rightarrow> None);
          wrap = (\<lambda>x. (x + 2 ^ 31) mod 2 ^ 32 - 2 ^ 31);
          n = case_option (wrap (int (max physical_cores 1))) id (filter_pos (n_threads opt))
      in (n, case_option n id (filter_pos (n_threads_batch opt))))"

definition resolved_batch_size :: "optimization \<Rightarrow> nat" where
  "resolved_batch_size opt = case_option 512 id (batch_size opt)"

definition resolved_ubatch_size :: "optimization \<Rightarrow> nat" where
  "resolved_ubatch_size opt = case_option 512 id (ubatch_size opt)"

definition resolved_use_mmap :: "optimization \<Rightarrow> bool" where
  "resolved_use_mmap opt = case_option True id (use_mmap opt)"

definition is_manual_placement :: "optimization \<Rightarrow> bool" where
  "is_manual_placement opt \<longleftrightarrow> n_gpu_layers opt \<noteq> None \<or> n_cpu_moe opt \<noteq> None \<or> offload_kqv opt \<noteq> None"

section \<open>Safety buffers\<close>

definition DEFAULT_SAFE_BUFFER_GB :: rat where
  "DEFAULT_SAFE_BUFFER_GB = 1"

definition MIN_SAFE_BUFFER_GB :: rat where
  "MIN_SAFE_BUFFER_GB = 1 / 2"

definition clamp :: "'a::linorder \<Rightarrow> 'a \<Rightarrow> 'a \<Rightarrow> 'a" where
  "clamp lo hi x = (if x < lo then lo else if x > hi then hi else x)"

definition adaptive_buffer_gb :: "rat option \<Rightarrow> rat \<Rightarrow> rat \<Rightarrow> rat" where
  "adaptive_buffer_gb custom free required =
     (case custom of
        Some c \<Rightarrow> c
      | None \<Rightarrow>
          (let headroom = free - required in
           if headroom \<ge> DEFAULT_SAFE_BUFFER_GB then DEFAULT_SAFE_BUFFER_GB
           else if headroom \<ge> MIN_SAFE_BUFFER_GB then clamp MIN_SAFE_BUFFER_GB DEFAULT_SAFE_BUFFER_GB headroom
           else MIN_SAFE_BUFFER_GB))"

definition adaptive_vram_buffer_gb :: "optimization \<Rightarrow> rat \<Rightarrow> rat \<Rightarrow> rat" where
  "adaptive_vram_buffer_gb opt = adaptive_buffer_gb (custom_vram_buffer_gb opt)"

definition adaptive_ram_buffer_gb :: "optimization \<Rightarrow> rat \<Rightarrow> rat \<Rightarrow> rat" where
  "adaptive_ram_buffer_gb opt = adaptive_buffer_gb (custom_ram_buffer_gb opt)"

lemma clamp_bounds [simp]: "lo \<le> hi \<Longrightarrow> lo \<le> clamp lo hi x \<and> clamp lo hi x \<le> hi"
  by (auto simp: clamp_def)

lemma clamp_id: "lo \<le> x \<Longrightarrow> x \<le> hi \<Longrightarrow> clamp lo hi x = x"
  by (auto simp: clamp_def)

text \<open>
  The adaptive safety buffers without a user override: the buffer is between 0.5 GB and 1 GB,
  what is required still fits beside it whenever there is at least half a GB of headroom, and no
  smaller buffer is taken than the headroom allows.
\<close>

lemma adaptive_buffer_fits:
  assumes "custom_vram_buffer_gb opt = None"
  shows "1 / 2 \<le> adaptive_vram_buffer_gb opt free required \<and> adaptive_vram_buffer_gb opt free required \<le> 1 \<and>
    (free - required \<ge> 1 / 2 \<longrightarrow>
       required + adaptive_vram_buffer_gb opt free required \<le> free \<and>
       adaptive_vram_buffer_gb opt free required = min 1 (free - required))"
  using assms
  by (auto simp: adaptive_vram_buffer_gb_def adaptive_buffer_gb_def Let_def DEFAULT_SAFE_BUFFER_GB_def
      MIN_SAFE_BUFFER_GB_def clamp_def min_def)

section \<open>The thinking budget\<close>

record thinking_limit =
  tl_tokens :: nat
  capped :: bool

definition of_room :: "nat \<Rightarrow> thinking_share \<Rightarrow> nat" where
  "of_room room p = min (nat \<lfloor>of_nat room * clamp 0 1 (share p)\<rfloor>) (max_tokens p)"

fun limit :: "thinking_budget \<Rightarrow> nat \<Rightarrow> thinking_presets \<Rightarrow> thinking_limit" where
  "limit TAuto room ps = \<lparr>tl_tokens = of_room room (high ps), capped = False\<rparr>"
| "limit THigh room ps = \<lparr>tl_tokens = of_room room (high ps), capped = False\<rparr>"
| "limit TLow room ps = \<lparr>tl_tokens = of_room room (low ps), capped = False\<rparr>"
| "limit TMedium room ps = \<lparr>tl_tokens = of_room room (medium ps), capped = False\<rparr>"
| "limit TMax room ps = \<lparr>tl_tokens = room, capped = False\<rparr>"
| "limit (Tokens n) room ps = \<lparr>tl_tokens = min n room, capped = n > room\<rparr>"

text \<open>\<open>str::parse::<u32>\<close>: decimal digits after an optional plus sign, in range.\<close>

definition parse_nat :: "nat \<Rightarrow> string \<Rightarrow> nat option" where
  "parse_nat bound s =
     (let ds = (if s \<noteq> [] \<and> hd s = CHR ''+'' then tl s else s) in
      if ds \<noteq> [] \<and> list_all is_digit ds \<and> text_nat ds \<le> bound then Some (text_nat ds) else None)"

definition parse_budget :: "string \<Rightarrow> string + thinking_budget" where
  "parse_budget value =
     (let v = to_lower (trim value) in
      if v = ''auto'' \<or> v = [] then Inr TAuto
      else if v = ''low'' \<or> v = ''minimal'' then Inr TLow
      else if v = ''medium'' \<or> v = ''standard'' then Inr TMedium
      else if v = ''high'' then Inr THigh
      else if v = ''max'' \<or> v = ''extreme'' then Inr TMax
      else case parse_nat U32_MAX v of
        Some n \<Rightarrow> Inr (Tokens n)
      | None \<Rightarrow> Inl (''reasoning_effort '' @ [CHR 0x27] @ value @ [CHR 0x27] @ '': use auto, low, medium, high, max or a number of tokens''))"

fun serialize_budget :: "thinking_budget \<Rightarrow> json" where
  "serialize_budget TAuto = JStr ''auto''"
| "serialize_budget TLow = JStr ''low''"
| "serialize_budget TMedium = JStr ''medium''"
| "serialize_budget THigh = JStr ''high''"
| "serialize_budget TMax = JStr ''max''"
| "serialize_budget (Tokens n) = JNum (nat_text n)"

text \<open>The message of the last branch prints the value; how it prints is the parameter \<open>tx\<close>.\<close>

fun deserialize_budget :: "(json \<Rightarrow> string) \<Rightarrow> json \<Rightarrow> string + thinking_budget" where
  "deserialize_budget tx (JStr s) = parse_budget s"
| "deserialize_budget tx (JNum t) =
     (case as_u64 t of
        Some n \<Rightarrow> if n \<le> U32_MAX then Inr (Tokens n)
          else Inl ''reasoning_effort must be a whole number of tokens >= 0''
      | None \<Rightarrow> Inl ''reasoning_effort must be a whole number of tokens >= 0'')"
| "deserialize_budget tx JNull = Inr TAuto"
| "deserialize_budget tx v = Inl (''reasoning_effort '' @ tx v @ '': use auto, low, medium, high, max or a number of tokens'')"

lemma of_room_le [simp]: "of_room room p \<le> room"
proof -
  have "of_nat room * clamp 0 1 (share p) \<le> of_nat room * 1"
    by (rule mult_left_mono) (simp_all add: clamp_bounds)
  then have "\<lfloor>of_nat room * clamp 0 1 (share p)\<rfloor> \<le> int room" by (simp add: floor_le_iff)
  then show ?thesis by (simp add: of_room_def)
qed

lemma of_room_mono: "of_room room p \<le> of_room (room + extra) p"
proof -
  have "of_nat room * clamp 0 1 (share p) \<le> of_nat (room + extra) * clamp 0 1 (share p)"
    by (rule mult_right_mono) (simp_all add: clamp_bounds)
  then show ?thesis
    unfolding of_room_def by (intro min.mono nat_mono floor_mono) auto
qed

text \<open>
  Whatever thinking budget is chosen, and whatever the presets say, the model never thinks for more
  tokens than the room, so the answer still fits; only an explicit number larger than the room is
  reported as capped; a larger room never gives fewer tokens.
\<close>

lemma thinking_limit_fits_room:
  "tl_tokens (limit b room ps) \<le> room \<and>
   (capped (limit b room ps) \<longleftrightarrow> (\<exists>n. b = Tokens n \<and> tl_tokens (limit b room ps) < n)) \<and>
   tl_tokens (limit b room ps) \<le> tl_tokens (limit b (room + extra) ps)"
  using of_room_mono [of room _ extra] by (cases b) auto

text \<open>
  The thinking budget survives being written to the settings file and read back: every budget
  a \<open>u32\<close> can hold is read back as it was.
\<close>

theorem thinking_budget_roundtrip:
  assumes "\<And>n. b = Tokens n \<Longrightarrow> n \<le> U32_MAX"
  shows "deserialize_budget tx (serialize_budget b) = Inr b"
proof (cases b)
  case (Tokens n)
  with assms have "n \<le> U32_MAX" "n \<le> U64_MAX" by (auto simp: U32_MAX_def U64_MAX_def)
  with Tokens show ?thesis by (simp add: as_u64_def)
qed (simp_all, code_simp+)

theorem thinking_budget_roundtrip_witness:
  "deserialize_budget (\<lambda>_. []) (serialize_budget (Tokens 4096)) = Inr (Tokens 4096)"
  by (rule thinking_budget_roundtrip) (simp add: U32_MAX_def)

section \<open>The context setting and the load parameters of a request\<close>

datatype context_setting = CtxAuto | CtxMax | Custom nat

definition from_llama_n_ctx :: "int \<Rightarrow> context_setting" where
  "from_llama_n_ctx n =
     (if n = 0 then CtxAuto else if n < 0 then CtxMax else Custom (nat (min n (int U32_MAX))))"

fun to_llama_n_ctx :: "context_setting \<Rightarrow> int" where
  "to_llama_n_ctx CtxAuto = 0"
| "to_llama_n_ctx CtxMax = -1"
| "to_llama_n_ctx (Custom n) = int n"

definition context_setting_of :: "optimization \<Rightarrow> context_setting" where
  "context_setting_of opt =
     (case custom_context_window opt of
        None \<Rightarrow> CtxAuto
      | Some n \<Rightarrow> if n = 0 \<or> n = U32_MAX then CtxMax else Custom n)"

definition set_context_setting :: "context_setting \<Rightarrow> optimization \<Rightarrow> optimization" where
  "set_context_setting s opt =
     opt\<lparr>custom_context_window := (case s of CtxAuto \<Rightarrow> None | CtxMax \<Rightarrow> Some 0 | Custom n \<Rightarrow> Some n)\<rparr>"

record llama_load_params =
  lp_n_ctx :: "int option"
  lp_n_gpu_layers :: "int option"
  lp_n_cpu_moe :: "nat option"
  lp_cache_type_k :: "string option"
  lp_cache_type_v :: "string option"
  lp_flash_attn :: "json option"
  lp_n_batch :: "nat option"
  lp_n_ubatch :: "nat option"
  lp_n_threads :: "int option"
  lp_n_threads_batch :: "int option"
  lp_use_mmap :: "bool option"
  lp_offload_kqv :: "bool option"
  lp_op_offload :: "bool option"
  lp_vram_buffer_gb :: "rat option"

definition no_load_params :: llama_load_params where
  "no_load_params =
     \<lparr>lp_n_ctx = None, lp_n_gpu_layers = None, lp_n_cpu_moe = None, lp_cache_type_k = None,
      lp_cache_type_v = None, lp_flash_attn = None, lp_n_batch = None, lp_n_ubatch = None,
      lp_n_threads = None, lp_n_threads_batch = None, lp_use_mmap = None, lp_offload_kqv = None,
      lp_op_offload = None, lp_vram_buffer_gb = None\<rparr>"

text \<open>The refusals; each carries what its message names.\<close>

datatype load_error = CacheTypeUnknown string | CacheTypesDiffer | FlashAttnUnknown json

definition parse_cache_type :: "string \<Rightarrow> load_error + kv_cache_quantization" where
  "parse_cache_type name =
     (let s = to_lower name in
      if s = ''auto'' then Inr KvAuto
      else if s = ''f16'' then Inr Kv16
      else if s = ''q8_0'' then Inr Kv8
      else if s = ''q4_0'' then Inr Kv4
      else Inl (CacheTypeUnknown s))"

definition parse_flash_attn :: "json \<Rightarrow> load_error + feature_state" where
  "parse_flash_attn fa =
     (case fa of
        JBool b \<Rightarrow> Inr (if b then On else Off)
      | JStr s \<Rightarrow>
          (let l = to_lower s in
           if l \<in> {''on'', ''1'', ''true''} then Inr On
           else if l \<in> {''off'', ''0'', ''false''} then Inr Off
           else if l \<in> {''auto'', ''-1''} then Inr FAuto
           else Inl (FlashAttnUnknown (JStr l)))
      | other \<Rightarrow> Inl (FlashAttnUnknown other))"

text \<open>\<open>Option::map(f).transpose()?\<close>\<close>

definition transpose :: "('a \<Rightarrow> 'e + 'b) \<Rightarrow> 'a option \<Rightarrow> 'e + 'b option" where
  "transpose f m = (case m of None \<Rightarrow> Inr None | Some x \<Rightarrow> (case f x of Inl e \<Rightarrow> Inl e | Inr y \<Rightarrow> Inr (Some y)))"

definition or_keep :: "'a option \<Rightarrow> 'a option \<Rightarrow> 'a option" where
  "or_keep given old = (case given of None \<Rightarrow> old | Some x \<Rightarrow> Some x)"

text \<open>
  \<open>apply_to\<close> writes into the settings it is given, also before it fails: the context and the
  placement first, then the cache type, then flash attention, then the rest.
\<close>

definition apply_placement :: "llama_load_params \<Rightarrow> optimization \<Rightarrow> optimization" where
  "apply_placement p opt =
     (let o1 = (case lp_n_ctx p of None \<Rightarrow> opt | Some n \<Rightarrow> set_context_setting (from_llama_n_ctx n) opt)
      in o1\<lparr>n_gpu_layers := or_keep (lp_n_gpu_layers p) (n_gpu_layers o1),
            n_cpu_moe := or_keep (lp_n_cpu_moe p) (n_cpu_moe o1)\<rparr>)"

definition apply_rest :: "llama_load_params \<Rightarrow> optimization \<Rightarrow> optimization" where
  "apply_rest p opt =
     opt\<lparr>batch_size := or_keep (lp_n_batch p) (batch_size opt),
         ubatch_size := or_keep (lp_n_ubatch p) (ubatch_size opt),
         n_threads := or_keep (lp_n_threads p) (n_threads opt),
         n_threads_batch := or_keep (lp_n_threads_batch p) (n_threads_batch opt),
         use_mmap := or_keep (lp_use_mmap p) (use_mmap opt),
         offload_kqv := or_keep (lp_offload_kqv p) (offload_kqv opt),
         op_offload := or_keep (lp_op_offload p) (op_offload opt),
         custom_vram_buffer_gb := or_keep (lp_vram_buffer_gb p) (custom_vram_buffer_gb opt)\<rparr>"

definition cache_type_of :: "llama_load_params \<Rightarrow> load_error + kv_cache_quantization option" where
  "cache_type_of p =
     (case transpose parse_cache_type (lp_cache_type_k p) of
        Inl e \<Rightarrow> Inl e
      | Inr k \<Rightarrow>
          (case transpose parse_cache_type (lp_cache_type_v p) of
             Inl e \<Rightarrow> Inl e
           | Inr v \<Rightarrow>
               (case (k, v) of
                  (Some a, Some b) \<Rightarrow> if a \<noteq> b then Inl CacheTypesDiffer else Inr (Some a)
                | (Some a, None) \<Rightarrow> Inr (Some a)
                | (None, b) \<Rightarrow> Inr b)))"

definition apply_to :: "llama_load_params \<Rightarrow> optimization \<Rightarrow> (load_error + unit) \<times> optimization" where
  "apply_to p opt =
     (let o1 = apply_placement p opt in
      case cache_type_of p of
        Inl e \<Rightarrow> (Inl e, o1)
      | Inr kv \<Rightarrow>
          (let o2 = (case kv of None \<Rightarrow> o1 | Some t \<Rightarrow> o1\<lparr>kv_cache_quant := t\<rparr>) in
           case transpose parse_flash_attn (lp_flash_attn p) of
             Inl e \<Rightarrow> (Inl e, o2)
           | Inr fa \<Rightarrow>
               (let o3 = (case fa of None \<Rightarrow> o2 | Some f \<Rightarrow> o2\<lparr>flash_attention := f\<rparr>)
                in (Inr (), apply_rest p o3))))"

lemma apply_to_placement:
  "custom_context_window (snd (apply_to p opt)) = custom_context_window (apply_placement p opt)"
  "n_gpu_layers (snd (apply_to p opt)) = or_keep (lp_n_gpu_layers p) (n_gpu_layers opt)"
  "n_cpu_moe (snd (apply_to p opt)) = or_keep (lp_n_cpu_moe p) (n_cpu_moe opt)"
  by (auto simp: apply_to_def apply_rest_def apply_placement_def set_context_setting_def Let_def split: sum.splits option.splits)

lemma context_setting_applied:
  "context_setting_of (apply_placement p opt) =
     (case lp_n_ctx p of
        None \<Rightarrow> context_setting_of opt
      | Some n \<Rightarrow> if n \<ge> int U32_MAX then CtxMax else from_llama_n_ctx n)"
  by (auto simp: apply_placement_def set_context_setting_def context_setting_of_def from_llama_n_ctx_def U32_MAX_def
      min_def Let_def split: option.splits)

lemma apply_to_ok:
  assumes "fst (apply_to p opt) = Inr ()"
  shows "\<exists>kv fa. cache_type_of p = Inr kv \<and> transpose parse_flash_attn (lp_flash_attn p) = Inr fa \<and>
     snd (apply_to p opt) = apply_rest p ((apply_placement p opt)\<lparr>kv_cache_quant := case_option (kv_cache_quant opt) id kv,
       flash_attention := case_option (flash_attention opt) id fa\<rparr>)"
proof -
  have keep: "kv_cache_quant (apply_placement p opt) = kv_cache_quant opt"
    "flash_attention (apply_placement p opt) = flash_attention opt"
    by (auto simp: apply_placement_def set_context_setting_def Let_def split: option.splits)
  have "\<exists>kv fa. cache_type_of p = Inr kv \<and> transpose parse_flash_attn (lp_flash_attn p) = Inr fa"
    using assms by (auto simp: apply_to_def Let_def split: sum.splits)
  then obtain kv fa where h: "cache_type_of p = Inr kv" "transpose parse_flash_attn (lp_flash_attn p) = Inr fa" by blast
  with h keep show ?thesis
    by (intro exI [of _ kv] exI [of _ fa])
      (cases "apply_placement p opt", auto simp: apply_to_def Let_def split: option.splits)
qed

lemma apply_to_refused:
  "fst (apply_to p opt) \<noteq> Inr () \<longleftrightarrow>
     (\<exists>s \<in> {lp_cache_type_k p, lp_cache_type_v p}. \<exists>t e. s = Some t \<and> parse_cache_type t = Inl e) \<or>
     (\<exists>k v a b. lp_cache_type_k p = Some k \<and> lp_cache_type_v p = Some v \<and>
        parse_cache_type k = Inr a \<and> parse_cache_type v = Inr b \<and> a \<noteq> b) \<or>
     (\<exists>fa e. lp_flash_attn p = Some fa \<and> parse_flash_attn fa = Inl e)"
proof -
  have t: "(\<exists>e. transpose f m = Inl e) \<longleftrightarrow> (\<exists>x e. m = Some x \<and> f x = Inl e)" for f :: "'a \<Rightarrow> 'e + 'b" and m
    by (auto simp: transpose_def split: option.splits sum.splits)
  have c: "(\<exists>e. cache_type_of p = Inl e) \<longleftrightarrow>
     (\<exists>s \<in> {lp_cache_type_k p, lp_cache_type_v p}. \<exists>t e. s = Some t \<and> parse_cache_type t = Inl e) \<or>
     (\<exists>k v a b. lp_cache_type_k p = Some k \<and> lp_cache_type_v p = Some v \<and>
        parse_cache_type k = Inr a \<and> parse_cache_type v = Inr b \<and> a \<noteq> b)"
    by (cases "lp_cache_type_k p"; cases "lp_cache_type_v p")
      (auto simp: cache_type_of_def transpose_def split: sum.splits if_splits)
  have "fst (apply_to p opt) \<noteq> Inr () \<longleftrightarrow>
     (\<exists>e. cache_type_of p = Inl e) \<or> (\<exists>e. transpose parse_flash_attn (lp_flash_attn p) = Inl e)"
    by (auto simp: apply_to_def Let_def split: sum.splits)
  then show ?thesis unfolding c t by blast
qed

text \<open>
  The load parameters of a request. A context sent as llama.cpp's \<open>n_ctx\<close> is the context the
  planner sees: exactly below the largest \<open>u32\<close>, the native maximum from there on. The placement
  parameters replace the user's when they are given. When the request is accepted, every other
  given parameter replaces the setting and the ones not given keep the user's; it is refused
  exactly when a cache type is unknown, K and V differ or the flash attention value is unknown.
\<close>

theorem load_params_applied:
  assumes "apply_to p opt = (res, opt')"
  shows "context_setting_of opt' =
      (case lp_n_ctx p of None \<Rightarrow> context_setting_of opt
       | Some n \<Rightarrow> if n \<ge> int U32_MAX then CtxMax else from_llama_n_ctx n) \<and>
    n_gpu_layers opt' = or_keep (lp_n_gpu_layers p) (n_gpu_layers opt) \<and>
    n_cpu_moe opt' = or_keep (lp_n_cpu_moe p) (n_cpu_moe opt) \<and>
    (res = Inr () \<longrightarrow>
       (\<exists>kv fa. cache_type_of p = Inr kv \<and> transpose parse_flash_attn (lp_flash_attn p) = Inr fa \<and>
          opt' = apply_rest p ((apply_placement p opt)\<lparr>kv_cache_quant := case_option (kv_cache_quant opt) id kv,
             flash_attention := case_option (flash_attention opt) id fa\<rparr>))) \<and>
    (res \<noteq> Inr () \<longleftrightarrow>
       (\<exists>s \<in> {lp_cache_type_k p, lp_cache_type_v p}. \<exists>t e. s = Some t \<and> parse_cache_type t = Inl e) \<or>
       (\<exists>k v a b. lp_cache_type_k p = Some k \<and> lp_cache_type_v p = Some v \<and>
          parse_cache_type k = Inr a \<and> parse_cache_type v = Inr b \<and> a \<noteq> b) \<or>
       (\<exists>fa e. lp_flash_attn p = Some fa \<and> parse_flash_attn fa = Inl e))"
proof -
  from assms have eq: "fst (apply_to p opt) = res" "snd (apply_to p opt) = opt'" by simp_all
  have "context_setting_of opt' = context_setting_of (apply_placement p opt)"
    using apply_to_placement(1) [of p opt] by (simp add: eq context_setting_of_def)
  then show ?thesis
    using context_setting_applied [of p opt] apply_to_placement(2,3) [of p opt] apply_to_ok [of p opt]
      apply_to_refused [of p opt] unfolding eq by simp
qed

theorem load_params_applied_witness:
  "context_setting_of (snd (apply_to (no_load_params\<lparr>lp_n_ctx := Some 8192\<rparr>) default_optimization)) = Custom 8192"
proof -
  obtain res opt' where "apply_to (no_load_params\<lparr>lp_n_ctx := Some 8192\<rparr>) default_optimization = (res, opt')" by fastforce
  with load_params_applied [OF this] show ?thesis
    by (simp add: no_load_params_def from_llama_n_ctx_def U32_MAX_def)
qed

end
