(* ===== verification/Model_Geometry.thy ===== *)
theory Model_Geometry
  imports Engine_Settings
begin

text \<open>
  engine/models/src/gguf.rs: the geometry of a model as its file states it, and the bytes of its
  weights and of its KV cache. \<open>saturating_sub\<close> is subtraction on the naturals.
\<close>

definition KV_CELL_PAD :: nat where
  "KV_CELL_PAD = 256"

record weight_bytes =
  w_total :: nat
  w_input_cpu :: nat
  w_output :: nat
  w_tied_output_copy :: nat
  w_layer :: "nat list"
  w_layer_experts :: "nat list"

record model_geometry =
  g_architecture :: string
  context_length :: nat
  embedding_length :: nat
  block_count :: nat
  head_count :: nat
  head_count_kv :: nat
  head_count_kv_per_layer :: "nat list"
  key_length :: nat
  value_length :: nat
  key_length_swa :: nat
  value_length_swa :: nat
  sliding_window :: "nat option"
  swa_layers :: "bool list"
  shared_kv_layers :: nat
  recurrent_layers :: "bool list"
  recurrent_state_bytes :: nat
  expert_count :: "nat option"
  expert_used_count :: "nat option"
  file_size_bytes :: nat
  vocab_size :: nat
  g_weights :: weight_bytes

definition experts_total :: "weight_bytes \<Rightarrow> nat" where
  "experts_total w = sum_list (w_layer_experts w)"

definition full_gpu :: "weight_bytes \<Rightarrow> nat" where
  "full_gpu w = w_total w - w_input_cpu w + w_tied_output_copy w"

definition output_gpu :: "weight_bytes \<Rightarrow> nat" where
  "output_gpu w = w_output w + w_tied_output_copy w"

text \<open>\<open>slice.get(i).copied().unwrap_or(d)\<close>\<close>

definition get_or :: "'a \<Rightarrow> 'a list \<Rightarrow> nat \<Rightarrow> 'a" where
  "get_or d xs i = (if i < length xs then xs ! i else d)"

definition kv_heads :: "model_geometry \<Rightarrow> nat \<Rightarrow> nat" where
  "kv_heads g layer = get_or (head_count_kv g) (head_count_kv_per_layer g) layer"

definition is_recurrent :: "model_geometry \<Rightarrow> nat \<Rightarrow> bool" where
  "is_recurrent g layer = get_or False (recurrent_layers g) layer"

definition is_swa :: "model_geometry \<Rightarrow> nat \<Rightarrow> bool" where
  "is_swa g layer \<longleftrightarrow> case_option 0 id (sliding_window g) > 0 \<and> get_or False (swa_layers g) layer"

definition kv_layer_count :: "model_geometry \<Rightarrow> nat" where
  "kv_layer_count g = block_count g - shared_kv_layers g"

definition pad_cells :: "nat \<Rightarrow> nat" where
  "pad_cells n = (n + KV_CELL_PAD - 1) div KV_CELL_PAD * KV_CELL_PAD"

text \<open>\<open>(elements as f64 * bytes_per_element).ceil() as u64\<close>\<close>

definition element_bytes :: "kv_cache_quantization \<Rightarrow> nat \<Rightarrow> nat" where
  "element_bytes quant elements = nat \<lceil>of_nat elements * bytes_per_element quant\<rceil>"

definition kv_layer_bytes :: "model_geometry \<Rightarrow> nat \<Rightarrow> nat \<Rightarrow> kv_cache_quantization \<Rightarrow> nat \<Rightarrow> nat" where
  "kv_layer_bytes g layer n_ctx quant ubatch =
     (if layer \<ge> kv_layer_count g then 0
      else if is_recurrent g layer then recurrent_state_bytes g
      else
        (let full_cells = pad_cells n_ctx;
             (cells, k_dim, v_dim) =
               (if is_swa g layer
                then (min full_cells (pad_cells (case_option 0 id (sliding_window g) + ubatch)), key_length_swa g, value_length_swa g)
                else (full_cells, key_length g, value_length g));
             elements = kv_heads g layer * (k_dim + v_dim) * cells
         in element_bytes quant elements))"

definition kv_cache_bytes :: "model_geometry \<Rightarrow> nat \<Rightarrow> kv_cache_quantization \<Rightarrow> nat \<Rightarrow> nat" where
  "kv_cache_bytes g n_ctx quant ubatch = (\<Sum>l \<leftarrow> [0..<kv_layer_count g]. kv_layer_bytes g l n_ctx quant ubatch)"

definition logits_buffer_bytes :: "model_geometry \<Rightarrow> nat \<Rightarrow> nat" where
  "logits_buffer_bytes g ubatch = vocab_size g * ubatch * 4"

definition is_moe :: "model_geometry \<Rightarrow> bool" where
  "is_moe g \<longleftrightarrow> experts_total (g_weights g) > 0"

section \<open>The KV cache grows with the context\<close>

fun kv_rank :: "kv_cache_quantization \<Rightarrow> nat" where
  "kv_rank Kv4 = 0" | "kv_rank Kv8 = 1" | "kv_rank Kv16 = 2" | "kv_rank KvAuto = 2"

lemma bytes_per_element_mono: "kv_rank a \<le> kv_rank b \<Longrightarrow> bytes_per_element a \<le> bytes_per_element b"
  by (cases a; cases b) simp_all

lemma bytes_per_element_nonneg [simp]: "0 \<le> bytes_per_element q"
  by (cases q) simp_all

lemma pad_cells_mono: "m \<le> n \<Longrightarrow> pad_cells m \<le> pad_cells n"
  by (simp add: pad_cells_def div_le_mono)

lemma pad_cells_ge: "n \<le> pad_cells n"
proof -
  have "n \<le> (n + 255) div 256 * 256" by linarith
  then show ?thesis by (simp add: pad_cells_def KV_CELL_PAD_def)
qed

lemma pad_cells_idem [simp]: "pad_cells (pad_cells n) = pad_cells n"
proof -
  have "(k * 256 + 255) div 256 = k" for k :: nat by linarith
  then show ?thesis by (simp add: pad_cells_def KV_CELL_PAD_def)
qed

lemma element_bytes_mono: "kv_rank a \<le> kv_rank b \<Longrightarrow> x \<le> y \<Longrightarrow> element_bytes a x \<le> element_bytes b y"
  unfolding element_bytes_def using bytes_per_element_mono [of a b]
  by (intro nat_mono ceiling_mono mult_mono) auto

lemma kv_layer_bytes_mono:
  assumes "m \<le> n" and "kv_rank a \<le> kv_rank b"
  shows "kv_layer_bytes g l m a ubatch \<le> kv_layer_bytes g l n b ubatch"
proof -
  have p: "pad_cells m \<le> pad_cells n" by (rule pad_cells_mono [OF assms(1)])
  show ?thesis
    unfolding kv_layer_bytes_def Let_def
    by (auto split: prod.splits intro!: element_bytes_mono [OF assms(2)] mult_le_mono2 min.mono p)
qed

text \<open>
  The KV cache never shrinks when the context grows or the KV type gets wider (4 bit, 8 bit, 16 bit),
  and it depends on the context only through the 256-cell grid llama.cpp pads it to.
\<close>

lemma kv_cache_monotone:
  assumes "m \<le> n" and "kv_rank a \<le> kv_rank b"
  shows "kv_cache_bytes g m a ubatch \<le> kv_cache_bytes g n b ubatch \<and>
    kv_cache_bytes g (pad_cells n) b ubatch = kv_cache_bytes g n b ubatch"
proof -
  have "kv_layer_bytes g l (pad_cells n) b ubatch = kv_layer_bytes g l n b ubatch" for l
    by (simp add: kv_layer_bytes_def)
  then show ?thesis
    unfolding kv_cache_bytes_def using kv_layer_bytes_mono [OF assms] by (simp add: sum_list_mono)
qed

section \<open>A model for the examples\<close>

text \<open>Four blocks with grouped attention, 3 GiB of weights, a tied output head.\<close>

definition small_model :: model_geometry where
  "small_model =
     \<lparr>g_architecture = ''llama'', context_length = 16384, embedding_length = 2048, block_count = 4,
      head_count = 16, head_count_kv = 8, head_count_kv_per_layer = [8, 8, 8, 8], key_length = 128,
      value_length = 128, key_length_swa = 128, value_length_swa = 128, sliding_window = None, swa_layers = [],
      shared_kv_layers = 0, recurrent_layers = [], recurrent_state_bytes = 0, expert_count = None,
      expert_used_count = None, file_size_bytes = 3221225472, vocab_size = 32000,
      g_weights = \<lparr>w_total = 3221225472, w_input_cpu = 262144000, w_output = 0, w_tied_output_copy = 262144000,
        w_layer = [739770368, 739770368, 739770368, 739770368], w_layer_experts = [0, 0, 0, 0]\<rparr>\<rparr>"

end
