(* ===== verification/Placement_Types.thy ===== *)
theory Placement_Types
  imports Model_Geometry
begin

text \<open>
  engine/plan/src/types.rs: the candidates and the plan the placement planner makes, and what a plan
  says of itself; and the parts of engine/hardware/src/types.rs the planner reads. The report
  texts (\<open>reason\<close>, \<open>explanation\<close>, \<open>context_reason\<close>) are kept as the case they were printed from.
\<close>

record gpu_subsystem =
  gpu_name :: string
  vram_total_gb :: rat
  vram_available_gb :: rat

record memory_subsystem =
  mem_total_gb :: rat
  mem_available_gb :: rat
  is_unified_memory :: bool

record system_info =
  memory :: memory_subsystem
  gpus :: "gpu_subsystem list"

datatype placement_tier = GpuOnly | MoeSplit | Hybrid | CpuOnly | SsdStreaming | Infeasible

fun tier_debug :: "placement_tier \<Rightarrow> string" where
  "tier_debug GpuOnly = ''GpuOnly''"
| "tier_debug MoeSplit = ''MoeSplit''"
| "tier_debug Hybrid = ''Hybrid''"
| "tier_debug CpuOnly = ''CpuOnly''"
| "tier_debug SsdStreaming = ''SsdStreaming''"
| "tier_debug Infeasible = ''Infeasible''"

fun kv_debug :: "kv_cache_quantization \<Rightarrow> string" where
  "kv_debug KvAuto = ''Auto''"
| "kv_debug Kv16 = ''Kv16''"
| "kv_debug Kv8 = ''Kv8''"
| "kv_debug Kv4 = ''Kv4''"

text \<open>Why a candidate is or is not feasible, with the GB the text names.\<close>

datatype candidate_reason =
    NoVram
  | FromDisk rat
  | NoRam rat
  | Detail
  | NoReason

record execution_candidate =
  c_name :: string
  c_tier :: placement_tier
  c_n_gpu_layers :: int
  c_n_cpu_moe :: nat
  c_context_window :: nat
  vram_required_gb :: rat
  ram_required_gb :: rat
  c_kv_gpu_gb :: rat
  c_kv_ram_gb :: rat
  c_disk_stream_gb :: rat
  c_kv_offload :: bool
  missing_gb :: rat
  feasible :: bool
  c_reason :: candidate_reason
  measured_tokens_per_s :: "rat option"
  measured_prompt_tokens_per_s :: "rat option"

datatype context_reason =
    ExactFits nat kv_cache_quantization rat
  | ExactKept nat kv_cache_quantization
  | AutoWanted nat kv_cache_quantization rat
  | AutoToStay nat kv_cache_quantization rat
  | AutoBelowFloor nat kv_cache_quantization rat
  | AutoSplit nat kv_cache_quantization
  | AutoOnCpu nat kv_cache_quantization
  | AutoSplitFloor nat kv_cache_quantization

datatype explanation =
    Because string candidate_reason
  | MeasuredFaster string rat string rat candidate_reason
  | DoesNotFit "(string \<times> rat \<times> candidate_reason) option"

record execution_plan =
  model_id :: string
  selected_tier :: placement_tier
  p_n_gpu_layers :: int
  p_n_cpu_moe :: nat
  context_window :: nat
  total_layers :: nat
  vram_budget_gb :: rat
  ram_budget_gb :: rat
  kv_gpu_gb :: rat
  kv_ram_gb :: rat
  disk_stream_gb :: rat
  kv_offload :: bool
  p_op_offload :: bool
  kv_cache_type :: kv_cache_quantization
  vram_buffer_gb :: rat
  ram_budget_limit_gb :: rat
  p_context_reason :: context_reason
  candidates :: "execution_candidate list"
  p_explanation :: explanation

definition is_placement_of :: "execution_candidate \<Rightarrow> execution_plan \<Rightarrow> bool" where
  "is_placement_of c plan \<longleftrightarrow>
     c_tier c = selected_tier plan \<and> c_n_gpu_layers c = p_n_gpu_layers plan \<and>
     c_n_cpu_moe c = p_n_cpu_moe plan \<and> c_kv_offload c = kv_offload plan"

definition infeasible :: "nat \<Rightarrow> execution_candidate" where
  "infeasible ctx =
     \<lparr>c_name = ''No placement'', c_tier = Infeasible, c_n_gpu_layers = 0, c_n_cpu_moe = 0, c_context_window = ctx,
      vram_required_gb = 0, ram_required_gb = 0, c_kv_gpu_gb = 0, c_kv_ram_gb = 0, c_disk_stream_gb = 0,
      c_kv_offload = False, missing_gb = 0, feasible = False, c_reason = NoReason,
      measured_tokens_per_s = None, measured_prompt_tokens_per_s = None\<rparr>"

definition is_feasible :: "execution_plan \<Rightarrow> bool" where
  "is_feasible plan \<longleftrightarrow> selected_tier plan \<noteq> Infeasible"

definition plan_use_mmap :: "execution_plan \<Rightarrow> optimization \<Rightarrow> bool" where
  "plan_use_mmap plan opt \<longleftrightarrow> disk_stream_gb plan > 0 \<or> resolved_use_mmap opt"

definition block_split :: "execution_plan \<Rightarrow> nat \<times> nat" where
  "block_split plan =
     (let n = p_n_gpu_layers plan;
          gpu = (if n < 0 then total_layers plan else if n = 0 then 0 else min (nat (n - 1)) (total_layers plan))
      in (gpu, total_layers plan - gpu))"

definition placement_label :: "execution_plan \<Rightarrow> string" where
  "placement_label plan =
     (case selected_tier plan of
        GpuOnly \<Rightarrow> ''Full GPU''
      | MoeSplit \<Rightarrow> ''MoE split (attention on GPU, experts in RAM)''
      | Hybrid \<Rightarrow> if \<not> kv_offload plan then ''Weights on GPU, KV in RAM (attention on CPU)'' else ''GPU + RAM split''
      | CpuOnly \<Rightarrow> ''CPU only''
      | SsdStreaming \<Rightarrow> ''CPU only, experts read from disk''
      | Infeasible \<Rightarrow> ''Rejected'')"

end
