(* ===== verification/Placement_Measure.thy ===== *)
theory Placement_Measure
  imports Placement_Types
begin

text \<open>
  engine/plan/src/margin.rs and engine/plan/src/speed.rs: what was measured on this machine. The
  measurements are one map from a key to a number (\<open>LEARNED\<close>), \<open>None\<close> until something is kept
  or read back. A number that is not finite is \<open>None\<close> where the code checks for it.
\<close>

type_synonym measures = "(string, rat) hmap option"

definition DEVICE_RESERVE_SHARE :: rat where "DEVICE_RESERVE_SHARE = 5 / 100"
definition DEVICE_RESERVE_MIN_GB :: rat where "DEVICE_RESERVE_MIN_GB = 15 / 100"
definition DEVICE_RESERVE_MAX_GB :: rat where "DEVICE_RESERVE_MAX_GB = 1"

definition CORRECTION :: string where "CORRECTION = ''proj2:''"
definition SPEED_PREFIX :: string where "SPEED_PREFIX = ''speed:''"

fun fa_name :: "feature_state \<Rightarrow> string" where
  "fa_name On = ''on''"
| "fa_name Off = ''off''"
| "fa_name FAuto = ''auto''"

definition file_key :: "model_geometry \<Rightarrow> string" where
  "file_key g = g_architecture g @ '':'' @ nat_text (file_size_bytes g) @ '':'' @ nat_text (block_count g) @ '':''"

definition margin_key :: "model_geometry \<Rightarrow> optimization \<Rightarrow> string" where
  "margin_key g opt = file_key g @ ''ub'' @ nat_text (resolved_ubatch_size opt) @ '':fa-'' @ fa_name (flash_attention opt)"

definition pool_key :: "model_geometry \<Rightarrow> optimization \<Rightarrow> string" where
  "pool_key g opt = ''pool:'' @ margin_key g opt"

definition correction_key :: "model_geometry \<Rightarrow> optimization \<Rightarrow> string" where
  "correction_key g opt = CORRECTION @ margin_key g opt"

definition held :: "measures \<Rightarrow> (string, rat) hmap" where
  "held m = case_option [] id m"

definition learned_key :: "string \<Rightarrow> measures \<Rightarrow> rat option" where
  "learned_key key m = (case m of None \<Rightarrow> None | Some h \<Rightarrow> hm_get key h)"

definition learned :: "model_geometry \<Rightarrow> optimization \<Rightarrow> measures \<Rightarrow> rat option" where
  "learned g opt = learned_key (pool_key g opt)"

definition correction :: "model_geometry \<Rightarrow> optimization \<Rightarrow> measures \<Rightarrow> rat option" where
  "correction g opt = learned_key (correction_key g opt)"

definition set_key :: "string \<Rightarrow> rat \<Rightarrow> measures \<Rightarrow> measures" where
  "set_key key v m = Some (hm_insert key v (held m))"

definition record_correction :: "model_geometry \<Rightarrow> optimization \<Rightarrow> rat option \<Rightarrow> measures \<Rightarrow> measures" where
  "record_correction g opt gb m = (case gb of None \<Rightarrow> m | Some v \<Rightarrow> set_key (correction_key g opt) v m)"

definition record_key :: "string \<Rightarrow> rat option \<Rightarrow> measures \<Rightarrow> bool \<times> measures" where
  "record_key key gap m =
     (case gap of
        None \<Rightarrow> (False, m)
      | Some v \<Rightarrow>
          (let h = held m in
           case hm_get key h of
             Some kept \<Rightarrow> if kept \<ge> v then (False, Some h) else (True, Some (hm_insert key v h))
           | None \<Rightarrow> (True, Some (hm_insert key v h))))"

definition record_gap :: "model_geometry \<Rightarrow> optimization \<Rightarrow> rat option \<Rightarrow> measures \<Rightarrow> bool \<times> measures" where
  "record_gap g opt = record_key (pool_key g opt)"

definition of_model :: "string \<Rightarrow> model_geometry list \<Rightarrow> string \<Rightarrow> bool" where
  "of_model mid geometries key =
     (let rest = List.map_filter (\<lambda>p. strip_prefix p key) [''pool:'', CORRECTION, ''speed:tg:'', ''speed:pp:'']
      in (rest \<noteq> [] \<and> list_ex (\<lambda>g. prefix (file_key g) (hd rest)) geometries) \<or>
         prefix (''onnx:'' @ mid @ '':'') key \<or> key = ''speech:'' @ mid)"

definition forget_model :: "string \<Rightarrow> model_geometry list \<Rightarrow> measures \<Rightarrow> nat \<times> measures" where
  "forget_model mid geometries m =
     (case m of
        None \<Rightarrow> (0, None)
      | Some h \<Rightarrow> (let h' = hm_retain (\<lambda>key _. \<not> of_model mid geometries key) h in (length h - length h', Some h')))"

definition restore :: "(string, rat) hmap \<Rightarrow> measures \<Rightarrow> measures" where
  "restore measured m =
     Some (hm_retain (\<lambda>key _. list_ex (\<lambda>p. prefix p key) [''pool:'', CORRECTION, ''onnx:'', ''speech:'', SPEED_PREFIX]) measured)"

definition reserve_gb :: "system_info \<Rightarrow> rat" where
  "reserve_gb hw =
     (case gpus hw of
        [] \<Rightarrow> 0
      | g # _ \<Rightarrow> clamp DEVICE_RESERVE_MIN_GB DEVICE_RESERVE_MAX_GB (vram_total_gb g * DEVICE_RESERVE_SHARE))"

section \<open>Speed\<close>

definition FASTER_BY :: rat where "FASTER_BY = 105 / 100"
definition NEAR_BLOCKS :: int where "NEAR_BLOCKS = 2"

datatype test = Generation | Prompt

fun tag :: "test \<Rightarrow> string" where
  "tag Generation = ''tg''"
| "tag Prompt = ''pp''"

record signature =
  s_tier :: placement_tier
  s_ngl :: int
  s_moe :: nat
  s_kvo :: bool

definition signature_of :: "execution_candidate \<Rightarrow> signature" where
  "signature_of c = \<lparr>s_tier = c_tier c, s_ngl = c_n_gpu_layers c, s_moe = c_n_cpu_moe c, s_kvo = c_kv_offload c\<rparr>"

definition int_text :: "int \<Rightarrow> string" where
  "int_text i = (if i < 0 then ''-'' @ nat_text (nat (- i)) else nat_text (nat i))"

definition family :: "test \<Rightarrow> model_geometry \<Rightarrow> optimization \<Rightarrow> nat \<Rightarrow> kv_cache_quantization \<Rightarrow> signature \<Rightarrow> string" where
  "family t g opt n_ctx kv s =
     SPEED_PREFIX @ tag t @ '':'' @ margin_key g opt @ '':ctx'' @ nat_text n_ctx @ '':'' @ kv_debug kv @ '':'' @
     tier_debug (s_tier s) @ '':kvo'' @ (if s_kvo s then ''1'' else ''0'') @ '':''"

definition speed_key :: "test \<Rightarrow> model_geometry \<Rightarrow> optimization \<Rightarrow> nat \<Rightarrow> kv_cache_quantization \<Rightarrow> signature \<Rightarrow> string" where
  "speed_key t g opt n_ctx kv s = family t g opt n_ctx kv s @ ''ngl'' @ int_text (s_ngl s) @ '':moe'' @ nat_text (s_moe s)"

definition record_speed ::
  "test \<Rightarrow> model_geometry \<Rightarrow> optimization \<Rightarrow> nat \<Rightarrow> kv_cache_quantization \<Rightarrow> signature \<Rightarrow> rat option \<Rightarrow> measures \<Rightarrow> measures" where
  "record_speed t g opt n_ctx kv s tps m =
     (case tps of None \<Rightarrow> m | Some v \<Rightarrow> if v > 0 then set_key (speed_key t g opt n_ctx kv s) v m else m)"

definition parse_int :: "string \<Rightarrow> int option" where
  "parse_int s =
     (if s \<noteq> [] \<and> hd s = CHR ''-'' then
        (if tl s \<noteq> [] \<and> list_all is_digit (tl s) \<and> text_nat (tl s) \<le> 2 ^ 63 then Some (- int (text_nat (tl s))) else None)
      else map_option int (parse_nat (2 ^ 63 - 1) s))"

definition parse_counts :: "string \<Rightarrow> (int \<times> int) option" where
  "parse_counts rest =
     (case strip_prefix ''ngl'' rest of
        None \<Rightarrow> None
      | Some r \<Rightarrow>
          (case find_sub '':moe'' r of
             None \<Rightarrow> None
           | Some i \<Rightarrow>
               (case (parse_int (take i r), parse_int (drop (i + 4) r)) of
                  (Some ngl, Some moe) \<Rightarrow> Some (ngl, moe)
                | _ \<Rightarrow> None)))"

text \<open>How far a measured key is from the placement, when it counts for it at all.\<close>

definition distance_to :: "string \<Rightarrow> signature \<Rightarrow> string \<Rightarrow> int option" where
  "distance_to fam s key =
     (case strip_prefix fam key of
        None \<Rightarrow> None
      | Some rest \<Rightarrow>
          (case parse_counts rest of
             None \<Rightarrow> None
           | Some (ngl, moe) \<Rightarrow>
               if (ngl \<le> 0 \<or> s_ngl s \<le> 0) \<and> ngl \<noteq> s_ngl s then None
               else Some (\<bar>ngl - s_ngl s\<bar> + \<bar>moe - int (s_moe s)\<bar>)))"

fun nearest :: "string \<Rightarrow> signature \<Rightarrow> (int \<times> rat) option \<Rightarrow> (string, rat) hmap \<Rightarrow> (int \<times> rat) option" where
  "nearest fam s best [] = best"
| "nearest fam s best ((key, v) # rest) =
     nearest fam s
       (case distance_to fam s key of
          None \<Rightarrow> best
        | Some d \<Rightarrow> if d \<le> NEAR_BLOCKS \<and> (case best of None \<Rightarrow> True | Some (d', _) \<Rightarrow> d < d') then Some (d, v) else best)
       rest"

definition measured ::
  "test \<Rightarrow> model_geometry \<Rightarrow> optimization \<Rightarrow> nat \<Rightarrow> kv_cache_quantization \<Rightarrow> signature \<Rightarrow> measures \<Rightarrow> rat option" where
  "measured t g opt n_ctx kv s m = map_option snd (nearest (family t g opt n_ctx kv s) s None (held m))"

text \<open>\<open>Iterator::max_by\<close>: the last of the elements with the greatest key.\<close>

fun last_max :: "('a \<Rightarrow> 'b::linorder) \<Rightarrow> 'a list \<Rightarrow> 'a option" where
  "last_max f [] = None"
| "last_max f (x # xs) = (case last_max f xs of None \<Rightarrow> Some x | Some y \<Rightarrow> Some (if f x \<le> f y then y else x))"

definition prompt_not_slower :: "rat option \<Rightarrow> execution_candidate \<Rightarrow> bool" where
  "prompt_not_slower rule_prompt c =
     (case (measured_prompt_tokens_per_s c, rule_prompt) of
        (Some pp, Some rule_pp) \<Rightarrow> pp * FASTER_BY \<ge> rule_pp
      | _ \<Rightarrow> True)"

definition fastest :: "execution_candidate list \<Rightarrow> nat \<Rightarrow> (execution_candidate \<Rightarrow> bool) \<Rightarrow> nat" where
  "fastest cs rule usable =
     (case measured_tokens_per_s (cs ! rule) of
        None \<Rightarrow> rule
      | Some rule_speed \<Rightarrow>
          (let xs = filter (\<lambda>(_, c). usable c) (enumerate 0 cs);
               ys = filter (\<lambda>(_, c). prompt_not_slower (measured_prompt_tokens_per_s (cs ! rule)) c) xs;
               zs = List.map_filter (\<lambda>(i, c). map_option (\<lambda>tps. (i, tps)) (measured_tokens_per_s c)) ys;
               ws = filter (\<lambda>(_, tps). tps \<ge> rule_speed * FASTER_BY) zs
           in case_option rule fst (last_max snd ws)))"

section \<open>The measured margin is a peak\<close>

definition record_gaps :: "(string \<times> rat option) list \<Rightarrow> measures \<Rightarrow> measures" where
  "record_gaps gaps m = foldl (\<lambda>m (k, v). snd (record_key k v m)) m gaps"

definition max_opt :: "rat option \<Rightarrow> rat option \<Rightarrow> rat option" where
  "max_opt a b = (case (a, b) of (None, _) \<Rightarrow> b | (_, None) \<Rightarrow> a | (Some x, Some y) \<Rightarrow> Some (max x y))"

definition peak :: "string \<Rightarrow> (string \<times> rat option) list \<Rightarrow> rat option" where
  "peak key gaps = foldl (\<lambda>a (k, v). if k = key then max_opt a v else a) None gaps"

lemma learned_key_held: "learned_key k m = hm_get k (held m)"
  by (simp add: learned_key_def held_def split: option.splits)

lemma learned_set_key [simp]: "learned_key k (set_key k' v m) = (if k = k' then Some v else learned_key k m)"
  by (simp add: learned_key_held set_key_def held_def)

lemma learned_record_key:
  "learned_key k (snd (record_key k' v m)) = (if k = k' then max_opt (learned_key k m) v else learned_key k m)"
  by (auto simp: learned_key_held record_key_def held_def max_opt_def Let_def max_def split: option.splits)

lemma record_key_changed: "fst (record_key k v m) \<longleftrightarrow> learned_key k (snd (record_key k v m)) \<noteq> learned_key k m"
  by (auto simp: learned_key_held record_key_def held_def Let_def split: option.splits)

text \<open>
  The margin kept for a model and its settings is the largest finite gap ever measured for
  exactly them, in whatever order the loads happened, and a record reports a change exactly when
  the margin moved.
\<close>

lemma margin_is_peak:
  "learned g opt (record_gaps gaps m) = max_opt (learned g opt m) (peak (pool_key g opt) gaps) \<and>
   (fst (record_gap g opt v m) \<longleftrightarrow> learned g opt (snd (record_gap g opt v m)) \<noteq> learned g opt m)"
proof -
  have max: "max_opt (max_opt a b) c = max_opt a (max_opt b c)" for a b c
    by (auto simp: max_opt_def split: option.splits)
  have pk: "foldl (\<lambda>a (k, v). if k = key then max_opt a v else a) x gaps = max_opt x (peak key gaps)" for x key
    unfolding peak_def
  proof (induction gaps rule: rev_induct)
    case (snoc y ys)
    then show ?case by (cases y) (simp add: max)
  qed (simp add: max_opt_def split: option.splits)
  have "learned_key k (record_gaps gaps m) = max_opt (learned_key k m) (peak k gaps)" for k
    unfolding pk [symmetric] record_gaps_def
    by (induction gaps arbitrary: m) (auto simp: learned_record_key)
  then show ?thesis by (simp add: learned_def record_gap_def record_key_changed)
qed

section \<open>Forgetting a model\<close>

lemma strip_prefix_append [simp]: "strip_prefix p (p @ r) = Some r"
  by (simp add: strip_prefix_def)

lemma of_model_kept_under:
  assumes "g \<in> set gs" and "p \<in> {''pool:'', CORRECTION, ''speed:tg:'', ''speed:pp:''}"
  shows "of_model mid gs (p @ file_key g @ rest)"
proof -
  have "list_ex (\<lambda>g'. prefix (file_key g') (file_key g @ rest)) gs"
    using assms(1) by (auto simp: list_ex_iff prefix_def)
  then show ?thesis
    using assms(2) by (auto simp: of_model_def strip_prefix_def map_filter_simps Let_def CORRECTION_def prefix_def)
qed

lemma nearest_keys:
  "nearest fam s best ms = best \<or> (\<exists>k v. (k, v) \<in> set ms \<and> prefix fam k)"
proof (induction ms arbitrary: best)
  case (Cons m ms)
  obtain k v where m: "m = (k, v)" by fastforce
  show ?case
  proof (cases "distance_to fam s k")
    case None
    with Cons.IH [of best] m show ?thesis by auto
  next
    case (Some d)
    then have "prefix fam k" by (auto simp: distance_to_def strip_prefix_def split: option.splits if_splits)
    with m show ?thesis by auto
  qed
qed simp

text \<open>
  Removing a model forgets it: no margin, no correction and no speed of any of its files is left, for
  any settings, context, KV type and placement; measurements of everything else stay; the count
  says how many went.
\<close>

theorem forget_model_complete:
  assumes "hm_ok (held m)" and "forget_model mid gs m = (n, m')"
  shows "(\<forall>g \<in> set gs. \<forall>opt. learned g opt m' = None \<and> correction g opt m' = None \<and>
       (\<forall>t ctx kv s. measured t g opt ctx kv s m' = None)) \<and>
    (\<forall>k. learned_key k m' = (if of_model mid gs k then None else learned_key k m)) \<and>
    n = length (filter (\<lambda>(k, v). of_model mid gs k) (held m))"
proof -
  have h': "held m' = hm_retain (\<lambda>key _. \<not> of_model mid gs key) (held m)"
    using assms(2) by (auto simp: forget_model_def held_def Let_def hm_retain_def split: option.splits)
  have keys: "learned_key k m' = (if of_model mid gs k then None else learned_key k m)" for k
    using assms(1) by (auto simp: learned_key_held h' hm_get_retain split: option.splits)
  have n: "n = length (held m) - length (held m')"
    using assms(2) by (auto simp: forget_model_def held_def Let_def split: option.splits)
  have "length (held m) - length (held m') = length (filter (\<lambda>(k, v). of_model mid gs k) (held m))"
    using sum_length_filter_compl [of "\<lambda>(k, v). of_model mid gs k" "held m"]
    by (simp add: h' hm_retain_def case_prod_unfold)
  moreover have "learned g opt m' = None \<and> correction g opt m' = None" if "g \<in> set gs" for g opt
    using of_model_kept_under [OF that, of "''pool:''" mid] of_model_kept_under [OF that, of CORRECTION mid]
    by (simp add: learned_def correction_def keys pool_key_def correction_key_def margin_key_def)
  moreover have "measured t g opt ctx kv s m' = None" if g: "g \<in> set gs" for t g opt ctx kv s
  proof -
    have "of_model mid gs k" if "prefix (family t g opt ctx kv s) k" for k
    proof -
      have "\<exists>rest. k = (''speed:'' @ tag t @ '':'') @ file_key g @ rest"
        using that by (auto simp: prefix_def family_def SPEED_PREFIX_def margin_key_def)
      then obtain rest where "k = (''speed:'' @ tag t @ '':'') @ file_key g @ rest" by blast
      then show ?thesis using of_model_kept_under [OF g, of "''speed:'' @ tag t @ '':''" mid rest] by (cases t) auto
    qed
    with nearest_keys [of "family t g opt ctx kv s" s None "held m'"] show ?thesis
      by (auto simp: measured_def h')
  qed
  ultimately show ?thesis using keys n by blast
qed

theorem forget_model_complete_witness:
  "learned small_model default_optimization (snd (forget_model ''m'' [small_model]
     (Some [(pool_key small_model default_optimization, 1 / 4), (''onnx:v:gpu'', 2)]))) = None"
proof -
  let ?m = "Some [(pool_key small_model default_optimization, 1 / 4), (''onnx:v:gpu'', 2)] :: measures"
  have "hm_ok (held ?m)" by (simp add: held_def hm_ok_def pool_key_def)
  from forget_model_complete [OF this, of "''m''" "[small_model]" "fst (forget_model ''m'' [small_model] ?m)"
      "snd (forget_model ''m'' [small_model] ?m)"]
  show ?thesis by simp
qed

section \<open>The measured speed of a placement\<close>

definition near :: "string \<Rightarrow> signature \<Rightarrow> (string, rat) hmap \<Rightarrow> (int \<times> rat) list" where
  "near fam s ms = concat (map (\<lambda>(k, v). case distance_to fam s k of
     None \<Rightarrow> [] | Some d \<Rightarrow> if d \<le> NEAR_BLOCKS then [(d, v)] else []) ms)"

lemma near_simps [simp]:
  "near fam s [] = []"
  "near fam s ((k, v) # ms) = (case distance_to fam s k of
     None \<Rightarrow> near fam s ms | Some d \<Rightarrow> if d \<le> NEAR_BLOCKS then (d, v) # near fam s ms else near fam s ms)"
  by (simp_all add: near_def split: option.splits)

lemma in_near: "(d, v) \<in> set (near fam s ms) \<longleftrightarrow> d \<le> NEAR_BLOCKS \<and> (\<exists>k. (k, v) \<in> set ms \<and> distance_to fam s k = Some d)"
proof (induction ms)
  case (Cons m ms)
  obtain k w where m: "m = (k, w)" by fastforce
  have "(d, v) \<in> set (near fam s (m # ms)) \<longleftrightarrow>
      (v = w \<and> d \<le> NEAR_BLOCKS \<and> distance_to fam s k = Some d) \<or> (d, v) \<in> set (near fam s ms)"
    by (auto simp: m split: option.splits)
  with Cons.IH m show ?case by auto
qed simp

lemma min_by_key_two: "min_by_key f (b # x # xs) = min_by_key f ((if f x < f b then x else b) # xs)"
  by (auto split: option.splits)

lemma nearest_is_min:
  "nearest fam s best ms = min_by_key fst (case_option [] (\<lambda>b. [b]) best @ near fam s ms)"
proof (induction ms arbitrary: best)
  case Nil
  then show ?case by (cases best) auto
next
  case (Cons m ms)
  obtain k v where m: "m = (k, v)" by fastforce
  show ?case
  proof (cases "\<exists>d. distance_to fam s k = Some d \<and> d \<le> NEAR_BLOCKS")
    case True
    then obtain d where d: "distance_to fam s k = Some d" "d \<le> NEAR_BLOCKS" by blast
    show ?thesis
    proof (cases best)
      case None
      with Cons m d show ?thesis by simp
    next
      case (Some b)
      with Cons [of "Some (if d < fst b then (d, v) else b)"] m d show ?thesis
        using min_by_key_two [of fst b "(d, v)" "near fam s ms"] by (cases b) (auto simp del: min_by_key.simps split: if_splits)
    qed
  next
    case False
    with Cons [of best] m show ?thesis by (auto split: option.splits)
  qed
qed

lemma measured_is_min:
  "measured t g opt ctx kv s m = map_option snd (min_by_key fst (near (family t g opt ctx kv s) s (held m)))"
  by (simp add: measured_def nearest_is_min)

text \<open>
  The speed the planner reads for a placement is one that was measured for the same model, settings,
  context, KV type and kind of placement, on no more than two blocks or expert layers away, and no
  measurement is nearer; every block on the GPU and CPU only are never near a count. Without such
  a measurement there is none.
\<close>

lemma measured_is_nearest:
  assumes "fam = family t g opt ctx kv s"
  shows "case measured t g opt ctx kv s m of
      None \<Rightarrow> \<forall>(k, v) \<in> set (held m). \<forall>d. distance_to fam s k = Some d \<longrightarrow> d > 2
    | Some v \<Rightarrow> \<exists>k d. (k, v) \<in> set (held m) \<and> distance_to fam s k = Some d \<and> d \<le> 2 \<and>
        (\<forall>(k', v') \<in> set (held m). \<forall>d'. distance_to fam s k' = Some d' \<longrightarrow> d \<le> d')"
proof (cases "min_by_key fst (near fam s (held m))")
  case None
  then have "measured t g opt ctx kv s m = None" using assms by (simp add: measured_is_min)
  moreover have "d > 2" if "(k, v) \<in> set (held m)" "distance_to fam s k = Some d" for k v d
    using None that in_near [of d v fam s "held m"] by (cases "d \<le> 2") (auto simp: NEAR_BLOCKS_def)
  ultimately show ?thesis by auto
next
  case (Some r)
  obtain d v where r: "r = (d, v)" by fastforce
  from min_by_key_Some [OF Some] r have h: "(d, v) \<in> set (near fam s (held m))"
    "\<forall>y \<in> set (near fam s (held m)). d \<le> fst y" by auto
  have least: "d \<le> d'" if "(k', v') \<in> set (held m)" "distance_to fam s k' = Some d'" for k' v' d'
    using h that in_near [of d' v' fam s "held m"] in_near [of d v fam s "held m"]
    by (cases "d' \<le> NEAR_BLOCKS") force+
  have "measured t g opt ctx kv s m = Some v" using Some r assms by (simp add: measured_is_min)
  moreover obtain k where "(k, v) \<in> set (held m)" "distance_to fam s k = Some d" "d \<le> 2"
    using h(1) by (auto simp: in_near NEAR_BLOCKS_def)
  ultimately show ?thesis using least by (auto intro!: exI [of _ k])
qed

lemma text_nat_digits_bound: "list_all is_digit (nat_text n) \<and> nat_text n \<noteq> []"
  by simp

lemma int_text_parse:
  assumes "\<bar>i\<bar> < 2 ^ 63"
  shows "parse_int (int_text i) = Some i"
proof (cases "i < 0")
  case True
  with assms show ?thesis by (simp add: int_text_def parse_int_def)
next
  case False
  have d: "is_digit (hd (nat_text (nat i)))"
    using text_nat_digits_bound [of "nat i"] by (cases "nat_text (nat i)") auto
  then have "hd (nat_text (nat i)) \<noteq> CHR ''-''" "hd (nat_text (nat i)) \<noteq> CHR ''+''"
    by (auto simp: is_digit_def)
  with False assms show ?thesis by (simp add: int_text_def parse_int_def parse_nat_def nat_le_iff)
qed

lemma digit_not_colon: "list_all is_digit s \<Longrightarrow> CHR '':'' \<notin> set s"
  by (auto simp: list_all_iff is_digit_def)

lemma find_sub_after:
  assumes "c \<notin> set a"
  shows "find_sub (c # p) (a @ (c # p) @ r) = Some (length a)"
  using assms by (induction a) auto

lemma parse_counts_text:
  assumes "\<bar>a\<bar> < 2 ^ 31" and "b < 2 ^ 32"
  shows "parse_counts (''ngl'' @ int_text a @ '':moe'' @ nat_text b) = Some (a, int b)"
proof -
  have "CHR '':'' \<notin> set (int_text a)"
    using digit_not_colon [of "nat_text (nat a)"] digit_not_colon [of "nat_text (nat (- a))"] by (auto simp: int_text_def)
  from find_sub_after [OF this, of "''moe''" "nat_text b"]
  have f: "find_sub '':moe'' (int_text a @ '':moe'' @ nat_text b) = Some (length (int_text a))" by simp
  have "parse_int (nat_text b) = Some (int b)"
    using int_text_parse [of "int b"] assms(2) by (simp add: int_text_def)
  moreover have "parse_int (int_text a) = Some a" by (rule int_text_parse) (use assms(1) in simp)
  ultimately show ?thesis using f by (simp add: parse_counts_def strip_prefix_def)
qed

text \<open>
  A speed recorded for a placement is the speed the planner reads for it, when the measurements of
  its kind were all written by the recorder: no other measurement is as near.
\<close>

lemma recorded_speed_is_read:
  assumes "tps > 0" and "\<bar>s_ngl s\<bar> < 2 ^ 31" and "s_moe s < 2 ^ 32" and "hm_ok (held m)"
    and "\<forall>(k, v) \<in> set (held m). prefix (family t g opt ctx kv s) k \<longrightarrow>
      (\<exists>s'. k = speed_key t g opt ctx kv s' \<and> s_tier s' = s_tier s \<and> s_kvo s' = s_kvo s \<and> \<bar>s_ngl s'\<bar> < 2 ^ 31 \<and> s_moe s' < 2 ^ 32)"
  shows "measured t g opt ctx kv s (record_speed t g opt ctx kv s (Some tps) m) = Some tps"
proof -
  let ?fam = "family t g opt ctx kv s" and ?key = "speed_key t g opt ctx kv s"
  let ?m' = "record_speed t g opt ctx kv s (Some tps) m"
  have held': "held ?m' = hm_insert ?key tps (held m)"
    using assms(1) by (simp add: record_speed_def set_key_def held_def)
  have same: "family t g opt ctx kv s' = ?fam" if "s_tier s' = s_tier s" "s_kvo s' = s_kvo s" for s'
    using that by (simp add: family_def)
  have dist: "distance_to ?fam s (speed_key t g opt ctx kv s') =
      (if (s_ngl s' \<le> 0 \<or> s_ngl s \<le> 0) \<and> s_ngl s' \<noteq> s_ngl s then None
       else Some (\<bar>s_ngl s' - s_ngl s\<bar> + \<bar>int (s_moe s') - int (s_moe s)\<bar>))"
    if "s_tier s' = s_tier s" "s_kvo s' = s_kvo s" "\<bar>s_ngl s'\<bar> < 2 ^ 31" "s_moe s' < 2 ^ 32" for s'
    using parse_counts_text [OF that(3,4)] same [OF that(1,2)] by (simp add: distance_to_def speed_key_def)
  have zero: "distance_to ?fam s ?key = Some 0" using dist [of s] assms(2,3) by simp
  have only: "k = ?key" if "(k, v) \<in> set (held ?m')" "distance_to ?fam s k = Some d" "d \<le> 0" for k v d
  proof (rule ccontr)
    assume ne: "k \<noteq> ?key"
    with that(1) have "(k, v) \<in> set (held m)" using set_hm_insert [OF assms(4)] by (auto simp: held')
    moreover have "prefix ?fam k" using that(2) by (auto simp: distance_to_def strip_prefix_def split: option.splits if_splits)
    ultimately obtain s' where s': "k = speed_key t g opt ctx kv s'" "s_tier s' = s_tier s" "s_kvo s' = s_kvo s"
      "\<bar>s_ngl s'\<bar> < 2 ^ 31" "s_moe s' < 2 ^ 32" using assms(5) by blast
    with that(2,3) dist [of s'] have "s_ngl s' = s_ngl s" "s_moe s' = s_moe s" by (auto split: if_splits)
    with s' ne same [of s'] show False by (simp add: speed_key_def)
  qed
  have key_in: "(?key, tps) \<in> set (held ?m')" using set_hm_insert [OF assms(4)] by (simp add: held')
  from key_in zero have near0: "(0, tps) \<in> set (near ?fam s (held ?m'))"
    by (auto simp: in_near NEAR_BLOCKS_def)
  then obtain d w where n: "min_by_key fst (near ?fam s (held ?m')) = Some (d, w)"
    by (cases "min_by_key fst (near ?fam s (held ?m'))") auto
  from min_by_key_Some [OF n] near0 have "d \<le> 0" "(d, w) \<in> set (near ?fam s (held ?m'))" by auto
  then obtain k where "(k, w) \<in> set (held ?m')" "distance_to ?fam s k = Some d" by (auto simp: in_near)
  with only \<open>d \<le> 0\<close> have "(?key, w) \<in> set (held ?m')" by blast
  then have "w = tps" using set_hm_insert [OF assms(4)] by (auto simp: held')
  with n show ?thesis by (simp add: measured_is_min)
qed

section \<open>The fastest placement\<close>

lemma last_max_Some: "last_max f xs = Some x \<Longrightarrow> x \<in> set xs \<and> (\<forall>y \<in> set xs. f y \<le> f x)"
proof (induction xs arbitrary: x)
  case (Cons a xs)
  show ?case
  proof (cases "last_max f xs")
    case None
    with Cons.prems show ?thesis by (cases xs) (auto split: option.splits)
  next
    case (Some y)
    with Cons.IH [of y] Cons.prems show ?thesis by (auto split: if_splits)
  qed
qed simp

lemma last_max_None [simp]: "last_max f xs = None \<longleftrightarrow> xs = []"
  by (cases xs) (auto split: option.splits)

text \<open>When a candidate may replace the rule-order pick, with the speed it was measured at.\<close>

definition beats_rule :: "execution_candidate list \<Rightarrow> nat \<Rightarrow> (execution_candidate \<Rightarrow> bool) \<Rightarrow> nat \<Rightarrow> rat \<Rightarrow> bool" where
  "beats_rule cs rule usable i tps \<longleftrightarrow>
     i < length cs \<and> usable (cs ! i) \<and> measured_tokens_per_s (cs ! i) = Some tps \<and>
     (\<exists>rule_tps. measured_tokens_per_s (cs ! rule) = Some rule_tps \<and> tps \<ge> rule_tps * FASTER_BY) \<and>
     prompt_not_slower (measured_prompt_tokens_per_s (cs ! rule)) (cs ! i)"

lemma fastest_cases:
  assumes "fastest cs rule usable = i"
  shows "(\<exists>tps. beats_rule cs rule usable i tps \<and> (\<forall>j t. beats_rule cs rule usable j t \<longrightarrow> t \<le> tps)) \<or>
    (i = rule \<and> (\<nexists>j t. beats_rule cs rule usable j t))"
proof (cases "measured_tokens_per_s (cs ! rule)")
  case None
  with assms show ?thesis by (auto simp: fastest_def beats_rule_def)
next
  case (Some rule_tps)
  define xs where "xs = filter (\<lambda>(_, c). prompt_not_slower (measured_prompt_tokens_per_s (cs ! rule)) c)
    (filter (\<lambda>(_, c). usable c) (enumerate 0 cs))"
  define ws where "ws = filter (\<lambda>(_, tps). tps \<ge> rule_tps * FASTER_BY)
    (List.map_filter (\<lambda>(i, c). map_option (\<lambda>tps. (i, tps)) (measured_tokens_per_s c)) xs)"
  have xs: "(j, c) \<in> set xs \<longleftrightarrow> j < length cs \<and> c = cs ! j \<and> usable c \<and>
      prompt_not_slower (measured_prompt_tokens_per_s (cs ! rule)) c" for j c
    by (auto simp: xs_def in_set_enumerate_eq)
  have ws: "(j, t) \<in> set ws \<longleftrightarrow> beats_rule cs rule usable j t" for j t
  proof -
    have "(j, t) \<in> set ws \<longleftrightarrow> t \<ge> rule_tps * FASTER_BY \<and> (\<exists>c. (j, c) \<in> set xs \<and> measured_tokens_per_s c = Some t)"
      by (auto simp: ws_def in_map_filter intro!: bexI [of _ "(j, _)"])
    with Some show ?thesis by (auto simp: xs beats_rule_def)
  qed
  have i: "i = case_option rule fst (last_max snd ws)"
    using assms Some by (simp add: fastest_def Let_def ws_def xs_def)
  show ?thesis
  proof (cases "last_max snd ws")
    case None
    then show ?thesis using i ws by auto
  next
    case (Some w)
    with last_max_Some [OF Some] i ws show ?thesis by (cases w) force
  qed
qed

text \<open>
  Step 4 of the planner. The pick is replaced exactly when some usable candidate was measured to
  generate at least 5% faster than the rule-order pick without reading prompts more than 5% slower, and
  then by one of those that generates fastest; otherwise the rule order stands.
\<close>

theorem fastest_choice:
  assumes "fastest cs rule usable = i"
  shows "(\<exists>tps. beats_rule cs rule usable i tps \<and> (\<forall>j t. beats_rule cs rule usable j t \<longrightarrow> t \<le> tps)) \<or>
    (i = rule \<and> (\<nexists>j t. beats_rule cs rule usable j t))"
  using assms by (rule fastest_cases)

definition measured_candidate :: "nat \<Rightarrow> rat \<Rightarrow> execution_candidate" where
  "measured_candidate n tps =
     (infeasible n)\<lparr>c_tier := Hybrid, feasible := True, measured_tokens_per_s := Some tps\<rparr>"

theorem fastest_choice_witness:
  "fastest [measured_candidate 1 20, measured_candidate 2 30] 0 feasible = 1"
proof -
  have "beats_rule [measured_candidate 1 20, measured_candidate 2 30] 0 feasible 1 30"
    by (simp add: beats_rule_def measured_candidate_def infeasible_def FASTER_BY_def prompt_not_slower_def)
  then show ?thesis
    using fastest_choice [of "[measured_candidate 1 20, measured_candidate 2 30]" 0 feasible, OF refl]
    by (auto simp: beats_rule_def measured_candidate_def infeasible_def less_Suc_eq nth_Cons' FASTER_BY_def split: if_splits)
qed

end
