(* ===== verification/Placement_Planner.thy ===== *)
theory Placement_Planner
  imports Placement_Measure
begin

text \<open>
  engine/plan/src/planner.rs: from the geometry of a model, the live hardware and the settings to an
  execution plan. Byte counts are natural numbers; the additions the code writes without a
  check are exact here.
\<close>

definition AUTO_CONTEXT_FLOOR :: nat where "AUTO_CONTEXT_FLOOR = 4096"
definition AUTO_CONTEXT_MIN :: nat where "AUTO_CONTEXT_MIN = 2048"
definition AUTO_CONTEXT_TARGET :: nat where "AUTO_CONTEXT_TARGET = 16384"
definition AUTO_SPLIT_CONTEXT :: nat where "AUTO_SPLIT_CONTEXT = 8192"
definition RAM_CEILING_FRACTION :: rat where "RAM_CEILING_FRACTION = 95 / 100"
definition CONTEXT_ALIGN :: nat where "CONTEXT_ALIGN = KV_CELL_PAD"

lemmas context_consts = AUTO_CONTEXT_FLOOR_def AUTO_CONTEXT_MIN_def AUTO_CONTEXT_TARGET_def AUTO_SPLIT_CONTEXT_def

record device_budget =
  free_bytes :: nat
  fixed_bytes :: nat
  buffers_gb :: "rat list"

record context_choice =
  n_ctx :: nat
  kv_quant :: kv_cache_quantization
  buffer_gb :: rat
  fits_on_device :: bool
  cc_reason :: context_reason

definition vram_buffer_options :: "optimization \<Rightarrow> rat list" where
  "vram_buffer_options opt =
     (case custom_vram_buffer_gb opt of
        Some custom \<Rightarrow> [custom]
      | None \<Rightarrow> [DEFAULT_SAFE_BUFFER_GB, MIN_SAFE_BUFFER_GB])"

definition model_buffer_options :: "measures \<Rightarrow> model_geometry \<Rightarrow> system_info \<Rightarrow> optimization \<Rightarrow> rat list" where
  "model_buffer_options m g hw opt =
     (case (custom_vram_buffer_gb opt, learned g opt m) of
        (None, Some gap) \<Rightarrow> [gap + reserve_gb hw]
      | _ \<Rightarrow> vram_buffer_options opt)"

definition usable_bytes :: "nat \<Rightarrow> rat \<Rightarrow> nat" where
  "usable_bytes free buffer =
     (if buffer \<ge> 0 then free - gib_to_bytes buffer
      else min (free + gib_to_bytes (- buffer)) U64_MAX)"

definition ram_budget_bytes :: "system_info \<Rightarrow> optimization \<Rightarrow> nat" where
  "ram_budget_bytes hw opt =
     (let total = mem_total_gb (memory hw);
          free = mem_available_gb (memory hw);
          budget = (case custom_ram_buffer_gb opt of
             Some buffer \<Rightarrow> free - buffer
           | None \<Rightarrow> free - total * (1 - RAM_CEILING_FRACTION))
      in gib_to_bytes (max budget 0))"

section \<open>The context\<close>

function search :: "(nat \<Rightarrow> bool) \<Rightarrow> nat \<Rightarrow> nat \<Rightarrow> nat" where
  "search fits lo hi =
     (if lo < hi then
        (let mid = (lo + hi + 1) div 2
         in if fits (mid * CONTEXT_ALIGN) then search fits mid hi else search fits lo (mid - 1))
      else lo)"
  by auto
termination by (relation "measure (\<lambda>(_, lo, hi). hi - lo)") auto

declare search.simps [simp del]

definition largest_fitting_context :: "nat \<Rightarrow> (nat \<Rightarrow> bool) \<Rightarrow> nat" where
  "largest_fitting_context ceil fits =
     (if fits ceil then ceil else search fits 0 (ceil div CONTEXT_ALIGN) * CONTEXT_ALIGN)"

definition fits_budget :: "model_geometry \<Rightarrow> device_budget \<Rightarrow> nat \<Rightarrow> nat \<Rightarrow> kv_cache_quantization \<Rightarrow> rat \<Rightarrow> bool" where
  "fits_budget g budget ubatch ctx kv buf \<longleftrightarrow>
     fixed_bytes budget + kv_cache_bytes g ctx kv ubatch \<le> usable_bytes (free_bytes budget) buf"

definition native_ctx :: "model_geometry \<Rightarrow> nat" where
  "native_ctx g = max (context_length g) 1"

definition floor_ctx :: "model_geometry \<Rightarrow> nat" where
  "floor_ctx g = min (native_ctx g) AUTO_CONTEXT_FLOOR"

definition kv_options :: "optimization \<Rightarrow> kv_cache_quantization list" where
  "kv_options opt = (case kv_cache_quant opt of KvAuto \<Rightarrow> [Kv16, Kv8] | fixed \<Rightarrow> [fixed])"

definition first_buffer :: "device_budget \<Rightarrow> rat" where
  "first_buffer budget = (case buffers_gb budget of [] \<Rightarrow> 0 | b # _ \<Rightarrow> b)"

definition exact_context :: "model_geometry \<Rightarrow> device_budget \<Rightarrow> optimization \<Rightarrow> nat \<Rightarrow> context_choice" where
  "exact_context g budget opt ctx =
     (case find (\<lambda>(kv, buf). fits_budget g budget (resolved_ubatch_size opt) ctx kv buf)
        (List.product (kv_options opt) (buffers_gb budget)) of
        Some (kv, buf) \<Rightarrow> \<lparr>n_ctx = ctx, kv_quant = kv, buffer_gb = buf, fits_on_device = True, cc_reason = ExactFits ctx kv buf\<rparr>
      | None \<Rightarrow>
          \<lparr>n_ctx = ctx, kv_quant = last (kv_options opt), buffer_gb = first_buffer budget, fits_on_device = False,
           cc_reason = ExactKept ctx (last (kv_options opt))\<rparr>)"

text \<open>The ladder of the Auto context: KV type, ceil and least context of each step.\<close>

definition auto_steps :: "model_geometry \<Rightarrow> optimization \<Rightarrow> (kv_cache_quantization \<times> nat \<times> nat) list" where
  "auto_steps g opt =
     (let target = min (native_ctx g) AUTO_CONTEXT_TARGET in
      if kv_cache_quant opt = KvAuto
      then [(Kv16, target, target), (Kv8, target, floor_ctx g), (Kv4, floor_ctx g, floor_ctx g)]
      else [(last (kv_options opt), target, floor_ctx g)])"

definition auto_tries :: "model_geometry \<Rightarrow> device_budget \<Rightarrow> optimization \<Rightarrow> (kv_cache_quantization \<times> nat \<times> nat \<times> rat) list" where
  "auto_tries g budget opt =
     map (\<lambda>(kv, ceil, least). (kv, ceil, least, first_buffer budget)) (auto_steps g opt) @
     concat (map (\<lambda>buf. map (\<lambda>(kv, _, _). (kv, floor_ctx g, floor_ctx g, buf)) (auto_steps g opt)) (drop 1 (buffers_gb budget)))"

text \<open>The first of the tries whose largest fitting context is enough, with its position.\<close>

fun first_try ::
  "model_geometry \<Rightarrow> device_budget \<Rightarrow> nat \<Rightarrow> nat \<Rightarrow> (kv_cache_quantization \<times> nat \<times> nat \<times> rat) list \<Rightarrow> (nat \<times> nat \<times> kv_cache_quantization \<times> rat) option" where
  "first_try g budget ubatch i [] = None"
| "first_try g budget ubatch i ((kv, ceil, least, buf) # tries) =
     (let ctx = largest_fitting_context ceil (\<lambda>c. fits_budget g budget ubatch c kv buf)
      in if ctx \<ge> least then Some (i, ctx, kv, buf) else first_try g budget ubatch (Suc i) tries)"

definition auto_context :: "model_geometry \<Rightarrow> device_budget \<Rightarrow> optimization \<Rightarrow> context_choice" where
  "auto_context g budget opt =
     (let ubatch = resolved_ubatch_size opt;
          min_ctx = min (native_ctx g) AUTO_CONTEXT_MIN;
          compact = fst (last (auto_steps g opt))
      in case first_try g budget ubatch 0 (auto_tries g budget opt) of
        Some (i, ctx, kv, buf) \<Rightarrow>
          \<lparr>n_ctx = ctx, kv_quant = kv, buffer_gb = buf, fits_on_device = True,
           cc_reason = (if i = 0 then AutoWanted ctx kv buf else AutoToStay ctx kv buf)\<rparr>
      | None \<Rightarrow>
          (case first_try g budget ubatch 0 (map (\<lambda>buf. (compact, floor_ctx g, min_ctx, buf)) (buffers_gb budget)) of
             Some (i, ctx, kv, buf) \<Rightarrow>
               \<lparr>n_ctx = ctx, kv_quant = kv, buffer_gb = buf, fits_on_device = True, cc_reason = AutoBelowFloor ctx kv buf\<rparr>
           | None \<Rightarrow>
               (let split_ctx = min (native_ctx g) AUTO_SPLIT_CONTEXT;
                    split_kv = (if kv_cache_quant opt = KvAuto then Kv8 else last (kv_options opt))
                in \<lparr>n_ctx = split_ctx, kv_quant = split_kv, buffer_gb = first_buffer budget, fits_on_device = False,
                    cc_reason = AutoSplit split_ctx split_kv\<rparr>)))"

definition resolve_context :: "model_geometry \<Rightarrow> device_budget \<Rightarrow> optimization \<Rightarrow> context_choice" where
  "resolve_context g budget opt =
     (case context_setting_of opt of
        Custom n \<Rightarrow> exact_context g budget opt (min n (native_ctx g))
      | CtxMax \<Rightarrow> exact_context g budget opt (native_ctx g)
      | CtxAuto \<Rightarrow> auto_context g budget opt)"

section \<open>The search for the largest context\<close>

text \<open>A test that a smaller context passes whenever a larger one does: binary search is exact on it.\<close>

locale shrinking_fit =
  fixes fits :: "nat \<Rightarrow> bool"
  assumes smaller_fits: "fits n \<Longrightarrow> m \<le> n \<Longrightarrow> fits m"
begin

lemma search_largest:
  "lo \<le> hi \<Longrightarrow> lo \<le> search fits lo hi \<and> search fits lo hi \<le> hi \<and>
     (search fits lo hi = lo \<or> fits (search fits lo hi * CONTEXT_ALIGN)) \<and>
     (\<forall>k. search fits lo hi < k \<and> k \<le> hi \<longrightarrow> \<not> fits (k * CONTEXT_ALIGN))"
proof (induction "hi - lo" arbitrary: lo hi rule: less_induct)
  case less
  show ?case
  proof (cases "lo < hi")
    case True
    define mid where "mid = (lo + hi + 1) div 2"
    have mid: "lo < mid" "mid \<le> hi" using True by (auto simp: mid_def)
    show ?thesis
    proof (cases "fits (mid * CONTEXT_ALIGN)")
      case fit: True
      then have eq: "search fits lo hi = search fits mid hi"
        using True by (subst search.simps) (simp add: mid_def Let_def)
      have "hi - mid < hi - lo" using mid by arith
      from less.hyps [OF this mid(2)] mid fit eq show ?thesis by auto
    next
      case no: False
      then have eq: "search fits lo hi = search fits lo (mid - 1)"
        using True by (subst search.simps) (simp add: mid_def Let_def)
      have above: "\<not> fits (k * CONTEXT_ALIGN)" if "k \<ge> mid" for k
        using no smaller_fits [of "k * CONTEXT_ALIGN" "mid * CONTEXT_ALIGN"] that by auto
      have "mid - 1 - lo < hi - lo" "lo \<le> mid - 1" using mid by auto
      from less.hyps [OF this] have ih: "lo \<le> search fits lo (mid - 1) \<and> search fits lo (mid - 1) \<le> mid - 1 \<and>
        (search fits lo (mid - 1) = lo \<or> fits (search fits lo (mid - 1) * CONTEXT_ALIGN)) \<and>
        (\<forall>k. search fits lo (mid - 1) < k \<and> k \<le> mid - 1 \<longrightarrow> \<not> fits (k * CONTEXT_ALIGN))" .
      have "\<not> fits (k * CONTEXT_ALIGN)" if "search fits lo (mid - 1) < k" for k
        using ih above that by (cases "k \<le> mid - 1") auto
      with ih mid eq show ?thesis by auto
    qed
  next
    case False
    then have "search fits lo hi = lo" by (subst search.simps) simp
    with False less.prems show ?thesis by auto
  qed
qed

text \<open>The result fits unless nothing does, and nothing larger on the 256-token grid fits.\<close>

lemma largest_context:
  assumes "c = largest_fitting_context ceil fits"
  shows "c \<le> ceil \<and> (c = 0 \<or> fits c) \<and> (c = ceil \<or> CONTEXT_ALIGN dvd c) \<and>
    (\<forall>d \<le> ceil. (d = ceil \<or> CONTEXT_ALIGN dvd d) \<longrightarrow> fits d \<longrightarrow> d \<le> c)"
proof (cases "fits ceil")
  case True
  with assms show ?thesis by (simp add: largest_fitting_context_def)
next
  case False
  let ?r = "search fits 0 (ceil div CONTEXT_ALIGN)"
  from search_largest [of 0 "ceil div CONTEXT_ALIGN"]
  have r: "?r \<le> ceil div CONTEXT_ALIGN" "?r = 0 \<or> fits (?r * CONTEXT_ALIGN)"
    "\<forall>k. ?r < k \<and> k \<le> ceil div CONTEXT_ALIGN \<longrightarrow> \<not> fits (k * CONTEXT_ALIGN)" by auto
  have c: "c = ?r * CONTEXT_ALIGN" using assms False by (simp add: largest_fitting_context_def)
  have pos: "CONTEXT_ALIGN > 0" by (simp add: CONTEXT_ALIGN_def KV_CELL_PAD_def)
  have "?r * CONTEXT_ALIGN \<le> ceil div CONTEXT_ALIGN * CONTEXT_ALIGN" using r(1) by (rule mult_le_mono1)
  also have "\<dots> \<le> ceil" by simp
  finally have "c \<le> ceil" using c by simp
  moreover have "d \<le> c" if d: "d \<le> ceil" "CONTEXT_ALIGN dvd d" "fits d" for d
  proof -
    obtain k where k: "d = k * CONTEXT_ALIGN" using d(2) by (auto simp: dvd_def mult.commute)
    with d(1) pos have "k \<le> ceil div CONTEXT_ALIGN" by (simp add: less_eq_div_iff_mult_less_eq)
    with r(3) d(3) k have "k \<le> ?r" by (meson not_le)
    with k c show ?thesis by simp
  qed
  ultimately show ?thesis using r(2) c False by auto
qed

lemma largest_ge_iff:
  assumes "0 < least" and "least \<le> ceil" and "least = ceil \<or> CONTEXT_ALIGN dvd least"
  shows "least \<le> largest_fitting_context ceil fits \<longleftrightarrow> fits least"
  using largest_context [OF refl, of ceil] assms smaller_fits by (metis leD zero_less_iff_neq_zero)

lemma largest_eqI:
  assumes "fits c" and "CONTEXT_ALIGN dvd c" and "CONTEXT_ALIGN dvd ceil" and "c < ceil" and "\<not> fits (c + CONTEXT_ALIGN)"
  shows "largest_fitting_context ceil fits = c"
proof (rule antisym)
  let ?l = "largest_fitting_context ceil fits"
  from largest_context [OF refl, of ceil] have l: "?l = 0 \<or> fits ?l" "?l = ceil \<or> CONTEXT_ALIGN dvd ?l"
    "\<forall>d \<le> ceil. (d = ceil \<or> CONTEXT_ALIGN dvd d) \<longrightarrow> fits d \<longrightarrow> d \<le> ?l" by auto
  from l(3) assms show "c \<le> ?l" by auto
  show "?l \<le> c"
  proof (rule ccontr)
    assume "\<not> ?l \<le> c"
    moreover from l(2) assms(3) have "CONTEXT_ALIGN dvd ?l" by auto
    ultimately have "c + CONTEXT_ALIGN \<le> ?l"
      using assms(2) by (metis add.commute dvd_diff_nat dvd_imp_le le_diff_conv2 linorder_le_cases linorder_not_le zero_less_diff)
    with l(1) smaller_fits assms(5) show False by (metis add_is_0 assms(1) le_zero_eq)
  qed
qed

end

text \<open>The test of the planner is one: the KV cache grows with the context.\<close>

interpretation budget_fit: shrinking_fit "\<lambda>c. fits_budget g budget ubatch c kv buf"
proof
  fix m n :: nat
  assume "fits_budget g budget ubatch n kv buf" "m \<le> n"
  moreover from \<open>m \<le> n\<close> have "kv_cache_bytes g m kv ubatch \<le> kv_cache_bytes g n kv ubatch"
    by (simp add: kv_cache_bytes_def sum_list_mono kv_layer_bytes_mono)
  ultimately show "fits_budget g budget ubatch m kv buf" by (simp add: fits_budget_def)
qed

section \<open>The chosen context\<close>

lemma first_try_Some:
  "first_try g budget ubatch i tries = Some (j, ctx, kv, buf) \<Longrightarrow>
     \<exists>ceil least. (kv, ceil, least, buf) \<in> set tries \<and> least \<le> ctx \<and>
       ctx = largest_fitting_context ceil (\<lambda>c. fits_budget g budget ubatch c kv buf)"
  by (induction g budget ubatch i tries rule: first_try.induct) (auto simp: Let_def split: if_splits)

lemma first_try_None:
  "first_try g budget ubatch i tries = None \<Longrightarrow> (kv, ceil, least, buf) \<in> set tries \<Longrightarrow>
     largest_fitting_context ceil (\<lambda>c. fits_budget g budget ubatch c kv buf) < least"
  by (induction g budget ubatch i tries rule: first_try.induct) (auto simp: Let_def split: if_splits)

lemma native_pos [simp]: "0 < native_ctx g"
  by (simp add: native_ctx_def)

lemma first_buffer_in: "buffers_gb budget \<noteq> [] \<Longrightarrow> first_buffer budget \<in> set (buffers_gb budget)"
  by (cases "buffers_gb budget") (auto simp: first_buffer_def)

lemma auto_tries_in:
  assumes "(kv, ceil, least, buf) \<in> set (auto_tries g budget opt)" and "buffers_gb budget \<noteq> []"
  shows "buf \<in> set (buffers_gb budget) \<and> min (native_ctx g) AUTO_CONTEXT_MIN \<le> least \<and> least \<le> ceil \<and>
    ceil \<le> min (native_ctx g) AUTO_CONTEXT_TARGET"
  using assms first_buffer_in [OF assms(2)]
  by (auto simp: auto_tries_def auto_steps_def Let_def floor_ctx_def context_consts split: if_splits dest: in_set_dropD)

text \<open>A context a try accepts fits on the device and is no larger than its ceiling.\<close>

lemma first_try_fits:
  assumes "first_try g budget ubatch i tries = Some (j, ctx, kv, buf)"
    and "\<And>kv ceil least buf. (kv, ceil, least, buf) \<in> set tries \<Longrightarrow> buf \<in> B \<and> lo \<le> least \<and> ceil \<le> hi" and "0 < lo"
  shows "fits_budget g budget ubatch ctx kv buf \<and> buf \<in> B \<and> lo \<le> ctx \<and> ctx \<le> hi"
proof -
  from first_try_Some [OF assms(1)] obtain ceil least where t: "(kv, ceil, least, buf) \<in> set tries" "least \<le> ctx"
    "ctx = largest_fitting_context ceil (\<lambda>c. fits_budget g budget ubatch c kv buf)" by blast
  from budget_fit.largest_context [OF t(3)] have "ctx \<le> ceil" "ctx = 0 \<or> fits_budget g budget ubatch ctx kv buf" by auto
  with assms(2) [OF t(1)] t(2) assms(3) show ?thesis by auto
qed

lemma exact_context_correct:
  assumes "c = exact_context g budget opt ctx"
  shows "n_ctx c = ctx \<and>
    (fits_on_device c \<longrightarrow> fits_budget g budget (resolved_ubatch_size opt) ctx (kv_quant c) (buffer_gb c) \<and>
       buffer_gb c \<in> set (buffers_gb budget) \<and> kv_quant c \<in> set (kv_options opt)) \<and>
    (\<not> fits_on_device c \<longrightarrow> (\<forall>kv \<in> set (kv_options opt). \<forall>buf \<in> set (buffers_gb budget).
       \<not> fits_budget g budget (resolved_ubatch_size opt) ctx kv buf))"
proof (cases "find (\<lambda>(kv, buf). fits_budget g budget (resolved_ubatch_size opt) ctx kv buf)
    (List.product (kv_options opt) (buffers_gb budget))")
  case None
  with assms show ?thesis by (auto simp: exact_context_def find_None_iff)
next
  case (Some p)
  then obtain i where "i < length (List.product (kv_options opt) (buffers_gb budget))"
    "p = List.product (kv_options opt) (buffers_gb budget) ! i"
    "case p of (kv, buf) \<Rightarrow> fits_budget g budget (resolved_ubatch_size opt) ctx kv buf" by (auto simp: find_Some_iff)
  moreover from this have "p \<in> set (List.product (kv_options opt) (buffers_gb budget))" by (metis nth_mem)
  ultimately show ?thesis using assms Some by (cases p) (auto simp: exact_context_def)
qed

lemma auto_context_fits:
  assumes "c = auto_context g budget opt" and "buffers_gb budget \<noteq> []" and "fits_on_device c"
  shows "fits_budget g budget (resolved_ubatch_size opt) (n_ctx c) (kv_quant c) (buffer_gb c) \<and>
    buffer_gb c \<in> set (buffers_gb budget) \<and>
    min (native_ctx g) AUTO_CONTEXT_MIN \<le> n_ctx c \<and> n_ctx c \<le> min (native_ctx g) AUTO_CONTEXT_TARGET"
proof -
  let ?ub = "resolved_ubatch_size opt"
  let ?low = "map (\<lambda>buf. (fst (last (auto_steps g opt)), floor_ctx g, min (native_ctx g) AUTO_CONTEXT_MIN, buf)) (buffers_gb budget)"
  have pos: "0 < min (native_ctx g) AUTO_CONTEXT_MIN" by (simp add: AUTO_CONTEXT_MIN_def)
  have a: "buf \<in> set (buffers_gb budget) \<and> min (native_ctx g) AUTO_CONTEXT_MIN \<le> least \<and> ceil \<le> min (native_ctx g) AUTO_CONTEXT_TARGET"
    if "(kv, ceil, least, buf) \<in> set (auto_tries g budget opt)" for kv ceil least buf
    using auto_tries_in [OF that assms(2)] by simp
  have l: "buf \<in> set (buffers_gb budget) \<and> min (native_ctx g) AUTO_CONTEXT_MIN \<le> least \<and> ceil \<le> min (native_ctx g) AUTO_CONTEXT_TARGET"
    if "(kv, ceil, least, buf) \<in> set ?low" for kv ceil least buf
    using that by (auto simp: floor_ctx_def context_consts)
  show ?thesis
  proof (cases "first_try g budget ?ub 0 (auto_tries g budget opt)")
    case (Some r)
    obtain j ctx kv buf where r: "r = (j, ctx, kv, buf)" by (cases r) auto
    with first_try_fits [OF Some [unfolded r] a pos] assms(1) Some show ?thesis by (simp add: auto_context_def)
  next
    case None
    show ?thesis
    proof (cases "first_try g budget ?ub 0 ?low")
      case none: None
      with None assms show ?thesis by (simp add: auto_context_def Let_def)
    next
      case (Some r)
      obtain j ctx kv buf where r: "r = (j, ctx, kv, buf)" by (cases r) auto
      from first_try_fits [OF Some [unfolded r] l pos] assms(1) None Some r show ?thesis by (simp add: auto_context_def Let_def)
    qed
  qed
qed

lemma auto_context_split:
  assumes "c = auto_context g budget opt" and "\<not> fits_on_device c" and "buf \<in> set (buffers_gb budget)"
  shows "n_ctx c = min (native_ctx g) AUTO_SPLIT_CONTEXT \<and>
    \<not> fits_budget g budget (resolved_ubatch_size opt) (min (native_ctx g) AUTO_CONTEXT_MIN) (fst (last (auto_steps g opt))) buf"
proof -
  let ?ub = "resolved_ubatch_size opt" and ?kv = "fst (last (auto_steps g opt))" and ?min = "min (native_ctx g) AUTO_CONTEXT_MIN"
  let ?low = "map (\<lambda>buf. (?kv, floor_ctx g, ?min, buf)) (buffers_gb budget)"
  have none: "first_try g budget ?ub 0 (auto_tries g budget opt) = None" "first_try g budget ?ub 0 ?low = None"
    using assms(1,2) by (auto simp: auto_context_def Let_def split: option.splits)
  have "(?kv, floor_ctx g, ?min, buf) \<in> set ?low" using assms(3) by auto
  from first_try_None [OF none(2) this]
  have less: "largest_fitting_context (floor_ctx g) (\<lambda>c. fits_budget g budget ?ub c ?kv buf) < ?min" .
  have "?min = floor_ctx g \<or> CONTEXT_ALIGN dvd ?min"
    by (auto simp: floor_ctx_def context_consts CONTEXT_ALIGN_def KV_CELL_PAD_def min_def)
  moreover have "?min \<le> floor_ctx g" by (simp add: floor_ctx_def context_consts)
  ultimately have "\<not> fits_budget g budget ?ub ?min ?kv buf"
    using budget_fit.largest_context [OF refl, of "floor_ctx g" g budget ?ub ?kv buf] less by fastforce
  with none assms(1) show ?thesis by (simp add: auto_context_def Let_def)
qed

text \<open>
  The context the planner gives. A context the user chose is given exactly, never more than the
  model's own limit and never cut to fit. Whatever is said to fit on the device does: weights, logits
  and KV cache stay within its free memory less one of the allowed buffers. Auto gives between 2048 and
  16384 tokens (or the model's limit) on the device; it gives up the device only when not even 2048
  tokens with the most compact KV fit under any buffer, and then takes 8192.
\<close>

theorem context_rules:
  assumes "c = resolve_context g budget opt" and "buffers_gb budget \<noteq> []"
  shows "(\<forall>n. context_setting_of opt = Custom n \<longrightarrow> n_ctx c = min n (native_ctx g)) \<and>
    (context_setting_of opt = CtxMax \<longrightarrow> n_ctx c = native_ctx g) \<and>
    (fits_on_device c \<longrightarrow> buffer_gb c \<in> set (buffers_gb budget) \<and>
       fixed_bytes budget + kv_cache_bytes g (n_ctx c) (kv_quant c) (resolved_ubatch_size opt)
         \<le> usable_bytes (free_bytes budget) (buffer_gb c)) \<and>
    (context_setting_of opt = CtxAuto \<longrightarrow>
       (if fits_on_device c
        then min (native_ctx g) 2048 \<le> n_ctx c \<and> n_ctx c \<le> min (native_ctx g) 16384
        else n_ctx c = min (native_ctx g) 8192 \<and> (\<forall>buf \<in> set (buffers_gb budget).
          \<not> fits_budget g budget (resolved_ubatch_size opt) (min (native_ctx g) 2048) (fst (last (auto_steps g opt))) buf)))"
proof (cases "context_setting_of opt")
  case CtxAuto
  then have c: "c = auto_context g budget opt" using assms(1) by (simp add: resolve_context_def)
  obtain buf where buf: "buf \<in> set (buffers_gb budget)" using assms(2) by (cases "buffers_gb budget") auto
  show ?thesis
    using CtxAuto auto_context_fits [OF c assms(2)] auto_context_split [OF c _ buf] auto_context_split [OF c]
    by (auto simp: fits_budget_def context_consts)
next
  case CtxMax
  then have "c = exact_context g budget opt (native_ctx g)" using assms(1) by (simp add: resolve_context_def)
  from exact_context_correct [OF this] CtxMax show ?thesis by (auto simp: fits_budget_def)
next
  case (Custom n)
  then have "c = exact_context g budget opt (min n (native_ctx g))" using assms(1) by (simp add: resolve_context_def)
  from exact_context_correct [OF this] Custom show ?thesis by (auto simp: fits_budget_def)
qed

text \<open>A device with 3 GB free for the small model's weights.\<close>

definition small_budget :: device_budget where
  "small_budget = \<lparr>free_bytes = 8 * GIB, fixed_bytes = 3 * GIB, buffers_gb = [1, 1 / 2]\<rparr>"

theorem context_rules_witness:
  "n_ctx (resolve_context small_model small_budget (default_optimization\<lparr>custom_context_window := Some 100000\<rparr>)) = 16384"
  using context_rules [where c = "resolve_context small_model small_budget (default_optimization\<lparr>custom_context_window := Some 100000\<rparr>)"
      and g = small_model and budget = small_budget and opt = "default_optimization\<lparr>custom_context_window := Some 100000\<rparr>"]
  by (simp add: small_budget_def context_setting_of_def default_optimization_def U32_MAX_def native_ctx_def small_model_def)

section \<open>More free memory, smaller context\<close>

text \<open>A model whose layers are all alike: full attention, one head count.\<close>

lemma kv_cache_uniform:
  assumes "head_count_kv_per_layer g = []" and "recurrent_layers g = []" and "swa_layers g = []"
  shows "kv_cache_bytes g ctx kv ubatch =
    kv_layer_count g * element_bytes kv (head_count_kv g * (key_length g + value_length g) * pad_cells ctx)"
proof -
  have "kv_layer_bytes g l ctx kv ubatch =
      (if l < kv_layer_count g then element_bytes kv (head_count_kv g * (key_length g + value_length g) * pad_cells ctx) else 0)" for l
    using assms by (simp add: kv_layer_bytes_def is_recurrent_def is_swa_def get_or_def kv_heads_def)
  moreover have "(\<Sum>l \<leftarrow> [0..<n]. if l < n then c else 0) = n * c" for n c :: nat
  proof -
    have "map (\<lambda>l. if l < n then c else 0) [0..<n] = replicate n c" by (auto simp: list_eq_iff_nth_eq)
    then show ?thesis by (simp add: sum_list_replicate)
  qed
  ultimately show ?thesis by (simp add: kv_cache_bytes_def)
qed

text \<open>The shape of a 30B model with plain multi-head attention: 60 blocks, 52 heads of 128.\<close>

definition wide_model :: model_geometry where
  "wide_model = small_model\<lparr>context_length := 8192, block_count := 60, head_count := 52, head_count_kv := 52,
     head_count_kv_per_layer := []\<rparr>"

definition wide_budget :: "nat \<Rightarrow> device_budget" where
  "wide_budget free = \<lparr>free_bytes = free, fixed_bytes = 18 * GIB, buffers_gb = [1, 1 / 2]\<rparr>"

fun wide_rate :: "kv_cache_quantization \<Rightarrow> nat" where
  "wide_rate Kv4 = 449280" | "wide_rate Kv8 = 848640" | "wide_rate Kv16 = 1597440" | "wide_rate KvAuto = 1597440"

lemma wide_kv: "kv_cache_bytes wide_model ctx kv ubatch = wide_rate kv * pad_cells ctx"
proof -
  have "of_nat (13312 * n) * bytes_per_element kv = (of_nat (wide_rate kv div 60 * n) :: rat)" for n
    by (cases kv) simp_all
  then have "element_bytes kv (13312 * n) = wide_rate kv div 60 * n" for n
    by (simp only: element_bytes_def ceiling_of_nat nat_int)
  then have "60 * element_bytes kv (13312 * n) = wide_rate kv * n" for n
    by (cases kv) simp_all
  then show ?thesis by (simp add: wide_model_def small_model_def kv_cache_uniform kv_layer_count_def)
qed

lemma wide_fits:
  "fits_budget wide_model (wide_budget free) ubatch ctx kv buf \<longleftrightarrow>
     19327352832 + wide_rate kv * pad_cells ctx \<le> usable_bytes free buf"
  by (simp add: fits_budget_def wide_budget_def wide_kv GIB_def)

lemma usable_wide: "usable_bytes free 1 = free - 1073741824" "usable_bytes free (1 / 2) = free - 536870912"
  by (simp_all add: usable_bytes_def gib_to_bytes_def GIB_def U64_MAX_def)

lemma wide_start:
  "context_setting_of default_optimization = CtxAuto" "kv_cache_quant default_optimization = KvAuto"
  "resolved_ubatch_size default_optimization = 512" "native_ctx wide_model = 8192"
  "buffers_gb (wide_budget free) = [1, 1 / 2]" "first_buffer (wide_budget free) = 1"
  by (simp_all add: context_setting_of_def default_optimization_def native_ctx_def resolved_ubatch_size_def
      wide_model_def small_model_def wide_budget_def first_buffer_def)

lemmas wide_rules = resolve_context_def auto_context_def auto_tries_def auto_steps_def floor_ctx_def wide_start
  Let_def context_consts budget_fit.largest_ge_iff CONTEXT_ALIGN_def KV_CELL_PAD_def

lemmas wide_nums = wide_fits usable_wide pad_cells_def KV_CELL_PAD_def

text \<open>
  What the comment on the Auto ladder rules out does happen below the 4096-token floor: with
  one byte more of free memory the same model on the same machine gets 2048 tokens instead of
  3072, because the smaller buffer is tried only when not even 2048 tokens fit under the larger one.
\<close>

theorem more_memory_smaller_context:
  "n_ctx (resolve_context wide_model (wide_budget 21321220096) default_optimization) = 2048 \<and>
   n_ctx (resolve_context wide_model (wide_budget 21321220095) default_optimization) = 3072"
proof -
  have large: "largest_fitting_context 4096 (\<lambda>c. fits_budget wide_model (wide_budget 21321220096) 512 c Kv4 1) = 2048"
    by (rule budget_fit.largest_eqI) (simp_all add: wide_nums CONTEXT_ALIGN_def)
  have small: "largest_fitting_context 4096 (\<lambda>c. fits_budget wide_model (wide_budget 21321220095) 512 c Kv4 (1 / 2)) = 3072"
    by (rule budget_fit.largest_eqI) (simp_all add: wide_nums CONTEXT_ALIGN_def)
  have no: "\<not> fits_budget wide_model (wide_budget free) 512 ctx kv buf"
    if "usable_bytes free buf \<le> 20784349184" "4096 \<le> ctx" for free ctx kv buf
  proof -
    have "449280 * 4096 \<le> wide_rate kv * pad_cells ctx"
      using that(2) pad_cells_ge [of ctx] by (intro mult_le_mono) (cases kv, simp_all)
    with that(1) show ?thesis by (simp add: wide_fits)
  qed
  have "\<not> fits_budget wide_model (wide_budget 21321220095) 512 2048 Kv4 1"
    "fits_budget wide_model (wide_budget 21321220096) 512 2048 Kv4 1"
    by (simp_all add: wide_nums)
  with large small show ?thesis by (simp add: wide_rules no usable_wide)
qed

end
