(* ===== verification/Placement_Plan.thy ===== *)
theory Placement_Plan
  imports Placement_Planner
begin

text \<open>
  engine/plan/src/planner.rs, the placements: the bytes of a placement, the candidates in rule order
  and the plan made of the one that is picked. What the function \<open>plan\<close> computes once and its
  closures capture is the record \<open>plan_env\<close>. The measurements are the state \<open>measures\<close>.
\<close>

record placement =
  vram :: nat
  ram :: nat
  kv_gpu :: nat
  kv_ram :: nat

record plan_env =
  pe_geometry :: model_geometry
  pe_ctx :: nat
  pe_kv :: kv_cache_quantization
  pe_ubatch :: nat
  pe_logits :: nat
  pe_gpu_logits :: nat
  pe_unified :: bool
  pe_vram_usable :: nat
  pe_ram_budget :: nat

definition n_layers :: "plan_env \<Rightarrow> nat" where
  "n_layers e = block_count (pe_geometry e)"

definition weights_of :: "plan_env \<Rightarrow> weight_bytes" where
  "weights_of e = g_weights (pe_geometry e)"

definition block_bytes :: "weight_bytes \<Rightarrow> nat" where
  "block_bytes w = sum_list (w_layer w) + experts_total w"

definition head_gpu :: "weight_bytes \<Rightarrow> nat" where
  "head_gpu w = full_gpu w - block_bytes w"

definition head_cpu :: "weight_bytes \<Rightarrow> nat" where
  "head_cpu w = w_total w - (w_input_cpu w + block_bytes w)"

definition gpu_blocks :: "nat \<Rightarrow> int \<Rightarrow> nat" where
  "gpu_blocks layers ngl = (if ngl < 0 then layers else if ngl = 0 then 0 else min (nat ngl - 1) layers)"

text \<open>One block of the loop of \<open>place\<close>.\<close>

definition place_block :: "plan_env \<Rightarrow> nat \<Rightarrow> nat \<Rightarrow> bool \<Rightarrow> nat \<Rightarrow> placement \<Rightarrow> placement" where
  "place_block e first_gpu_block moe kv_off l p =
     (let w = weights_of e;
          on_gpu = (l \<ge> first_gpu_block);
          kv_l = kv_layer_bytes (pe_geometry e) l (pe_ctx e) (pe_kv e) (pe_ubatch e);
          p = (if on_gpu then p\<lparr>vram := vram p + w_layer w ! l\<rparr> else p\<lparr>ram := ram p + w_layer w ! l\<rparr>);
          p = (if on_gpu \<and> l \<ge> moe then p\<lparr>vram := vram p + w_layer_experts w ! l\<rparr>
               else p\<lparr>ram := ram p + w_layer_experts w ! l\<rparr>)
      in if on_gpu \<and> kv_off then p\<lparr>kv_gpu := kv_gpu p + kv_l\<rparr> else p\<lparr>kv_ram := kv_ram p + kv_l\<rparr>)"

definition place :: "plan_env \<Rightarrow> int \<Rightarrow> nat \<Rightarrow> bool \<Rightarrow> placement" where
  "place e ngl moe kv_off =
     (let w = weights_of e;
          first_gpu_block = n_layers e - gpu_blocks (n_layers e) ngl;
          p = \<lparr>vram = 0, ram = w_input_cpu w, kv_gpu = 0, kv_ram = 0\<rparr>;
          p = (if ngl \<noteq> 0 then p\<lparr>vram := vram p + (head_gpu w + pe_gpu_logits e)\<rparr>
               else p\<lparr>ram := ram p + (head_cpu w + pe_logits e)\<rparr>);
          p = fold (place_block e first_gpu_block moe kv_off) [0..<n_layers e] p;
          p = p\<lparr>vram := vram p + kv_gpu p, ram := ram p + kv_ram p\<rparr>
      in if pe_unified e then p\<lparr>ram := ram p + vram p\<rparr> else p)"

definition over_vram :: "plan_env \<Rightarrow> placement \<Rightarrow> nat" where
  "over_vram e p = vram p - pe_vram_usable e"

definition candidate ::
  "plan_env \<Rightarrow> string \<Rightarrow> placement_tier \<Rightarrow> int \<Rightarrow> nat \<Rightarrow> bool \<Rightarrow> placement \<Rightarrow> nat \<Rightarrow> bool \<Rightarrow> execution_candidate" where
  "candidate e name tier ngl moe kvo p vram_over may_stream =
     (let fits_vram = (vram_over = 0);
          over_ram = ram p - pe_ram_budget e;
          ok = (fits_vram \<and> (over_ram = 0 \<or> may_stream))
      in \<lparr>c_name = name,
          c_tier = (if ok \<and> over_ram > 0 \<and> tier = CpuOnly then SsdStreaming else tier),
          c_n_gpu_layers = ngl, c_n_cpu_moe = moe, c_context_window = pe_ctx e,
          vram_required_gb = bytes_to_gib (vram p), ram_required_gb = bytes_to_gib (ram p),
          c_kv_gpu_gb = bytes_to_gib (kv_gpu p), c_kv_ram_gb = bytes_to_gib (kv_ram p),
          c_disk_stream_gb = (if ok then bytes_to_gib over_ram else 0),
          c_kv_offload = kvo,
          missing_gb = (if ok then 0 else bytes_to_gib vram_over + (if may_stream then 0 else bytes_to_gib over_ram)),
          feasible = ok,
          c_reason = (if \<not> fits_vram then NoVram
            else if over_ram > 0 \<and> may_stream then FromDisk (bytes_to_gib over_ram)
            else if over_ram > 0 then NoRam (bytes_to_gib over_ram)
            else Detail),
          measured_tokens_per_s = None, measured_prompt_tokens_per_s = None\<rparr>)"

section \<open>The candidates, in rule order\<close>

definition manual_ngl :: "system_info \<Rightarrow> optimization \<Rightarrow> int" where
  "manual_ngl hw opt = (case n_gpu_layers opt of Some n \<Rightarrow> n | None \<Rightarrow> if gpus hw = [] then 0 else -1)"

definition manual_tier :: "plan_env \<Rightarrow> int \<Rightarrow> nat \<Rightarrow> bool \<Rightarrow> placement_tier" where
  "manual_tier e ngl moe kvo =
     (if ngl = 0 then CpuOnly
      else if moe > 0 then MoeSplit
      else if (ngl < 0 \<or> nat ngl > n_layers e) \<and> kvo then GpuOnly
      else Hybrid)"

definition manual_candidates :: "plan_env \<Rightarrow> system_info \<Rightarrow> optimization \<Rightarrow> execution_candidate list" where
  "manual_candidates e hw opt =
     (if is_manual_placement opt then
        (let ngl = manual_ngl hw opt;
             moe = case_option 0 id (n_cpu_moe opt);
             kvo = case_option True id (offload_kqv opt)
         in [candidate e ''User setting'' (manual_tier e ngl moe kvo) ngl moe kvo (place e ngl moe kvo) 0 True])
      else [])"

definition env_is_moe :: "plan_env \<Rightarrow> bool" where
  "env_is_moe e \<longleftrightarrow> experts_total (weights_of e) > 0"

definition full_gpu_candidate :: "plan_env \<Rightarrow> execution_candidate" where
  "full_gpu_candidate e =
     (let p = place e (-1) 0 True in candidate e ''Full GPU'' GpuOnly (-1) 0 True p (over_vram e p) (env_is_moe e))"

definition moe_layers :: "plan_env \<Rightarrow> nat" where
  "moe_layers e = case_option (n_layers e) id (find (\<lambda>n. over_vram e (place e (-1) n True) = 0) [0..<Suc (n_layers e)])"

definition moe_candidate :: "plan_env \<Rightarrow> execution_candidate" where
  "moe_candidate e =
     (let p = place e (-1) (moe_layers e) True
      in candidate e ''MoE split'' MoeSplit (-1) (moe_layers e) True p (over_vram e p) True)"

definition split_blocks :: "plan_env \<Rightarrow> nat" where
  "split_blocks e = case_option 1 id (find (\<lambda>b. over_vram e (place e (int b + 1) 0 True) = 0) (rev [1..<n_layers e]))"

definition split_candidate :: "plan_env \<Rightarrow> execution_candidate" where
  "split_candidate e =
     (let p = place e (int (split_blocks e) + 1) 0 True
      in candidate e ''GPU + RAM split'' Hybrid (int (split_blocks e) + 1) 0 True p (over_vram e p) (env_is_moe e))"

definition kv_ram_candidate :: "plan_env \<Rightarrow> execution_candidate" where
  "kv_ram_candidate e =
     (let p = place e (-1) 0 False in candidate e ''Weights GPU, KV RAM'' Hybrid (-1) 0 False p (over_vram e p) False)"

definition cpu_candidate :: "plan_env \<Rightarrow> execution_candidate" where
  "cpu_candidate e = candidate e ''CPU only'' CpuOnly 0 0 True (place e 0 0 True) 0 (env_is_moe e)"

definition candidates_of :: "plan_env \<Rightarrow> system_info \<Rightarrow> optimization \<Rightarrow> bool \<Rightarrow> execution_candidate list" where
  "candidates_of e hw opt gpu_allowed =
     manual_candidates e hw opt @
     (if gpu_allowed then [full_gpu_candidate e] else []) @
     (if gpu_allowed \<and> env_is_moe e then [moe_candidate e] else []) @
     (if gpu_allowed \<and> n_layers e > 1 then [split_candidate e] else []) @
     (if gpu_allowed \<and> context_setting_of opt \<noteq> CtxAuto then [kv_ram_candidate e] else []) @
     [cpu_candidate e]"

definition add_measured :: "measures \<Rightarrow> plan_env \<Rightarrow> optimization \<Rightarrow> execution_candidate \<Rightarrow> execution_candidate" where
  "add_measured m e opt c =
     c\<lparr>measured_tokens_per_s := measured Generation (pe_geometry e) opt (pe_ctx e) (pe_kv e) (signature_of c) m,
       measured_prompt_tokens_per_s := measured Prompt (pe_geometry e) opt (pe_ctx e) (pe_kv e) (signature_of c) m\<rparr>"

section \<open>The plan\<close>

definition gpu_allowed :: "system_info \<Rightarrow> optimization \<Rightarrow> bool" where
  "gpu_allowed hw opt \<longleftrightarrow> gpus hw \<noteq> [] \<and> n_gpu_layers opt \<noteq> Some 0"

definition unified :: "system_info \<Rightarrow> bool" where
  "unified hw \<longleftrightarrow> is_unified_memory (memory hw) \<and> gpus hw \<noteq> []"

definition vram_free :: "system_info \<Rightarrow> nat" where
  "vram_free hw = gib_to_bytes (case gpus hw of [] \<Rightarrow> 0 | g # _ \<Rightarrow> vram_available_gb g)"

definition gpu_logits :: "measures \<Rightarrow> model_geometry \<Rightarrow> optimization \<Rightarrow> nat" where
  "gpu_logits m g opt =
     (let logits = logits_buffer_bytes g (resolved_ubatch_size opt);
          c = case_option 0 id (correction g opt m)
      in if c \<ge> 0 then logits + gib_to_bytes c else logits - gib_to_bytes (- c))"

definition plan_budget :: "measures \<Rightarrow> model_geometry \<Rightarrow> system_info \<Rightarrow> optimization \<Rightarrow> device_budget" where
  "plan_budget m g hw opt =
     (let w = g_weights g; experts = experts_total w in
      if gpu_allowed hw opt then
        \<lparr>free_bytes = (if unified hw then min (vram_free hw) (ram_budget_bytes hw opt - w_input_cpu w) else vram_free hw),
         fixed_bytes = (if experts > 0 then full_gpu w - experts else full_gpu w) + gpu_logits m g opt,
         buffers_gb = model_buffer_options m g hw opt\<rparr>
      else
        \<lparr>free_bytes = ram_budget_bytes hw opt,
         fixed_bytes = w_total w + logits_buffer_bytes g (resolved_ubatch_size opt),
         buffers_gb = [0]\<rparr>)"

definition plan_choice :: "measures \<Rightarrow> model_geometry \<Rightarrow> system_info \<Rightarrow> optimization \<Rightarrow> bool \<Rightarrow> context_choice" where
  "plan_choice m g hw opt split_at_floor =
     (let choice = resolve_context g (plan_budget m g hw opt) opt in
      if \<not> gpu_allowed hw opt \<and> context_setting_of opt = CtxAuto \<and> n_ctx choice > floor_ctx g
      then choice\<lparr>n_ctx := floor_ctx g, cc_reason := AutoOnCpu (floor_ctx g) (kv_quant choice)\<rparr>
      else if split_at_floor \<and> \<not> fits_on_device choice \<and> context_setting_of opt = CtxAuto
      then choice\<lparr>n_ctx := floor_ctx g, cc_reason := AutoSplitFloor (floor_ctx g) (kv_quant choice)\<rparr>
      else choice)"

definition plan_buffer :: "measures \<Rightarrow> model_geometry \<Rightarrow> system_info \<Rightarrow> optimization \<Rightarrow> bool \<Rightarrow> rat" where
  "plan_buffer m g hw opt split_at_floor =
     (if gpu_allowed hw opt then buffer_gb (plan_choice m g hw opt split_at_floor) else 0)"

definition env_of :: "measures \<Rightarrow> model_geometry \<Rightarrow> system_info \<Rightarrow> optimization \<Rightarrow> bool \<Rightarrow> plan_env" where
  "env_of m g hw opt split_at_floor =
     (let choice = plan_choice m g hw opt split_at_floor in
      \<lparr>pe_geometry = g, pe_ctx = n_ctx choice, pe_kv = kv_quant choice, pe_ubatch = resolved_ubatch_size opt,
       pe_logits = logits_buffer_bytes g (resolved_ubatch_size opt), pe_gpu_logits = gpu_logits m g opt,
       pe_unified = unified hw,
       pe_vram_usable = usable_bytes (vram_free hw) (plan_buffer m g hw opt split_at_floor),
       pe_ram_budget = ram_budget_bytes hw opt\<rparr>)"

text \<open>\<open>Iterator::position\<close>\<close>

fun position :: "('a \<Rightarrow> bool) \<Rightarrow> 'a list \<Rightarrow> nat option" where
  "position P [] = None"
| "position P (x # xs) = (if P x then Some 0 else map_option Suc (position P xs))"

definition in_memory :: "execution_candidate \<Rightarrow> bool" where
  "in_memory c \<longleftrightarrow> feasible c \<and> c_disk_stream_gb c = 0"

definition rule_pick :: "optimization \<Rightarrow> bool \<Rightarrow> execution_candidate list \<Rightarrow> nat option" where
  "rule_pick opt moe cs =
     (if is_manual_placement opt then (if cs \<noteq> [] then Some 0 else None)
      else case position in_memory cs of
        Some i \<Rightarrow> Some i
      | None \<Rightarrow> if moe then position feasible cs else None)"

definition final_pick :: "optimization \<Rightarrow> execution_candidate list \<Rightarrow> nat \<Rightarrow> nat" where
  "final_pick opt cs rule =
     (if is_manual_placement opt \<or> \<not> in_memory (cs ! rule) then rule else fastest cs rule in_memory)"

definition explain :: "execution_candidate list \<Rightarrow> nat \<Rightarrow> nat \<Rightarrow> explanation" where
  "explain cs rule pick =
     (let c = cs ! pick in
      if pick \<noteq> rule
      then MeasuredFaster (c_name c) (case_option 0 id (measured_tokens_per_s c)) (c_name (cs ! rule))
             (case_option 0 id (measured_tokens_per_s (cs ! rule))) (c_reason c)
      else Because (c_name c) (c_reason c))"

definition select :: "optimization \<Rightarrow> plan_env \<Rightarrow> execution_candidate list \<Rightarrow> execution_candidate \<times> explanation" where
  "select opt e cs =
     (case rule_pick opt (env_is_moe e) cs of
        Some rule \<Rightarrow> (let pick = final_pick opt cs rule in (cs ! pick, explain cs rule pick))
      | None \<Rightarrow>
          (infeasible (pe_ctx e),
           DoesNotFit (map_option (\<lambda>c. (c_name c, missing_gb c, c_reason c)) (min_by_key missing_gb cs))))"

definition plan_model ::
  "measures \<Rightarrow> string \<Rightarrow> model_geometry \<Rightarrow> system_info \<Rightarrow> optimization \<Rightarrow> bool \<Rightarrow> execution_plan" where
  "plan_model m mid g hw opt split_at_floor =
     (let e = env_of m g hw opt split_at_floor;
          cs = map (add_measured m e opt) (candidates_of e hw opt (gpu_allowed hw opt));
          (c, why) = select opt e cs
      in \<lparr>model_id = mid, selected_tier = c_tier c, p_n_gpu_layers = c_n_gpu_layers c, p_n_cpu_moe = c_n_cpu_moe c,
          context_window = pe_ctx e, total_layers = block_count g,
          vram_budget_gb = vram_required_gb c, ram_budget_gb = ram_required_gb c,
          kv_gpu_gb = c_kv_gpu_gb c, kv_ram_gb = c_kv_ram_gb c, disk_stream_gb = c_disk_stream_gb c,
          kv_offload = c_kv_offload c, p_op_offload = case_option True id (op_offload opt),
          kv_cache_type = pe_kv e, vram_buffer_gb = plan_buffer m g hw opt split_at_floor,
          ram_budget_limit_gb = bytes_to_gib (pe_ram_budget e),
          p_context_reason = cc_reason (plan_choice m g hw opt split_at_floor),
          candidates = cs, p_explanation = why\<rparr>)"

definition create_plan :: "measures \<Rightarrow> string \<Rightarrow> model_geometry \<Rightarrow> system_info \<Rightarrow> optimization \<Rightarrow> execution_plan" where
  "create_plan m mid g hw opt =
     (let plan = plan_model m mid g hw opt False in
      if \<not> is_feasible plan \<and> context_setting_of opt = CtxAuto \<and> context_window plan > floor_ctx g
      then (let smaller = plan_model m mid g hw opt True in if is_feasible smaller then smaller else plan)
      else plan)"

definition after_failed_load ::
  "execution_plan \<Rightarrow> model_geometry \<Rightarrow> rat \<Rightarrow> system_info \<Rightarrow> optimization \<Rightarrow> measures \<Rightarrow> execution_plan option \<times> measures" where
  "after_failed_load failed g free_gb live opt m =
     (if p_n_gpu_layers failed = 0 \<or> gpus live = [] \<or> n_gpu_layers opt \<noteq> None \<or> n_cpu_moe opt \<noteq> None then (None, m)
      else
        (let m' = snd (record_gap g opt (Some (free_gb - vram_budget_gb failed)) m);
             nxt = create_plan m' (model_id failed) g live opt;
             changed = (p_n_gpu_layers nxt \<noteq> p_n_gpu_layers failed \<or> context_window nxt \<noteq> context_window failed \<or>
               p_n_cpu_moe nxt \<noteq> p_n_cpu_moe failed \<or> kv_cache_type nxt \<noteq> kv_cache_type failed \<or>
               kv_offload nxt \<noteq> kv_offload failed)
         in (if is_feasible nxt \<and> changed then Some nxt else None, m')))"

section \<open>The bytes of a placement\<close>

definition block_kv :: "plan_env \<Rightarrow> nat \<Rightarrow> nat" where
  "block_kv e l = kv_layer_bytes (pe_geometry e) l (pe_ctx e) (pe_kv e) (pe_ubatch e)"

definition geometry_ok :: "model_geometry \<Rightarrow> bool" where
  "geometry_ok g \<longleftrightarrow> length (w_layer (g_weights g)) = block_count g \<and>
     length (w_layer_experts (g_weights g)) = block_count g \<and>
     w_input_cpu (g_weights g) + block_bytes (g_weights g) \<le> w_total (g_weights g)"

definition sum_where :: "(nat \<Rightarrow> bool) \<Rightarrow> (nat \<Rightarrow> nat) \<Rightarrow> nat list \<Rightarrow> nat" where
  "sum_where P f ls = (\<Sum>l \<leftarrow> ls. if P l then f l else 0)"

lemma sum_where_simps [simp]:
  "sum_where P f [] = 0" "sum_where P f (l # ls) = (if P l then f l else 0) + sum_where P f ls"
  by (simp_all add: sum_where_def)

lemma sum_where_split: "sum_where P f ls + sum_where (\<lambda>l. \<not> P l) f ls = sum_list (map f ls)"
  by (induction ls) auto

lemma sum_where_mono: "(\<And>l. l \<in> set ls \<Longrightarrow> P l \<Longrightarrow> Q l) \<Longrightarrow> sum_where P f ls \<le> sum_where Q f ls"
  by (induction ls) (auto intro: add_mono trans_le_add2)

lemma sum_where_none: "(\<And>l. l \<in> set ls \<Longrightarrow> \<not> P l) \<Longrightarrow> sum_where P f ls = 0"
  by (induction ls) auto

lemma fold_place_block:
  "fold (place_block e first moe kvo) ls p =
     p\<lparr>vram := vram p + sum_where (\<lambda>l. l \<ge> first) (\<lambda>l. w_layer (weights_of e) ! l) ls +
         sum_where (\<lambda>l. l \<ge> first \<and> l \<ge> moe) (\<lambda>l. w_layer_experts (weights_of e) ! l) ls,
       ram := ram p + sum_where (\<lambda>l. \<not> l \<ge> first) (\<lambda>l. w_layer (weights_of e) ! l) ls +
         sum_where (\<lambda>l. \<not> (l \<ge> first \<and> l \<ge> moe)) (\<lambda>l. w_layer_experts (weights_of e) ! l) ls,
       kv_gpu := kv_gpu p + sum_where (\<lambda>l. l \<ge> first \<and> kvo) (block_kv e) ls,
       kv_ram := kv_ram p + sum_where (\<lambda>l. \<not> (l \<ge> first \<and> kvo)) (block_kv e) ls\<rparr>"
proof (induction ls arbitrary: p)
  case (Cons l ls)
  show ?case
    by (cases p) (simp add: Cons.IH, simp add: place_block_def Let_def block_kv_def)
qed simp

definition first_gpu :: "plan_env \<Rightarrow> int \<Rightarrow> nat" where
  "first_gpu e ngl = n_layers e - gpu_blocks (n_layers e) ngl"

lemma place_sums:
  "kv_gpu (place e ngl moe kvo) = sum_where (\<lambda>l. l \<ge> first_gpu e ngl \<and> kvo) (block_kv e) [0..<n_layers e]"
  "kv_ram (place e ngl moe kvo) = sum_where (\<lambda>l. \<not> (l \<ge> first_gpu e ngl \<and> kvo)) (block_kv e) [0..<n_layers e]"
  "vram (place e ngl moe kvo) =
     (if ngl \<noteq> 0 then head_gpu (weights_of e) + pe_gpu_logits e else 0) +
     sum_where (\<lambda>l. l \<ge> first_gpu e ngl) (\<lambda>l. w_layer (weights_of e) ! l) [0..<n_layers e] +
     sum_where (\<lambda>l. l \<ge> first_gpu e ngl \<and> l \<ge> moe) (\<lambda>l. w_layer_experts (weights_of e) ! l) [0..<n_layers e] +
     kv_gpu (place e ngl moe kvo)"
  "ram (place e ngl moe kvo) =
     w_input_cpu (weights_of e) + (if ngl = 0 then head_cpu (weights_of e) + pe_logits e else 0) +
     sum_where (\<lambda>l. \<not> l \<ge> first_gpu e ngl) (\<lambda>l. w_layer (weights_of e) ! l) [0..<n_layers e] +
     sum_where (\<lambda>l. \<not> (l \<ge> first_gpu e ngl \<and> l \<ge> moe)) (\<lambda>l. w_layer_experts (weights_of e) ! l) [0..<n_layers e] +
     kv_ram (place e ngl moe kvo) + (if pe_unified e then vram (place e ngl moe kvo) else 0)"
  by (simp_all add: place_def Let_def fold_place_block first_gpu_def)

lemma place_cpu: "vram (place e 0 moe kvo) = 0" "kv_gpu (place e 0 moe kvo) = 0"
  by (auto simp: place_sums first_gpu_def gpu_blocks_def intro!: sum_where_none)

lemma kv_total_sum: "(\<Sum>l \<leftarrow> [0..<n_layers e]. block_kv e l) = kv_cache_bytes (pe_geometry e) (pe_ctx e) (pe_kv e) (pe_ubatch e)"
proof -
  let ?n = "n_layers e" and ?k = "kv_layer_count (pe_geometry e)"
  have k: "?k \<le> ?n" by (simp add: kv_layer_count_def n_layers_def)
  then have "[0..<?n] = [0..<?k] @ [?k..<?n]" by (metis le_add_diff_inverse upt_add_eq_append zero_le)
  moreover have "(\<Sum>l \<leftarrow> [?k..<?n]. block_kv e l) = 0"
    by (simp add: sum_list_eq_0_iff block_kv_def kv_layer_bytes_def)
  ultimately show ?thesis by (simp add: kv_cache_bytes_def block_kv_def)
qed

lemma sum_nth: "length xs = n \<Longrightarrow> (\<Sum>l \<leftarrow> [0..<n]. xs ! l) = sum_list xs"
  by (metis map_nth)

text \<open>
  No byte of a model is lost or counted twice by a placement. On the GPU, VRAM and RAM together hold all
  tensors, the tied copy of the output head, the logits buffer and the KV cache of the whole model, however
  the blocks, experts and KV are split (in RAM alone when the memory is one); on the CPU all of it is RAM.
\<close>

theorem placement_conserves_bytes:
  assumes "geometry_ok (pe_geometry e)" and "p = place e ngl moe kvo"
  shows "kv_gpu p + kv_ram p = kv_cache_bytes (pe_geometry e) (pe_ctx e) (pe_kv e) (pe_ubatch e) \<and>
    (ngl \<noteq> 0 \<longrightarrow> (if pe_unified e then ram p else vram p + ram p) =
       w_total (weights_of e) + w_tied_output_copy (weights_of e) + pe_gpu_logits e + kv_gpu p + kv_ram p) \<and>
    (ngl = 0 \<longrightarrow> vram p = 0 \<and> ram p = w_total (weights_of e) + pe_logits e + kv_ram p)"
proof -
  let ?w = "weights_of e" and ?ls = "[0..<n_layers e]"
  have len: "length (w_layer ?w) = n_layers e" "length (w_layer_experts ?w) = n_layers e"
    and tot: "w_input_cpu ?w + block_bytes ?w \<le> w_total ?w"
    using assms(1) by (simp_all add: geometry_ok_def weights_of_def n_layers_def)
  have kv: "kv_gpu p + kv_ram p = kv_cache_bytes (pe_geometry e) (pe_ctx e) (pe_kv e) (pe_ubatch e)"
    unfolding assms(2) place_sums(1,2) sum_where_split kv_total_sum ..
  have blocks: "sum_where P (\<lambda>l. w_layer ?w ! l) ?ls + sum_where Q (\<lambda>l. w_layer_experts ?w ! l) ?ls +
      (sum_where (\<lambda>l. \<not> P l) (\<lambda>l. w_layer ?w ! l) ?ls + sum_where (\<lambda>l. \<not> Q l) (\<lambda>l. w_layer_experts ?w ! l) ?ls) = block_bytes ?w" for P Q
    using sum_where_split [of P "\<lambda>l. w_layer ?w ! l" ?ls] sum_where_split [of Q "\<lambda>l. w_layer_experts ?w ! l" ?ls]
      sum_nth [OF len(1)] sum_nth [OF len(2)] by (simp add: block_bytes_def experts_total_def)
  have head: "head_gpu ?w + block_bytes ?w + w_input_cpu ?w = w_total ?w + w_tied_output_copy ?w"
    "head_cpu ?w + block_bytes ?w + w_input_cpu ?w = w_total ?w"
    using tot by (simp_all add: head_gpu_def head_cpu_def full_gpu_def)
  let ?P = "\<lambda>l. l \<ge> first_gpu e ngl" and ?Q = "\<lambda>l. l \<ge> first_gpu e ngl \<and> l \<ge> moe"
  from blocks [of ?P ?Q] head have "vram p + ram p = w_total ?w + w_tied_output_copy ?w + pe_gpu_logits e + kv_gpu p + kv_ram p +
      (if pe_unified e then vram p else 0)" if "ngl \<noteq> 0"
    using that unfolding assms(2) place_sums(3,4) [of e ngl moe kvo] by simp
  moreover have "vram p = 0 \<and> ram p = w_total ?w + pe_logits e + kv_ram p" if z: "ngl = 0"
  proof -
    have "sum_where ?P (\<lambda>l. w_layer ?w ! l) ?ls = 0" "sum_where ?Q (\<lambda>l. w_layer_experts ?w ! l) ?ls = 0"
      using z by (auto simp: first_gpu_def gpu_blocks_def intro!: sum_where_none)
    with blocks [of ?P ?Q] head(2) z place_cpu(1) [of e moe kvo] show ?thesis
      unfolding assms(2) place_sums(4) [of e ngl moe kvo] by simp
  qed
  ultimately show ?thesis using kv by (auto split: if_splits)
qed

definition small_env :: plan_env where
  "small_env =
     \<lparr>pe_geometry = small_model, pe_ctx = 4096, pe_kv = Kv16, pe_ubatch = 512, pe_logits = 65536000,
      pe_gpu_logits = 65536000, pe_unified = False, pe_vram_usable = 2 * GIB, pe_ram_budget = 8 * GIB\<rparr>"

lemma small_model_ok: "geometry_ok small_model"
  by (simp add: geometry_ok_def small_model_def block_bytes_def experts_total_def)

theorem placement_conserves_bytes_witness:
  "kv_gpu (place small_env 3 0 True) + kv_ram (place small_env 3 0 True) = kv_cache_bytes small_model 4096 Kv16 512"
  using placement_conserves_bytes [of small_env "place small_env 3 0 True" 3 0 True]
  by (simp add: small_env_def small_model_ok)

section \<open>How much goes on the GPU\<close>

lemma vram_moe_antimono: "m \<le> n \<Longrightarrow> vram (place e ngl n True) \<le> vram (place e ngl m True)"
  unfolding place_sums(3) place_sums(1) by (auto intro!: sum_where_mono add_mono)

lemma vram_blocks_mono:
  assumes "a \<le> b" and "b < n_layers e"
  shows "vram (place e (int a + 1) 0 True) \<le> vram (place e (int b + 1) 0 True)"
proof -
  have "first_gpu e (int b + 1) \<le> first_gpu e (int a + 1)"
    using assms by (simp add: first_gpu_def gpu_blocks_def nat_add_distrib)
  then show ?thesis
    unfolding place_sums(3) place_sums(1) by (auto intro!: sum_where_mono add_mono elim: order_trans)
qed

lemma find_upt:
  assumes "find P [0..<n] = Some i"
  shows "i < n \<and> P i \<and> (\<forall>j < i. \<not> P j)"
  using assms by (auto simp: find_Some_iff)

lemma find_downto:
  assumes "find P (rev [1..<n]) = Some i"
  shows "1 \<le> i \<and> i < n \<and> P i \<and> (\<forall>j. i < j \<and> j < n \<longrightarrow> \<not> P j)"
proof -
  from assms obtain k where k: "k < n - 1" "P (rev [1..<n] ! k)" "i = rev [1..<n] ! k" "\<forall>j < k. \<not> P (rev [1..<n] ! j)"
    by (auto simp: find_Some_iff)
  have nth: "rev [1..<n] ! j = n - 1 - j" if "j < n - 1" for j using that by (simp add: rev_nth)
  have i: "i = n - 1 - k" using k nth by simp
  have "\<not> P j" if "i < j" "j < n" for j
  proof -
    have "n - 1 - j < k" using i that k(1) by arith
    moreover have "rev [1..<n] ! (n - 1 - j) = j" using nth [of "n - 1 - j"] that i k(1) by simp
    ultimately show ?thesis using k(4) by metis
  qed
  with i k nth show ?thesis by auto
qed

text \<open>
  The two splits put as much on the GPU as fits. A number of expert layers left in RAM fits exactly
  from the one the MoE split takes; a number of blocks on the GPU fits exactly up to the one the
  GPU + RAM split takes (at least one, at most all but one), whenever any number fits at all.
\<close>

theorem splits_are_extremal:
  "((\<exists>n \<le> n_layers e. over_vram e (place e (-1) n True) = 0) \<longrightarrow>
      (\<forall>n \<le> n_layers e. over_vram e (place e (-1) n True) = 0 \<longleftrightarrow> moe_layers e \<le> n)) \<and>
   ((\<exists>b \<in> {1..<n_layers e}. over_vram e (place e (int b + 1) 0 True) = 0) \<longrightarrow>
      (\<forall>b \<in> {1..<n_layers e}. over_vram e (place e (int b + 1) 0 True) = 0 \<longleftrightarrow> b \<le> split_blocks e))"
proof (intro conjI impI)
  let ?fit = "\<lambda>n. over_vram e (place e (-1) n True) = 0"
  assume "\<exists>n \<le> n_layers e. ?fit n"
  then obtain i where i: "find ?fit [0..<Suc (n_layers e)] = Some i"
    by (cases "find ?fit [0..<Suc (n_layers e)]") (auto simp: find_None_iff less_Suc_eq_le simp del: upt_Suc)
  have up: "?fit n" if "?fit m" "m \<le> n" for m n
    using that vram_moe_antimono [of m n e "-1"] by (simp add: over_vram_def)
  from find_upt [OF i] up i show "\<forall>n \<le> n_layers e. ?fit n \<longleftrightarrow> moe_layers e \<le> n"
    by (auto simp: moe_layers_def simp del: upt_Suc) (metis neq0_conv not_le)
next
  let ?fit = "\<lambda>b. over_vram e (place e (int b + 1) 0 True) = 0"
  assume "\<exists>b \<in> {1..<n_layers e}. ?fit b"
  then obtain i where i: "find ?fit (rev [1..<n_layers e]) = Some i"
    by (cases "find ?fit (rev [1..<n_layers e])") (auto simp: find_None_iff)
  have down: "?fit a" if "?fit b" "a \<le> b" "b < n_layers e" for a b
    using that vram_blocks_mono [of a b e] by (simp add: over_vram_def)
  from find_downto [OF i] down i show "\<forall>b \<in> {1..<n_layers e}. ?fit b \<longleftrightarrow> b \<le> split_blocks e"
    by (auto simp: split_blocks_def) (metis neq0_conv not_le)
qed

section \<open>What a plan promises\<close>

text \<open>A candidate that tells the truth: its sizes are those of its placement, and when it is feasible they fit.\<close>

definition honest :: "plan_env \<Rightarrow> execution_candidate \<Rightarrow> bool" where
  "honest e c \<longleftrightarrow>
     (let p = place e (c_n_gpu_layers c) (c_n_cpu_moe c) (c_kv_offload c) in
      vram_required_gb c = bytes_to_gib (vram p) \<and> ram_required_gb c = bytes_to_gib (ram p) \<and>
      c_kv_gpu_gb c = bytes_to_gib (kv_gpu p) \<and> c_kv_ram_gb c = bytes_to_gib (kv_ram p) \<and>
      c_tier c \<noteq> Infeasible \<and>
      (feasible c \<longrightarrow> vram p \<le> pe_vram_usable e \<and> (ram p \<le> pe_ram_budget e \<or> env_is_moe e) \<and>
         c_disk_stream_gb c = bytes_to_gib (ram p - pe_ram_budget e)))"

lemma candidate_honest:
  assumes "p = place e ngl moe kvo" and "vo = 0 \<Longrightarrow> vram p \<le> pe_vram_usable e" and "may \<Longrightarrow> env_is_moe e"
    and "tier \<noteq> Infeasible"
  shows "honest e (candidate e name tier ngl moe kvo p vo may)"
  using assms by (auto simp: honest_def candidate_def Let_def)

lemma auto_candidates_honest:
  assumes "\<not> is_manual_placement opt" and "c \<in> set (candidates_of e hw opt ga)"
  shows "honest e c"
proof -
  have "honest e (full_gpu_candidate e)" "honest e (split_candidate e)" "honest e (kv_ram_candidate e)" "honest e (cpu_candidate e)"
    unfolding full_gpu_candidate_def split_candidate_def kv_ram_candidate_def cpu_candidate_def Let_def
    by (rule candidate_honest; simp add: over_vram_def place_cpu)+
  moreover have "honest e (moe_candidate e)" if "env_is_moe e"
    unfolding moe_candidate_def Let_def by (rule candidate_honest) (simp_all add: over_vram_def that)
  ultimately show ?thesis using assms by (auto simp: candidates_of_def manual_candidates_def split: if_splits)
qed

lemma add_measured_simps [simp]:
  "honest e (add_measured m e' opt c) = honest e c" "feasible (add_measured m e' opt c) = feasible c"
  "in_memory (add_measured m e' opt c) = in_memory c" "c_tier (add_measured m e' opt c) = c_tier c"
  by (simp_all add: add_measured_def honest_def in_memory_def Let_def)

lemma position_Some: "position P xs = Some i \<Longrightarrow> i < length xs \<and> P (xs ! i) \<and> (\<forall>j < i. \<not> P (xs ! j))"
proof (induction xs arbitrary: i)
  case (Cons x xs)
  then show ?case by (cases i) (auto simp: less_Suc_eq_0_disj nth_Cons' split: if_splits)
qed simp

lemma position_None: "position P xs = None \<longleftrightarrow> (\<forall>x \<in> set xs. \<not> P x)"
  by (induction xs) auto

lemma fastest_in_memory:
  "in_memory (cs ! rule) \<Longrightarrow> rule < length cs \<Longrightarrow>
     fastest cs rule in_memory < length cs \<and> in_memory (cs ! fastest cs rule in_memory)"
  using fastest_cases [OF refl, of cs rule in_memory] by (auto simp: beats_rule_def)

lemma final_pick_ok:
  assumes "rule_pick opt (env_is_moe e) cs = Some rule" and "\<not> is_manual_placement opt"
  shows "final_pick opt cs rule < length cs \<and> feasible (cs ! final_pick opt cs rule) \<and>
    ((\<exists>c \<in> set cs. in_memory c) \<longrightarrow> in_memory (cs ! final_pick opt cs rule))"
proof (cases "position in_memory cs")
  case None
  with assms have "position feasible cs = Some rule" by (auto simp: rule_pick_def split: if_splits)
  with position_Some [OF this] None show ?thesis
    by (auto simp: final_pick_def position_None)
next
  case (Some i)
  with assms have "i = rule" by (simp add: rule_pick_def)
  with position_Some [OF Some] fastest_in_memory [of cs rule] assms(2) show ?thesis
    by (auto simp: final_pick_def in_memory_def)
qed

text \<open>The pick of a plan, whenever the user did not fix the placement.\<close>

lemma plan_selected:
  assumes "plan = plan_model m mid g hw opt sf" and "\<not> is_manual_placement opt" and "e = env_of m g hw opt sf"
  shows "(is_feasible plan \<longrightarrow> (\<exists>c \<in> set (candidates plan). is_placement_of c plan \<and> feasible c \<and> honest e c \<and>
       vram_budget_gb plan = vram_required_gb c \<and> ram_budget_gb plan = ram_required_gb c \<and>
       disk_stream_gb plan = c_disk_stream_gb c \<and>
       ((\<exists>d \<in> set (candidates plan). in_memory d) \<longrightarrow> in_memory c))) \<and>
    (\<not> is_feasible plan \<longrightarrow> (\<forall>c \<in> set (candidates plan). \<not> in_memory c \<and> (env_is_moe e \<longrightarrow> \<not> feasible c)))"
proof -
  let ?cs = "map (add_measured m e opt) (candidates_of e hw opt (gpu_allowed hw opt))"
  have honest: "honest e c" if "c \<in> set ?cs" for c
    using that auto_candidates_honest [OF assms(2)] by auto
  obtain c why where sel: "select opt e ?cs = (c, why)" by fastforce
  have fields: "candidates plan = ?cs" "selected_tier plan = c_tier c" "p_n_gpu_layers plan = c_n_gpu_layers c"
    "p_n_cpu_moe plan = c_n_cpu_moe c" "kv_offload plan = c_kv_offload c" "vram_budget_gb plan = vram_required_gb c"
    "ram_budget_gb plan = ram_required_gb c" "disk_stream_gb plan = c_disk_stream_gb c"
    using sel by (simp_all add: assms(1) plan_model_def assms(3) [symmetric] Let_def)
  show ?thesis
  proof (cases "rule_pick opt (env_is_moe e) ?cs")
    case None
    with sel have "c = infeasible (pe_ctx e)" by (simp add: select_def)
    moreover from None assms(2) have "position in_memory ?cs = None" "env_is_moe e \<longrightarrow> position feasible ?cs = None"
      by (auto simp: rule_pick_def split: option.splits if_splits)
    ultimately show ?thesis using fields by (auto simp: is_feasible_def infeasible_def position_None)
  next
    case (Some rule)
    with sel have c: "c = ?cs ! final_pick opt ?cs rule" by (simp add: select_def Let_def)
    from final_pick_ok [OF Some assms(2)] have f: "c \<in> set ?cs" "feasible c" "(\<exists>d \<in> set ?cs. in_memory d) \<longrightarrow> in_memory c"
      unfolding c by (auto intro!: nth_mem)
    from honest [OF f(1)] have "c_tier c \<noteq> Infeasible" by (simp add: honest_def Let_def)
    with f fields honest [OF f(1)] show ?thesis
      by (auto simp: is_placement_of_def is_feasible_def)
  qed
qed

lemma create_plan_cases: "\<exists>sf. create_plan m mid g hw opt = plan_model m mid g hw opt sf"
proof -
  have "create_plan m mid g hw opt \<in> {plan_model m mid g hw opt False, plan_model m mid g hw opt True}"
    by (simp add: create_plan_def Let_def)
  then show ?thesis by auto
qed

lemma plan_model_fields:
  "context_window (plan_model m mid g hw opt sf) = pe_ctx (env_of m g hw opt sf)"
  "kv_cache_type (plan_model m mid g hw opt sf) = pe_kv (env_of m g hw opt sf)"
  "vram_buffer_gb (plan_model m mid g hw opt sf) = plan_buffer m g hw opt sf"
  "total_layers (plan_model m mid g hw opt sf) = block_count g"
  by (simp_all add: plan_model_def Let_def split: prod.splits)

lemma env_of_fields [simp]:
  "pe_geometry (env_of m g hw opt sf) = g" "pe_ram_budget (env_of m g hw opt sf) = ram_budget_bytes hw opt"
  "pe_vram_usable (env_of m g hw opt sf) = usable_bytes (vram_free hw) (plan_buffer m g hw opt sf)"
  "pe_unified (env_of m g hw opt sf) = unified hw"
  by (simp_all add: env_of_def Let_def)

lemma env_is_moe_env_of [simp]: "env_is_moe (env_of m g hw opt sf) = is_moe g"
  by (simp add: env_is_moe_def weights_of_def is_moe_def)


lemma cpu_in_candidates: "cpu_candidate e \<in> set (candidates_of e hw opt ga)"
  by (simp add: candidates_of_def)

lemma plan_candidates: "candidates (plan_model m mid g hw opt sf) =
    map (add_measured m (env_of m g hw opt sf) opt) (candidates_of (env_of m g hw opt sf) hw opt (gpu_allowed hw opt))"
  by (simp add: plan_model_def Let_def split: prod.splits)

lemma plan_model_refused:
  assumes "\<not> is_feasible (plan_model m mid g hw opt sf)" and "\<not> is_manual_placement opt"
  shows "\<not> is_moe g \<and> ram (place (env_of m g hw opt sf) 0 0 True) > ram_budget_bytes hw opt"
proof -
  let ?e = "env_of m g hw opt sf"
  from plan_selected [OF refl assms(2) refl] assms(1)
  have "\<forall>c \<in> set (candidates (plan_model m mid g hw opt sf)). \<not> in_memory c \<and> (env_is_moe ?e \<longrightarrow> \<not> feasible c)" by blast
  then have "\<not> in_memory (cpu_candidate ?e)" "env_is_moe ?e \<longrightarrow> \<not> feasible (cpu_candidate ?e)"
    using cpu_in_candidates [of ?e hw opt "gpu_allowed hw opt"] by (auto simp: plan_candidates)
  then show ?thesis
    by (auto simp: in_memory_def cpu_candidate_def candidate_def Let_def bytes_to_gib_def split: if_splits)
qed

text \<open>
  When a model is refused. A plan is infeasible only for a dense model whose weights, logits and KV
  cache do not even fit in the RAM Cluaiz may use with the CPU alone; with an automatic context
  not even at the 4096-token floor. A mixture-of-experts model is always placed.
\<close>

theorem refused_only_without_room:
  assumes "plan = create_plan m mid g hw opt" and "\<not> is_manual_placement opt" and "\<not> is_feasible plan"
  shows "\<not> is_moe g \<and> ram (place (env_of m g hw opt False) 0 0 True) > ram_budget_bytes hw opt \<and>
    (context_setting_of opt = CtxAuto \<and> context_window plan > floor_ctx g \<longrightarrow>
       ram (place (env_of m g hw opt True) 0 0 True) > ram_budget_bytes hw opt)"
proof -
  have "plan = plan_model m mid g hw opt False \<and>
     (context_setting_of opt = CtxAuto \<and> context_window plan > floor_ctx g \<longrightarrow> \<not> is_feasible (plan_model m mid g hw opt True))"
    using assms(1,3) by (auto simp: create_plan_def Let_def split: if_splits)
  with plan_model_refused [of m mid g hw opt False] plan_model_refused [of m mid g hw opt True] assms(2,3) show ?thesis by auto
qed

section \<open>Examples\<close>

definition small_moe :: model_geometry where
  "small_moe = small_model\<lparr>expert_count := Some 8, expert_used_count := Some 2,
     g_weights := (g_weights small_model)\<lparr>w_layer := [139770368, 139770368, 139770368, 139770368],
       w_layer_experts := [600000000, 600000000, 600000000, 600000000]\<rparr>\<rparr>"

definition machine :: "rat \<Rightarrow> gpu_subsystem list \<Rightarrow> system_info" where
  "machine free gs = \<lparr>memory = \<lparr>mem_total_gb = 16, mem_available_gb = free, is_unified_memory = False\<rparr>, gpus = gs\<rparr>"

definition small_gpu :: gpu_subsystem where
  "small_gpu = \<lparr>gpu_name = ''GPU'', vram_total_gb = 4, vram_available_gb = 3\<rparr>"

lemma default_not_manual: "\<not> is_manual_placement default_optimization"
  by (simp add: is_manual_placement_def default_optimization_def)

lemma moe_placed: "is_moe g \<Longrightarrow> \<not> is_manual_placement opt \<Longrightarrow> is_feasible (plan_model m mid g hw opt sf)"
  using plan_model_refused by blast

lemma small_moe_placed: "is_feasible (create_plan None mid small_moe hw default_optimization)"
proof -
  have "is_moe small_moe" by (simp add: is_moe_def experts_total_def small_moe_def small_model_def)
  with moe_placed default_not_manual create_plan_cases show ?thesis by metis
qed


lemma no_ram_refused: "\<not> is_feasible (create_plan None mid small_model (machine 0 []) default_optimization)"
proof
  assume f: "is_feasible (create_plan None mid small_model (machine 0 []) default_optimization)"
  obtain sf where sf: "create_plan None mid small_model (machine 0 []) default_optimization =
      plan_model None mid small_model (machine 0 []) default_optimization sf" using create_plan_cases by metis
  let ?e = "env_of None small_model (machine 0 []) default_optimization sf"
  from plan_selected [OF refl default_not_manual refl, of None mid small_model "machine 0 []" sf] f [unfolded sf]
  obtain c where c: "feasible c" "honest ?e c" by blast
  have "ram_budget_bytes (machine 0 []) default_optimization = 0"
    by (simp add: ram_budget_bytes_def machine_def default_optimization_def RAM_CEILING_FRACTION_def gib_to_bytes_def)
  moreover have "\<not> is_moe small_model" by (simp add: is_moe_def experts_total_def small_model_def)
  ultimately have "ram (place ?e (c_n_gpu_layers c) (c_n_cpu_moe c) (c_kv_offload c)) = 0"
    using c by (simp add: honest_def Let_def)
  then have "w_input_cpu (weights_of ?e) = 0" by (simp add: place_sums(4))
  then show False by (simp add: weights_of_def small_model_def)
qed

theorem refused_only_without_room_witness:
  "ram (place (env_of None small_model (machine 0 []) default_optimization False) 0 0 True) >
     ram_budget_bytes (machine 0 []) default_optimization"
  using refused_only_without_room [OF refl default_not_manual no_ram_refused] by blast

lemma place_usable: "place (e\<lparr>pe_vram_usable := x\<rparr>) ngl moe kvo = place e ngl moe kvo"
proof -
  have "place_block (e\<lparr>pe_vram_usable := x\<rparr>) = place_block e"
    by (intro ext) (simp add: place_block_def weights_of_def)
  then show ?thesis by (simp add: place_def n_layers_def weights_of_def Let_def)
qed

theorem splits_are_extremal_witness:
  "moe_layers (small_env\<lparr>pe_vram_usable := vram (place small_env (-1) 0 True)\<rparr>) = 0"
proof -
  let ?e = "small_env\<lparr>pe_vram_usable := vram (place small_env (-1) 0 True)\<rparr>"
  have "over_vram ?e (place ?e (-1) 0 True) = 0" by (simp add: over_vram_def place_usable)
  with splits_are_extremal [of ?e] show ?thesis by blast
qed

section \<open>Rule order, and the next plan after a failed load\<close>

lemma measured_empty [simp]: "measured t g opt ctx kv s None = None"
  by (simp add: measured_def held_def)

text \<open>
  Without measured speeds a plan loads the first candidate, in the order full GPU, experts in RAM, blocks
  in RAM, KV in RAM, CPU, that fits in memory; so a model that fits on the GPU whole runs there whole.
  When none does, a mixture-of-experts model loads the first whose rest can be read from disk.
\<close>

theorem rule_order:
  assumes "plan = plan_model None mid g hw opt sf" and "\<not> is_manual_placement opt" and "is_feasible plan"
  shows "\<exists>i < length (candidates plan). is_placement_of (candidates plan ! i) plan \<and>
    (if in_memory (candidates plan ! i) then \<forall>j < i. \<not> in_memory (candidates plan ! j)
     else is_moe g \<and> (\<forall>c \<in> set (candidates plan). \<not> in_memory c) \<and> feasible (candidates plan ! i) \<and>
       (\<forall>j < i. \<not> feasible (candidates plan ! j)))"
proof -
  let ?e = "env_of None g hw opt sf"
  let ?cs = "map (add_measured None ?e opt) (candidates_of ?e hw opt (gpu_allowed hw opt))"
  obtain c why where sel: "select opt ?e ?cs = (c, why)" by fastforce
  have fields: "candidates plan = ?cs" "selected_tier plan = c_tier c" "p_n_gpu_layers plan = c_n_gpu_layers c"
    "p_n_cpu_moe plan = c_n_cpu_moe c" "kv_offload plan = c_kv_offload c"
    using sel by (simp_all add: assms(1) plan_model_def Let_def)
  have "rule_pick opt (env_is_moe ?e) ?cs \<noteq> None"
  proof
    assume "rule_pick opt (env_is_moe ?e) ?cs = None"
    with sel have "c = infeasible (pe_ctx ?e)" by (simp add: select_def)
    with assms(3) fields(2) show False by (simp add: is_feasible_def infeasible_def)
  qed
  then obtain rule where rule: "rule_pick opt (env_is_moe ?e) ?cs = Some rule" by blast
  have len: "rule < length ?cs"
    using rule assms(2) by (auto simp: rule_pick_def split: option.splits if_splits dest: position_Some)
  have "measured_tokens_per_s (?cs ! rule) = None" using len by (simp add: add_measured_def)
  then have "final_pick opt ?cs rule = rule" by (simp add: final_pick_def fastest_def)
  with sel rule have c: "c = ?cs ! rule" by (simp add: select_def Let_def)
  have "if in_memory (?cs ! rule) then \<forall>j < rule. \<not> in_memory (?cs ! j)
     else is_moe g \<and> (\<forall>c \<in> set ?cs. \<not> in_memory c) \<and> feasible (?cs ! rule) \<and> (\<forall>j < rule. \<not> feasible (?cs ! j))"
  proof (cases "position in_memory ?cs")
    case None
    with rule assms(2) have "is_moe g" "position feasible ?cs = Some rule" by (auto simp: rule_pick_def split: if_splits)
    with position_Some [OF this(2)] None len show ?thesis by (auto simp: position_None)
  next
    case (Some i)
    with rule assms(2) have "i = rule" by (simp add: rule_pick_def)
    with position_Some [OF Some] show ?thesis by auto
  qed
  moreover have "is_placement_of (?cs ! rule) plan"
    unfolding is_placement_of_def c [symmetric] using fields(2-5) by simp
  ultimately show ?thesis using len unfolding fields(1) by blast
qed

theorem rule_order_witness:
  "\<exists>i. is_placement_of (candidates (plan_model None ''m'' small_moe (machine 12 [small_gpu]) default_optimization False) ! i)
     (plan_model None ''m'' small_moe (machine 12 [small_gpu]) default_optimization False)"
proof -
  have "is_moe small_moe" by (simp add: is_moe_def experts_total_def small_moe_def small_model_def)
  from rule_order [OF refl default_not_manual moe_placed [OF this default_not_manual], of "''m''" "machine 12 [small_gpu]" False]
  show ?thesis by blast
qed

text \<open>
  After a load that failed. Nothing is tried and nothing recorded when the plan put nothing on a GPU,
  there is none, or the user fixed the layers. Otherwise the margin kept for the model grows to at least
  what was missing, no other margin, correction or speed changes, and a plan is offered only when it
  is feasible and differs from the failed one.
\<close>

theorem after_failed_load_spec:
  assumes "after_failed_load failed g free live opt m = (next_plan, m')"
  shows "if p_n_gpu_layers failed = 0 \<or> gpus live = [] \<or> n_gpu_layers opt \<noteq> None \<or> n_cpu_moe opt \<noteq> None
    then next_plan = None \<and> m' = m
    else (\<exists>gap. learned g opt m' = Some gap \<and> gap \<ge> free - vram_budget_gb failed \<and>
           (\<forall>old. learned g opt m = Some old \<longrightarrow> gap \<ge> old)) \<and>
      (\<forall>k. k \<noteq> pool_key g opt \<longrightarrow> learned_key k m' = learned_key k m) \<and>
      (\<forall>plan. next_plan = Some plan \<longrightarrow> plan = create_plan m' (model_id failed) g live opt \<and> is_feasible plan \<and>
         \<not> (p_n_gpu_layers plan = p_n_gpu_layers failed \<and> context_window plan = context_window failed \<and>
            p_n_cpu_moe plan = p_n_cpu_moe failed \<and> kv_cache_type plan = kv_cache_type failed \<and> kv_offload plan = kv_offload failed))"
proof (cases "p_n_gpu_layers failed = 0 \<or> gpus live = [] \<or> n_gpu_layers opt \<noteq> None \<or> n_cpu_moe opt \<noteq> None")
  case True
  with assms show ?thesis by (auto simp: after_failed_load_def)
next
  case False
  have m': "m' = snd (record_gap g opt (Some (free - vram_budget_gb failed)) m)"
    using assms False by (simp add: after_failed_load_def Let_def split: if_splits)
  have "learned g opt m' = max_opt (learned g opt m) (Some (free - vram_budget_gb failed))"
    "\<forall>k. k \<noteq> pool_key g opt \<longrightarrow> learned_key k m' = learned_key k m"
    by (simp_all add: m' learned_def record_gap_def learned_record_key)
  moreover have "\<forall>plan. next_plan = Some plan \<longrightarrow> plan = create_plan m' (model_id failed) g live opt \<and> is_feasible plan \<and>
         \<not> (p_n_gpu_layers plan = p_n_gpu_layers failed \<and> context_window plan = context_window failed \<and>
            p_n_cpu_moe plan = p_n_cpu_moe failed \<and> kv_cache_type plan = kv_cache_type failed \<and> kv_offload plan = kv_offload failed)"
    using assms False m' by (auto simp: after_failed_load_def Let_def split: if_splits)
  ultimately show ?thesis using False by (auto simp: max_opt_def split: option.splits)
qed

theorem after_failed_load_spec_witness:
  "\<exists>gap. learned small_moe default_optimization (snd (after_failed_load
     ((create_plan None ''m'' small_moe (machine 12 [small_gpu]) default_optimization)\<lparr>p_n_gpu_layers := -1, vram_budget_gb := 2\<rparr>)
     small_moe (9 / 4) (machine 12 [small_gpu]) default_optimization None)) = Some gap \<and> gap \<ge> 1 / 4"
proof -
  let ?f = "(create_plan None ''m'' small_moe (machine 12 [small_gpu]) default_optimization)\<lparr>p_n_gpu_layers := -1, vram_budget_gb := 2\<rparr>"
  obtain nxt m' where r: "after_failed_load ?f small_moe (9 / 4) (machine 12 [small_gpu]) default_optimization None = (nxt, m')" by fastforce
  from after_failed_load_spec [OF r] show ?thesis
    unfolding r by (auto simp: machine_def default_optimization_def)
qed

end
