(* ===== verification/Placement_Media.thy ===== *)
theory Placement_Media
  imports Placement_Planner
begin

text \<open>
  engine/core/src/media_limits.rs and engine/plan/src/media_budget.rs: the byte limits of media buffers
  and the check of a media request against live memory. A \<open>u64\<close> sum is checked as the code
  checks it; memory sizes are rationals, so the refusals of NaN and infinity do not arise.
\<close>

section \<open>Byte limits\<close>

datatype media_limit_kind = EncodedInput | DecodedData

datatype media_limit_error = ZeroLimit | Exceeded media_limit_kind nat nat

record media_limits =
  max_input_bytes :: nat
  max_decoded_bytes :: nat

definition default_limits :: media_limits where
  "default_limits = \<lparr>max_input_bytes = 64 * 2 ^ 20, max_decoded_bytes = 256 * 2 ^ 20\<rparr>"

definition new_limits :: "nat \<Rightarrow> nat \<Rightarrow> media_limit_error + media_limits" where
  "new_limits inp decoded =
     (if inp = 0 then Inl ZeroLimit else if decoded = 0 then Inl ZeroLimit
      else Inr \<lparr>max_input_bytes = inp, max_decoded_bytes = decoded\<rparr>)"

definition check_limit :: "media_limit_kind \<Rightarrow> nat \<Rightarrow> nat \<Rightarrow> media_limit_error + unit" where
  "check_limit kind actual bound = (if actual > bound then Inl (Exceeded kind actual bound) else Inr ())"

definition check_input_bytes :: "media_limits \<Rightarrow> nat \<Rightarrow> media_limit_error + unit" where
  "check_input_bytes l actual = check_limit EncodedInput actual (max_input_bytes l)"

definition check_decoded_bytes :: "media_limits \<Rightarrow> nat \<Rightarrow> media_limit_error + unit" where
  "check_decoded_bytes l actual = check_limit DecodedData actual (max_decoded_bytes l)"

section \<open>The media budget\<close>

record media_requirements =
  weights_bytes :: nat
  workspace_bytes :: nat
  decoded_bytes :: nat

datatype projector_placement = ProjCpu | ProjGpu

record media_budget =
  mb_placement :: projector_placement
  host_bytes :: nat
  device_bytes :: nat
  device_buffer_bytes :: nat

datatype media_error =
    BadSnapshot
  | WorkspaceOverflow
  | NoLiveRam nat nat nat nat nat nat
  | ZeroEstimate
  | OverLimit media_limit_error
  | WeightOverflow
  | DecodedOverflow
  | BadRamValue
  | UnknownTotal
  | HostShort nat nat
  | BadVramBuffer

definition checked_add :: "nat \<Rightarrow> nat \<Rightarrow> nat option" where
  "checked_add a b = (if a + b \<le> U64_MAX then Some (a + b) else None)"

definition check_ram :: "nat \<Rightarrow> nat \<Rightarrow> system_info \<Rightarrow> optimization \<Rightarrow> media_error + unit" where
  "check_ram workspace additional live opt =
     (let mem = memory live in
      if mem_total_gb mem \<le> 0 \<or> mem_available_gb mem < 0 \<or> mem_available_gb mem > mem_total_gb mem \<or>
         (case custom_ram_buffer_gb opt of None \<Rightarrow> False | Some n \<Rightarrow> n < 0)
      then Inl BadSnapshot
      else case checked_add workspace additional of
        None \<Rightarrow> Inl WorkspaceOverflow
      | Some required \<Rightarrow>
          (let free = gib_to_bytes (mem_available_gb mem);
               usable = ram_budget_bytes live opt
           in if required > usable then Inl (NoLiveRam required workspace additional free (free - usable) usable) else Inr ()))"

definition check_request_ram :: "nat \<Rightarrow> nat \<Rightarrow> system_info \<Rightarrow> optimization \<Rightarrow> media_error + unit" where
  "check_request_ram workspace additional live opt =
     (if workspace = 0 then Inl BadSnapshot else check_ram workspace additional live opt)"

definition check_in_flight_ram :: "nat \<Rightarrow> system_info \<Rightarrow> optimization \<Rightarrow> media_error + unit" where
  "check_in_flight_ram additional live opt = check_ram 0 additional live opt"

definition gpu_fits :: "nat \<Rightarrow> nat \<Rightarrow> nat \<Rightarrow> bool" where
  "gpu_fits device free buffer =
     (case checked_add device buffer of None \<Rightarrow> False | Some required \<Rightarrow> required \<le> free)"

definition cpu_budget :: "nat \<Rightarrow> media_budget" where
  "cpu_budget host = \<lparr>mb_placement = ProjCpu, host_bytes = host, device_bytes = 0, device_buffer_bytes = 0\<rparr>"

definition gpu_or_cpu :: "nat \<Rightarrow> nat \<Rightarrow> system_info \<Rightarrow> optimization \<Rightarrow> bool \<Rightarrow> media_error + media_budget" where
  "gpu_or_cpu host device live opt prefer_gpu =
     (if \<not> prefer_gpu then Inr (cpu_budget host)
      else if list_ex (\<lambda>v. v < 0) (vram_buffer_options opt) then Inl BadVramBuffer
      else case gpus live of
        [] \<Rightarrow> Inr (cpu_budget host)
      | g # _ \<Rightarrow>
          if vram_available_gb g > 0 then
            (case find (gpu_fits device (gib_to_bytes (vram_available_gb g))) (map gib_to_bytes (vram_buffer_options opt)) of
               Some buffer \<Rightarrow>
                 Inr \<lparr>mb_placement = ProjGpu, host_bytes = host, device_bytes = device, device_buffer_bytes = buffer\<rparr>
             | None \<Rightarrow> Inr (cpu_budget host))
          else Inr (cpu_budget host))"

definition plan_media ::
  "media_requirements \<Rightarrow> media_limits \<Rightarrow> system_info \<Rightarrow> optimization \<Rightarrow> bool \<Rightarrow> media_error + media_budget" where
  "plan_media needs limits live opt prefer_gpu =
     (if weights_bytes needs = 0 \<or> workspace_bytes needs = 0 then Inl ZeroEstimate
      else case check_decoded_bytes limits (decoded_bytes needs) of
        Inl e \<Rightarrow> Inl (OverLimit e)
      | Inr _ \<Rightarrow>
          (case checked_add (weights_bytes needs) (workspace_bytes needs) of
             None \<Rightarrow> Inl WeightOverflow
           | Some device \<Rightarrow>
               (case checked_add device (decoded_bytes needs) of
                  None \<Rightarrow> Inl DecodedOverflow
                | Some host \<Rightarrow>
                    (let mem = memory live in
                     if mem_total_gb mem < 0 \<or> mem_available_gb mem < 0 \<or>
                        (case custom_ram_buffer_gb opt of None \<Rightarrow> False | Some n \<Rightarrow> n < 0) then Inl BadRamValue
                     else if mem_total_gb mem = 0 \<or> mem_available_gb mem > mem_total_gb mem then Inl UnknownTotal
                     else if host > ram_budget_bytes live opt then Inl (HostShort host (ram_budget_bytes live opt))
                     else gpu_or_cpu host device live opt prefer_gpu))))"

lemma checked_add_Some: "checked_add a b = Some c \<longleftrightarrow> c = a + b \<and> a + b \<le> U64_MAX"
  by (auto simp: checked_add_def)

lemma gpu_or_cpu_ok:
  assumes "gpu_or_cpu host device live opt prefer_gpu = Inr b"
  shows "host_bytes b = host \<and>
    (mb_placement b = ProjGpu \<longrightarrow> prefer_gpu \<and> device_bytes b = device \<and>
       device_buffer_bytes b \<in> gib_to_bytes ` set (vram_buffer_options opt) \<and>
       (\<exists>g gs. gpus live = g # gs \<and> device + device_buffer_bytes b \<le> gib_to_bytes (vram_available_gb g))) \<and>
    (mb_placement b = ProjCpu \<longrightarrow> device_bytes b = 0 \<and>
       (prefer_gpu \<longrightarrow> (\<forall>g gs buf. gpus live = g # gs \<longrightarrow> vram_available_gb g > 0 \<longrightarrow> buf \<in> gib_to_bytes ` set (vram_buffer_options opt) \<longrightarrow>
          \<not> gpu_fits device (gib_to_bytes (vram_available_gb g)) buf)))"
proof (cases "prefer_gpu \<and> (\<exists>g gs. gpus live = g # gs \<and> vram_available_gb g > 0)")
  case False
  with assms show ?thesis by (auto simp: gpu_or_cpu_def cpu_budget_def split: if_splits list.splits)
next
  case True
  then obtain g gs where g: "prefer_gpu" "gpus live = g # gs" "vram_available_gb g > 0" by blast
  show ?thesis
  proof (cases "find (gpu_fits device (gib_to_bytes (vram_available_gb g))) (map gib_to_bytes (vram_buffer_options opt))")
    case None
    then have "\<forall>x \<in> set (vram_buffer_options opt). \<not> gpu_fits device (gib_to_bytes (vram_available_gb g)) (gib_to_bytes x)"
      by (auto simp: find_None_iff)
    moreover have "b = cpu_budget host" using assms g None by (simp add: gpu_or_cpu_def split: if_splits)
    ultimately show ?thesis using g by (auto simp: cpu_budget_def)
  next
    case (Some buf)
    then obtain i where "i < length (vram_buffer_options opt)" "buf = map gib_to_bytes (vram_buffer_options opt) ! i"
      "gpu_fits device (gib_to_bytes (vram_available_gb g)) buf" by (auto simp: find_Some_iff)
    then have "buf \<in> gib_to_bytes ` set (vram_buffer_options opt)" "device + buf \<le> gib_to_bytes (vram_available_gb g)"
      by (auto simp: gpu_fits_def checked_add_def split: if_splits)
    with assms g Some show ?thesis by (auto simp: gpu_or_cpu_def split: if_splits)
  qed
qed

text \<open>
  A media request that is let through fits: the decoded data within its limit, weights, workspace and
  decoded data together within the RAM Cluaiz may use, without overflow; on the GPU weights and
  workspace with one of the allowed buffers within the free VRAM; and the CPU is taken only when the GPU
  was not asked for, is not there or is too small under every buffer.
\<close>

theorem media_plan_fits:
  assumes "plan_media needs limits live opt prefer_gpu = Inr b"
  shows "decoded_bytes needs \<le> max_decoded_bytes limits \<and>
    host_bytes b = weights_bytes needs + workspace_bytes needs + decoded_bytes needs \<and>
    host_bytes b \<le> ram_budget_bytes live opt \<and> host_bytes b \<le> U64_MAX \<and>
    (mb_placement b = ProjGpu \<longrightarrow> prefer_gpu \<and> device_bytes b = weights_bytes needs + workspace_bytes needs \<and>
       (\<exists>g gs. gpus live = g # gs \<and> device_bytes b + device_buffer_bytes b \<le> gib_to_bytes (vram_available_gb g))) \<and>
    (mb_placement b = ProjCpu \<longrightarrow> device_bytes b = 0 \<and> (prefer_gpu \<longrightarrow>
       (\<forall>g gs buf. gpus live = g # gs \<longrightarrow> vram_available_gb g > 0 \<longrightarrow> buf \<in> gib_to_bytes ` set (vram_buffer_options opt) \<longrightarrow>
          \<not> gpu_fits (weights_bytes needs + workspace_bytes needs) (gib_to_bytes (vram_available_gb g)) buf)))"
proof -
  from assms obtain device host where h: "checked_add (weights_bytes needs) (workspace_bytes needs) = Some device"
    "checked_add device (decoded_bytes needs) = Some host" "host \<le> ram_budget_bytes live opt"
    "check_decoded_bytes limits (decoded_bytes needs) = Inr ()" "gpu_or_cpu host device live opt prefer_gpu = Inr b"
    by (auto simp: plan_media_def Let_def split: if_splits sum.splits option.splits)
  from gpu_or_cpu_ok [OF h(5)] h(1-4) show ?thesis
    by (auto simp: checked_add_Some check_decoded_bytes_def check_limit_def split: if_splits)
qed

definition idle_machine :: system_info where
  "idle_machine = \<lparr>memory = \<lparr>mem_total_gb = 16, mem_available_gb = 8, is_unified_memory = False\<rparr>, gpus = []\<rparr>"

theorem media_plan_fits_witness:
  "plan_media \<lparr>weights_bytes = 3, workspace_bytes = 2, decoded_bytes = 1\<rparr> default_limits idle_machine
     (default_optimization\<lparr>custom_ram_buffer_gb := Some 0\<rparr>) True = Inr (cpu_budget 6) \<and>
   6 \<le> ram_budget_bytes idle_machine (default_optimization\<lparr>custom_ram_buffer_gb := Some 0\<rparr>)"
proof -
  have ram: "ram_budget_bytes idle_machine (default_optimization\<lparr>custom_ram_buffer_gb := Some 0\<rparr>) = 8589934592"
    by (simp add: ram_budget_bytes_def default_optimization_def idle_machine_def gib_to_bytes_def GIB_def U64_MAX_def)
  have p: "plan_media \<lparr>weights_bytes = 3, workspace_bytes = 2, decoded_bytes = 1\<rparr> default_limits idle_machine
     (default_optimization\<lparr>custom_ram_buffer_gb := Some 0\<rparr>) True = Inr (cpu_budget 6)"
    using ram by (simp add: plan_media_def check_decoded_bytes_def check_limit_def default_limits_def checked_add_def U64_MAX_def
        gpu_or_cpu_def vram_buffer_options_def default_optimization_def DEFAULT_SAFE_BUFFER_GB_def MIN_SAFE_BUFFER_GB_def idle_machine_def)
  from media_plan_fits [OF p] p show ?thesis by (simp add: cpu_budget_def)
qed

end
