(* ===== verification/Tool_Grants.thy ===== *)
theory Tool_Grants
  imports Prelude "HOL-Library.Product_Lexorder"
begin

text \<open>
  agents/src/lifecycle/grants.rs: the tools a user allowed for a chat for a while. An instant and a
  wall-clock time are nanoseconds. A grant made or revoked is also an event of the chat's log,
  from which the grants are rebuilt after a restart.
\<close>

definition SEC :: nat where "SEC = 10 ^ 9"

definition MAX_GRANT_MINUTES :: nat where "MAX_GRANT_MINUTES = 24 * 60"
definition DEFAULT_GRANT_MINUTES :: nat where "DEFAULT_GRANT_MINUTES = 60"

record grants =
  gr_until :: "(string \<times> string, nat) hmap"
  replayed :: "string set"

record grant_record =
  rec_tool :: "string option"
  rec_minutes :: nat
  rec_at :: nat
  revoked :: bool

definition no_grants :: grants where
  "no_grants = \<lparr>gr_until = [], replayed = {}\<rparr>"

definition clamp_minutes :: "nat \<Rightarrow> nat" where
  "clamp_minutes m = max 1 (min m MAX_GRANT_MINUTES)"

definition needs_replay :: "string \<Rightarrow> grants \<Rightarrow> bool" where
  "needs_replay chat g \<longleftrightarrow> chat \<notin> replayed g"

definition revoke_grants :: "string \<Rightarrow> string option \<Rightarrow> grants \<Rightarrow> nat \<times> grants" where
  "revoke_grants chat tool g =
     (let kept = hm_retain (\<lambda>(c, t) _. c \<noteq> chat \<or> (case tool of None \<Rightarrow> False | Some tn \<Rightarrow> tn \<noteq> t)) (gr_until g)
      in (length (gr_until g) - length kept, g\<lparr>gr_until := kept\<rparr>))"

definition replay_one :: "string \<Rightarrow> nat \<Rightarrow> nat \<Rightarrow> grants \<Rightarrow> grant_record \<Rightarrow> grants" where
  "replay_one chat now now_wall g r =
     (if revoked r then snd (revoke_grants chat (rec_tool r) g)
      else case rec_tool r of
        None \<Rightarrow> g
      | Some tool \<Rightarrow>
          (let ends = rec_at r + clamp_minutes (rec_minutes r) * 60 * SEC in
           if ends > now_wall
           then g\<lparr>gr_until := hm_insert (chat, tool) (now + (ends - now_wall)) (gr_until g)\<rparr>
           else g\<lparr>gr_until := hm_remove (chat, tool) (gr_until g)\<rparr>))"

definition replay_grants :: "string \<Rightarrow> grant_record list \<Rightarrow> nat \<Rightarrow> nat \<Rightarrow> grants \<Rightarrow> grants" where
  "replay_grants chat records now now_wall g =
     foldl (replay_one chat now now_wall) (g\<lparr>replayed := insert chat (replayed g)\<rparr>) records"

definition grant_tool :: "string \<Rightarrow> string \<Rightarrow> nat option \<Rightarrow> nat \<Rightarrow> grants \<Rightarrow> nat \<times> grants" where
  "grant_tool chat tool minutes now g =
     (let m = clamp_minutes (case_option DEFAULT_GRANT_MINUTES id minutes)
      in (m, g\<lparr>replayed := insert chat (replayed g),
               gr_until := hm_insert (chat, tool) (now + m * 60 * SEC) (gr_until g)\<rparr>))"

definition allowed :: "string \<Rightarrow> string \<Rightarrow> nat \<Rightarrow> grants \<Rightarrow> bool \<times> grants" where
  "allowed chat tool now g =
     (case hm_get (chat, tool) (gr_until g) of
        Some until \<Rightarrow> if until > now then (True, g) else (False, g\<lparr>gr_until := hm_remove (chat, tool) (gr_until g)\<rparr>)
      | None \<Rightarrow> (False, g))"

definition minutes_left :: "nat \<Rightarrow> nat \<Rightarrow> nat" where
  "minutes_left now until = ((until - now) div SEC + 59) div 60"

definition grants_of :: "string \<Rightarrow> nat \<Rightarrow> grants \<Rightarrow> (string \<times> nat) list" where
  "grants_of chat now g =
     sort_key (\<lambda>x. x) (map (\<lambda>((c, t), until). (t, minutes_left now until))
       (filter (\<lambda>((c, t), until). c = chat \<and> until > now) (gr_until g)))"

section \<open>What a chat's log says\<close>

text \<open>
  The grant a log holds for a tool: its last event about the tool decides, a grant lasting its
  clamped minutes from when it was made. \<open>None\<close>: never granted, or revoked since.
\<close>

definition logged_until :: "string \<Rightarrow> grant_record list \<Rightarrow> nat option" where
  "logged_until tool rs = foldl (\<lambda>u r.
     if revoked r then (if rec_tool r = None \<or> rec_tool r = Some tool then None else u)
     else if rec_tool r = Some tool then Some (rec_at r + clamp_minutes (rec_minutes r) * 60 * SEC) else u) None rs"

lemma logged_until_snoc:
  "logged_until tool (rs @ [r]) =
     (if revoked r then (if rec_tool r = None \<or> rec_tool r = Some tool then None else logged_until tool rs)
      else if rec_tool r = Some tool then Some (rec_at r + clamp_minutes (rec_minutes r) * 60 * SEC) else logged_until tool rs)"
  by (simp add: logged_until_def)

definition grants_ok :: "grants \<Rightarrow> bool" where
  "grants_ok g \<longleftrightarrow> hm_ok (gr_until g)"

lemma revoke_ok [inv_intros]: "grants_ok g \<Longrightarrow> grants_ok (snd (revoke_grants chat tool g))"
  by (simp add: grants_ok_def revoke_grants_def Let_def)

lemma revoke_get:
  "grants_ok g \<Longrightarrow> hm_get (c, t) (gr_until (snd (revoke_grants chat tool g))) =
     (if c = chat \<and> (tool = None \<or> tool = Some t) then None else hm_get (c, t) (gr_until g))"
  by (auto simp: grants_ok_def revoke_grants_def Let_def hm_get_retain split: option.splits)

lemma replay_one_ok [inv_intros]: "grants_ok g \<Longrightarrow> grants_ok (replay_one chat now wall g r)"
  by (auto simp: replay_one_def Let_def revoke_ok split: option.splits) (auto simp: grants_ok_def)

text \<open>What a store holds of a chat at one moment: only what has not run out counts.\<close>

definition running_until :: "string \<Rightarrow> string \<Rightarrow> nat \<Rightarrow> grants \<Rightarrow> nat option" where
  "running_until chat tool now g =
     (case hm_get (chat, tool) (gr_until g) of Some u \<Rightarrow> if u > now then Some (u - now) else None | None \<Rightarrow> None)"

lemma allowed_running: "fst (allowed chat tool now g) \<longleftrightarrow> running_until chat tool now g \<noteq> None"
  by (auto simp: allowed_def running_until_def split: option.splits)

definition left_of :: "nat \<Rightarrow> nat option \<Rightarrow> nat option" where
  "left_of now u = (case u of Some e \<Rightarrow> if e > now then Some (e - now) else None | None \<Rightarrow> None)"

lemma replay_running:
  assumes "grants_ok g" and "\<forall>tool. hm_get (chat, tool) (gr_until g) = None"
  shows "grants_ok (replay_grants chat rs now wall g) \<and>
    running_until chat tool now (replay_grants chat rs now wall g) = left_of wall (logged_until tool rs) \<and>
    (c \<noteq> chat \<longrightarrow> hm_get (c, tool) (gr_until (replay_grants chat rs now wall g)) = hm_get (c, tool) (gr_until g))"
proof (induction rs rule: rev_induct)
  case Nil
  with assms show ?case
    by (simp add: replay_grants_def grants_ok_def running_until_def left_of_def logged_until_def)
next
  case (snoc r rs)
  let ?g = "replay_grants chat rs now wall g"
  have step: "replay_grants chat (rs @ [r]) now wall g = replay_one chat now wall ?g r"
    by (simp add: replay_grants_def)
  from snoc have ok: "grants_ok ?g" by simp
  show ?case
    unfolding step
    using snoc replay_one_ok [OF ok, of chat now wall r] revoke_get [OF ok]
    by (auto simp: replay_one_def Let_def running_until_def left_of_def logged_until_snoc split: option.splits if_splits)
qed

section \<open>Grants of a running Engine\<close>

text \<open>What happens to the grants while the Engine runs, with the events each leaves in the log.\<close>

datatype grant_op = DoGrant string string "nat option" | DoRevoke string "string option" | DoAsk string string

definition perform :: "nat \<Rightarrow> grant_op \<Rightarrow> grants \<Rightarrow> (string \<times> grant_record) list \<times> grants" where
  "perform now op g =
     (case op of
        DoGrant chat tool minutes \<Rightarrow>
          (let (m, g') = grant_tool chat tool minutes now g
           in ([(chat, \<lparr>rec_tool = Some tool, rec_minutes = m, rec_at = now, revoked = False\<rparr>)], g'))
      | DoRevoke chat tool \<Rightarrow>
          (let (n, g') = revoke_grants chat tool g
           in (if n > 0 then [(chat, \<lparr>rec_tool = tool, rec_minutes = 0, rec_at = now, revoked = True\<rparr>)] else [], g'))
      | DoAsk chat tool \<Rightarrow> ([], snd (allowed chat tool now g)))"

text \<open>A run: operations at times that do not go back, the log growing with it.\<close>

inductive grant_run :: "nat \<Rightarrow> (string \<times> grant_record) list \<Rightarrow> grants \<Rightarrow> bool" where
  start_run: "grant_run t [] no_grants"
| do_op: "grant_run t log g \<Longrightarrow> t \<le> now \<Longrightarrow> perform now op g = (evs, g') \<Longrightarrow> grant_run now (log @ evs) g'"

definition chat_log :: "string \<Rightarrow> (string \<times> grant_record) list \<Rightarrow> grant_record list" where
  "chat_log chat log = map snd (filter (\<lambda>(c, r). c = chat) log)"

lemma chat_log_append [simp]: "chat_log chat (log @ evs) = chat_log chat log @ chat_log chat evs"
  by (simp add: chat_log_def)

lemma chat_log_Nil [simp]: "chat_log chat [] = []"
  by (simp add: chat_log_def)

lemma chat_log_one [simp]: "chat_log chat [(c, r)] = (if c = chat then [r] else [])"
  by (simp add: chat_log_def)

lemma clamp_idem [simp]: "clamp_minutes (clamp_minutes m) = clamp_minutes m"
  by (simp add: clamp_minutes_def MAX_GRANT_MINUTES_def)

lemma revoke_nothing: "fst (revoke_grants chat tool g) = 0 \<Longrightarrow> snd (revoke_grants chat tool g) = g"
proof -
  have "length (filter P xs) = length xs \<Longrightarrow> filter P xs = xs" for P :: "(string \<times> string) \<times> nat \<Rightarrow> bool" and xs
    by (metis length_filter_less filter_id_conv nat_neq_iff)
  moreover assume "fst (revoke_grants chat tool g) = 0"
  ultimately show ?thesis
    by (simp add: revoke_grants_def Let_def hm_retain_def le_antisym)
qed

lemma perform_cases:
  assumes "perform now op g = (evs, g')"
  obtains (granted) chat tool minutes where "op = DoGrant chat tool minutes"
    "evs = [(chat, \<lparr>rec_tool = Some tool, rec_minutes = fst (grant_tool chat tool minutes now g), rec_at = now, revoked = False\<rparr>)]"
    "g' = snd (grant_tool chat tool minutes now g)"
  | (revoked) chat tool where "op = DoRevoke chat tool"
    "evs = [(chat, \<lparr>rec_tool = tool, rec_minutes = 0, rec_at = now, revoked = True\<rparr>)]"
    "g' = snd (revoke_grants chat tool g)"
  | (nothing) "evs = []" "g' = g"
  | (asked) chat tool where "evs = []" "g' = snd (allowed chat tool now g)"
proof (cases op)
  case (DoGrant chat tool minutes)
  with assms that(1) show thesis by (auto simp: perform_def split: prod.splits)
next
  case (DoRevoke chat tool)
  with assms that(2,3) revoke_nothing [of chat tool g] show thesis
    by (cases "fst (revoke_grants chat tool g) = 0") (auto simp: perform_def split: prod.splits)
next
  case (DoAsk chat tool)
  with assms that(4) show thesis by (auto simp: perform_def)
qed

text \<open>The store and its log say the same of every chat's tools, from the last operation on.\<close>

lemma grant_run_log:
  "grant_run t log g \<Longrightarrow> grants_ok g \<and>
     (\<forall>chat tool now. t \<le> now \<longrightarrow> running_until chat tool now g = left_of now (logged_until tool (chat_log chat log)))"
proof (induction rule: grant_run.induct)
  case (start_run t)
  then show ?case
    by (simp add: no_grants_def grants_ok_def running_until_def left_of_def logged_until_def)
next
  case (do_op t log g now op evs g')
  then have ok: "grants_ok g" by simp
  from do_op.hyps(3) show ?case
  proof (cases rule: perform_cases)
    case (granted chat tool minutes)
    with do_op.IH do_op.hyps(2) show ?thesis
      by (auto simp: grant_tool_def Let_def grants_ok_def running_until_def left_of_def logged_until_snoc)
  next
    case (revoked chat tool)
    with do_op.IH do_op.hyps(2) revoke_ok [OF ok] show ?thesis
      by (auto simp: running_until_def revoke_get [OF ok] left_of_def logged_until_snoc)
  next
    case nothing
    with do_op.IH do_op.hyps(2) show ?thesis by simp
  next
    case (asked chat tool)
    have "running_until c tl' later g' = running_until c tl' later g" if "now \<le> later" for c tl' later
      using asked that by (auto simp: running_until_def allowed_def split: option.splits)
    moreover have "grants_ok g'"
      using asked ok by (auto simp: allowed_def grants_ok_def split: option.splits)
    ultimately show ?thesis using do_op.IH do_op.hyps(2) asked by simp
  qed
qed


lemma sample_run:
  "grant_run 20 [(''c'', \<lparr>rec_tool = Some ''edit'', rec_minutes = 1440, rec_at = 10, revoked = False\<rparr>),
                 (''c'', \<lparr>rec_tool = None, rec_minutes = 0, rec_at = 20, revoked = True\<rparr>)]
     \<lparr>gr_until = [], replayed = {''c''}\<rparr>"
proof -
  note steps = perform_def grant_tool_def revoke_grants_def no_grants_def clamp_minutes_def MAX_GRANT_MINUTES_def
    Let_def hm_insert_def hm_retain_def
  have "grant_run 10 [(''c'', \<lparr>rec_tool = Some ''edit'', rec_minutes = 1440, rec_at = 10, revoked = False\<rparr>)]
     \<lparr>gr_until = [((''c'', ''edit''), 10 + 1440 * 60 * SEC)], replayed = {''c''}\<rparr>"
    using do_op [OF start_run [of 0], where now = 10 and op = "DoGrant ''c'' ''edit'' (Some 9999)"] by (simp add: steps)
  from do_op [OF this, where now = 20 and op = "DoRevoke ''c'' None"] show ?thesis by (simp add: steps)
qed


end
