(* ===== verification/Command_Policy.thy ===== *)
theory Command_Policy
  imports Prelude
begin

text \<open>
  agents/src/execution/policy.rs and policy_rules.rs: whether a shell command an agent asks for runs,
  is put to the user, or is refused. Lower case is that of ASCII; whether the working directory
  exists is the parameter \<open>cwd_exists\<close>. The backslash is \<open>CHR 0x5C\<close>.
\<close>

datatype security_mode = Inherit | RequireApproval | AlwaysAllow

datatype policy_decision =
    Allow
  | AskConfirmation string string
  | Deny string

definition HARD_DENIED_PATTERNS :: "string list" where
  "HARD_DENIED_PATTERNS =
   [''rm -rf /'', ''rm -rf /*'', ''rm -rf ~'', ''rm -rf $home'', ''mkfs'', ''mkfs.ext4'', ''mkfs.xfs'',
    ''mkfs.btrfs'', ''mkfs.vfat'', ''dd if=/dev/zero'', ''dd if=/dev/urandom'', ''dd if=/dev/null'',
    ''dd of=/dev/sd'', ''dd of=/dev/nvme'', ''dd of=/dev/disk'', ''> /dev/sda'', ''> /dev/nvme0n1'',
    '':(){ :|:& };:'', '':(){ :|: & };:'', ''chmod -r 777 /'', ''chmod -r 000 /'', ''chown -r /'',
    ''shutdown -h'', ''shutdown -r'', ''shutdown /s'', ''shutdown /r'', ''init 0'', ''init 6'', ''poweroff'',
    ''reboot'', ''halt'', ''format c:'', ''format d:'', ''format /q'', ''rmdir /s /q c:'' @ [CHR 0x5C],
    ''rmdir /s /q c:/'', ''rd /s /q c:'' @ [CHR 0x5C], ''rd /s /q c:/'',
    ''del /f /s /q c:'' @ [CHR 0x5C] @ ''windows'', ''del /f /s /q c:/windows'',
    ''del /f /s /q c:'' @ [CHR 0x5C] @ ''*'', ''diskpart'', ''clear-disk'', ''initialize-disk'',
    ''remove-partition'', ''format-volume'', ''stop-computer'', ''restart-computer'', ''diskutil erasedisk'',
    ''diskutil reformat'', ''diskutil unmountdisk force'', ''nvram -c'', ''csrutil disable'']"

definition SENSITIVE_SYSTEM_PATHS :: "string list" where
  "SENSITIVE_SYSTEM_PATHS =
   [''id_rsa'', ''id_ed25519'', ''id_ecdsa'', ''id_dsa'', ''id_xmss'', ''.ssh/authorized_keys'',
    ''.ssh'' @ [CHR 0x5C] @ ''authorized_keys'', ''.ssh/known_hosts'',
    ''.ssh'' @ [CHR 0x5C] @ ''known_hosts'', ''.ssh/config'', ''.ssh'' @ [CHR 0x5C] @ ''config'', ''.ppk'',
    ''putty.ppk'', ''.aws/credentials'', ''.aws'' @ [CHR 0x5C] @ ''credentials'', ''.aws/config'',
    ''.aws'' @ [CHR 0x5C] @ ''config'', ''aws_access_key_id'', ''.azure'', ''accesstokens.json'',
    ''.kube/config'', ''.kube'' @ [CHR 0x5C] @ ''config'', ''kubeconfig'', ''.config/gcloud'',
    ''.config'' @ [CHR 0x5C] @ ''gcloud'', ''.docker/config.json'',
    ''.docker'' @ [CHR 0x5C] @ ''config.json'', ''.vault-token'', ''.git-credentials'', ''.netrc'',
    ''.npmrc'', ''.pypirc'', ''.cargo/credentials.toml'', ''.cargo'' @ [CHR 0x5C] @ ''credentials.toml'',
    ''.env'', ''.env.local'', ''.env.production'', ''.env.staging'', ''private_key.pem'', ''server.key'',
    ''secrets.yaml'', ''secrets.json'', ''.bash_history'', ''.zsh_history'', ''.sh_history'',
    ''consolehost_history.txt'', ''/etc/shadow'', ''/etc/gshadow'', ''/etc/passwd'', ''/etc/sudoers'',
    ''/var/log/auth.log'', [CHR 0x5C] @ ''windows'' @ [CHR 0x5C] @ ''system32'' @ [CHR 0x5C] @ ''config'',
    ''/windows/system32/config'', ''system32'' @ [CHR 0x5C] @ ''config'' @ [CHR 0x5C] @ ''sam'',
    ''system32/config/sam'', ''system32'' @ [CHR 0x5C] @ ''config'' @ [CHR 0x5C] @ ''security'',
    ''system32/config/security'', ''system32'' @ [CHR 0x5C] @ ''config'' @ [CHR 0x5C] @ ''system'',
    ''system32/config/system'', [CHR 0x5C] @ ''windows'' @ [CHR 0x5C] @ ''system32'', ''/windows/system32'',
    ''ntds.dit'', ''library/keychains'', ''library'' @ [CHR 0x5C] @ ''keychains'', ''login.keychain'',
    ''system.keychain'', ''library/safari'', ''library'' @ [CHR 0x5C] @ ''safari'']"

definition READ_ONLY_COMMAND_PREFIXES :: "string list" where
  "READ_ONLY_COMMAND_PREFIXES =
   [''git status'', ''git log'', ''git diff'', ''git show'', ''git branch'', ''git tag'', ''git rev-parse'',
    ''git describe'', ''git remote'', ''git config --get'', ''git ls-files'', ''git check-ignore'', ''ls'',
    ''dir'', ''cat'', ''type'', ''head'', ''tail'', ''more'', ''less'', ''pwd'', ''cd'', ''echo'',
    ''printf'', ''find'', ''where'', ''which'', ''file'', ''stat'', ''wc'', ''du'', ''df'', ''grep'', ''rg'',
    ''findstr'', ''awk'', ''sed -n'', ''get-childitem'', ''gci'', ''get-content'', ''gc'', ''get-item'',
    ''get-location'', ''gl'', ''select-string'', ''sls'', ''test-path'', ''cargo check'', ''cargo test'',
    ''cargo clippy'', ''cargo metadata'', ''cargo tree'', ''npm test'', ''npm run lint'', ''npm run test'',
    ''npm list'', ''npm view'', ''npx tsc --noemit'', ''yarn test'', ''pnpm test'', ''pytest'',
    ''python -m unittest'', ''python -m pytest'', ''flake8'', ''mypy'', ''ruff check'', ''go test'',
    ''go vet'', ''uname'', ''whoami'', ''hostname'', ''uptime'', ''date'', ''env'', ''printenv'', ''free'',
    ''top -b -n 1'', ''ps'', ''netstat'', ''ss'', ''systeminfo'', ''wmic'', ''get-process'', ''get-service'',
    ''sw_vers'', ''system_profiler'']"

definition chain_marks :: "string list" where
  "chain_marks = [''>'', ''<'', '';'', ''|'', ''&'', [CHR 0x60], ''$('', [CHR 0x0A]]"

definition chains :: "string \<Rightarrow> bool" where
  "chains command \<longleftrightarrow> list_ex (contains command) chain_marks"

text \<open>\<open>starts_with\<close> on the command or the command word followed by a separator.\<close>

definition is_read_only :: "string \<Rightarrow> bool" where
  "is_read_only lower \<longleftrightarrow>
     list_ex (\<lambda>p. lower = p \<or> prefix (p @ '' '') lower \<or> prefix (p @ ''.'') lower \<or> prefix (p @ ''/'') lower \<or>
       prefix (p @ [CHR 0x5C]) lower) READ_ONLY_COMMAND_PREFIXES"

definition recursive_delete :: "string \<Rightarrow> bool" where
  "recursive_delete lower \<longleftrightarrow>
     prefix ''rm -rf'' lower \<or> prefix ''rmdir /s'' lower \<or> prefix ''rd /s'' lower \<or> prefix ''remove-item -recurse'' lower"

definition quoted :: "string \<Rightarrow> string" where
  "quoted s = [CHR 0x27] @ s @ [CHR 0x27]"

definition evaluate :: "string \<Rightarrow> bool \<Rightarrow> string \<Rightarrow> security_mode \<Rightarrow> policy_decision" where
  "evaluate command cwd_exists cwd mode =
     (let trimmed = trim command;
          lower = to_lower trimmed
      in case find (contains lower) HARD_DENIED_PATTERNS of
        Some pattern \<Rightarrow> Deny (''Destructive command pattern '' @ quoted pattern @ '' is strictly prohibited across all modes'')
      | None \<Rightarrow>
          if \<not> cwd_exists then Deny (''Target working directory does not exist: '' @ cwd)
          else (case mode of
            Inherit \<Rightarrow>
              (case find (contains lower) SENSITIVE_SYSTEM_PATHS of
                 Some path \<Rightarrow> Deny (''Inherited security mode prevents access to sensitive system path: '' @ quoted path)
               | None \<Rightarrow>
                   if recursive_delete lower then AskConfirmation ''Recursive directory deletion in workspace'' trimmed
                   else Allow)
          | RequireApproval \<Rightarrow>
              if is_read_only lower \<and> \<not> chains trimmed then Allow
              else AskConfirmation ''Security policy requires user confirmation for execution'' trimmed
          | AlwaysAllow \<Rightarrow> Allow))"

section \<open>When a command runs without being asked for\<close>

lemma find_contains_None: "find (contains s) ps = None \<longleftrightarrow> (\<forall>p \<in> set ps. \<not> contains s p)"
  by (auto simp: find_None_iff)

lemma find_contains_Some: "find (contains s) ps = Some p \<Longrightarrow> p \<in> set ps \<and> contains s p"
  by (auto simp: find_Some_iff)

lemma chain_marks_chars:
  "chains s \<longleftrightarrow> (\<exists>c \<in> set '';|&<>''. c \<in> set s) \<or> CHR 0x60 \<in> set s \<or> CHR 0x0A \<in> set s \<or> contains s ''$(''"
  by (auto simp: chains_def chain_marks_def contains_single)


text \<open>
  What the allow-list of \<open>RequireApproval\<close> lets through without asking: a private key, which even
  the laxer \<open>Inherit\<close> refuses, and commands that run or delete something through a listed one.
\<close>

theorem strict_mode_gaps:
  "evaluate ''cat ~/.ssh/id_rsa'' True ''/p'' RequireApproval = Allow \<and>
   evaluate ''cat ~/.ssh/id_rsa'' True ''/p'' Inherit =
     Deny (''Inherited security mode prevents access to sensitive system path: '' @ quoted ''id_rsa'') \<and>
   evaluate ''env rm -r src'' True ''/p'' RequireApproval = Allow \<and>
   evaluate ''find . -delete'' True ''/p'' RequireApproval = Allow"
  by code_simp


end
