(* ===== verification/Tool_Approval.thy ===== *)
theory Tool_Approval
  imports Cep_Approval Tool_Grants Command_Policy
begin

text \<open>
  The approval gate of the agent's tools: agents/src/registry/types.rs (what a registered tool
  asks for), api/src/handlers/chat/authorize.rs (assess, request, wait, grants) and
  api/src/cep/methods/approvals.rs (the owner's answers). The state is the CEP approval store, the
  pending requests by approval id, the grants and the \<open>grant\<close> events of the chats' logs. One
  clock (nanoseconds) stands for the instants and the wall-clock times; the store counts its
  milliseconds. The tool registry, the MCP tool lists and the master security mode are arguments.
\<close>

section \<open>What a registered tool asks for\<close>

datatype execution_mode = Auto | Manual | ConfirmDestructive

definition execution_mode_from_raw :: "string \<Rightarrow> execution_mode option" where
  "execution_mode_from_raw s =
     (let s = to_lower (trim s) in
      if s = ''auto'' then Some Auto
      else if s = ''manual'' then Some Manual
      else if s \<in> {''confirm_destructive'', ''confirmdestructive'', ''confirm-destructive''} then Some ConfirmDestructive
      else None)"

fun execution_mode_as_str :: "execution_mode \<Rightarrow> string" where
  "execution_mode_as_str Auto = ''auto''"
| "execution_mode_as_str Manual = ''manual''"
| "execution_mode_as_str ConfirmDestructive = ''confirm_destructive''"

definition security_mode_from_raw :: "string \<Rightarrow> security_mode option" where
  "security_mode_from_raw s =
     (let s = to_lower (trim s) in
      if s = ''inherit'' then Some Inherit
      else if s = ''require_approval'' then Some RequireApproval
      else if s = ''always_allow'' then Some AlwaysAllow
      else None)"

fun security_mode_as_str :: "security_mode \<Rightarrow> string" where
  "security_mode_as_str Inherit = ''inherit''"
| "security_mode_as_str RequireApproval = ''require_approval''"
| "security_mode_as_str AlwaysAllow = ''always_allow''"

lemma execution_mode_roundtrip: "execution_mode_from_raw (execution_mode_as_str em) = Some em"
proof -
  have "\<forall>em \<in> set [Auto, Manual, ConfirmDestructive].
      execution_mode_from_raw (execution_mode_as_str em) = Some em" by code_simp
  then show ?thesis by (cases em) (simp_all only: list.set insert_iff simp_thms ball_simps)
qed

lemma security_mode_roundtrip: "security_mode_from_raw (security_mode_as_str sm) = Some sm"
proof -
  have "\<forall>sm \<in> set [Inherit, RequireApproval, AlwaysAllow].
      security_mode_from_raw (security_mode_as_str sm) = Some sm" by code_simp
  then show ?thesis by (cases sm) (simp_all only: list.set insert_iff simp_thms ball_simps)
qed

record tool_entry =
  te_id :: string
  te_name :: string
  te_category :: string
  te_version :: string
  te_description :: string
  te_local_dir :: string
  te_binary_path :: "string option"
  te_enabled :: bool
  te_security_mode :: security_mode
  te_execution_mode :: execution_mode
  te_default_turns :: int
  te_permissions :: "string list"
  te_semantic_triggers :: "string list"
  te_activation_events :: "string list"
  te_capabilities :: "string list"
  te_trust_annotations :: bool

definition sensitive_capability :: "string \<Rightarrow> bool" where
  "sensitive_capability c =
     (let lc = to_lower c in
      contains lc ''exec'' \<or> contains lc ''write'' \<or> contains lc ''net'' \<or>
      contains lc ''shell'' \<or> contains lc ''cmd'' \<or> contains lc ''terminal'')"

definition declared_capabilities :: "tool_entry \<Rightarrow> string list" where
  "declared_capabilities e = (if te_capabilities e \<noteq> [] then te_capabilities e else te_permissions e)"

definition requires_approval :: "tool_entry \<Rightarrow> string \<Rightarrow> bool" where
  "requires_approval e master =
     (let m = to_lower master in
      if m = ''full_access'' then te_security_mode e = RequireApproval
      else if m = ''strict'' then te_security_mode e \<noteq> AlwaysAllow
      else if te_security_mode e = AlwaysAllow then False
      else if te_security_mode e = RequireApproval then True
      else if to_lower (te_category e) = ''mcp'' then True
      else if te_execution_mode e = Manual \<or> te_execution_mode e = ConfirmDestructive then True
      else if declared_capabilities e = [] then True
      else list_ex sensitive_capability (declared_capabilities e))"

text \<open>\<open>Value::get\<close> finds a member of an object only, \<open>as_bool\<close> reads a boolean only.\<close>

definition hint :: "json option \<Rightarrow> string \<Rightarrow> bool option" where
  "hint annotations key =
     (case annotations of
        Some (JObj m) \<Rightarrow> (case obj_get key m of Some (JBool b) \<Rightarrow> Some b | _ \<Rightarrow> None)
      | _ \<Rightarrow> None)"

definition read_only_trusted :: "tool_entry \<Rightarrow> string \<Rightarrow> json option \<Rightarrow> bool" where
  "read_only_trusted e master annotations \<longleftrightarrow>
     to_lower (te_category e) = ''mcp'' \<and> te_trust_annotations e \<and> te_security_mode e = Inherit \<and>
     to_lower master \<noteq> ''strict'' \<and>
     hint annotations ''readOnlyHint'' = Some True \<and> hint annotations ''destructiveHint'' \<noteq> Some True"

definition effective_capabilities :: "tool_entry \<Rightarrow> string list" where
  "effective_capabilities e =
     (if te_capabilities e \<noteq> [] then te_capabilities e
      else if te_permissions e \<noteq> [] then te_permissions e
      else [''undeclared''])"

section \<open>The gate\<close>

definition APPROVAL_TIMEOUT_SECS :: nat where "APPROVAL_TIMEOUT_SECS = 120"

record gate =
  gt_store :: approval_store
  gt_requests :: "(string, string \<times> string) hmap"
  gt_grants :: grants
  gt_log :: "(string \<times> grant_record) list"

definition chat_grants :: "string \<Rightarrow> nat \<Rightarrow> gate \<Rightarrow> gate" where
  "chat_grants chat now ga =
     (if needs_replay chat (gt_grants ga)
      then ga\<lparr>gt_grants := replay_grants chat (chat_log chat (gt_log ga)) now now (gt_grants ga)\<rparr>
      else ga)"

definition granted :: "string option \<Rightarrow> string \<Rightarrow> nat \<Rightarrow> gate \<Rightarrow> bool \<times> gate" where
  "granted chat tool now ga =
     (case chat of
        None \<Rightarrow> (False, ga)
      | Some c \<Rightarrow>
          (let ga = chat_grants c now ga; (yes, g) = allowed c tool now (gt_grants ga)
           in (yes, ga\<lparr>gt_grants := g\<rparr>)))"

definition grant_from_request :: "string \<Rightarrow> nat option \<Rightarrow> nat \<Rightarrow> gate \<Rightarrow> (string \<times> string \<times> nat) option \<times> gate" where
  "grant_from_request rid minutes now ga =
     (case hm_get rid (gt_requests ga) of
        None \<Rightarrow> (None, ga)
      | Some (chat, tool) \<Rightarrow>
          (let (m, g) = grant_tool chat tool minutes now (gt_grants ga)
           in (Some (chat, tool, m), ga\<lparr>gt_grants := g\<rparr>)))"

definition revoke_in_gate :: "string \<Rightarrow> string option \<Rightarrow> nat \<Rightarrow> gate \<Rightarrow> nat \<times> gate" where
  "revoke_in_gate chat tool now ga =
     (let ga = chat_grants chat now ga; (removed, g) = revoke_grants chat tool (gt_grants ga);
          ga = ga\<lparr>gt_grants := g\<rparr>
      in (removed,
          if removed > 0
          then ga\<lparr>gt_log := gt_log ga @ [(chat, \<lparr>rec_tool = tool, rec_minutes = 0, rec_at = now, revoked = True\<rparr>)]\<rparr>
          else ga))"

definition forget_grants :: "string \<Rightarrow> gate \<Rightarrow> gate" where
  "forget_grants chat ga = ga\<lparr>gt_grants := snd (revoke_grants chat None (gt_grants ga))\<rparr>"

definition grants_of_chat :: "string \<Rightarrow> nat \<Rightarrow> gate \<Rightarrow> (string \<times> nat) list \<times> gate" where
  "grants_of_chat chat now ga = (let ga = chat_grants chat now ga in (grants_of chat now (gt_grants ga), ga))"

record assessment =
  asm_requires_approval :: bool
  asm_capabilities :: "string list"

text \<open>The annotations of an MCP function, from the cached tool list of its server's directory.\<close>

definition tool_named :: "string \<Rightarrow> json \<Rightarrow> bool" where
  "tool_named f t \<longleftrightarrow> (case t of JObj m \<Rightarrow> obj_get ''name'' m = Some (JStr f) | _ \<Rightarrow> False)"

definition trusted_read_only :: "(string \<Rightarrow> json list) \<Rightarrow> tool_entry \<Rightarrow> string \<Rightarrow> string option \<Rightarrow> bool" where
  "trusted_read_only cached e master function =
     (case function of
        None \<Rightarrow> False
      | Some f \<Rightarrow>
          te_trust_annotations e \<and>
          read_only_trusted e master
            (case find (tool_named f) (cached (te_local_dir e)) of
               Some (JObj m) \<Rightarrow> obj_get ''annotations'' m
             | _ \<Rightarrow> None))"

definition assess_tool :: "(string \<Rightarrow> json list) \<Rightarrow> string \<Rightarrow> tool_entry option \<Rightarrow> string \<Rightarrow> string option \<Rightarrow> assessment" where
  "assess_tool cached master entry comp_type function =
     (case entry of
        Some e \<Rightarrow>
          if requires_approval e master \<and> trusted_read_only cached e master function
          then \<lparr>asm_requires_approval = False, asm_capabilities = [''mcp:read_only_trusted'']\<rparr>
          else \<lparr>asm_requires_approval = requires_approval e master, asm_capabilities = effective_capabilities e\<rparr>
      | None \<Rightarrow>
          if comp_type = ''mcp'' then \<lparr>asm_requires_approval = True, asm_capabilities = [''mcp:external'']\<rparr>
          else if master = ''full_access''
          then \<lparr>asm_requires_approval = False, asm_capabilities = [''full_access_override'']\<rparr>
          else \<lparr>asm_requires_approval = True, asm_capabilities = [''undeclared'']\<rparr>)"

definition assess ::
  "(string \<Rightarrow> json list) \<Rightarrow> (string \<Rightarrow> tool_entry option) \<Rightarrow> string \<Rightarrow> string \<Rightarrow> string \<Rightarrow> string option \<Rightarrow> bool
     \<Rightarrow> string option \<Rightarrow> nat \<Rightarrow> gate \<Rightarrow> assessment \<times> gate" where
  "assess cached registry agent_mode comp_type comp_name function engine_internal chat now ga =
     (if engine_internal then (\<lparr>asm_requires_approval = False, asm_capabilities = [''tools:load'']\<rparr>, ga)
      else let (yes, ga) = granted chat comp_name now ga in
        if yes then (\<lparr>asm_requires_approval = False, asm_capabilities = [''granted_for_chat'']\<rparr>, ga)
        else (assess_tool cached (to_lower agent_mode) (registry comp_name) comp_type function, ga))"

section \<open>A call that waits for the owner\<close>

definition ms :: "nat \<Rightarrow> nat" where "ms now = now div 10 ^ 6"

record pending_approval =
  pa_request_id :: string
  pa_decision :: nat

text \<open>\<open>uid\<close> is what \<open>uuid\<close> draws and \<open>w\<close> the channel \<open>wait\<close> of the store makes.\<close>

definition request_approval ::
  "(nat \<Rightarrow> string) \<Rightarrow> nat \<Rightarrow> string \<Rightarrow> nat \<Rightarrow> string \<Rightarrow> string \<Rightarrow> string \<Rightarrow> string option \<Rightarrow> gate
     \<Rightarrow> (pending_approval \<times> gate) option" where
  "request_approval fmt now uid w comp_type tool payload chat ga =
     (case request fmt (ms now) uid ''agent'' (comp_type @ '':'' @ tool) (replicate 32 (CHR 0x00)) payload (gt_store ga) of
        None \<Rightarrow> None
      | Some (approval, st) \<Rightarrow>
          Some (\<lparr>pa_request_id = ap_id approval, pa_decision = w\<rparr>,
            ga\<lparr>gt_requests := (case chat of None \<Rightarrow> gt_requests ga | Some c \<Rightarrow> hm_insert (ap_id approval) (c, tool) (gt_requests ga)),
               gt_store := await (ap_id approval) w st\<rparr>))"

datatype wait_end = Answered decision | Disconnected | TimedOut

definition timeout_reason :: string where
  "timeout_reason = ''User confirmation timed out after '' @ nat_text APPROVAL_TIMEOUT_SECS @ '' seconds. Operation skipped.''"

definition timed_out :: "string \<Rightarrow> bool" where
  "timed_out reason \<longleftrightarrow> reason = timeout_reason"

definition wait_outcome :: "wait_end \<Rightarrow> string + unit" where
  "wait_outcome e =
     (case e of
        Answered d \<Rightarrow>
          if dec_approved d then Inr ()
          else Inl (case_option ''User denied permission to execute this tool.'' id (dec_feedback d))
      | Disconnected \<Rightarrow> Inl ''Approval channel disconnected''
      | TimedOut \<Rightarrow> Inl timeout_reason)"

definition wait_approval :: "wait_end \<Rightarrow> pending_approval \<Rightarrow> gate \<Rightarrow> (string + unit) \<times> gate" where
  "wait_approval e p ga =
     (wait_outcome e,
      ga\<lparr>gt_store := forget (pa_request_id p) (gt_store ga), gt_requests := hm_remove (pa_request_id p) (gt_requests ga)\<rparr>)"

definition approval_event_json :: "string \<Rightarrow> string + unit \<Rightarrow> json" where
  "approval_event_json tool outcome =
     JObj [(''op'', JStr ''approval''), (''target'', JStr tool), (''ok'', JBool (\<not> isl outcome)),
       (''reason'', (case outcome of Inl reason \<Rightarrow> JStr reason | Inr _ \<Rightarrow> JNull))]"

definition denied_result :: "string \<Rightarrow> json" where
  "denied_result reason =
     JObj [(''status'', JStr ''denied''), (''error'', JStr (''Permission Denied: '' @ reason)), (''message'', JStr reason)]"

section \<open>The owner's answers\<close>

record approve_params =
  apv_id :: string
  apv_remember :: "string option"
  apv_minutes :: "nat option"
  apv_feedback :: "string option"

definition approve_grant :: "approve_params \<Rightarrow> nat \<Rightarrow> gate \<Rightarrow> (cep_error + (string \<times> string \<times> nat) option) \<times> gate" where
  "approve_grant p now ga =
     (case apv_remember p of
        None \<Rightarrow> (Inr None, ga)
      | Some r \<Rightarrow>
          if r = ''chat'' then (let (g, ga) = grant_from_request (apv_id p) (apv_minutes p) now ga in (Inr g, ga))
          else (Inl (invalid_params ([CHR 0x60] @ ''remember'' @ [CHR 0x60] @ '' is '' @ [CHR 0x22] @ ''chat'' @ [CHR 0x22]
                  @ '', not '' @ [CHR 0x22] @ r @ [CHR 0x22]) [] None), ga))"

definition log_grant :: "(string \<times> string \<times> nat) option \<Rightarrow> nat \<Rightarrow> gate \<Rightarrow> gate" where
  "log_grant grant now ga =
     (case grant of
        None \<Rightarrow> ga
      | Some (chat, tool, m) \<Rightarrow>
          ga\<lparr>gt_log := gt_log ga @ [(chat, \<lparr>rec_tool = Some tool, rec_minutes = m, rec_at = now, revoked = False\<rparr>)]\<rparr>)"

definition approve ::
  "approve_params \<Rightarrow> nat \<Rightarrow> gate
     \<Rightarrow> (cep_error + approval \<times> (string \<times> string \<times> nat) option) \<times> (nat \<times> decision) option \<times> gate" where
  "approve p now ga =
     (case approve_grant p now ga of
        (Inl e, ga) \<Rightarrow> (Inl e, None, ga)
      | (Inr grant, ga) \<Rightarrow>
          (case decide (ms now) (apv_id p) True (apv_feedback p) (gt_store ga) of
             (Inl e, sent, st) \<Rightarrow> (Inl e, sent, ga\<lparr>gt_store := st\<rparr>)
           | (Inr a, sent, st) \<Rightarrow> (Inr (a, grant), sent, log_grant grant now (ga\<lparr>gt_store := st\<rparr>))))"

definition reject :: "string \<Rightarrow> string option \<Rightarrow> nat \<Rightarrow> gate \<Rightarrow> (cep_error + approval) \<times> (nat \<times> decision) option \<times> gate" where
  "reject i feedback now ga =
     (case decide (ms now) i False feedback (gt_store ga) of (r, sent, st) \<Rightarrow> (r, sent, ga\<lparr>gt_store := st\<rparr>))"

section \<open>Runs of the gate\<close>

text \<open>
  The gate runs beside the rest of the program: calls ask, the owner answers, calls stop waiting,
  CEP calls use the same store, and grants are read and revoked. \<open>sys_mail\<close> holds what was sent on
  the channels. A call that asks is \<open>Asked\<close> with its approval and its channel; an answer taken is
  \<open>Owner\<close> with the approval decided; \<open>Ended\<close> says how a wait ended, \<open>True\<close> when the call may run.
\<close>

record gate_sys =
  sys_gate :: gate
  sys_mail :: "(nat, decision) hmap"

datatype gate_event =
    Asked nat approval nat
  | Owner nat string bool approval
  | Ended string nat bool
  | Store approval_event
  | Quiet

definition deliver :: "(nat \<times> decision) option \<Rightarrow> (nat, decision) hmap \<Rightarrow> (nat, decision) hmap" where
  "deliver sent mail = (case sent of None \<Rightarrow> mail | Some (w, d) \<Rightarrow> hm_insert w d mail)"

text \<open>What an event means for the store, newest first.\<close>

fun store_events :: "gate_event \<Rightarrow> approval_event list" where
  "store_events (Asked now a w) = [Awaited (ap_id a) w, Requested now a]"
| "store_events (Owner now i yes a) = [Decided now i yes]"
| "store_events (Ended i w ok) = [Forgot i]"
| "store_events (Store e) = [e]"
| "store_events Quiet = []"

definition store_history :: "gate_event list \<Rightarrow> approval_event list" where
  "store_history es = concat (map store_events es)"

fun others_event :: "approval_event \<Rightarrow> bool" where
  "others_event (Requested now a) = True"
| "others_event (Consumed now i p m d) = True"
| "others_event (Listed now) = True"
| "others_event _ = False"

definition waits_for :: "gate_event list \<Rightarrow> string \<Rightarrow> nat \<Rightarrow> bool" where
  "waits_for es i w \<longleftrightarrow> (\<exists>now a. Asked now a w \<in> set es \<and> ap_id a = i)"

inductive gate_step ::
  "(nat \<Rightarrow> string) \<Rightarrow> gate_event list \<Rightarrow> gate_sys \<Rightarrow> gate_event \<Rightarrow> gate_sys \<Rightarrow> bool"
  for fmt :: "nat \<Rightarrow> string" where
  gs_ask:
    "request_approval fmt now uid w comp_type tool payload chat (sys_gate s) = Some (p, ga) \<Longrightarrow>
     hm_get (pa_request_id p) (as_items (gt_store ga)) = Some a \<Longrightarrow>
     \<forall>t b. Requested t b \<in> set (store_history es) \<longrightarrow> ap_id b \<noteq> pa_request_id p \<Longrightarrow>
     \<forall>i. \<not> waits_for es i w \<Longrightarrow>
     gate_step fmt es s (Asked (ms now) a w) (s\<lparr>sys_gate := ga\<rparr>)"
| gs_approve:
    "approve p now (sys_gate s) = (Inr (a, grant), sent, ga) \<Longrightarrow>
     gate_step fmt es s (Owner (ms now) (apv_id p) True a) \<lparr>sys_gate = ga, sys_mail = deliver sent (sys_mail s)\<rparr>"
| gs_approve_refused:
    "approve p now (sys_gate s) = (Inl e, sent, ga) \<Longrightarrow>
     gate_step fmt es s Quiet \<lparr>sys_gate = ga, sys_mail = deliver sent (sys_mail s)\<rparr>"
| gs_reject:
    "reject i feedback now (sys_gate s) = (Inr a, sent, ga) \<Longrightarrow>
     gate_step fmt es s (Owner (ms now) i False a) \<lparr>sys_gate = ga, sys_mail = deliver sent (sys_mail s)\<rparr>"
| gs_reject_refused:
    "reject i feedback now (sys_gate s) = (Inl e, sent, ga) \<Longrightarrow>
     gate_step fmt es s Quiet \<lparr>sys_gate = ga, sys_mail = deliver sent (sys_mail s)\<rparr>"
| gs_answered:
    "waits_for es i w \<Longrightarrow> hm_get w (sys_mail s) = Some d \<Longrightarrow>
     wait_approval (Answered d) \<lparr>pa_request_id = i, pa_decision = w\<rparr> (sys_gate s) = (r, ga) \<Longrightarrow>
     gate_step fmt es s (Ended i w (r = Inr ())) (s\<lparr>sys_gate := ga\<rparr>)"
| gs_unanswered:
    "waits_for es i w \<Longrightarrow> e = Disconnected \<or> e = TimedOut \<Longrightarrow>
     wait_approval e \<lparr>pa_request_id = i, pa_decision = w\<rparr> (sys_gate s) = (r, ga) \<Longrightarrow>
     gate_step fmt es s (Ended i w (r = Inr ())) (s\<lparr>sys_gate := ga\<rparr>)"
| gs_store:
    "others_event e \<Longrightarrow> approval_step fmt (store_history es) (gt_store (sys_gate s)) e st \<Longrightarrow>
     gate_step fmt es s (Store e) (s\<lparr>sys_gate := (sys_gate s)\<lparr>gt_store := st\<rparr>\<rparr>)"
| gs_assess:
    "assess cached registry agent_mode comp_type comp_name function internal chat now (sys_gate s) = (asm, ga) \<Longrightarrow>
     gate_step fmt es s Quiet (s\<lparr>sys_gate := ga\<rparr>)"
| gs_revoke:
    "revoke_in_gate chat tool now (sys_gate s) = (n, ga) \<Longrightarrow> gate_step fmt es s Quiet (s\<lparr>sys_gate := ga\<rparr>)"
| gs_forget: "forget_grants chat (sys_gate s) = ga \<Longrightarrow> gate_step fmt es s Quiet (s\<lparr>sys_gate := ga\<rparr>)"

inductive_cases gate_step_cases: "gate_step fmt es s e s'"

text \<open>The operations on grants leave the store alone, and a decision is one of the store.\<close>

lemma grants_keep_store [simp]:
  "gt_store (chat_grants chat now ga) = gt_store ga"
  "gt_store (snd (granted ch tool now ga)) = gt_store ga"
  "gt_store (snd (revoke_in_gate chat tn now ga)) = gt_store ga"
  "gt_store (forget_grants chat ga) = gt_store ga"
  "gt_store (snd (grant_from_request rid m now ga)) = gt_store ga"
  "gt_store (log_grant g now ga) = gt_store ga"
  by (auto simp: chat_grants_def granted_def revoke_in_gate_def forget_grants_def grant_from_request_def log_grant_def
      Let_def split: option.splits prod.splits)

lemma assess_keeps_store [simp]:
  "gt_store (snd (assess cached registry agent_mode ct cn fn internal chat now ga)) = gt_store ga"
  using grants_keep_store(2) [of chat cn now ga]
  by (auto simp: assess_def Let_def simp del: grants_keep_store split: prod.splits)

lemma approve_grant_store: "approve_grant p now ga = (r, ga') \<Longrightarrow> gt_store ga' = gt_store ga"
  using grants_keep_store(5) [of "apv_id p" "apv_minutes p" now ga]
  by (auto simp: approve_grant_def Let_def simp del: grants_keep_store split: option.splits prod.splits if_splits)

lemma approve_store:
  "approve p now ga = (Inr (a, g), sent, ga') \<Longrightarrow>
     decide (ms now) (apv_id p) True (apv_feedback p) (gt_store ga) = (Inr a, sent, gt_store ga')"
  by (auto simp: approve_def dest!: approve_grant_store split: prod.splits sum.splits)

lemma decide_refused: "decide now i yes fb st = (Inl e, sent, st') \<Longrightarrow> sent = None \<and> st' = st"
  by (auto simp: decide_def Let_def split: option.splits if_splits)

lemma decide_taken:
  assumes "decide now i yes fb st = (Inr b, sent, st')"
  obtains a where "hm_get i (as_items st) = Some a" "ap_status a = Pending"
    "b = a\<lparr>ap_status := if yes then Approved else Rejected\<rparr>"
    "sent = map_option (\<lambda>w. (w, \<lparr>dec_approved = yes, dec_feedback = fb\<rparr>)) (hm_get i (as_waiters st))"
    "as_items st' = hm_insert i b (as_items st)" "as_waiters st' = hm_remove i (as_waiters st)"
  using assms by (auto simp: decide_def Let_def split: option.splits if_splits)

lemma approve_refused: "approve p now ga = (Inl e, sent, ga') \<Longrightarrow> sent = None \<and> gt_store ga' = gt_store ga"
  by (auto simp: approve_def dest!: approve_grant_store decide_refused split: prod.splits sum.splits)

lemma request_approval_cases:
  assumes "request_approval fmt now uid w ct tool payload chat ga = Some (p, ga')"
  obtains a st where
    "request fmt (ms now) uid ''agent'' (ct @ '':'' @ tool) (replicate 32 (CHR 0x00)) payload (gt_store ga) = Some (a, st)"
    "p = \<lparr>pa_request_id = ap_id a, pa_decision = w\<rparr>" "gt_store ga' = await (ap_id a) w st"
  using assms by (auto simp: request_approval_def split: option.splits)

lemma request_item:
  "request fmt now uid caller m dg tgt st = Some (a, st') \<Longrightarrow>
     hm_get (ap_id a) (as_items st') = Some a \<and> as_waiters st' = as_waiters st \<and> ap_method a = m \<and> ap_target a = tgt"
  by (auto simp: request_def Let_def fresh_approval_def split: option.splits)

lemma store_history_Cons [simp]: "store_history (e # es) = store_events e @ store_history es"
  by (simp add: store_history_def)

lemma store_history_Nil [simp]: "store_history [] = []"
  by (simp add: store_history_def)

lemma waits_for_Cons [simp]:
  "waits_for (Asked now a w # es) i v \<longleftrightarrow> (ap_id a = i \<and> w = v) \<or> waits_for es i v"
  "waits_for (Owner now j yes b # es) i v \<longleftrightarrow> waits_for es i v"
  "waits_for (Ended j w r # es) i v \<longleftrightarrow> waits_for es i v"
  "waits_for (Store e # es) i v \<longleftrightarrow> waits_for es i v"
  "waits_for (Quiet # es) i v \<longleftrightarrow> waits_for es i v"
  by (auto simp: waits_for_def)

text \<open>The approval an owner decided is the one the call asked for, word for word.\<close>

definition same_call :: "approval \<Rightarrow> approval \<Rightarrow> bool" where
  "same_call a b \<longleftrightarrow> ap_method a = ap_method b \<and> ap_target a = ap_target b"

text \<open>
  The invariant: the store's own, every channel belongs to the one call that made it, a message on it
  is an answer of the owner to that call, and nobody answers one approval both ways.
\<close>

definition waiters_held :: "gate_event list \<Rightarrow> gate_sys \<Rightarrow> bool" where
  "waiters_held es s \<longleftrightarrow> (\<forall>i w. hm_get i (as_waiters (gt_store (sys_gate s))) = Some w \<longrightarrow> waits_for es i w)"

definition mail_is_answer :: "gate_event list \<Rightarrow> gate_sys \<Rightarrow> bool" where
  "mail_is_answer es s \<longleftrightarrow> (\<forall>w d. hm_get w (sys_mail s) = Some d \<longrightarrow> (\<exists>i now b. waits_for es i w \<and> Owner now i (dec_approved d) b \<in> set es))"

definition channel_of_one :: "gate_event list \<Rightarrow> bool" where
  "channel_of_one es \<longleftrightarrow> (\<forall>i j w. waits_for es i w \<longrightarrow> waits_for es j w \<longrightarrow> i = j)"

definition answered_one_way :: "gate_event list \<Rightarrow> bool" where
  "answered_one_way es \<longleftrightarrow> (\<forall>i. \<not> (decided_as True i (store_history es) \<and> decided_as False i (store_history es)))"

definition items_as_asked :: "gate_event list \<Rightarrow> gate_sys \<Rightarrow> bool" where
  "items_as_asked es s \<longleftrightarrow> (\<forall>t a w b. Asked t a w \<in> set es \<longrightarrow> hm_get (ap_id a) (as_items (gt_store (sys_gate s))) = Some b \<longrightarrow> same_call a b)"

definition answers_as_asked :: "gate_event list \<Rightarrow> bool" where
  "answers_as_asked es \<longleftrightarrow> (\<forall>t a w u yes b. Asked t a w \<in> set es \<longrightarrow> Owner u (ap_id a) yes b \<in> set es \<longrightarrow> same_call a b)"

definition events_told :: "gate_event list \<Rightarrow> bool" where
  "events_told es \<longleftrightarrow> ((\<forall>t a w. Asked t a w \<in> set es \<longrightarrow> known (ap_id a) (store_history es)) \<and>
     (\<forall>u i yes b. Owner u i yes b \<in> set es \<longrightarrow> decided_as yes i (store_history es)))"

definition gate_inv :: "nat \<Rightarrow> gate_event list \<Rightarrow> gate_sys \<Rightarrow> bool" where
  "gate_inv ttl es s \<longleftrightarrow>
     approval_inv ttl (store_history es) (gt_store (sys_gate s)) \<and>
     waiters_held es s \<and>
     mail_is_answer es s \<and>
     channel_of_one es \<and>
     answered_one_way es \<and>
     items_as_asked es s \<and>
     answers_as_asked es \<and>
     events_told es"

lemma gate_invD:
  assumes "gate_inv ttl es s"
  shows "approval_inv ttl (store_history es) (gt_store (sys_gate s))"
    and "\<And>i w. hm_get i (as_waiters (gt_store (sys_gate s))) = Some w \<Longrightarrow> waits_for es i w"
    and "\<And>w d. hm_get w (sys_mail s) = Some d \<Longrightarrow> \<exists>i now b. waits_for es i w \<and> Owner now i (dec_approved d) b \<in> set es"
    and "\<And>i j w. waits_for es i w \<Longrightarrow> waits_for es j w \<Longrightarrow> i = j"
    and "\<And>i. \<not> (decided_as True i (store_history es) \<and> decided_as False i (store_history es))"
    and "\<And>t a w b. Asked t a w \<in> set es \<Longrightarrow> hm_get (ap_id a) (as_items (gt_store (sys_gate s))) = Some b \<Longrightarrow> same_call a b"
    and "\<And>t a w u yes b. Asked t a w \<in> set es \<Longrightarrow> Owner u (ap_id a) yes b \<in> set es \<Longrightarrow> same_call a b"
    and "\<And>t a w. Asked t a w \<in> set es \<Longrightarrow> known (ap_id a) (store_history es)"
    and "\<And>u i yes b. Owner u i yes b \<in> set es \<Longrightarrow> decided_as yes i (store_history es)"
proof -
  from assms have parts: "approval_inv ttl (store_history es) (gt_store (sys_gate s))"
      "waiters_held es s" "mail_is_answer es s" "channel_of_one es" "answered_one_way es"
      "items_as_asked es s" "answers_as_asked es" "events_told es"
    by (simp_all add: gate_inv_def)
  from parts(1) show "approval_inv ttl (store_history es) (gt_store (sys_gate s))" .
  from parts(2) show "\<And>i w. hm_get i (as_waiters (gt_store (sys_gate s))) = Some w \<Longrightarrow> waits_for es i w"
    unfolding waiters_held_def by simp
  from parts(3) show "\<And>w d. hm_get w (sys_mail s) = Some d \<Longrightarrow> \<exists>i now b. waits_for es i w \<and> Owner now i (dec_approved d) b \<in> set es"
    unfolding mail_is_answer_def by simp
  from parts(4) show "\<And>i j w. waits_for es i w \<Longrightarrow> waits_for es j w \<Longrightarrow> i = j"
    unfolding channel_of_one_def by metis
  from parts(5) show "\<And>i. \<not> (decided_as True i (store_history es) \<and> decided_as False i (store_history es))"
    unfolding answered_one_way_def by simp
  from parts(6) show "\<And>t a w b. Asked t a w \<in> set es \<Longrightarrow> hm_get (ap_id a) (as_items (gt_store (sys_gate s))) = Some b \<Longrightarrow> same_call a b"
    unfolding items_as_asked_def by metis
  from parts(7) show "\<And>t a w u yes b. Asked t a w \<in> set es \<Longrightarrow> Owner u (ap_id a) yes b \<in> set es \<Longrightarrow> same_call a b"
    unfolding answers_as_asked_def by metis
  from parts(8) show "\<And>t a w. Asked t a w \<in> set es \<Longrightarrow> known (ap_id a) (store_history es)"
    and "\<And>u i yes b. Owner u i yes b \<in> set es \<Longrightarrow> decided_as yes i (store_history es)"
    unfolding events_told_def by metis+
qed

lemma not_known: "(\<forall>t b. Requested t b \<in> set es \<longrightarrow> ap_id b \<noteq> i) \<longleftrightarrow> \<not> known i es"
  by (auto simp: known_def)

lemma gate_inv_start:
  assumes "gt_store (sys_gate s) = new_store ttl" and "sys_mail s = []"
  shows "gate_inv ttl [] s"
proof -
  have "waiters_held [] s" "items_as_asked [] s" "mail_is_answer [] s"
    using assms by (simp_all add: waiters_held_def items_as_asked_def mail_is_answer_def new_store_def)
  then show ?thesis
    using assms by (simp add: gate_inv_def inv_new channel_of_one_def answered_one_way_def answers_as_asked_def
        events_told_def waits_for_def event_defs)
qed

text \<open>A new question: its approval and its channel are fresh.\<close>

lemma gate_inv_ask:
  assumes inv: "gate_inv ttl es s"
    and req: "request fmt now uid caller m dg tgt (gt_store (sys_gate s)) = Some (a, st)"
    and fresh: "\<not> known (ap_id a) (store_history es)" "\<forall>i. \<not> waits_for es i w"
    and st: "gt_store ga = await (ap_id a) w st"
  shows "gate_inv ttl (Asked now a w # es) (s\<lparr>sys_gate := ga\<rparr>)"
proof -
  let ?st = "gt_store (sys_gate s)" and ?es = "Asked now a w # es" and ?s = "s\<lparr>sys_gate := ga\<rparr>"
  note I = gate_invD [OF inv]
  note item = request_item [OF req]
  have new: "Owner u (ap_id a) yes b \<notin> set es" for u yes b
    using I(9) fresh(1) inv_known(1) [OF I(1)] by blast
  have new2: "Asked t a' v \<in> set es \<Longrightarrow> ap_id a' \<noteq> ap_id a" for t a' v
    using I(8) [of t a' v] fresh(1) by auto
  have old: "hm_get i (as_items st) = Some b \<Longrightarrow> i \<noteq> ap_id a \<Longrightarrow> hm_get i (as_items ?st) = Some b" for i b
    using req prune_SomeD(3) [OF inv_parts(2) [OF I(1)]]
    by (auto simp: request_def Let_def fresh_approval_def split: option.splits if_splits)
  have "approval_inv ttl (Requested now a # store_history es) st"
    using inv_request [OF I(1) req] fresh(1) by (simp add: not_known)
  then have 1: "approval_inv ttl (store_history ?es) (gt_store (sys_gate ?s))" by (simp add: st inv_await)
  have 2: "waiters_held ?es ?s" using I(2) item by (simp add: waiters_held_def st await_def)
  have 3: "mail_is_answer ?es ?s" using I(3) by (fastforce simp: mail_is_answer_def)
  have 4: "channel_of_one ?es" using I(4) fresh(2) by (auto simp: channel_of_one_def)
  have 5: "answered_one_way ?es" using I(5) by (simp add: answered_one_way_def)
  have 6: "items_as_asked ?es ?s"
    unfolding items_as_asked_def using item I(6) new2 old by (auto simp: st await_def same_call_def)
  have 7: "answers_as_asked ?es" unfolding answers_as_asked_def using I(7) new by auto
  have 8: "events_told ?es" unfolding events_told_def using I(8,9) by auto
  from 1 2 3 4 5 6 7 8 show ?thesis by (simp add: gate_inv_def)
qed

text \<open>An answer of the owner: it is sent to the one call that waits for it, if it still waits.\<close>

lemma gate_inv_owner:
  assumes inv: "gate_inv ttl es s"
    and dec: "decide now i yes fb (gt_store (sys_gate s)) = (Inr b, sent, gt_store ga)"
  shows "gate_inv ttl (Owner now i yes b # es) \<lparr>sys_gate = ga, sys_mail = deliver sent (sys_mail s)\<rparr>"
proof -
  let ?st = "gt_store (sys_gate s)" and ?es = "Owner now i yes b # es"
  let ?s = "\<lparr>sys_gate = ga, sys_mail = deliver sent (sys_mail s)\<rparr>"
  note I = gate_invD [OF inv]
  from decide_taken [OF dec] obtain a where a: "hm_get i (as_items ?st) = Some a" "ap_status a = Pending"
    and b: "b = a\<lparr>ap_status := if yes then Approved else Rejected\<rparr>"
    and sent: "sent = map_option (\<lambda>w. (w, \<lparr>dec_approved = yes, dec_feedback = fb\<rparr>)) (hm_get i (as_waiters ?st))"
    and st: "as_items (gt_store ga) = hm_insert i b (as_items ?st)" "as_waiters (gt_store ga) = hm_remove i (as_waiters ?st)"
    by metis
  from inv_get [OF I(1) a(1)] a(2)
  have free: "ap_id a = i" "\<not> decided_as c i (store_history es)" for c by (cases c; simp)+
  have same: "Asked t a' w \<in> set es \<Longrightarrow> ap_id a' = i \<Longrightarrow> same_call a' b" for t a' w
    using I(6) a(1) by (auto simp: b same_call_def)
  have 1: "approval_inv ttl (store_history ?es) (gt_store (sys_gate ?s))" using inv_decide [OF I(1) dec] by simp
  have 2: "waiters_held ?es ?s" using I(2) by (simp add: waiters_held_def st)
  have "\<exists>j u c. waits_for es j w \<and> Owner u j (dec_approved d) c \<in> set ?es"
    if "hm_get w (deliver sent (sys_mail s)) = Some d" for w d
  proof (cases "hm_get i (as_waiters ?st) = Some w")
    case True
    with that have "dec_approved d = yes" by (auto simp: deliver_def sent)
    with I(2) [OF True] show ?thesis by auto
  next
    case False
    with that have "hm_get w (sys_mail s) = Some d" by (auto simp: deliver_def sent split: option.splits if_splits)
    with I(3) [of w d] show ?thesis by fastforce
  qed
  then have 3: "mail_is_answer ?es ?s" unfolding mail_is_answer_def waits_for_Cons by simp
  have 4: "channel_of_one ?es" using I(4) by (simp add: channel_of_one_def)
  have 5: "answered_one_way ?es" using I(5) free(2) by (auto simp: answered_one_way_def)
  have 6: "items_as_asked ?es ?s" unfolding items_as_asked_def using I(6) same by (auto simp: st split: if_splits)
  have 7: "answers_as_asked ?es" unfolding answers_as_asked_def using I(7) same by auto
  have 8: "events_told ?es" unfolding events_told_def using I(8,9) by auto
  from 1 2 3 4 5 6 7 8 show ?thesis by (simp add: gate_inv_def)
qed

text \<open>Every other step leaves the questions and the answers as they are.\<close>

fun bystander :: "gate_event \<Rightarrow> bool" where
  "bystander (Ended i w ok) = True"
| "bystander (Store e) = others_event e"
| "bystander Quiet = True"
| "bystander _ = False"

lemma bystander_events:
  assumes "bystander e"
  shows "waits_for (e # es) i w \<longleftrightarrow> waits_for es i w" and "e \<noteq> Asked t a v" and "e \<noteq> Owner u j yes b"
    and "decided_as c i (store_history (e # es)) \<longleftrightarrow> decided_as c i (store_history es)"
    and "known i (store_history es) \<Longrightarrow> known i (store_history (e # es))"
  using assms by (cases e; auto elim: others_event.elims simp: event_defs)+

lemma gate_inv_bystander:
  assumes inv: "gate_inv ttl es s" and e: "bystander e"
    and sinv: "approval_inv ttl (store_history (e # es)) (gt_store ga)"
    and waiters: "\<And>i w. hm_get i (as_waiters (gt_store ga)) = Some w \<Longrightarrow> hm_get i (as_waiters (gt_store (sys_gate s))) = Some w"
    and items: "\<And>i b. hm_get i (as_items (gt_store ga)) = Some b \<Longrightarrow> known i (store_history es) \<Longrightarrow>
      \<exists>c. hm_get i (as_items (gt_store (sys_gate s))) = Some c \<and> same_call c b"
  shows "gate_inv ttl (e # es) (s\<lparr>sys_gate := ga\<rparr>)"
proof -
  note I = gate_invD [OF inv] and E = bystander_events [OF e]
  have asked: "Asked t a w \<in> set (e # es) \<longleftrightarrow> Asked t a w \<in> set es" for t a w using E(2) by auto
  have owner: "Owner u i yes b \<in> set (e # es) \<longleftrightarrow> Owner u i yes b \<in> set es" for u i yes b using E(3) by auto
  have 2: "waiters_held (e # es) (s\<lparr>sys_gate := ga\<rparr>)" using I(2) waiters by (simp add: waiters_held_def E(1))
  have 3: "mail_is_answer (e # es) (s\<lparr>sys_gate := ga\<rparr>)"
    unfolding mail_is_answer_def owner E(1) using I(3) by simp
  have 4: "channel_of_one (e # es)" using I(4) by (simp add: channel_of_one_def E(1))
  have 5: "answered_one_way (e # es)" unfolding answered_one_way_def E(4) using I(5) by blast
  have same: "same_call a b \<Longrightarrow> same_call b c \<Longrightarrow> same_call a c" for a b c by (simp add: same_call_def)
  have "same_call a b" if "Asked t a w \<in> set es" "hm_get (ap_id a) (as_items (gt_store ga)) = Some b" for t a w b
    using items [OF that(2) I(8) [OF that(1)]] I(6) [OF that(1)] same by blast
  then have 6: "items_as_asked (e # es) (s\<lparr>sys_gate := ga\<rparr>)" unfolding items_as_asked_def asked by simp
  have 7: "answers_as_asked (e # es)" unfolding answers_as_asked_def asked owner using I(7) by blast
  have 8: "events_told (e # es)" unfolding events_told_def asked owner E(4) using I(8,9) E(5) by blast
  from sinv 2 3 4 5 6 7 8 show ?thesis by (simp add: gate_inv_def)
qed

lemma same_call_refl [simp]: "same_call a a" "same_call a (a\<lparr>ap_status := st\<rparr>)"
  by (simp_all add: same_call_def)

lemma gate_inv_quiet:
  "gate_inv ttl es s \<Longrightarrow> gt_store ga = gt_store (sys_gate s) \<Longrightarrow> gate_inv ttl (Quiet # es) (s\<lparr>sys_gate := ga\<rparr>)"
  by (rule gate_inv_bystander) (auto dest: gate_invD(1))

lemma gate_inv_ended:
  assumes "gate_inv ttl es s" and "wait_approval e p (sys_gate s) = (r, ga)"
  shows "gate_inv ttl (Ended (pa_request_id p) w ok # es) (s\<lparr>sys_gate := ga\<rparr>)"
proof (rule gate_inv_bystander [OF assms(1)])
  have ga: "gt_store ga = forget (pa_request_id p) (gt_store (sys_gate s))"
    using assms(2) by (auto simp: wait_approval_def)
  show "approval_inv ttl (store_history (Ended (pa_request_id p) w ok # es)) (gt_store ga)"
    using inv_forget [OF gate_invD(1) [OF assms(1)]] by (simp add: ga)
  show "\<And>i w. hm_get i (as_waiters (gt_store ga)) = Some w \<Longrightarrow> hm_get i (as_waiters (gt_store (sys_gate s))) = Some w"
    by (auto simp: ga forget_def Let_def split: option.splits if_splits)
  show "\<And>i b. hm_get i (as_items (gt_store ga)) = Some b \<Longrightarrow>
      \<exists>c. hm_get i (as_items (gt_store (sys_gate s))) = Some c \<and> same_call c b"
    by (auto simp: ga forget_def Let_def split: option.splits if_splits)
qed simp

lemma gate_inv_store:
  assumes inv: "gate_inv ttl es s" and o: "others_event e"
    and step: "approval_step fmt (store_history es) (gt_store (sys_gate s)) e st"
  shows "gate_inv ttl (Store e # es) (s\<lparr>sys_gate := (sys_gate s)\<lparr>gt_store := st\<rparr>\<rparr>)"
proof (rule gate_inv_bystander [OF inv])
  let ?st = "gt_store (sys_gate s)"
  note I = gate_invD [OF inv] and ok = inv_parts(2) [OF gate_invD(1) [OF inv]]
  show "approval_inv ttl (store_history (Store e # es)) (gt_store ((sys_gate s)\<lparr>gt_store := st\<rparr>))"
    using inv_approval_step [OF I(1) step] by simp
  show "\<And>i w. hm_get i (as_waiters (gt_store ((sys_gate s)\<lparr>gt_store := st\<rparr>))) = Some w \<Longrightarrow> hm_get i (as_waiters ?st) = Some w"
    using step o
    by (cases rule: approval_step.cases)
      (auto simp: request_def consume_def pending_def Let_def split: option.splits if_splits)
  show "\<exists>c. hm_get i (as_items ?st) = Some c \<and> same_call c b"
    if "hm_get i (as_items (gt_store ((sys_gate s)\<lparr>gt_store := st\<rparr>))) = Some b" "known i (store_history es)" for i b
    using step o that
  proof (cases rule: approval_step.cases)
    case (step_request now uid caller m dg target a)
    with that prune_SomeD(3) [OF ok] show ?thesis
      by (auto simp: request_def Let_def not_known split: option.splits if_splits)
  next
    case (step_consume now j caller m dg)
    with that show ?thesis by (auto simp: consume_def split: option.splits if_splits)
  next
    case (step_list now as)
    with that prune_SomeD(3) [OF ok] show ?thesis by (auto simp: pending_def split: option.splits)
  qed (use o in auto)
qed (use o in simp)

lemma gate_inv_step: "gate_inv ttl es s \<Longrightarrow> gate_step fmt es s e s' \<Longrightarrow> gate_inv ttl (e # es) s'"
proof (erule gate_step_cases, goal_cases)
  case (1 now uid w comp_type tool payload chat p ga a)
  from 1(4) obtain b st where req: "request fmt (ms now) uid ''agent'' (comp_type @ '':'' @ tool) (replicate 32 (CHR 0x00)) payload
      (gt_store (sys_gate s)) = Some (b, st)"
    and b: "pa_request_id p = ap_id b" "gt_store ga = await (ap_id b) w st"
    by (rule request_approval_cases) auto
  with request_item [OF req] 1(5) have "a = b" by (simp add: await_def)
  with 1 b gate_inv_ask [OF 1(1) req] show ?case by (simp add: not_known)
next
  case (2 p now a grant sent ga)
  then show ?case using gate_inv_owner [OF 2(1) approve_store] by simp
next
  case (3 p now e sent ga)
  with approve_refused [OF 3(4)] gate_inv_quiet [OF 3(1), of ga] show ?case by (cases s) (simp add: deliver_def)
next
  case (4 i feedback now a sent ga)
  then show ?case by (auto simp: reject_def intro!: gate_inv_owner split: prod.splits)
next
  case (5 i feedback now e sent ga)
  then have "sent = None \<and> gt_store ga = gt_store (sys_gate s)"
    by (auto simp: reject_def dest!: decide_refused split: prod.splits)
  with 5 gate_inv_quiet [OF 5(1), of ga] show ?case by (cases s) (simp add: deliver_def)
next
  case (6 i w d r ga)
  then show ?case using gate_inv_ended [OF 6(1)] by fastforce
next
  case (7 i w e r ga)
  then show ?case using gate_inv_ended [OF 7(1)] by fastforce
next
  case (8 e st)
  then show ?case by (auto intro: gate_inv_store)
next
  case (9 cached registry agent_mode ct cn fn int chat now asm ga)
  then show ?case using assess_keeps_store by (metis gate_inv_quiet snd_conv)
next
  case (10 chat tool now n ga)
  then show ?case using grants_keep_store(3) by (metis gate_inv_quiet snd_conv)
next
  case 11
  then show ?case using grants_keep_store(4) gate_inv_quiet by fastforce
qed

interpretation tool_gate: invariant_system "gate_step fmt"
    "\<lambda>s. gt_store (sys_gate s) = new_store ttl \<and> sys_mail s = []" "gate_inv ttl"
  by unfold_locales (auto intro: gate_inv_start gate_inv_step)

section \<open>Properties\<close>

text \<open>
  C3. A tool call that asked runs only after the owner approved that very call: before its wait ended well, the
  owner's approval of its own request was taken, for the method and the payload it asked with, and the
  owner never refused it. This holds whatever other calls, answers and CEP calls come between.
\<close>

theorem tool_runs_only_if_approved:
  assumes "gt_store (sys_gate s) = new_store ttl" and "sys_mail s = []"
    and "runs (gate_step fmt) s (newer @ Ended i w True # older) s'"
  shows "\<exists>t a u b. Asked t a w \<in> set older \<and> ap_id a = i \<and> Owner u i True b \<in> set older \<and>
      ap_method b = ap_method a \<and> ap_target b = ap_target a \<and>
      (\<forall>v c. Owner v i False c \<notin> set (newer @ Ended i w True # older))"
proof -
  from assms tool_gate.step_before [of s ttl fmt newer "Ended i w True" older s'] obtain t v
    where inv: "gate_inv ttl older t" and step: "gate_step fmt older t (Ended i w True) v" by blast
  note I = gate_invD [OF inv]
  have "waits_for older i w \<and> (\<exists>d. hm_get w (sys_mail t) = Some d \<and> dec_approved d)"
    using step by (auto elim!: gate_step_cases simp: wait_approval_def wait_outcome_def split: if_splits)
  then obtain d where w: "waits_for older i w" and d: "hm_get w (sys_mail t) = Some d" "dec_approved d" by blast
  from I(3) [OF d(1)] d(2) obtain j u b where "waits_for older j w" and b: "Owner u j True b \<in> set older" by auto
  with I(4) w have "j = i" by blast
  with w b obtain t0 a where a: "Asked t0 a w \<in> set older" "ap_id a = i" by (auto simp: waits_for_def)
  with I(7) [OF a(1)] b \<open>j = i\<close> have "same_call a b" by simp
  have "gate_inv ttl (newer @ Ended i w True # older) s'"
    using tool_gate.inv_runs [of s ttl fmt "newer @ Ended i w True # older" s'] assms by blast
  from gate_invD(5) [OF this, of i] gate_invD(9) [OF this]
  have "Owner v i False c \<notin> set (newer @ Ended i w True # older)" for v c
    using b \<open>j = i\<close> by (metis UnCI list.set_intros(2) set_append)
  with a b \<open>j = i\<close> \<open>same_call a b\<close> show ?thesis
    by (intro exI [of _ t0] exI [of _ a] exI [of _ u] exI [of _ b]) (simp add: same_call_def)
qed

text \<open>
  C25. A confirmation nobody gave in time is over: the call is refused with the timeout reason, and an
  answer that comes later is an error, reaches nobody, grants nothing and changes nothing, however it is put.
\<close>

theorem late_answer_refused:
  assumes "case hm_get (pa_request_id p) (as_items (gt_store ga)) of None \<Rightarrow> True | Some a \<Rightarrow> ap_status a = Pending"
    and "wait_approval TimedOut p ga = (r, ga')"
  shows "r = Inl timeout_reason \<and> timed_out timeout_reason \<and>
    (apv_id q = pa_request_id p \<longrightarrow> (\<exists>e. approve q now ga' = (Inl e, None, ga'))) \<and>
    (\<exists>e. reject (pa_request_id p) feedback now ga' = (Inl e, None, ga'))"
proof -
  from assms(2) have r: "r = Inl timeout_reason"
    and ga': "ga' = ga\<lparr>gt_store := forget (pa_request_id p) (gt_store ga), gt_requests := hm_remove (pa_request_id p) (gt_requests ga)\<rparr>"
    by (auto simp: wait_approval_def wait_outcome_def)
  have gone: "hm_get (pa_request_id p) (as_items (gt_store ga')) = None"
    using assms(1) by (auto simp: ga' forget_def Let_def split: option.splits)
  then have "decide (ms now) (pa_request_id p) yes fb (gt_store ga') =
      (Inl (not_found ''approval_not_found'' (''No pending approval '' @ pa_request_id p)), None, gt_store ga')" for yes fb
    by (simp add: decide_def)
  moreover have "grant_from_request (pa_request_id p) m now ga' = (None, ga')" for m
    by (simp add: grant_from_request_def ga')
  ultimately show ?thesis
    using r by (auto simp: timed_out_def reject_def approve_def approve_grant_def split: option.splits)
qed


text \<open>
  C35. An answer that fails can still grant: the owner's \<open>approve\<close> with \<open>remember: chat\<close> of a request that was
  refused a moment ago, while its call has not been woken yet, answers with an error, and the tool runs
  unasked in the chat all the same. Nothing is logged, so the grant is gone after a restart.
\<close>

theorem failed_approve_still_grants:
  assumes "hm_get (apv_id p) (gt_requests ga) = Some (chat, tool)"
    and "hm_get (apv_id p) (as_items (gt_store ga)) = Some a" and "ap_status a = Rejected" and "ms now < ap_expires_ms a"
    and "apv_remember p = Some ''chat''" and "apv_minutes p = None"
  shows "\<exists>e ga'. approve p now ga = (Inl e, None, ga') \<and> error_kind e = Some ''approval_decided'' \<and>
    fst (granted (Some chat) tool (now + 1) ga') \<and> gt_log ga' = gt_log ga"
proof -
  let ?e = "conflict ''approval_decided'' (''Approval '' @ apv_id p @ '' is already '' @ status_debug (ap_status a))"
  let ?g = "snd (grant_tool chat tool None now (gt_grants ga))"
  have "approve p now ga = (Inl ?e, None, ga\<lparr>gt_grants := ?g\<rparr>)"
    using assms by (simp add: approve_def approve_grant_def grant_from_request_def decide_def split: prod.splits)
  moreover have "fst (granted (Some chat) tool (now + 1) (ga\<lparr>gt_grants := ?g\<rparr>))"
    by (simp add: granted_def chat_grants_def needs_replay_def grant_tool_def allowed_def Let_def
        DEFAULT_GRANT_MINUTES_def clamp_minutes_def MAX_GRANT_MINUTES_def SEC_def)
  moreover have "error_kind ?e = Some ''approval_decided''" by simp
  ultimately show ?thesis by (intro exI) auto
qed

text \<open>A first run: asked at 0, approved at 1, then woken.\<close>

abbreviation (input) shown_item :: approval where
  "shown_item \<equiv> fresh_approval nat_text 10 0 ''1'' ''agent'' ''tool:edit'' (replicate 32 (CHR 0x00)) ''{}''"

abbreviation (input) shown_gate :: "status \<Rightarrow> (string, nat) hmap \<Rightarrow> (string, string \<times> string) hmap \<Rightarrow> gate" where
  "shown_gate st ws rs \<equiv>
     \<lparr>gt_store = \<lparr>as_ttl = 10, as_items = [(''ap_1'', shown_item\<lparr>ap_status := st\<rparr>)], as_waiters = ws\<rparr>,
      gt_requests = rs, gt_grants = no_grants, gt_log = []\<rparr>"

abbreviation (input) shown_start :: gate_sys where
  "shown_start \<equiv> \<lparr>sys_gate = \<lparr>gt_store = new_store 10, gt_requests = [], gt_grants = no_grants, gt_log = []\<rparr>, sys_mail = []\<rparr>"

abbreviation (input) shown_over :: gate where
  "shown_over \<equiv> \<lparr>gt_store = \<lparr>as_ttl = 10, as_items = [], as_waiters = []\<rparr>,
     gt_requests = [], gt_grants = no_grants, gt_log = []\<rparr>"

lemmas shown_defs = fresh_approval_def hm_get_def hm_insert_def hm_remove_def Let_def

lemma shown_ask:
  "request_approval nat_text 0 ''1'' 7 ''tool'' ''edit'' ''{}'' (Some ''c'') (sys_gate shown_start) =
     Some (\<lparr>pa_request_id = ''ap_1'', pa_decision = 7\<rparr>, shown_gate Pending [(''ap_1'', 7)] [(''ap_1'', ''c'', ''edit'')])"
  by (simp add: request_approval_def request_def prune_def evict.simps MAX_KEPT_def new_store_def hm_retain_def await_def
      ms_def shown_defs)

lemma shown_approve:
  "approve \<lparr>apv_id = ''ap_1'', apv_remember = None, apv_minutes = None, apv_feedback = None\<rparr> 1
     (shown_gate Pending [(''ap_1'', 7)] [(''ap_1'', ''c'', ''edit'')]) =
   (Inr (shown_item\<lparr>ap_status := Approved\<rparr>, None), Some (7, \<lparr>dec_approved = True, dec_feedback = None\<rparr>),
    shown_gate Approved [] [(''ap_1'', ''c'', ''edit'')])"
  by (simp add: approve_def approve_grant_def log_grant_def decide_def ms_def shown_defs)

lemma shown_wait:
  "wait_approval (Answered \<lparr>dec_approved = True, dec_feedback = None\<rparr>) \<lparr>pa_request_id = ''ap_1'', pa_decision = 7\<rparr>
     (shown_gate Approved [] [(''ap_1'', ''c'', ''edit'')]) = (Inr (), shown_gate Approved [] [])"
  by (simp add: wait_approval_def wait_outcome_def forget_def shown_defs)

lemma shown_run:
  "runs (gate_step nat_text) shown_start
     ([] @ Ended ''ap_1'' 7 True # [Owner 0 ''ap_1'' True (shown_item\<lparr>ap_status := Approved\<rparr>), Asked 0 shown_item 7])
     \<lparr>sys_gate = shown_gate Approved [] [], sys_mail = [(7, \<lparr>dec_approved = True, dec_feedback = None\<rparr>)]\<rparr>"
proof -
  let ?s1 = "\<lparr>sys_gate = shown_gate Pending [(''ap_1'', 7)] [(''ap_1'', ''c'', ''edit'')], sys_mail = []\<rparr>"
  let ?s2 = "\<lparr>sys_gate = shown_gate Approved [] [(''ap_1'', ''c'', ''edit'')],
    sys_mail = [(7, \<lparr>dec_approved = True, dec_feedback = None\<rparr>)]\<rparr>"
  have "gate_step nat_text [] shown_start (Asked (ms 0) shown_item 7) ?s1"
    using gs_ask [OF shown_ask, of "shown_item" "[]"] by (simp add: shown_defs waits_for_def)
  from runs_step [where step = "gate_step nat_text", OF runs_start this]
  have 1: "runs (gate_step nat_text) shown_start [Asked 0 shown_item 7] ?s1" by (simp add: ms_def)
  have "gate_step nat_text [Asked 0 shown_item 7] ?s1 (Owner (ms 1) ''ap_1'' True (shown_item\<lparr>ap_status := Approved\<rparr>)) ?s2"
    using gs_approve [where p = "\<lparr>apv_id = ''ap_1'', apv_remember = None, apv_minutes = None, apv_feedback = None\<rparr>"
        and now = 1 and s = ?s1, simplified, OF shown_approve [simplified]]
    by (simp add: deliver_def shown_defs)
  from runs_step [where step = "gate_step nat_text", OF 1 this]
  have 2: "runs (gate_step nat_text) shown_start
      [Owner 0 ''ap_1'' True (shown_item\<lparr>ap_status := Approved\<rparr>), Asked 0 shown_item 7] ?s2" by (simp add: ms_def)
  have "gate_step nat_text [Owner 0 ''ap_1'' True (shown_item\<lparr>ap_status := Approved\<rparr>), Asked 0 shown_item 7] ?s2
      (Ended ''ap_1'' 7 True) \<lparr>sys_gate = shown_gate Approved [] [], sys_mail = [(7, \<lparr>dec_approved = True, dec_feedback = None\<rparr>)]\<rparr>"
    using gs_answered [where s = ?s2 and i = "''ap_1''" and w = 7 and r = "Inr ()", simplified, OF _ _ shown_wait [simplified]]
    by (simp add: waits_for_def shown_defs)
  from runs_step [where step = "gate_step nat_text", OF 2 this] show ?thesis by simp
qed

theorem tool_runs_only_if_approved_witness:
  "\<exists>u b. Owner u ''ap_1'' True b \<in> set [Owner 0 ''ap_1'' True (shown_item\<lparr>ap_status := Approved\<rparr>), Asked 0 shown_item 7] \<and>
     ap_target b = ''{}''"
  using tool_runs_only_if_approved [OF _ _ shown_run, of 10] by (fastforce simp: fresh_approval_def)

theorem late_answer_refused_witness:
  "\<exists>e. approve \<lparr>apv_id = ''ap_1'', apv_remember = Some ''chat'', apv_minutes = None, apv_feedback = None\<rparr> 5
     shown_over =
     (Inl e, None, shown_over)"
  using late_answer_refused [of "\<lparr>pa_request_id = ''ap_1'', pa_decision = 7\<rparr>" "shown_gate Pending [(''ap_1'', 7)] [(''ap_1'', ''c'', ''edit'')]"
      "Inl timeout_reason" shown_over
      "\<lparr>apv_id = ''ap_1'', apv_remember = Some ''chat'', apv_minutes = None, apv_feedback = None\<rparr>" 5]
  by (simp add: wait_approval_def wait_outcome_def forget_def shown_defs)

theorem failed_approve_still_grants_witness:
  "\<exists>e ga'. approve \<lparr>apv_id = ''ap_1'', apv_remember = Some ''chat'', apv_minutes = None, apv_feedback = None\<rparr> 5
     (shown_gate Rejected [] [(''ap_1'', ''c'', ''edit'')]) = (Inl e, None, ga') \<and> fst (granted (Some ''c'') ''edit'' 6 ga')"
  using failed_approve_still_grants [of "\<lparr>apv_id = ''ap_1'', apv_remember = Some ''chat'', apv_minutes = None, apv_feedback = None\<rparr>"
      "shown_gate Rejected [] [(''ap_1'', ''c'', ''edit'')]" "''c''" "''edit''" "shown_item\<lparr>ap_status := Rejected\<rparr>" 5]
  by (simp add: ms_def shown_defs) blast

end
