(* ===== verification/Line_Diff.thy ===== *)
theory Line_Diff
  imports Prelude
begin

text \<open>
  cmd/src/agent/line_diff.rs: the line diff the agent shows for a file change. An operation is a
  kind (blank: kept, \<open>-\<close>: removed, \<open>+\<close>: added) and a line. The table of the longest common
  subsequence is the flat vector of the source, filled from its end.
\<close>

definition CONTEXT :: nat where "CONTEXT = 2"
definition MAX_PAIRS :: nat where "MAX_PAIRS = 4000000"

type_synonym diff_op = "char \<times> string"

definition same_kind :: char where "same_kind = CHR '' ''"
definition old_kind :: char where "old_kind = CHR ''-''"
definition new_kind :: char where "new_kind = CHR ''+''"

lemmas kind_defs = same_kind_def old_kind_def new_kind_def

text \<open>\<open>str::lines\<close>: a line ends at a line feed, with the carriage return before it; a last line without one keeps its own.\<close>

definition chomp :: "string \<Rightarrow> string" where
  "chomp l = (case strip_suffix [CHR 0x0D] l of Some x \<Rightarrow> x | None \<Rightarrow> l)"

definition lines_of :: "string \<Rightarrow> string list" where
  "lines_of s = (let ps = split_on (\<lambda>c. c = CHR 0x0A) s in map chomp (butlast ps) @ (if last ps = [] then [] else [last ps]))"

section \<open>The longest common subsequence by table\<close>

definition cell :: "string list \<Rightarrow> nat \<Rightarrow> nat \<Rightarrow> nat" where
  "cell b i j = i * (length b + 1) + j"

definition fill_cell :: "string list \<Rightarrow> string list \<Rightarrow> nat \<Rightarrow> nat list \<Rightarrow> nat \<Rightarrow> nat list" where
  "fill_cell a b i tbl j =
     tbl[cell b i j :=
       (if a ! i = b ! j then tbl ! cell b (i + 1) (j + 1) + 1
        else max (tbl ! cell b (i + 1) j) (tbl ! cell b i (j + 1)))]"

definition fill_row :: "string list \<Rightarrow> string list \<Rightarrow> nat list \<Rightarrow> nat \<Rightarrow> nat list" where
  "fill_row a b tbl i = foldl (fill_cell a b i) tbl (rev [0..<length b])"

definition lcs_table :: "string list \<Rightarrow> string list \<Rightarrow> nat list" where
  "lcs_table a b = foldl (fill_row a b) (replicate ((length a + 1) * (length b + 1)) 0) (rev [0..<length a])"

text \<open>The \<open>while\<close> loop that reads the operations off the table.\<close>

function walk :: "nat list \<Rightarrow> string list \<Rightarrow> string list \<Rightarrow> nat \<Rightarrow> nat \<Rightarrow> diff_op list" where
  "walk tbl a b i j =
     (if i < length a \<and> j < length b
      then if a ! i = b ! j then (same_kind, a ! i) # walk tbl a b (i + 1) (j + 1)
           else if tbl ! cell b (i + 1) j \<ge> tbl ! cell b i (j + 1)
           then (old_kind, a ! i) # walk tbl a b (i + 1) j
           else (new_kind, b ! j) # walk tbl a b i (j + 1)
      else map (Pair old_kind) (drop i a) @ map (Pair new_kind) (drop j b))"
  by pat_completeness auto
termination
  by (relation "measure (\<lambda>(tbl, a, b, i, j). (length a - i) + (length b - j))") auto

declare walk.simps [simp del]

definition common_ops :: "string list \<Rightarrow> string list \<Rightarrow> diff_op list" where
  "common_ops a b = walk (lcs_table a b) a b 0 0"

definition same_count :: "'a list \<Rightarrow> 'a list \<Rightarrow> nat" where
  "same_count a b = length (takeWhile (\<lambda>(x, y). x = y) (zip a b))"

definition diff_ops :: "string \<Rightarrow> string \<Rightarrow> diff_op list" where
  "diff_ops old new =
     (let a = lines_of old; b = lines_of new;
          head = same_count a b;
          tail = same_count (rev (drop head a)) (rev (drop head b));
          old_mid = take (length a - tail - head) (drop head a);
          new_mid = take (length b - tail - head) (drop head b)
      in map (Pair same_kind) (take head a) @
         (if length old_mid * length new_mid \<le> MAX_PAIRS then common_ops old_mid new_mid
          else map (Pair old_kind) old_mid @ map (Pair new_kind) new_mid) @
         map (Pair same_kind) (drop (length a - tail) a))"

definition diff_count :: "string \<Rightarrow> string \<Rightarrow> nat \<times> nat" where
  "diff_count old new =
     (let ops = diff_ops old new; of_kind = (\<lambda>kind. length (filter (\<lambda>(k, _). k = kind) ops))
      in (of_kind new_kind, of_kind old_kind))"

section \<open>What is shown\<close>

definition fold_text :: "nat \<Rightarrow> string" where
  "fold_text n = '' '' @ '' '' @ [CHR 0xE2, CHR 0x8B, CHR 0xAF] @ '' '' @ nat_text n @ '' unchanged line'' @ (if n = 1 then '''' else ''s'')"

definition changed_at :: "diff_op list \<Rightarrow> nat list" where
  "changed_at ops = filter (\<lambda>i. fst (ops ! i) \<noteq> same_kind) [0..<length ops]"

definition near :: "nat list \<Rightarrow> nat \<Rightarrow> bool" where
  "near changed i \<longleftrightarrow> list_ex (\<lambda>c. (if c \<ge> i then c - i else i - c) \<le> CONTEXT) changed"

definition flush :: "nat \<Rightarrow> string list" where
  "flush skipped = (if skipped > 0 then [fold_text skipped] else [])"

fun show_rows :: "nat list \<Rightarrow> nat \<Rightarrow> (nat \<times> diff_op) list \<Rightarrow> string list" where
  "show_rows changed skipped [] = flush skipped"
| "show_rows changed skipped ((i, kind, line) # ops) =
     (if kind = same_kind \<and> \<not> near changed i then show_rows changed (skipped + 1) ops
      else flush skipped @ ([kind, CHR '' ''] @ line) # show_rows changed 0 ops)"

fun join_lines :: "string list \<Rightarrow> string" where
  "join_lines [] = []"
| "join_lines [r] = r"
| "join_lines (r # rs) = r @ CHR 0x0A # join_lines rs"

definition diff_lines :: "string \<Rightarrow> string \<Rightarrow> string" where
  "diff_lines old new =
     (let ops = diff_ops old new; changed = changed_at ops
      in if changed = [] then ''(no change)'' else join_lines (show_rows changed 0 (enumerate 0 ops)))"

section \<open>Edit scripts\<close>

text \<open>The file before and the file after, as a script tells them, and how many lines it keeps.\<close>

definition before :: "diff_op list \<Rightarrow> string list" where
  "before ops = map snd (filter (\<lambda>(k, _). k \<noteq> new_kind) ops)"

definition after :: "diff_op list \<Rightarrow> string list" where
  "after ops = map snd (filter (\<lambda>(k, _). k \<noteq> old_kind) ops)"

definition kept :: "diff_op list \<Rightarrow> string list" where
  "kept ops = map snd (filter (\<lambda>(k, _). k = same_kind) ops)"

definition script :: "diff_op list \<Rightarrow> bool" where
  "script ops \<longleftrightarrow> fst ` set ops \<subseteq> {same_kind, old_kind, new_kind}"

definition changes :: "diff_op list \<Rightarrow> nat" where
  "changes ops = length (filter (\<lambda>(k, _). k \<noteq> same_kind) ops)"

lemma kinds_differ [simp]: "same_kind \<noteq> old_kind" "same_kind \<noteq> new_kind" "old_kind \<noteq> new_kind"
  "old_kind \<noteq> same_kind" "new_kind \<noteq> same_kind" "new_kind \<noteq> old_kind"
  by (simp_all add: kind_defs)

lemma script_simps [simp]:
  "before [] = []" "after [] = []" "kept [] = []" "script []" "changes [] = 0"
  "before ((k, l) # ops) = (if k = new_kind then before ops else l # before ops)"
  "after ((k, l) # ops) = (if k = old_kind then after ops else l # after ops)"
  "kept ((k, l) # ops) = (if k = same_kind then l # kept ops else kept ops)"
  "script ((k, l) # ops) \<longleftrightarrow> k \<in> {same_kind, old_kind, new_kind} \<and> script ops"
  "changes ((k, l) # ops) = (if k = same_kind then changes ops else Suc (changes ops))"
  "before (xs @ ys) = before xs @ before ys" "after (xs @ ys) = after xs @ after ys"
  "kept (xs @ ys) = kept xs @ kept ys" "script (xs @ ys) \<longleftrightarrow> script xs \<and> script ys"
  "before (map (Pair same_kind) ls) = ls" "before (map (Pair old_kind) ls) = ls" "before (map (Pair new_kind) ls) = []"
  "after (map (Pair same_kind) ls) = ls" "after (map (Pair old_kind) ls) = []" "after (map (Pair new_kind) ls) = ls"
  "kept (map (Pair same_kind) ls) = ls" "kept (map (Pair old_kind) ls) = []" "kept (map (Pair new_kind) ls) = []"
  "script (map (Pair same_kind) ls)" "script (map (Pair old_kind) ls)" "script (map (Pair new_kind) ls)"
  by (auto simp: before_def after_def kept_def script_def changes_def filter_map comp_def)

text \<open>What a script changes is fixed by what it keeps.\<close>

lemma changes_kept: "script ops \<Longrightarrow> changes ops + 2 * length (kept ops) = length (before ops) + length (after ops)"
  by (induction ops) auto

lemma kept_subseq: "script ops \<Longrightarrow> subseq (kept ops) (before ops) \<and> subseq (kept ops) (after ops)"
  by (induction ops) auto

section \<open>The table holds the lengths\<close>

fun lcs :: "'a list \<Rightarrow> 'a list \<Rightarrow> nat" where
  "lcs [] ys = 0"
| "lcs xs [] = 0"
| "lcs (x # xs) (y # ys) = (if x = y then lcs xs ys + 1 else max (lcs xs (y # ys)) (lcs (x # xs) ys))"

lemma lcs_Nil2 [simp]: "lcs xs [] = 0"
  by (cases xs) simp_all

lemma lcs_drop:
  "i < length a \<Longrightarrow> j < length b \<Longrightarrow> lcs (drop i a) (drop j b) =
     (if a ! i = b ! j then lcs (drop (i + 1) a) (drop (j + 1) b) + 1
      else max (lcs (drop (i + 1) a) (drop j b)) (lcs (drop i a) (drop (j + 1) b)))"
  by (simp add: Cons_nth_drop_Suc [symmetric])

lemma cell_eq: "j \<le> length b \<Longrightarrow> j' \<le> length b \<Longrightarrow> cell b i j = cell b i' j' \<longleftrightarrow> i = i' \<and> j = j'"
  unfolding cell_def by (metis add_right_cancel div_mult_self3 div_less add_0 less_add_one mod_less mod_mult_self3 le_imp_less_Suc Suc_eq_plus1 add_is_0 zero_neq_one)

lemma cell_in: "i \<le> m \<Longrightarrow> j \<le> length b \<Longrightarrow> cell b i j < (m + 1) * (length b + 1)"
  using mult_le_mono1 [of i m "length b + 1"] by (simp add: cell_def)

lemma foldl_down:
  "P n s \<Longrightarrow> (\<And>k s. k < n \<Longrightarrow> P (Suc k) s \<Longrightarrow> P k (f s k)) \<Longrightarrow> P 0 (foldl f s (rev [0..<n]))"
  by (induction n arbitrary: s) auto

text \<open>The table when \<open>(i, j)\<close> was the last cell written: filled from there on, else as it was made.\<close>

definition filled :: "string list \<Rightarrow> string list \<Rightarrow> nat \<Rightarrow> nat \<Rightarrow> nat list \<Rightarrow> bool" where
  "filled a b i j tbl \<longleftrightarrow>
     length tbl = (length a + 1) * (length b + 1) \<and>
     (\<forall>i' j'. i' \<le> length a \<longrightarrow> j' \<le> length b \<longrightarrow>
        tbl ! cell b i' j' = (if i < i' \<or> i' = i \<and> j \<le> j' then lcs (drop i' a) (drop j' b) else 0))"

lemma filledD:
  assumes "filled a b i j tbl"
  shows "length tbl = (length a + 1) * (length b + 1)"
    and "\<And>i' j'. i' \<le> length a \<Longrightarrow> j' \<le> length b \<Longrightarrow>
      tbl ! cell b i' j' = (if i < i' \<or> i' = i \<and> j \<le> j' then lcs (drop i' a) (drop j' b) else 0)"
  using assms by (auto simp: filled_def)

lemma filled_cell:
  assumes "i < length a" and "j < length b" and f: "filled a b i (Suc j) tbl"
  shows "filled a b i j (fill_cell a b i tbl j)"
proof -
  note vals = filledD(2) [OF f] and len = filledD(1) [OF f]
  have new: "fill_cell a b i tbl j = tbl[cell b i j := lcs (drop i a) (drop j b)]"
    using vals [of "i + 1" "j + 1"] vals [of "i + 1" j] vals [of i "j + 1"] assms(1,2)
    by (simp add: fill_cell_def lcs_drop)
  have "tbl[cell b i j := lcs (drop i a) (drop j b)] ! cell b i' j' =
      (if i < i' \<or> i' = i \<and> j \<le> j' then lcs (drop i' a) (drop j' b) else 0)"
    if "i' \<le> length a" "j' \<le> length b" for i' j'
  proof (cases "i' = i \<and> j' = j")
    case True
    then show ?thesis using cell_in [of i "length a" j b] assms(1,2) len by simp
  next
    case False
    then have "cell b i j \<noteq> cell b i' j'" using cell_eq [of j b j' i i'] assms(2) that(2) by auto
    with vals [OF that] False show ?thesis by auto
  qed
  then show ?thesis using len unfolding new filled_def by simp
qed

lemma filled_row:
  assumes "i < length a" and f: "filled a b (Suc i) 0 tbl"
  shows "filled a b i 0 (fill_row a b tbl i)"
  unfolding fill_row_def
proof (rule foldl_down)
  have "tbl ! cell b i' j' = (if i < i' \<or> i' = i \<and> length b \<le> j' then lcs (drop i' a) (drop j' b) else 0)"
    if "i' \<le> length a" "j' \<le> length b" for i' j'
    using filledD(2) [OF f that] that by (cases "i' = i") auto
  then show "filled a b i (length b) tbl" using filledD(1) [OF f] unfolding filled_def by simp
qed (rule filled_cell [OF assms(1)])

lemma table_filled: "filled a b 0 0 (lcs_table a b)"
  unfolding lcs_table_def
proof (rule foldl_down [where P = "\<lambda>i tbl. filled a b i 0 tbl"])
  have "replicate ((length a + 1) * (length b + 1)) 0 ! cell b i' j' = (0 :: nat)"
    if "i' \<le> length a" "j' \<le> length b" for i' j'
    by (rule nth_replicate) (rule cell_in [OF that])
  then show "filled a b (length a) 0 (replicate ((length a + 1) * (length b + 1)) 0)"
    unfolding filled_def by auto
qed (rule filled_row)

lemma table_is_lcs:
  "i \<le> length a \<Longrightarrow> j \<le> length b \<Longrightarrow> lcs_table a b ! cell b i j = lcs (drop i a) (drop j b)"
  using filledD(2) [OF table_filled] by (cases "i = 0") auto

text \<open>The walk along a filled table.\<close>

lemma walk_script:
  "script (walk tbl a b i j) \<and> before (walk tbl a b i j) = drop i a \<and> after (walk tbl a b i j) = drop j b"
proof (induction tbl a b i j rule: walk.induct)
  case (1 tbl a b i j)
  show ?case
  proof (cases "i < length a \<and> j < length b")
    case True
    then have "a ! i # drop (i + 1) a = drop i a" "b ! j # drop (j + 1) b = drop j b"
      by (simp_all add: Cons_nth_drop_Suc)
    with 1 True show ?thesis by (cases "a ! i = b ! j") (auto simp: walk.simps [of tbl a b i j])
  next
    case False
    then have "walk tbl a b i j = map (Pair old_kind) (drop i a) @ map (Pair new_kind) (drop j b)"
      by (subst walk.simps) (rule if_not_P)
    then show ?thesis by simp
  qed
qed

lemma walk_kept:
  "length (kept (walk (lcs_table a b) a b i j)) = lcs (drop i a) (drop j b)"
proof (induction "lcs_table a b" a b i j rule: walk.induct)
  case (1 a b i j)
  show ?case
  proof (cases "i < length a \<and> j < length b")
    case True
    with 1 table_is_lcs [of "i + 1" a j b] table_is_lcs [of i a "j + 1" b] show ?thesis
      by (simp add: walk.simps [of _ a b i j] lcs_drop)
  next
    case False
    then show ?thesis by (auto simp: walk.simps [of _ a b i j])
  qed
qed

lemma common_ops_script:
  "script (common_ops a b)" "before (common_ops a b) = a" "after (common_ops a b) = b"
  "length (kept (common_ops a b)) = lcs a b"
  using walk_script [of "lcs_table a b" a b 0 0] walk_kept [of a b 0 0] by (simp_all add: common_ops_def)

section \<open>A longest common subsequence\<close>

lemma lcs_bound: "subseq zs xs \<Longrightarrow> subseq zs ys \<Longrightarrow> length zs \<le> lcs xs ys"
proof (induction xs ys arbitrary: zs rule: lcs.induct)
  case (3 x xs y ys)
  show ?case
  proof (cases zs)
    case (Cons z zs')
    show ?thesis
    proof (cases "x = y")
      case True
      have "subseq zs' xs" "subseq zs' ys"
        using "3.prems" Cons by (auto simp: subseq_Cons2_iff split: if_splits dest: subseq_Cons')
      with "3.IH"(1) True Cons show ?thesis by fastforce
    next
      case False
      have "subseq zs xs \<or> subseq zs ys"
        using "3.prems" False Cons by (auto simp: subseq_Cons2_iff split: if_splits)
      with "3.IH"(2,3) "3.prems" False show ?thesis by fastforce
    qed
  qed simp
qed simp_all

lemma lcs_witness: "\<exists>zs. subseq zs xs \<and> subseq zs ys \<and> length zs = lcs xs ys"
proof (induction xs ys rule: lcs.induct)
  case (3 x xs y ys)
  show ?case
  proof (cases "x = y")
    case True
    with "3.IH"(1) obtain zs where "subseq zs xs" "subseq zs ys" "length zs = lcs xs ys" by blast
    with True show ?thesis by (intro exI [of _ "x # zs"]) auto
  next
    case False
    show ?thesis
    proof (cases "lcs xs (y # ys) \<ge> lcs (x # xs) ys")
      case True
      with "3.IH"(2) False show ?thesis by (auto intro: list_emb_Cons simp: max_absorb1)
    next
      case f: False
      with "3.IH"(3) False show ?thesis by (auto intro: list_emb_Cons simp: max_absorb2)
    qed
  qed
qed auto

lemma subseq_butlast: "subseq zs (xs @ [c]) \<Longrightarrow> subseq (butlast zs) xs"
proof -
  assume "subseq zs (xs @ [c])"
  then obtain us vs where zs: "zs = us @ vs" and us: "subseq us xs" and vs: "subseq vs [c]" by (auto simp: subseq_append_iff)
  from vs have "vs = [] \<or> vs = [c]" by (cases vs) (auto simp: subseq_Cons2_iff split: if_splits)
  then show ?thesis
  proof
    assume "vs = []"
    have "subseq (butlast us) us" by (simp add: butlast_conv_take sublist_imp_subseq sublist_take)
    with us zs \<open>vs = []\<close> show ?thesis by (auto intro: subseq_order.trans)
  qed (use us zs in simp)
qed

lemma lcs_around: "lcs (p @ xs @ s) (p @ ys @ s) \<le> length p + lcs xs ys + length s"
proof -
  have front: "lcs (p @ us) (p @ vs) = length p + lcs us vs" for us vs :: "'a list"
    by (induction p) auto
  have "lcs (xs @ s) (ys @ s) \<le> lcs xs ys + length s"
  proof (induction s rule: rev_induct)
    case (snoc c s)
    obtain zs where zs: "subseq zs ((xs @ s) @ [c])" "subseq zs ((ys @ s) @ [c])"
      "length zs = lcs ((xs @ s) @ [c]) ((ys @ s) @ [c])"
      using lcs_witness by blast
    from zs have "length (butlast zs) \<le> lcs (xs @ s) (ys @ s)" by (blast intro: lcs_bound subseq_butlast)
    with snoc zs(3) show ?case by simp
  qed simp
  with front show ?thesis by simp
qed

section \<open>The diff of two files\<close>

lemma same_count_le: "same_count a b \<le> length a" "same_count a b \<le> length b"
  using length_takeWhile_le [of "\<lambda>(x, y). x = y" "zip a b"] by (simp_all add: same_count_def)

lemma same_count_take: "take (same_count a b) a = take (same_count a b) b"
proof (rule nth_equalityI)
  fix i
  assume "i < length (take (same_count a b) a)"
  then have i: "i < length (takeWhile (\<lambda>(x, y). x = y) (zip a b))" by (simp add: same_count_def)
  with nth_mem [OF i] takeWhile_nth [OF i] have "case zip a b ! i of (x, y) \<Rightarrow> x = y"
    by (metis (no_types, lifting) set_takeWhileD)
  with i same_count_le [of a b] show "take (same_count a b) a ! i = take (same_count a b) b ! i"
    by (auto simp: same_count_def)
qed (use same_count_le [of a b] in simp)

text \<open>Both files are a common start, a middle and a common end.\<close>

lemma trimmed:
  fixes a b :: "'a list"
  defines "h \<equiv> same_count a b"
  defines "t \<equiv> same_count (rev (drop h a)) (rev (drop h b))"
  shows "a = take h a @ take (length a - t - h) (drop h a) @ drop (length a - t) a"
    and "b = take h a @ take (length b - t - h) (drop h b) @ drop (length a - t) a"
proof -
  have t: "t \<le> length a - h" "t \<le> length b - h"
    using same_count_le [of "rev (drop h a)" "rev (drop h b)"] by (simp_all add: t_def)
  have h: "h \<le> length a" "h \<le> length b" using same_count_le [of a b] by (simp_all add: h_def)
  have "take t (rev (drop h a)) = take t (rev (drop h b))" unfolding t_def by (rule same_count_take)
  then have "drop (length a - h - t) (drop h a) = drop (length b - h - t) (drop h b)"
    by (simp only: take_rev rev_is_rev_conv length_drop)
  moreover have "length a - h - t + h = length a - t" "length b - h - t + h = length b - t" using t h by simp_all
  ultimately have tails: "drop (length a - t) a = drop (length b - t) b" by (metis drop_drop)
  have heads: "take h a = take h b" using same_count_take [of a b] by (simp add: h_def)
  have parts: "xs = take h xs @ take (length xs - t - h) (drop h xs) @ drop (length xs - t) xs"
    if "t \<le> length xs - h" "h \<le> length xs" for xs :: "'a list"
  proof -
    have "length xs - t - h + h = length xs - t" using that by simp
    then have "drop (length xs - t - h) (drop h xs) = drop (length xs - t) xs" by (simp only: drop_drop)
    then show ?thesis using append_take_drop_id [of "length xs - t - h" "drop h xs"] append_take_drop_id [of h xs] by simp
  qed
  show "a = take h a @ take (length a - t - h) (drop h a) @ drop (length a - t) a"
    by (rule parts) (use t h in simp_all)
  show "b = take h a @ take (length b - t - h) (drop h b) @ drop (length a - t) a"
    unfolding heads tails by (rule parts) (use t h in simp_all)
qed

lemma diff_ops_parts:
  obtains p x y s where "lines_of old = p @ x @ s" "lines_of new = p @ y @ s"
    "diff_ops old new = map (Pair same_kind) p @
       (if length x * length y \<le> MAX_PAIRS then common_ops x y else map (Pair old_kind) x @ map (Pair new_kind) y) @
       map (Pair same_kind) s"
proof -
  let ?a = "lines_of old" and ?b = "lines_of new"
  let ?h = "same_count ?a ?b"
  let ?t = "same_count (rev (drop ?h ?a)) (rev (drop ?h ?b))"
  show thesis
    by (rule that [of "take ?h ?a" "take (length ?a - ?t - ?h) (drop ?h ?a)" "drop (length ?a - ?t) ?a"
          "take (length ?b - ?t - ?h) (drop ?h ?b)"])
      (rule trimmed(1), rule trimmed(2), simp only: diff_ops_def Let_def)
qed

lemma diff_ops_script:
  "script (diff_ops old new)" "before (diff_ops old new) = lines_of old" "after (diff_ops old new) = lines_of new"
proof -
  obtain p x y s where "lines_of old = p @ x @ s" "lines_of new = p @ y @ s"
    "diff_ops old new = map (Pair same_kind) p @
       (if length x * length y \<le> MAX_PAIRS then common_ops x y else map (Pair old_kind) x @ map (Pair new_kind) y) @
       map (Pair same_kind) s" by (rule diff_ops_parts)
  then show "script (diff_ops old new)" "before (diff_ops old new) = lines_of old" "after (diff_ops old new) = lines_of new"
    by (simp_all add: common_ops_script)
qed

lemma kind_counts:
  assumes "script ops"
  shows "length (filter (\<lambda>(k, _). k = new_kind) ops) + length (filter (\<lambda>(k, _). k = old_kind) ops) = changes ops"
    and "length (filter (\<lambda>(k, _). k = new_kind) ops) + length (before ops) =
      length (filter (\<lambda>(k, _). k = old_kind) ops) + length (after ops)"
  using assms by (induction ops) auto

lemma changed_none: "changed_at ops = [] \<longleftrightarrow> changes ops = 0"
proof -
  have "changed_at ops = [] \<longleftrightarrow> (\<forall>i < length ops. fst (ops ! i) = same_kind)"
    by (auto simp: changed_at_def filter_empty_conv)
  also have "\<dots> \<longleftrightarrow> (\<forall>op \<in> set ops. fst op = same_kind)" by (simp add: all_set_conv_all_nth)
  finally show ?thesis by (auto simp: changes_def filter_empty_conv)
qed

lemma same_count_self: "same_count a a = length a"
proof -
  have "takeWhile (\<lambda>(x, y). x = y) (zip a a) = zip a a" by (induction a) auto
  then have "length (takeWhile (\<lambda>(x, y). x = y) (zip a a)) = length (zip a a)" by (rule arg_cong)
  then show ?thesis by (simp add: same_count_def)
qed

lemma diff_ops_same: "lines_of old = lines_of new \<Longrightarrow> diff_ops old new = map (Pair same_kind) (lines_of old)"
  by (simp add: diff_ops_def same_count_self Let_def common_ops_def walk.simps)

lemma changes_0: "script ops \<Longrightarrow> changes ops = 0 \<Longrightarrow> before ops = after ops"
  by (induction ops) (auto split: if_splits)

lemma row_start:
  assumes "script (map snd ops)" and "ops \<noteq> []"
  shows "\<exists>c r. hd (show_rows changed n ops) = c # r \<and> c \<in> {same_kind, old_kind, new_kind} \<and> show_rows changed n ops \<noteq> []"
  using assms
proof (induction changed n ops rule: show_rows.induct)
  case (2 changed skipped i kind line ops)
  then show ?case
    by (cases ops) (auto simp: flush_def fold_text_def kind_defs)
qed simp

lemma join_lines_hd: "rs \<noteq> [] \<Longrightarrow> hd rs = c # r \<Longrightarrow> hd (join_lines rs) = c \<and> join_lines rs \<noteq> []"
  by (induction rs rule: join_lines.induct) auto

text \<open>
  The diff is an edit script from the old file to the new one: its kept and removed lines are the old lines in
  order, its kept and added lines the new ones, with the added and removed lines counted as shown. Nothing is
  said to have changed exactly when both files have the same lines, whatever their line breaks.
\<close>

theorem diff_replays:
  "script (diff_ops old new) \<and> before (diff_ops old new) = lines_of old \<and> after (diff_ops old new) = lines_of new \<and>
   (case diff_count old new of (added, removed) \<Rightarrow>
      added + removed = changes (diff_ops old new) \<and> added + length (lines_of old) = removed + length (lines_of new)) \<and>
   (diff_lines old new = ''(no change)'' \<longleftrightarrow> lines_of old = lines_of new)"
proof -
  note S = diff_ops_script [of old new]
  have "diff_lines old new \<noteq> ''(no change)''" if "lines_of old \<noteq> lines_of new"
  proof -
    have c: "changes (diff_ops old new) \<noteq> 0" using changes_0 [OF S(1)] S(2,3) that by auto
    then have "diff_ops old new \<noteq> []" by auto
    with row_start [of "enumerate 0 (diff_ops old new)" "changed_at (diff_ops old new)" 0] S(1)
    obtain k r where k: "k \<in> {same_kind, old_kind, new_kind}"
      and "hd (show_rows (changed_at (diff_ops old new)) 0 (enumerate 0 (diff_ops old new))) = k # r"
      "show_rows (changed_at (diff_ops old new)) 0 (enumerate 0 (diff_ops old new)) \<noteq> []"
      by (auto simp: enumerate_eq_zip)
    with join_lines_hd c have "hd (diff_lines old new) = k" by (simp add: diff_lines_def Let_def changed_none)
    with k show ?thesis by (auto simp: kind_defs)
  qed
  moreover have "diff_lines old new = ''(no change)''" if "lines_of old = lines_of new"
  proof -
    have "changes (diff_ops old new) = 0" unfolding diff_ops_same [OF that] by (simp add: changes_def)
    then show ?thesis by (simp add: diff_lines_def Let_def changed_none)
  qed
  ultimately show ?thesis
    using S kind_counts [OF S(1)] by (auto simp: diff_count_def Let_def)
qed

text \<open>
  C24. No edit script is shorter: while the table is small enough, the diff adds and removes as few lines as any
  script from the old file to the new one.
\<close>

theorem diff_is_shortest:
  assumes "length (lines_of old) * length (lines_of new) \<le> MAX_PAIRS"
    and "script ops" and "before ops = lines_of old" and "after ops = lines_of new"
  shows "changes (diff_ops old new) \<le> changes ops"
proof -
  obtain p x y s where f: "lines_of old = p @ x @ s" "lines_of new = p @ y @ s"
    and ops: "diff_ops old new = map (Pair same_kind) p @
       (if length x * length y \<le> MAX_PAIRS then common_ops x y else map (Pair old_kind) x @ map (Pair new_kind) y) @
       map (Pair same_kind) s" by (rule diff_ops_parts)
  have "length x * length y \<le> length (lines_of old) * length (lines_of new)" unfolding f by (intro mult_le_mono) simp_all
  with assms(1) ops have "length (kept (diff_ops old new)) = length p + lcs x y + length s" by (simp add: common_ops_script)
  moreover have "length (kept ops) \<le> length p + lcs x y + length s"
    using kept_subseq [OF assms(2)] lcs_bound [of "kept ops" "lines_of old" "lines_of new"] lcs_around [of p x s y] assms(3,4)
    by (simp add: f)
  ultimately show ?thesis
    using changes_kept [OF assms(2)] changes_kept [OF diff_ops_script(1), of old new] diff_ops_script(2,3) [of old new] assms(3,4)
    by simp
qed

theorem diff_is_shortest_witness:
  "changes (diff_ops ''a'' (''a'' @ [CHR 0x0A] @ ''b'')) \<le> changes [(same_kind, ''a''), (new_kind, ''b'')]"
  by (rule diff_is_shortest) (simp_all add: lines_of_def chomp_def strip_suffix_def suffix_def MAX_PAIRS_def)

end
