(* ===== verification/Checkpoints.thy ===== *)
theory Checkpoints
  imports Line_Diff
begin

text \<open>
  cmd/src/agent/checkpoints.rs: what each request of the agent changed, and how \<open>/undo\<close> and \<open>/rewind\<close>
  put it back. The disk is the map of the files' contents (bytes), the files whose writing or removal
  fails, and the saved checkpoint folders of the conversation by number, each the record in
  \<open>checkpoint.json\<close> with its \<open>.bak\<close> files. \<open>shown\<close> is how a path is shown, \<open>lossy\<close> is
  \<open>String::from_utf8_lossy\<close> and \<open>io\<close> the system's error text.
\<close>

definition KEEP :: nat where "KEEP = 50"
definition MAX_FILE_BYTES :: nat where "MAX_FILE_BYTES = 10 * 1024 * 1024"
definition KEEP_DAYS :: nat where "KEEP_DAYS = 30"

record saved_file =
  sf_path :: string
  sf_backup :: "string option"

record checkpoint =
  ck_number :: nat
  ck_title :: string
  ck_time :: string
  ck_messages_before :: nat
  ck_files :: "saved_file list"
  ck_contents :: "string option list"

text \<open>\<open>cs_dir\<close>: whether the conversation has a folder its checkpoints are saved in.\<close>

record checkpoints =
  cs_dir :: bool
  cs_current :: "(string \<times> string option) list"
  cs_too_large :: "string list"
  cs_title :: string
  cs_messages_before :: nat
  cs_done :: "checkpoint list"

record disk =
  dk_files :: "string \<Rightarrow> string option"
  dk_locked :: "string \<Rightarrow> bool"
  dk_saved :: "(nat, checkpoint \<times> (string, string) hmap) hmap"

section \<open>A request\<close>

text \<open>\<open>chars().take(n)\<close>: a UTF-8 continuation byte belongs to the character before it.\<close>

definition continuation :: "char \<Rightarrow> bool" where
  "continuation c \<longleftrightarrow> 128 \<le> (of_char c :: nat) \<and> (of_char c :: nat) < 192"

fun take_chars :: "nat \<Rightarrow> string \<Rightarrow> string" where
  "take_chars n [] = []"
| "take_chars n (c # cs) =
     (if continuation c then c # take_chars n cs
      else case n of 0 \<Rightarrow> [] | Suc m \<Rightarrow> c # take_chars m cs)"

definition begin_request :: "string \<Rightarrow> nat \<Rightarrow> checkpoints \<Rightarrow> checkpoints" where
  "begin_request request messages_before c =
     c\<lparr>cs_title := take_chars 60 (case lines_of request of [] \<Rightarrow> [] | l # _ \<Rightarrow> l), cs_messages_before := messages_before\<rparr>"

definition before_write :: "string \<Rightarrow> disk \<Rightarrow> checkpoints \<Rightarrow> checkpoints" where
  "before_write file d c =
     (if file \<in> fst ` set (cs_current c) \<or> file \<in> set (cs_too_large c) then c
      else if (case dk_files d file of Some bytes \<Rightarrow> length bytes > MAX_FILE_BYTES | None \<Rightarrow> False)
      then c\<lparr>cs_too_large := cs_too_large c @ [file]\<rparr>
      else c\<lparr>cs_current := cs_current c @ [(file, dk_files d file)]\<rparr>)"

definition minus_sign :: string where "minus_sign = [CHR 0xE2, CHR 0x88, CHR 0x92]"

definition what_changed :: "(string \<Rightarrow> string) \<Rightarrow> string option \<Rightarrow> string option \<Rightarrow> string" where
  "what_changed lossy old new =
     (case (old, new) of
        (None, Some now) \<Rightarrow> ''new, '' @ nat_text (length (lines_of (lossy now))) @ '' lines''
      | (Some _, None) \<Rightarrow> ''deleted''
      | (Some was, Some now) \<Rightarrow>
          (case diff_count (lossy was) (lossy now) of
             (added, removed) \<Rightarrow> ''+'' @ nat_text added @ '' '' @ minus_sign @ nat_text removed)
      | (None, None) \<Rightarrow> ''not created'')"

fun join_comma :: "string list \<Rightarrow> string" where
  "join_comma [] = []"
| "join_comma [r] = r"
| "join_comma (r # rs) = r @ '', '' @ join_comma rs"

definition backup_name :: "nat \<Rightarrow> string" where
  "backup_name i = nat_text i @ ''.bak''"

definition checkpoint_of :: "string \<Rightarrow> checkpoints \<Rightarrow> checkpoint" where
  "checkpoint_of time c =
     \<lparr>ck_number = (if cs_done c = [] then 1 else ck_number (last (cs_done c)) + 1),
      ck_title = cs_title c, ck_time = time, ck_messages_before = cs_messages_before c,
      ck_files = map (\<lambda>(i, path, was). \<lparr>sf_path = path, sf_backup = map_option (\<lambda>_. backup_name i) was\<rparr>) (enumerate 0 (cs_current c)),
      ck_contents = map snd (cs_current c)\<rparr>"

text \<open>The saved record has no contents (\<open>serde(skip)\<close>): they are in the backups.\<close>

definition backups_of :: "checkpoint \<Rightarrow> (string, string) hmap" where
  "backups_of ck = foldl (\<lambda>m (f, was). case (sf_backup f, was) of (Some b, Some bytes) \<Rightarrow> hm_insert b bytes m | _ \<Rightarrow> m)
     [] (zip (ck_files ck) (ck_contents ck))"

definition save_checkpoint :: "checkpoints \<Rightarrow> checkpoint \<Rightarrow> disk \<Rightarrow> disk" where
  "save_checkpoint c ck d =
     (if cs_dir c then d\<lparr>dk_saved := hm_insert (ck_number ck) (ck\<lparr>ck_contents := []\<rparr>, backups_of ck) (dk_saved d)\<rparr> else d)"

definition forget_checkpoint :: "checkpoints \<Rightarrow> checkpoint \<Rightarrow> disk \<Rightarrow> disk" where
  "forget_checkpoint c ck d = (if cs_dir c then d\<lparr>dk_saved := hm_remove (ck_number ck) (dk_saved d)\<rparr> else d)"

text \<open>The \<open>while\<close> loop that drops the oldest checkpoints.\<close>

function drop_oldest :: "checkpoints \<Rightarrow> disk \<Rightarrow> checkpoints \<times> disk" where
  "drop_oldest c d =
     (if length (cs_done c) > KEEP
      then drop_oldest (c\<lparr>cs_done := tl (cs_done c)\<rparr>) (forget_checkpoint c (hd (cs_done c)) d)
      else (c, d))"
  by pat_completeness auto
termination
  by (relation "measure (\<lambda>(c, d). length (cs_done c))") (auto simp: KEEP_def)

declare drop_oldest.simps [simp del]

definition finish_request ::
  "(string \<Rightarrow> string) \<Rightarrow> (string \<Rightarrow> string) \<Rightarrow> string \<Rightarrow> checkpoints \<Rightarrow> disk \<Rightarrow> string option \<times> checkpoints \<times> disk" where
  "finish_request shown lossy time c d =
     (if cs_current c = [] \<and> cs_too_large c = [] then (None, c\<lparr>cs_too_large := []\<rparr>, d)
      else
        let lines = map (\<lambda>(path, was). shown path @ '' ('' @ what_changed lossy was (dk_files d path) @ '')'') (cs_current c) @
              map (\<lambda>path. shown path @ '' (over 10 MB: not kept, /undo cannot restore it)'') (cs_too_large c);
            text = Some (''Changed: '' @ join_comma lines)
        in if cs_current c = [] then (text, c\<lparr>cs_too_large := []\<rparr>, d)
           else let ck = checkpoint_of time c;
                    c' = c\<lparr>cs_too_large := [], cs_current := [], cs_title := [], cs_done := cs_done c @ [ck]\<rparr>
                in (text, drop_oldest c' (save_checkpoint c ck d)))"

section \<open>Putting files back\<close>

definition restore_one ::
  "(string \<Rightarrow> string) \<Rightarrow> string \<Rightarrow> checkpoints \<Rightarrow> checkpoint \<Rightarrow> nat \<Rightarrow> saved_file \<Rightarrow> disk \<Rightarrow> string + disk" where
  "restore_one shown io c ck i f d =
     (let content = (if i < length (ck_contents ck) then ck_contents ck ! i else None);
          failed = Inl (shown (sf_path f) @ '': '' @ io);
          put = (\<lambda>bytes. if dk_locked d (sf_path f) then failed
                         else Inr (d\<lparr>dk_files := (dk_files d)(sf_path f := Some bytes)\<rparr>))
      in case (sf_backup f, content) of
        (Some _, Some bytes) \<Rightarrow> put bytes
      | (Some backup, None) \<Rightarrow>
          (case (if cs_dir c then Option.bind (hm_get (ck_number ck) (dk_saved d)) (\<lambda>(_, baks). hm_get backup baks) else None) of
             Some bytes \<Rightarrow> put bytes
           | None \<Rightarrow> Inl (shown (sf_path f) @ '': the saved copy is missing''))
      | (None, _) \<Rightarrow>
          if dk_files d (sf_path f) \<noteq> None
          then if dk_locked d (sf_path f) then failed
               else Inr (d\<lparr>dk_files := (dk_files d)(sf_path f := None)\<rparr>)
          else Inr d)"

fun restore_files ::
  "(string \<Rightarrow> string) \<Rightarrow> string \<Rightarrow> checkpoints \<Rightarrow> checkpoint \<Rightarrow> (nat \<times> saved_file) list \<Rightarrow> disk \<Rightarrow> (string + string list) \<times> disk" where
  "restore_files shown io c ck [] d = (Inr [], d)"
| "restore_files shown io c ck ((i, f) # fs) d =
     (case restore_one shown io c ck i f d of
        Inl e \<Rightarrow> (Inl e, d)
      | Inr d' \<Rightarrow>
          (case restore_files shown io c ck fs d' of
             (Inl e, d'') \<Rightarrow> (Inl e, d'')
           | (Inr names, d'') \<Rightarrow> (Inr (shown (sf_path f) # names), d'')))"

definition restore ::
  "(string \<Rightarrow> string) \<Rightarrow> string \<Rightarrow> checkpoints \<Rightarrow> checkpoint \<Rightarrow> disk \<Rightarrow> (string + string list) \<times> disk" where
  "restore shown io c ck d =
     (case restore_files shown io c ck (rev (enumerate 0 (ck_files ck))) d of
        (Inl e, d') \<Rightarrow> (Inl e, d')
      | (Inr names, d') \<Rightarrow> (Inr names, forget_checkpoint c ck d'))"

definition undo :: "(string \<Rightarrow> string) \<Rightarrow> string \<Rightarrow> checkpoints \<Rightarrow> disk \<Rightarrow> (string + string) \<times> checkpoints \<times> disk" where
  "undo shown io c d =
     (if cs_done c = [] then (Inl ''Nothing to undo: no request of this conversation changed files.'', c, d)
      else let ck = last (cs_done c); c' = c\<lparr>cs_done := butlast (cs_done c)\<rparr>
        in case restore shown io c' ck d of
          (Inr restored, d') \<Rightarrow> (Inr (''Restored: '' @ join_comma restored), c', d')
        | (Inl e, d') \<Rightarrow> (Inl e, c'\<lparr>cs_done := cs_done c' @ [ck]\<rparr>, d'))"

text \<open>The \<open>while\<close> loop of \<open>rewind\<close>.\<close>

function rewind_loop ::
  "(string \<Rightarrow> string) \<Rightarrow> string \<Rightarrow> nat \<Rightarrow> string list \<Rightarrow> checkpoints \<Rightarrow> disk \<Rightarrow> (string + string list) \<times> checkpoints \<times> disk" where
  "rewind_loop shown io at restored c d =
     (if length (cs_done c) > at
      then let ck = last (cs_done c); c' = c\<lparr>cs_done := butlast (cs_done c)\<rparr>
        in case restore shown io c' ck d of
          (Inr files, d') \<Rightarrow>
            rewind_loop shown io at (foldl (\<lambda>r f. if f \<in> set r then r else r @ [f]) restored files) c' d'
        | (Inl e, d') \<Rightarrow> (Inl e, c'\<lparr>cs_done := cs_done c' @ [ck]\<rparr>, d')
      else (Inr restored, c, d))"
  by pat_completeness auto
termination
  by (relation "measure (\<lambda>(shown, io, at, restored, c, d). length (cs_done c))") auto

declare rewind_loop.simps [simp del]

definition rewind ::
  "(string \<Rightarrow> string) \<Rightarrow> string \<Rightarrow> nat \<Rightarrow> checkpoints \<Rightarrow> disk \<Rightarrow> (string + string \<times> nat) \<times> checkpoints \<times> disk" where
  "rewind shown io number c d =
     (case find (\<lambda>at. ck_number (cs_done c ! at) = number) [0..<length (cs_done c)] of
        None \<Rightarrow> (Inl (''There is no checkpoint '' @ nat_text number @ ''; /rewind lists them.''), c, d)
      | Some at \<Rightarrow>
          let messages_before = ck_messages_before (cs_done c ! at)
          in case rewind_loop shown io at [] c d of
            (Inl e, c', d') \<Rightarrow> (Inl e, c', d')
          | (Inr restored, c', d') \<Rightarrow> (Inr (''Restored: '' @ join_comma restored, messages_before), c', d'))"

section \<open>Listing and reopening\<close>

definition pad3 :: "string \<Rightarrow> string" where
  "pad3 s = replicate (3 - length s) (CHR '' '') @ s"

definition list_checkpoints :: "(string \<Rightarrow> string) \<Rightarrow> checkpoints \<Rightarrow> string" where
  "list_checkpoints shown c =
     (if cs_done c = [] then ''No checkpoints: no request of this conversation changed files.''
      else join_lines (''Checkpoints (/rewind <n> puts the files and the conversation back to before request n):'' #
        map (\<lambda>ck. '' '' @ '' '' @ pad3 (nat_text (ck_number ck)) @ '' '' @ '' '' @ ck_time ck @ '' '' @ '' '' @ ck_title ck
            @ '' '' @ '' '' @ [CHR 0xC2, CHR 0xB7] @ '' '' @ '' '' @ join_comma (map (shown \<circ> sf_path) (ck_files ck)))
          (rev (cs_done c))))"

definition last_files :: "checkpoints \<Rightarrow> string list" where
  "last_files c = (if cs_done c = [] then [] else map sf_path (ck_files (last (cs_done c))))"

definition open_checkpoints :: "disk \<Rightarrow> checkpoints" where
  "open_checkpoints d =
     \<lparr>cs_dir = True, cs_current = [], cs_too_large = [], cs_title = [], cs_messages_before = 0,
      cs_done = sort_key ck_number (map fst (hm_values (dk_saved d)))\<rparr>"

text \<open>The folders beside the conversation's: name, whether it is a folder, seconds since it was touched.\<close>

definition has_extension :: "string \<Rightarrow> string \<Rightarrow> bool" where
  "has_extension ext name \<longleftrightarrow> (case rsplit_once (CHR ''.'') name of Some (stem, e) \<Rightarrow> stem \<noteq> [] \<and> e = ext | None \<Rightarrow> False)"

definition remove_old :: "(string \<times> bool \<times> nat option) list \<Rightarrow> (string \<times> bool \<times> nat option) list" where
  "remove_old entries = filter (\<lambda>(name, folder, age).
     \<not> (has_extension ''checkpoints'' name \<and> folder \<and> (case age of Some a \<Rightarrow> a > KEEP_DAYS * 24 * 3600 | None \<Rightarrow> False))) entries"

section \<open>Conversations\<close>

text \<open>
  A request changes files one after the other, each shown to \<open>before_write\<close> first. A conversation is
  requests, undos, rewinds and restarts of the agent; \<open>hist\<close> holds the files before each
  request that still has a checkpoint, oldest first, and \<open>big\<close> the files that were ever too large to keep.
\<close>

type_synonym file_map = "string \<Rightarrow> string option"

definition change_file :: "checkpoints \<times> disk \<Rightarrow> string \<times> string option \<Rightarrow> checkpoints \<times> disk" where
  "change_file = (\<lambda>(c, d) (p, x). (before_write p d c, d\<lparr>dk_files := (dk_files d)(p := x)\<rparr>))"

definition change_files :: "checkpoints \<Rightarrow> disk \<Rightarrow> (string \<times> string option) list \<Rightarrow> checkpoints \<times> disk" where
  "change_files c d edits = foldl change_file (c, d) edits"

definition keep_last :: "'a list \<Rightarrow> 'a list" where
  "keep_last xs = drop (length xs - KEEP) xs"

inductive conversation ::
  "(string \<Rightarrow> string) \<Rightarrow> (string \<Rightarrow> string) \<Rightarrow> string set \<Rightarrow> checkpoints \<Rightarrow> disk \<Rightarrow> file_map list \<Rightarrow> bool"
  for shown :: "string \<Rightarrow> string" and lossy :: "string \<Rightarrow> string" and big :: "string set" where
  conv_start:
    "cs_current c = [] \<Longrightarrow> cs_too_large c = [] \<Longrightarrow> cs_done c = [] \<Longrightarrow> dk_saved d = [] \<Longrightarrow>
     conversation shown lossy big c d []"
| conv_request:
    "conversation shown lossy big c d hist \<Longrightarrow>
     change_files (begin_request request messages_before c) d edits = (c1, d1) \<Longrightarrow>
     set (cs_too_large c1) \<subseteq> big \<Longrightarrow> finish_request shown lossy time c1 d1 = (text, c', d') \<Longrightarrow>
     conversation shown lossy big c' d' (if cs_current c1 = [] then hist else keep_last (hist @ [dk_files d]))"
| conv_undo:
    "conversation shown lossy big c d hist \<Longrightarrow> \<forall>p. \<not> dk_locked d p \<Longrightarrow> undo shown io c d = (Inr text, c', d') \<Longrightarrow>
     conversation shown lossy big c' d' (butlast hist)"
| conv_rewind:
    "conversation shown lossy big c d hist \<Longrightarrow> \<forall>p. \<not> dk_locked d p \<Longrightarrow> at < length hist \<Longrightarrow>
     rewind shown io (ck_number (cs_done c ! at)) c d = (r, c', d') \<Longrightarrow>
     conversation shown lossy big c' d' (take at hist)"
| conv_reopen:
    "conversation shown lossy big c d hist \<Longrightarrow> cs_dir c \<Longrightarrow> conversation shown lossy big (open_checkpoints d) d hist"

section \<open>What the checkpoints hold\<close>

text \<open>A checkpoint holds, in memory or in its folder, what its files were in \<open>h\<close>.\<close>

definition ck_ok :: "bool \<Rightarrow> (nat, checkpoint \<times> (string, string) hmap) hmap \<Rightarrow> file_map \<Rightarrow> checkpoint \<Rightarrow> bool" where
  "ck_ok dir saved h ck \<longleftrightarrow>
     (\<forall>i < length (ck_files ck). sf_backup (ck_files ck ! i) = map_option (\<lambda>_. backup_name i) (h (sf_path (ck_files ck ! i)))) \<and>
     (ck_contents ck = map (h \<circ> sf_path) (ck_files ck) \<or> ck_contents ck = [] \<and> dir) \<and>
     (dir \<longrightarrow> (\<exists>baks. hm_get (ck_number ck) saved = Some (ck\<lparr>ck_contents := []\<rparr>, baks) \<and>
        (\<forall>i < length (ck_files ck). \<forall>b. h (sf_path (ck_files ck ! i)) = Some b \<longrightarrow> hm_get (backup_name i) baks = Some b)))"

text \<open>Newest first: undoing a checkpoint leads from the files \<open>m\<close> to those before its request.\<close>

fun unwinds ::
  "string set \<Rightarrow> bool \<Rightarrow> (nat, checkpoint \<times> (string, string) hmap) hmap \<Rightarrow> (checkpoint \<times> file_map) list \<Rightarrow> file_map \<Rightarrow> bool" where
  "unwinds big dir saved [] m = True"
| "unwinds big dir saved ((ck, h) # older) m \<longleftrightarrow>
     ck_ok dir saved h ck \<and> (\<forall>p. p \<notin> big \<longrightarrow> p \<notin> sf_path ` set (ck_files ck) \<longrightarrow> m p = h p) \<and> unwinds big dir saved older h"

definition conv_inv :: "string set \<Rightarrow> checkpoints \<Rightarrow> disk \<Rightarrow> file_map list \<Rightarrow> bool" where
  "conv_inv big c d hist \<longleftrightarrow>
     cs_current c = [] \<and> cs_too_large c = [] \<and> length hist = length (cs_done c) \<and>
     sorted_wrt (<) (map ck_number (cs_done c)) \<and>
     unwinds big (cs_dir c) (dk_saved d) (rev (zip (cs_done c) hist)) (dk_files d) \<and>
     (cs_dir c \<longrightarrow> hm_ok (dk_saved d) \<and> fst ` set (dk_saved d) = ck_number ` set (cs_done c)) \<and>
     (\<not> cs_dir c \<longrightarrow> dk_saved d = [])"

lemma unwinds_append: "unwinds big dir saved (xs @ ys) m \<Longrightarrow> unwinds big dir saved xs m"
  by (induction xs arbitrary: m) auto

lemma unwinds_cong:
  "unwinds big dir saved xs m \<Longrightarrow> (\<And>p. p \<notin> big \<Longrightarrow> m p = m' p) \<Longrightarrow> unwinds big dir saved xs m'"
  by (cases xs) fastforce+

lemma ck_ok_saved:
  "ck_ok dir saved h ck \<Longrightarrow> hm_get (ck_number ck) saved' = hm_get (ck_number ck) saved \<Longrightarrow> ck_ok dir saved' h ck"
  by (simp add: ck_ok_def)

lemma unwinds_saved:
  "unwinds big dir saved xs m \<Longrightarrow> (\<And>ck h. (ck, h) \<in> set xs \<Longrightarrow> hm_get (ck_number ck) saved' = hm_get (ck_number ck) saved) \<Longrightarrow>
     unwinds big dir saved' xs m"
proof (induction big dir saved xs m rule: unwinds.induct)
  case (2 big dir saved ck h older m)
  from "2.prems" have "unwinds big dir saved older h" by simp
  then have "unwinds big dir saved' older h" by (rule "2.IH") (use "2.prems"(2) in auto)
  moreover have "ck_ok dir saved' h ck" by (rule ck_ok_saved [of dir saved]) (use "2.prems" in auto)
  ultimately show ?case using "2.prems" by simp
qed simp

text \<open>Restoring a sound checkpoint puts its files back, in whatever order, and touches nothing else.\<close>

lemma restore_one_ok:
  assumes ok: "ck_ok (cs_dir c) (dk_saved d) h ck" and i: "i < length (ck_files ck)" and f: "f = ck_files ck ! i"
    and free: "\<not> dk_locked d (sf_path f)"
  shows "restore_one shown io c ck i f d = Inr (d\<lparr>dk_files := (dk_files d)(sf_path f := h (sf_path f))\<rparr>)"
proof -
  from ok i f have b: "sf_backup f = map_option (\<lambda>_. backup_name i) (h (sf_path f))" by (simp add: ck_ok_def)
  show ?thesis
  proof (cases "h (sf_path f)")
    case None
    then show ?thesis using b free by (auto simp: restore_one_def Let_def fun_upd_idem split: option.splits)
  next
    case (Some bytes)
    show ?thesis
    proof (cases "ck_contents ck = map (h \<circ> sf_path) (ck_files ck)")
      case True
      then show ?thesis using b free Some i f by (simp add: restore_one_def Let_def)
    next
      case False
      with ok obtain baks where "ck_contents ck = []" "cs_dir c"
        "hm_get (ck_number ck) (dk_saved d) = Some (ck\<lparr>ck_contents := []\<rparr>, baks)" "hm_get (backup_name i) baks = Some bytes"
        using i f Some by (auto simp: ck_ok_def)
      then show ?thesis using b free Some by (simp add: restore_one_def Let_def)
    qed
  qed
qed

lemma restore_files_ok:
  assumes "ck_ok (cs_dir c) (dk_saved d) h ck" and "\<forall>p. \<not> dk_locked d p"
    and "\<forall>(i, f) \<in> set ifs. i < length (ck_files ck) \<and> f = ck_files ck ! i"
  shows "\<exists>names. restore_files shown io c ck ifs d =
    (Inr names, d\<lparr>dk_files := (\<lambda>p. if p \<in> sf_path ` snd ` set ifs then h p else dk_files d p)\<rparr>)"
  using assms
proof (induction ifs arbitrary: d)
  case (Cons x ifs)
  obtain i f where x: "x = (i, f)" by (cases x)
  let ?d = "d\<lparr>dk_files := (dk_files d)(sf_path f := h (sf_path f))\<rparr>"
  have one: "restore_one shown io c ck i f d = Inr ?d" using Cons.prems by (intro restore_one_ok) (auto simp: x)
  from Cons.IH [of ?d] Cons.prems obtain names where names: "restore_files shown io c ck ifs ?d =
      (Inr names, ?d\<lparr>dk_files := (\<lambda>p. if p \<in> sf_path ` snd ` set ifs then h p else dk_files ?d p)\<rparr>)" by auto
  have "(\<lambda>p. if p \<in> sf_path ` snd ` set ifs then h p else dk_files ?d p) =
      (\<lambda>p. if p \<in> sf_path ` snd ` set (x # ifs) then h p else dk_files d p)" by (auto simp: x)
  with one names show ?case by (simp add: x)
qed simp

lemma restore_ok:
  assumes "ck_ok (cs_dir c) (dk_saved d) h ck" and "\<forall>p. \<not> dk_locked d p"
  shows "\<exists>names. restore shown io c ck d = (Inr names, forget_checkpoint c ck
    (d\<lparr>dk_files := (\<lambda>p. if p \<in> sf_path ` set (ck_files ck) then h p else dk_files d p)\<rparr>))"
proof -
  have "set (rev (enumerate 0 (ck_files ck))) \<subseteq> {(i, f). i < length (ck_files ck) \<and> f = ck_files ck ! i}"
    by (auto simp: in_set_enumerate_eq)
  then have "\<forall>(i, f) \<in> set (rev (enumerate 0 (ck_files ck))). i < length (ck_files ck) \<and> f = ck_files ck ! i" by blast
  from restore_files_ok [OF assms this, of shown io]
  show ?thesis by (auto simp: restore_def image_comp [symmetric] simp flip: set_map)
qed

lemma conv_invD:
  assumes "conv_inv big c d hist"
  shows "cs_current c = []" and "cs_too_large c = []" and "length hist = length (cs_done c)"
    and "sorted_wrt (<) (map ck_number (cs_done c))"
    and "unwinds big (cs_dir c) (dk_saved d) (rev (zip (cs_done c) hist)) (dk_files d)"
    and "cs_dir c \<Longrightarrow> hm_ok (dk_saved d) \<and> fst ` set (dk_saved d) = ck_number ` set (cs_done c)"
    and "\<not> cs_dir c \<Longrightarrow> dk_saved d = []"
  using assms by (simp_all add: conv_inv_def)

lemma saved_keys_remove: "fst ` set (hm_remove k m) = fst ` set m - {k}"
  by (force simp: set_hm_remove)

lemma saved_keys_insert: "hm_ok m \<Longrightarrow> fst ` set (hm_insert k v m) = insert k (fst ` set m)"
  by (force simp: set_hm_insert)

lemma forget_simps [simp]:
  "dk_files (forget_checkpoint c ck d) = dk_files d" "dk_locked (forget_checkpoint c ck d) = dk_locked d"
  "dk_saved (forget_checkpoint c ck d) = (if cs_dir c then hm_remove (ck_number ck) (dk_saved d) else dk_saved d)"
  by (simp_all add: forget_checkpoint_def)

text \<open>Undoing the newest checkpoint gives the files before its request.\<close>

lemma undo_step:
  assumes inv: "conv_inv big c d hist" and ne: "cs_done c \<noteq> []" and free: "\<forall>p. \<not> dk_locked d p"
  shows "\<exists>names d'. restore shown io (c\<lparr>cs_done := butlast (cs_done c)\<rparr>) (last (cs_done c)) d = (Inr names, d') \<and>
    conv_inv big (c\<lparr>cs_done := butlast (cs_done c)\<rparr>) d' (butlast hist) \<and> dk_locked d' = dk_locked d \<and>
    (\<forall>p. p \<notin> big \<longrightarrow> dk_files d' p = last hist p)"
proof -
  note I = conv_invD [OF inv]
  let ?c = "c\<lparr>cs_done := butlast (cs_done c)\<rparr>"
  from ne I(3) have hne: "hist \<noteq> []" by auto
  obtain older ck where done': "cs_done c = older @ [ck]" using ne by (metis append_butlast_last_id)
  obtain hs h where hist: "hist = hs @ [h]" using hne by (metis append_butlast_last_id)
  have len: "length hs = length older" using I(3) by (simp add: done' hist)
  from I(5) have un: "ck_ok (cs_dir c) (dk_saved d) h ck"
    "\<forall>p. p \<notin> big \<longrightarrow> p \<notin> sf_path ` set (ck_files ck) \<longrightarrow> dk_files d p = h p"
    "unwinds big (cs_dir c) (dk_saved d) (rev (zip older hs)) h"
    by (simp_all add: done' hist len)
  let ?m = "\<lambda>p. if p \<in> sf_path ` set (ck_files ck) then h p else dk_files d p"
  let ?d = "forget_checkpoint ?c ck (d\<lparr>dk_files := ?m\<rparr>)"
  from restore_ok [of ?c d h ck shown io] un(1) free obtain names
    where r: "restore shown io ?c ck d = (Inr names, ?d)" by auto
  have undone: "p \<notin> big \<Longrightarrow> ?m p = h p" for p using un(2) by simp
  have new: "ck_number a \<noteq> ck_number ck" if "a \<in> set older" for a
    using I(4) that by (auto simp: done' sorted_wrt_append)
  have "unwinds big (cs_dir c) (dk_saved ?d) (rev (zip older hs)) ?m"
  proof (rule unwinds_saved)
    show "unwinds big (cs_dir c) (dk_saved d) (rev (zip older hs)) ?m"
      by (rule unwinds_cong [OF un(3)]) (simp add: undone)
    show "hm_get (ck_number a) (dk_saved ?d) = hm_get (ck_number a) (dk_saved d)" if "(a, g) \<in> set (rev (zip older hs))" for a g
      using new [of a] that by (auto dest: set_zip_leftD)
  qed
  moreover have "cs_dir c \<Longrightarrow> hm_ok (dk_saved ?d) \<and> fst ` set (dk_saved ?d) = ck_number ` set older"
    using I(6) new by (auto simp: saved_keys_remove done')
  ultimately have "conv_inv big ?c ?d hs"
    using I len by (auto simp: conv_inv_def done' sorted_wrt_append)
  then show ?thesis using r undone by (auto simp: done' hist)
qed

lemma rewind_loop_ok:
  "conv_inv big c d hist \<Longrightarrow> at \<le> length hist \<Longrightarrow> \<forall>p. \<not> dk_locked d p \<Longrightarrow>
   \<exists>names c' d'. rewind_loop shown io at restored c d = (Inr names, c', d') \<and> c' = c\<lparr>cs_done := take at (cs_done c)\<rparr> \<and>
     conv_inv big c' d' (take at hist) \<and> (\<forall>p. p \<notin> big \<longrightarrow> at < length hist \<longrightarrow> dk_files d' p = (hist ! at) p)"
proof (induction "length hist - at" arbitrary: c d hist restored)
  case 0
  then have "length (cs_done c) = at" using conv_invD(3) by fastforce
  with 0 show ?case by (simp add: rewind_loop.simps [of _ _ _ _ c])
next
  case (Suc n)
  then have l: "at < length hist" "length hist = length (cs_done c)" using conv_invD(3) by fastforce+
  let ?c = "c\<lparr>cs_done := butlast (cs_done c)\<rparr>"
  from undo_step [OF Suc.prems(1) _ Suc.prems(3), of shown io] l obtain names d' where
    r: "restore shown io ?c (last (cs_done c)) d = (Inr names, d')" and inv: "conv_inv big ?c d' (butlast hist)"
    and free: "dk_locked d' = dk_locked d" and undone: "\<forall>p. p \<notin> big \<longrightarrow> dk_files d' p = last hist p" by fastforce
  let ?r = "foldl (\<lambda>r f. if f \<in> set r then r else r @ [f]) restored names"
  have step: "rewind_loop shown io at restored c d = rewind_loop shown io at ?r ?c d'"
    using l r by (simp add: rewind_loop.simps [of _ _ _ _ c] Let_def)
  have "n = length (butlast hist) - at" using Suc.hyps(2) by simp
  from Suc.hyps(1) [OF this inv _ _, of ?r] free Suc.prems(3) l have
    "\<exists>names' c' d''. rewind_loop shown io at ?r ?c d' = (Inr names', c', d'') \<and> c' = ?c\<lparr>cs_done := take at (cs_done ?c)\<rparr> \<and>
      conv_inv big c' d'' (take at (butlast hist)) \<and>
      (\<forall>p. p \<notin> big \<longrightarrow> at < length (butlast hist) \<longrightarrow> dk_files d'' p = (butlast hist ! at) p)"
    by fastforce
  then obtain names' c' d''
    where IH: "rewind_loop shown io at ?r ?c d' = (Inr names', c', d'')" "c' = ?c\<lparr>cs_done := take at (cs_done ?c)\<rparr>"
      "conv_inv big c' d'' (take at (butlast hist))"
      "\<forall>p. p \<notin> big \<longrightarrow> at < length (butlast hist) \<longrightarrow> dk_files d'' p = (butlast hist ! at) p" by blast
  have c': "c' = c\<lparr>cs_done := take at (cs_done c)\<rparr>" using IH(2) l by (simp add: take_butlast)
  have "dk_files d'' p = (hist ! at) p" if "p \<notin> big" for p
  proof (cases "at < length (butlast hist)")
    case True
    with IH(4) that show ?thesis by (simp add: nth_butlast)
  next
    case False
    with l have at: "at = length (butlast hist)" by simp
    then have "length (cs_done ?c) = at" using conv_invD(3) [OF inv] by simp
    then have "d'' = d'" using IH(1) by (simp add: rewind_loop.simps [of _ _ _ _ ?c])
    from l have "hist \<noteq> []" by auto
    then have "last hist = hist ! at" using at by (simp add: last_conv_nth)
    with undone that \<open>d'' = d'\<close> show ?thesis by simp
  qed
  with step IH c' l show ?case by (simp add: take_butlast)
qed

text \<open>What \<open>before_write\<close> has kept when a request ends: the files as the request found them.\<close>

lemma change_files_ok:
  assumes "change_files c d edits = (c1, d1)" and "cs_current c = []" and "cs_too_large c = []"
  shows "(\<forall>(p, was) \<in> set (cs_current c1). was = dk_files d p) \<and>
    (\<forall>p. p \<notin> fst ` set (cs_current c1) \<longrightarrow> p \<notin> set (cs_too_large c1) \<longrightarrow> dk_files d1 p = dk_files d p) \<and>
    cs_done c1 = cs_done c \<and> cs_dir c1 = cs_dir c \<and> cs_messages_before c1 = cs_messages_before c \<and> dk_saved d1 = dk_saved d \<and> dk_locked d1 = dk_locked d"
  using assms
proof (induction edits arbitrary: c1 d1 rule: rev_induct)
  case Nil
  then show ?case by (simp add: change_files_def)
next
  case (snoc e edits)
  obtain p x where e: "e = (p, x)" by (cases e)
  obtain c2 d2 where c2: "change_files c d edits = (c2, d2)" by fastforce
  from snoc.prems c2 have c1: "c1 = before_write p d2 c2" and d1: "d1 = d2\<lparr>dk_files := (dk_files d2)(p := x)\<rparr>"
    by (auto simp: change_files_def change_file_def e)
  note IH = snoc.IH [OF c2 assms(2,3)]
  have keep: "fst ` set (cs_current c2) \<subseteq> fst ` set (cs_current c1)" "set (cs_too_large c2) \<subseteq> set (cs_too_large c1)"
    "p \<in> fst ` set (cs_current c1) \<or> p \<in> set (cs_too_large c1)"
    by (auto simp: c1 before_write_def)
  have "\<forall>(q, was) \<in> set (cs_current c1). was = dk_files d q"
    using IH by (auto simp: c1 before_write_def image_iff split: if_splits)
  moreover have "dk_files d1 q = dk_files d q" if "q \<notin> fst ` set (cs_current c1)" "q \<notin> set (cs_too_large c1)" for q
  proof -
    from that keep have "q \<noteq> p" "q \<notin> fst ` set (cs_current c2)" "q \<notin> set (cs_too_large c2)" by auto
    with IH show ?thesis by (simp add: d1)
  qed
  moreover have "cs_done c1 = cs_done c2 \<and> cs_dir c1 = cs_dir c2 \<and> cs_messages_before c1 = cs_messages_before c2" by (simp add: c1 before_write_def)
  ultimately show ?case using IH by (simp add: d1)
qed

lemma backup_name_inj [simp]: "backup_name i = backup_name j \<longleftrightarrow> i = j"
  by (simp add: backup_name_def)

lemma checkpoint_files:
  "length (ck_files (checkpoint_of time c)) = length (cs_current c)"
  "i < length (cs_current c) \<Longrightarrow> ck_files (checkpoint_of time c) ! i =
     \<lparr>sf_path = fst (cs_current c ! i), sf_backup = map_option (\<lambda>_. backup_name i) (snd (cs_current c ! i))\<rparr>"
  "sf_path ` set (ck_files (checkpoint_of time c)) = fst ` set (cs_current c)"
proof -
  show "length (ck_files (checkpoint_of time c)) = length (cs_current c)" by (simp add: checkpoint_of_def)
  show "i < length (cs_current c) \<Longrightarrow> ck_files (checkpoint_of time c) ! i =
     \<lparr>sf_path = fst (cs_current c ! i), sf_backup = map_option (\<lambda>_. backup_name i) (snd (cs_current c ! i))\<rparr>"
    by (simp add: checkpoint_of_def nth_enumerate_eq split: prod.splits)
  have "map sf_path (ck_files (checkpoint_of time c)) = map fst (map snd (enumerate 0 (cs_current c)))"
    by (simp add: checkpoint_of_def split_def del: map_snd_enumerate)
  then have "map sf_path (ck_files (checkpoint_of time c)) = map fst (cs_current c)" by simp
  then show "sf_path ` set (ck_files (checkpoint_of time c)) = fst ` set (cs_current c)" by (metis set_map)
qed

lemma backups_get:
  "hm_get (backup_name i) (backups_of (checkpoint_of time c)) =
     (if i < length (cs_current c) then snd (cs_current c ! i) else None)"
proof -
  let ?step = "\<lambda>m (i, p :: string, was). case was of Some bytes \<Rightarrow> hm_insert (backup_name i) bytes m | None \<Rightarrow> m"
  have "hm_get (backup_name i) (foldl ?step [] (enumerate 0 cur)) = (if i < length cur then snd (cur ! i) else None)"
    for cur :: "(string \<times> string option) list"
    by (induction cur rule: rev_induct)
      (auto simp: enumerate_append_eq nth_append less_Suc_eq split: option.splits prod.splits)
  moreover have "backups_of (checkpoint_of time c) = foldl ?step [] (enumerate 0 (cs_current c))"
  proof -
    have z: "zip (ck_files (checkpoint_of time c)) (ck_contents (checkpoint_of time c)) =
        map (\<lambda>(i, p, was). (\<lparr>sf_path = p, sf_backup = map_option (\<lambda>_. backup_name i) was\<rparr>, was)) (enumerate 0 (cs_current c))"
      by (rule nth_equalityI) (auto simp: checkpoint_of_def nth_enumerate_eq split: prod.splits)
    show ?thesis unfolding backups_of_def z foldl_map
      by (intro arg_cong [where f = "\<lambda>f. foldl f [] (enumerate 0 (cs_current c))"]) (auto simp: fun_eq_iff split: option.splits)
  qed
  ultimately show ?thesis by simp
qed

section \<open>The invariant along every conversation\<close>

lemma inv_forget_oldest:
  assumes inv: "conv_inv big c d hist" and ne: "cs_done c \<noteq> []"
  shows "conv_inv big (c\<lparr>cs_done := tl (cs_done c)\<rparr>) (forget_checkpoint c (hd (cs_done c)) d) (tl hist)"
proof -
  note I = conv_invD [OF inv]
  obtain ck newer where done': "cs_done c = ck # newer" using ne by (cases "cs_done c") auto
  obtain h hs where hist: "hist = h # hs" using I(3) done' by (cases hist) auto
  have len: "length hs = length newer" using I(3) by (simp add: done' hist)
  have new: "ck_number a \<noteq> ck_number ck" if "a \<in> set newer" for a using I(4) that by (auto simp: done')
  let ?d = "forget_checkpoint c ck d"
  have "unwinds big (cs_dir c) (dk_saved ?d) (rev (zip newer hs)) (dk_files d)"
  proof (rule unwinds_saved)
    show "unwinds big (cs_dir c) (dk_saved d) (rev (zip newer hs)) (dk_files d)"
      using I(5) by (auto simp: done' hist dest: unwinds_append)
    show "hm_get (ck_number a) (dk_saved ?d) = hm_get (ck_number a) (dk_saved d)" if "(a, g) \<in> set (rev (zip newer hs))" for a g
      using new [of a] that by (auto dest: set_zip_leftD)
  qed
  moreover have "cs_dir c \<Longrightarrow> hm_ok (dk_saved ?d) \<and> fst ` set (dk_saved ?d) = ck_number ` set newer"
    using I(6) new by (auto simp: saved_keys_remove done')
  ultimately show ?thesis using I len by (simp add: conv_inv_def done' hist)
qed

lemma inv_drop_oldest:
  "conv_inv big c d hist \<Longrightarrow> drop_oldest c d = (c', d') \<Longrightarrow> conv_inv big c' d' (keep_last hist)"
proof (induction c d arbitrary: hist rule: drop_oldest.induct)
  case (1 c d)
  have l: "length hist = length (cs_done c)" by (rule conv_invD(3) [OF "1.prems"(1)])
  show ?case
  proof (cases "length (cs_done c) > KEEP")
    case True
    then have ne: "cs_done c \<noteq> []" by auto
    from "1.IH" [OF True inv_forget_oldest [OF "1.prems"(1) ne]] "1.prems"(2) True
    have "conv_inv big c' d' (keep_last (tl hist))" by (simp add: drop_oldest.simps [of c d])
    moreover have "keep_last (tl hist) = keep_last hist"
      using True unfolding keep_last_def l [symmetric] by (cases hist) (simp_all add: Suc_diff_le)
    ultimately show ?thesis by simp
  next
    case False
    with "1.prems" l show ?thesis by (auto simp: drop_oldest.simps [of c d] keep_last_def)
  qed
qed

lemma inv_request_done:
  assumes inv: "conv_inv big c d hist" and ch: "change_files (begin_request request mb c) d edits = (c1, d1)"
    and big: "set (cs_too_large c1) \<subseteq> big"
  shows "conv_inv big (c1\<lparr>cs_too_large := [], cs_current := [], cs_title := [], cs_done := cs_done c1 @ [checkpoint_of time c1]\<rparr>)
    (save_checkpoint c1 (checkpoint_of time c1) d1) (hist @ [dk_files d])"
proof -
  note I = conv_invD [OF inv]
  let ?ck = "checkpoint_of time c1"
  let ?d = "save_checkpoint c1 ?ck d1"
  have "cs_current (begin_request request mb c) = []" "cs_too_large (begin_request request mb c) = []"
    using I(1,2) by (simp_all add: begin_request_def)
  from change_files_ok [OF ch this] have same: "\<forall>(p, was) \<in> set (cs_current c1). was = dk_files d p"
    "\<forall>p. p \<notin> fst ` set (cs_current c1) \<longrightarrow> p \<notin> set (cs_too_large c1) \<longrightarrow> dk_files d1 p = dk_files d p"
    and frame: "cs_done c1 = cs_done c" "cs_dir c1 = cs_dir c" "dk_saved d1 = dk_saved d"
    by (simp_all add: begin_request_def)
  have at: "snd (cs_current c1 ! i) = dk_files d (fst (cs_current c1 ! i))" if "i < length (cs_current c1)" for i
    using same(1) nth_mem [OF that] by (auto simp: case_prod_beta)
  have number: "ck_number a < ck_number ?ck" if "a \<in> set (cs_done c)" for a
  proof -
    from that obtain older l where "cs_done c = older @ [l]" by (metis append_butlast_last_id empty_iff empty_set)
    with that I(4) show ?thesis by (auto simp: checkpoint_of_def frame sorted_wrt_append)
  qed
  have get: "hm_get (ck_number ?ck) (dk_saved ?d) = Some (?ck\<lparr>ck_contents := []\<rparr>, backups_of ?ck)" if "cs_dir c"
    using that by (simp add: save_checkpoint_def frame)
  have "map (dk_files d \<circ> sf_path) (ck_files ?ck) = ck_contents ?ck"
  proof (rule nth_equalityI)
    fix i
    assume "i < length (map (dk_files d \<circ> sf_path) (ck_files ?ck))"
    then show "map (dk_files d \<circ> sf_path) (ck_files ?ck) ! i = ck_contents ?ck ! i"
      using at by (simp add: checkpoint_files checkpoint_of_def [of time c1] nth_enumerate_eq split_def)
  qed (simp add: checkpoint_of_def)
  then have ok: "ck_ok (cs_dir c) (dk_saved ?d) (dk_files d) ?ck"
    using get at unfolding ck_ok_def by (simp add: checkpoint_files backups_get)
  have "unwinds big (cs_dir c) (dk_saved ?d) (rev (zip (cs_done c) hist)) (dk_files d)"
  proof (rule unwinds_saved [OF I(5)])
    show "hm_get (ck_number a) (dk_saved ?d) = hm_get (ck_number a) (dk_saved d)" if "(a, g) \<in> set (rev (zip (cs_done c) hist))" for a g
      using number [of a] that by (auto simp: save_checkpoint_def frame dest: set_zip_leftD)
  qed
  moreover have "\<forall>p. p \<notin> big \<longrightarrow> p \<notin> sf_path ` set (ck_files ?ck) \<longrightarrow> dk_files ?d p = dk_files d p"
    using same(2) big by (auto simp: checkpoint_files save_checkpoint_def)
  ultimately have "unwinds big (cs_dir c) (dk_saved ?d) (rev (zip (cs_done c @ [?ck]) (hist @ [dk_files d]))) (dk_files ?d)"
    using ok I(3) by simp
  moreover have "cs_dir c \<Longrightarrow> hm_ok (dk_saved ?d) \<and> fst ` set (dk_saved ?d) = ck_number ` set (cs_done c @ [?ck])"
    using I(6) by (auto simp: save_checkpoint_def frame saved_keys_insert)
  ultimately show ?thesis
    using I number by (auto simp: conv_inv_def frame sorted_wrt_append save_checkpoint_def)
qed

lemma inv_nothing_kept:
  assumes inv: "conv_inv big c d hist" and ch: "change_files (begin_request request mb c) d edits = (c1, d1)"
    and big: "set (cs_too_large c1) \<subseteq> big" and none: "cs_current c1 = []"
  shows "conv_inv big (c1\<lparr>cs_too_large := []\<rparr>) d1 hist"
proof -
  note I = conv_invD [OF inv]
  have "cs_current (begin_request request mb c) = []" "cs_too_large (begin_request request mb c) = []"
    using I(1,2) by (simp_all add: begin_request_def)
  from change_files_ok [OF ch this] none have same: "\<forall>p. p \<notin> set (cs_too_large c1) \<longrightarrow> dk_files d1 p = dk_files d p"
    and frame: "cs_done c1 = cs_done c" "cs_dir c1 = cs_dir c" "dk_saved d1 = dk_saved d"
    by (simp_all add: begin_request_def)
  have "unwinds big (cs_dir c) (dk_saved d) (rev (zip (cs_done c) hist)) (dk_files d1)"
    by (rule unwinds_cong [OF I(5)]) (use same big in auto)
  then show ?thesis using I none by (simp add: conv_inv_def frame)
qed

lemma inv_finish:
  assumes "conv_inv big c d hist" and "change_files (begin_request request mb c) d edits = (c1, d1)"
    and "set (cs_too_large c1) \<subseteq> big" and fin: "finish_request shown lossy time c1 d1 = (text, c', d')"
  shows "conv_inv big c' d' (if cs_current c1 = [] then hist else keep_last (hist @ [dk_files d]))"
proof (cases "cs_current c1 = []")
  case True
  with fin have "c' = c1\<lparr>cs_too_large := []\<rparr>" "d' = d1" by (auto simp: finish_request_def Let_def split: if_splits)
  with True inv_nothing_kept [OF assms(1-3)] show ?thesis by simp
next
  case False
  let ?c = "c1\<lparr>cs_too_large := [], cs_current := [], cs_title := [], cs_done := cs_done c1 @ [checkpoint_of time c1]\<rparr>"
  from False fin have "drop_oldest ?c (save_checkpoint c1 (checkpoint_of time c1) d1) = (c', d')"
    by (simp add: finish_request_def Let_def)
  with inv_drop_oldest [OF inv_request_done [OF assms(1-3)] this] False show ?thesis by simp
qed

text \<open>After a restart the checkpoints come back from their folders, in order.\<close>

lemma inv_reopen:
  assumes inv: "conv_inv big c d hist" and dir: "cs_dir c"
  shows "conv_inv big (open_checkpoints d) d hist \<and> cs_done (open_checkpoints d) = map (\<lambda>ck. ck\<lparr>ck_contents := []\<rparr>) (cs_done c)"
proof -
  note I = conv_invD [OF inv]
  let ?bare = "\<lambda>ck. ck\<lparr>ck_contents := []\<rparr>"
  have okd: "hm_ok (dk_saved d)" "fst ` set (dk_saved d) = ck_number ` set (cs_done c)" using I(6) dir by simp_all
  have ck: "ck_ok True (dk_saved d) h ck" if "(ck, h) \<in> set (zip (cs_done c) hist)" for ck h
  proof -
    have "unwinds big True (dk_saved d) xs m \<Longrightarrow> (ck, h) \<in> set xs \<Longrightarrow> ck_ok True (dk_saved d) h ck" for xs m
      by (induction xs arbitrary: m) auto
    with I(5) dir that show ?thesis by simp
  qed
  have saved: "hm_get (ck_number a) (dk_saved d) = Some (?bare a, snd (the (hm_get (ck_number a) (dk_saved d))))"
    if "a \<in> set (cs_done c)" for a
  proof -
    from that I(3) obtain h where "(a, h) \<in> set (zip (cs_done c) hist)"
      by (metis in_set_impl_in_set_zip1)
    from ck [OF this] show ?thesis by (auto simp: ck_ok_def)
  qed
  have entry: "\<exists>a \<in> set (cs_done c). ck_number a = fst e \<and> fst (snd e) = ?bare a" if "e \<in> set (dk_saved d)" for e
  proof -
    from that okd(2) have "fst e \<in> ck_number ` set (cs_done c)" by blast
    then obtain a where a: "a \<in> set (cs_done c)" "ck_number a = fst e" by auto
    from that okd(1) have "hm_get (fst e) (dk_saved d) = Some (snd e)" by (simp add: hm_get_in_set)
    with saved [OF a(1)] a have "fst (snd e) = ?bare a" by (auto simp: prod_eq_iff)
    with a show ?thesis by auto
  qed
  have "set (map fst (hm_values (dk_saved d))) = set (map ?bare (cs_done c))"
  proof (intro equalityI subsetI)
    fix x
    assume "x \<in> set (map fst (hm_values (dk_saved d)))"
    then obtain e where e: "e \<in> set (dk_saved d)" "x = fst (snd e)" by (auto simp: hm_values_def)
    from entry [OF e(1)] e(2) show "x \<in> set (map ?bare (cs_done c))" by auto
  next
    fix x
    assume "x \<in> set (map ?bare (cs_done c))"
    then obtain a where a: "a \<in> set (cs_done c)" "x = ?bare a" by auto
    from hm_get_set [OF saved [OF a(1)]] a(2) show "x \<in> set (map fst (hm_values (dk_saved d)))"
      by (force simp: hm_values_def)
  qed
  moreover have keys: "map ck_number (map ?bare (cs_done c)) = map ck_number (cs_done c)" by simp
  have strict: "sorted (map ck_number (cs_done c))" "distinct (map ck_number (cs_done c))"
    using I(4) by (simp_all add: strict_sorted_iff)
  have "distinct (map ck_number (map fst (hm_values (dk_saved d))))"
  proof -
    have "map ck_number (map fst (hm_values (dk_saved d))) = map fst (dk_saved d)"
      unfolding hm_values_def map_map
    proof (rule map_cong [OF refl])
      fix e
      assume "e \<in> set (dk_saved d)"
      from entry [OF this] show "(ck_number \<circ> (fst \<circ> snd)) e = fst e" by auto
    qed
    with okd(1) show ?thesis by (simp add: hm_ok_def)
  qed
  moreover have "inj_on ck_number (set (map ?bare (cs_done c)))"
    using strict(2) keys by (metis distinct_map)
  ultimately have parts: "set (map fst (hm_values (dk_saved d))) = set (map ?bare (cs_done c))"
    "distinct (map ck_number (map fst (hm_values (dk_saved d))))" "inj_on ck_number (set (map ?bare (cs_done c)))" by blast+
  define xs where "xs = map fst (hm_values (dk_saved d))"
  define ys where "ys = map ?bare (cs_done c)"
  have "sort_key ck_number xs = ys"
    using parts strict unfolding xs_def [symmetric] ys_def [symmetric] keys [symmetric]
    by (intro map_sorted_distinct_set_unique [of ck_number]) (auto simp: distinct_map)
  then have done': "cs_done (open_checkpoints d) = map ?bare (cs_done c)"
    by (simp add: open_checkpoints_def xs_def ys_def)
  have "unwinds big True (dk_saved d) (rev (zip (map ?bare (cs_done c)) hist)) (dk_files d)"
  proof -
    have bare: "unwinds big True (dk_saved d) (map (\<lambda>(ck, h). (?bare ck, h)) xs) m" if "unwinds big True (dk_saved d) xs m" for xs m
      using that by (induction xs arbitrary: m) (auto simp: ck_ok_def)
    have "rev (zip (map ?bare (cs_done c)) hist) = map (\<lambda>(ck, h). (?bare ck, h)) (rev (zip (cs_done c) hist))"
      by (simp add: zip_map1 rev_map)
    with bare [of "rev (zip (cs_done c) hist)" "dk_files d"] I(5) dir show ?thesis by simp
  qed
  moreover have "cs_dir (open_checkpoints d)" "cs_current (open_checkpoints d) = []" "cs_too_large (open_checkpoints d) = []"
    by (simp_all add: open_checkpoints_def)
  moreover have "ck_number ` set (map ?bare (cs_done c)) = ck_number ` set (cs_done c)" by (simp add: image_image)
  ultimately have "conv_inv big (open_checkpoints d) d hist"
    using I(3,4) okd unfolding conv_inv_def done' by (simp add: comp_def)
  with done' show ?thesis by simp
qed

lemma rewind_ok:
  assumes inv: "conv_inv big c d hist" and at: "at < length hist" and free: "\<forall>p. \<not> dk_locked d p"
  shows "\<exists>text c' d'. rewind shown io (ck_number (cs_done c ! at)) c d = (Inr (text, ck_messages_before (cs_done c ! at)), c', d') \<and>
    c' = c\<lparr>cs_done := take at (cs_done c)\<rparr> \<and> conv_inv big c' d' (take at hist) \<and> (\<forall>p. p \<notin> big \<longrightarrow> dk_files d' p = (hist ! at) p)"
proof -
  note I = conv_invD [OF inv]
  from I(4) have d: "distinct (map ck_number (cs_done c))" by (simp add: strict_sorted_iff)
  have l: "at < length (cs_done c)" using at I(3) by simp
  have "find (\<lambda>i. ck_number (cs_done c ! i) = ck_number (cs_done c ! at)) [0..<length (cs_done c)] = Some at"
  proof -
    have "ck_number (cs_done c ! i) \<noteq> ck_number (cs_done c ! at)" if "i < at" for i
      using nth_eq_iff_index_eq [OF d, of i at] l that by simp
    then show ?thesis using l by (auto simp: find_Some_iff intro!: exI [of _ at])
  qed
  then show ?thesis
    using rewind_loop_ok [OF inv less_imp_le [OF at] free, of shown io "[]"] at
    by (auto simp: rewind_def Let_def)
qed

lemma undo_ok:
  assumes inv: "conv_inv big c d hist" and ne: "cs_done c \<noteq> []" and free: "\<forall>p. \<not> dk_locked d p"
  shows "\<exists>text c' d'. undo shown io c d = (Inr text, c', d') \<and> c' = c\<lparr>cs_done := butlast (cs_done c)\<rparr> \<and>
    conv_inv big c' d' (butlast hist) \<and> (\<forall>p. p \<notin> big \<longrightarrow> dk_files d' p = last hist p)"
  using undo_step [OF assms, of shown io] ne by (auto simp: undo_def Let_def)

lemma conversation_inv: "conversation shown lossy big c d hist \<Longrightarrow> conv_inv big c d hist"
proof (induction rule: conversation.induct)
  case (conv_start c d)
  then show ?case by (simp add: conv_inv_def)
next
  case (conv_request c d hist request mb edits c1 d1 time t c' d')
  then show ?case by (intro inv_finish)
next
  case (conv_undo c d hist io t c' d')
  then have "cs_done c \<noteq> []" by (auto simp: undo_def)
  with undo_ok [OF conv_undo.IH this conv_undo.hyps(2), of shown io] conv_undo.hyps(3) show ?case by auto
next
  case (conv_rewind c d hist at io r c' d')
  with rewind_ok [OF conv_rewind.IH conv_rewind.hyps(3,2), of shown io] show ?case by auto
next
  case (conv_reopen c d hist)
  then show ?case using inv_reopen by blast
qed

lemma conversation_keep: "conversation shown lossy big c d hist \<Longrightarrow> length hist \<le> KEEP"
  by (induction rule: conversation.induct) (auto simp: keep_last_def)


lemma demo_conversation:
  "\<exists>c d ck. conversation id id {} c d [(\<lambda>_. None)(''a'' \<mapsto> ''x'')] \<and> dk_locked d = locked \<and> dk_files d ''a'' = Some ''y'' \<and>
     cs_done c = [ck] \<and> ck_files ck = [\<lparr>sf_path = ''a'', sf_backup = Some (backup_name 0)\<rparr>] \<and> ck_contents ck = [Some ''x'']"
proof -
  let ?c = "\<lparr>cs_dir = True, cs_current = [], cs_too_large = [], cs_title = [], cs_messages_before = 0, cs_done = []\<rparr>"
  let ?d = "\<lparr>dk_files = (\<lambda>_. None)(''a'' \<mapsto> ''x''), dk_locked = locked, dk_saved = []\<rparr>"
  let ?c1 = "(begin_request ''fix a'' 2 ?c)\<lparr>cs_current := [(''a'', Some ''x'')]\<rparr>"
  let ?d1 = "?d\<lparr>dk_files := (\<lambda>_. None)(''a'' \<mapsto> ''y'')\<rparr>"
  have ch: "change_files (begin_request ''fix a'' 2 ?c) ?d [(''a'', Some ''y'')] = (?c1, ?d1)"
    by (simp add: change_files_def change_file_def before_write_def begin_request_def MAX_FILE_BYTES_def)
  obtain t c' d' where fin: "finish_request id id ''12:00'' ?c1 ?d1 = (t, c', d')" by (metis prod_cases3)
  then have d': "dk_files d' ''a'' = Some ''y''" "dk_locked d' = locked" "cs_done c' = [checkpoint_of ''12:00'' ?c1]"
    by (auto simp: finish_request_def Let_def drop_oldest.simps begin_request_def save_checkpoint_def KEEP_def split: if_splits)
  have ck: "ck_files (checkpoint_of ''12:00'' ?c1) = [\<lparr>sf_path = ''a'', sf_backup = Some (backup_name 0)\<rparr>]"
    "ck_contents (checkpoint_of ''12:00'' ?c1) = [Some ''x'']"
    by (simp_all add: checkpoint_of_def)
  have "conversation id id {} c' d' (if cs_current ?c1 = [] then [] else keep_last ([] @ [dk_files ?d]))"
    by (rule conv_request [OF conv_start ch _ fin]) (simp_all add: begin_request_def)
  then have "conversation id id {} c' d' [(\<lambda>_. None)(''a'' \<mapsto> ''x'')]" by (simp add: keep_last_def KEEP_def)
  with d' ck show ?thesis by blast
qed


lemma restore_one_frame:
  "restore_one shown io c ck i f d = Inr d' \<Longrightarrow>
     dk_saved d' = dk_saved d \<and> dk_locked d' = dk_locked d \<and> (\<forall>p. p \<noteq> sf_path f \<longrightarrow> dk_files d' p = dk_files d p)"
  by (auto simp: restore_one_def Let_def split: option.splits if_splits)

lemma restore_files_frame:
  "restore_files shown io c ck ifs d = (r, d') \<Longrightarrow>
     dk_saved d' = dk_saved d \<and> (\<forall>p. p \<notin> sf_path ` snd ` set ifs \<longrightarrow> dk_files d' p = dk_files d p)"
proof (induction ifs arbitrary: d r)
  case (Cons x ifs)
  obtain i f where x: "x = (i, f)" by (cases x)
  show ?case
  proof (cases "restore_one shown io c ck i f d")
    case (Inr d1)
    from restore_one_frame [OF Inr] Cons.prems Cons.IH [of d1] show ?thesis
      by (auto simp: x Inr split: prod.splits sum.splits)
  qed (use Cons.prems in \<open>simp add: x\<close>)
qed simp

lemma failed_restore_inv:
  assumes inv: "conv_inv big c d hist" and ne: "cs_done c \<noteq> []"
    and r: "restore shown io (c\<lparr>cs_done := butlast (cs_done c)\<rparr>) (last (cs_done c)) d = (Inl e, d')"
  shows "conv_inv big c d' hist"
proof -
  note I = conv_invD [OF inv]
  obtain older ck where done': "cs_done c = older @ [ck]" using ne by (metis append_butlast_last_id)
  from ne I(3) have "hist \<noteq> []" by auto
  then obtain hs h where hist: "hist = hs @ [h]" by (metis append_butlast_last_id)
  have len: "length hs = length older" using I(3) by (simp add: done' hist)
  from r obtain d1 where "restore_files shown io (c\<lparr>cs_done := butlast (cs_done c)\<rparr>) ck (rev (enumerate 0 (ck_files ck))) d = (Inl e, d1)"
    "d' = d1" by (auto simp: restore_def done' split: prod.splits sum.splits)
  from restore_files_frame [OF this(1)] this(2) have "dk_saved d' = dk_saved d"
    "p \<notin> sf_path ` set (ck_files ck) \<Longrightarrow> dk_files d' p = dk_files d p" for p
    by (simp_all flip: set_map)
  with I len show ?thesis by (simp add: conv_inv_def done' hist)
qed

text \<open>
  A file that cannot be written or removed stops \<open>/undo\<close> with an error, and the undo can be tried again:
  the checkpoint stays the last one, with its saved copies, and once the file can be written the second try
  puts everything back.
\<close>

theorem failed_undo_can_be_retried:
  assumes "conversation shown lossy big c d hist" and "undo shown io c d = (Inl e, c', d')" and "hist \<noteq> []"
  shows "cs_done c' = cs_done c \<and> dk_saved d' = dk_saved d \<and>
    (\<exists>text c'' d''. undo shown io c' (d'\<lparr>dk_locked := \<lambda>_. False\<rparr>) = (Inr text, c'', d'') \<and>
      cs_done c'' = butlast (cs_done c) \<and> (\<forall>p. p \<notin> big \<longrightarrow> dk_files d'' p = last hist p))"
proof -
  from conversation_inv [OF assms(1)] have inv: "conv_inv big c d hist" .
  from conv_invD(3) [OF inv] assms(3) have ne: "cs_done c \<noteq> []" by auto
  from assms(2) ne have r: "restore shown io (c\<lparr>cs_done := butlast (cs_done c)\<rparr>) (last (cs_done c)) d = (Inl e, d')"
    and c': "c' = c" by (auto simp: undo_def Let_def split: prod.splits sum.splits)
  have "dk_saved d' = dk_saved d"
    using r by (auto simp: restore_def dest!: restore_files_frame split: prod.splits sum.splits)
  moreover have "conv_inv big c (d'\<lparr>dk_locked := \<lambda>_. False\<rparr>) hist"
    using failed_restore_inv [OF inv ne r] by (simp add: conv_inv_def)
  from undo_ok [OF this ne, of shown io]
  have "\<exists>text c'' d''. undo shown io c (d'\<lparr>dk_locked := \<lambda>_. False\<rparr>) = (Inr text, c'', d'') \<and>
      cs_done c'' = butlast (cs_done c) \<and> (\<forall>p. p \<notin> big \<longrightarrow> dk_files d'' p = last hist p)" by auto
  ultimately show ?thesis using c' by simp
qed

theorem failed_undo_can_be_retried_witness:
  "\<exists>c d c' d' e. undo id ''denied'' c d = (Inl e, c', d') \<and>
     (\<exists>text c'' d''. undo id ''denied'' c' (d'\<lparr>dk_locked := \<lambda>_. False\<rparr>) = (Inr text, c'', d'') \<and> dk_files d'' ''a'' = Some ''x'')"
proof -
  from demo_conversation [of "\<lambda>_. True"] obtain c d ck where
    cd: "conversation id id {} c d [(\<lambda>_. None)(''a'' \<mapsto> ''x'')]" "dk_locked d = (\<lambda>_. True)" "cs_done c = [ck]"
      "ck_files ck = [\<lparr>sf_path = ''a'', sf_backup = Some (backup_name 0)\<rparr>]" "ck_contents ck = [Some ''x'']" by blast
  then have u: "undo id ''denied'' c d = (Inl (''a'' @ '': '' @ ''denied''), c, d)"
    by (simp add: undo_def Let_def restore_def restore_one_def)
  from failed_undo_can_be_retried [OF cd(1) u]
  have "\<exists>text c'' d''. undo id ''denied'' c (d\<lparr>dk_locked := \<lambda>_. False\<rparr>) = (Inr text, c'', d'') \<and> dk_files d'' ''a'' = Some ''x''"
    by auto
  with u show ?thesis by blast
qed

end
