(* ===== verification/Event_Log.thy ===== *)
theory Event_Log
  imports Json
begin

text \<open>
  agents/src/memory/events.rs and the contract of agents/src/memory/store.rs: the events of a chat's log,
  how an event to append becomes a logged one, and what every backend of the log promises.
  A backend is the record of its operations over its own state (\<open>dyn EventStore\<close>); an operation
  that reads may fail to return, so it has an option result. Errors of the file system do not occur.
\<close>

definition EVENT_VERSION :: nat where "EVENT_VERSION = 1"
definition SEGMENT_BYTES :: nat where "SEGMENT_BYTES = 8 * 1024 * 1024"
definition BLOB_BYTES :: nat where "BLOB_BYTES = 8 * 1024"
definition HOT_LOGS :: nat where "HOT_LOGS = 4"

record event =
  ev_v :: nat
  ev_id :: string
  ev_chat :: string
  ev_seq :: nat
  ev_ts :: string
  ev_kind :: string
  ev_data :: "(string \<times> json) list"

record new_event =
  ne_kind :: string
  ne_data :: "(string \<times> json) list"
  ne_ts :: "string option"

definition new_event_of :: "string \<Rightarrow> json \<Rightarrow> new_event" where
  "new_event_of kind data = \<lparr>ne_kind = kind, ne_data = (case data of JObj m \<Rightarrow> m | _ \<Rightarrow> []), ne_ts = None\<rparr>"

definition event_str :: "string \<Rightarrow> event \<Rightarrow> string option" where
  "event_str key e = Option.bind (obj_get key (ev_data e)) json_str"

record read_log =
  rl_events :: "event list"
  rl_skipped :: nat

definition empty_log :: read_log where
  "empty_log = \<lparr>rl_events = [], rl_skipped = 0\<rparr>"

record delete_report =
  dr_files :: nat
  dr_bytes :: nat

section \<open>From an event to append to a logged one\<close>

definition RESERVED :: "string list" where
  "RESERVED = [''v'', ''id'', ''chat'', ''seq'', ''ts'', ''kind'']"

definition drop_reserved :: "(string \<times> json) list \<Rightarrow> (string \<times> json) list" where
  "drop_reserved data = foldl (\<lambda>m k. obj_remove k m) data RESERVED"

text \<open>\<open>put\<close> stores bytes by content and gives the reference (\<open>put_blob\<close> of the backend).\<close>

fun move_large_fields :: "(string \<Rightarrow> 'b \<Rightarrow> string \<times> 'b) \<Rightarrow> (string \<times> json) list \<Rightarrow> 'b \<Rightarrow> (string \<times> json) list \<times> 'b" where
  "move_large_fields put [] b = ([], b)"
| "move_large_fields put ((k, v) # m) b =
     (let (v', b') =
        (case v of
           JStr t \<Rightarrow>
             if length t > BLOB_BYTES
             then (case put t b of (r, b1) \<Rightarrow> (JObj [(''blob'', JStr r), (''size'', json_nat (length t))], b1))
             else (v, b)
         | _ \<Rightarrow> (v, b));
          (m', b'') = move_large_fields put m b'
      in ((k, v') # m', b''))"

definition logged_event :: "string \<Rightarrow> string \<Rightarrow> string \<Rightarrow> nat \<Rightarrow> new_event \<Rightarrow> (string \<times> json) list \<Rightarrow> event" where
  "logged_event chat now i seq e data =
     \<lparr>ev_v = EVENT_VERSION, ev_id = ''ev_'' @ i, ev_chat = chat, ev_seq = seq,
      ev_ts = (case ne_ts e of Some t \<Rightarrow> t | None \<Rightarrow> now), ev_kind = ne_kind e, ev_data = data\<rparr>"

text \<open>The loop of \<open>append\<close>; \<open>uuid n\<close> is the id drawn for the event numbered \<open>n\<close>.\<close>

fun log_events ::
  "(string \<Rightarrow> 'b \<Rightarrow> string \<times> 'b) \<Rightarrow> string \<Rightarrow> string \<Rightarrow> (nat \<Rightarrow> string) \<Rightarrow> nat \<Rightarrow> new_event list \<Rightarrow> 'b \<Rightarrow> event list \<times> 'b" where
  "log_events put chat now uuid n [] b = ([], b)"
| "log_events put chat now uuid n (e # es) b =
     (let (data, b1) = move_large_fields put (drop_reserved (ne_data e)) b;
          (written, b2) = log_events put chat now uuid (Suc n) es b1
      in (logged_event chat now (uuid n) n e data # written, b2))"

definition next_seq :: "event list \<Rightarrow> nat" where
  "next_seq es = (if es = [] then 1 else ev_seq (last es) + 1)"

text \<open>What the loop logs, from the digest of the blobs alone.\<close>

definition blob_ref :: "(string \<Rightarrow> string) \<Rightarrow> string \<Rightarrow> string" where
  "blob_ref sha bytes = ''sha256:'' @ sha bytes"

definition logged_field :: "(string \<Rightarrow> string) \<Rightarrow> json \<Rightarrow> json" where
  "logged_field sha v =
     (case v of
        JStr t \<Rightarrow>
          if length t > BLOB_BYTES then JObj [(''blob'', JStr (blob_ref sha t)), (''size'', json_nat (length t))] else v
      | _ \<Rightarrow> v)"

definition logged_data :: "(string \<Rightarrow> string) \<Rightarrow> (string \<times> json) list \<Rightarrow> (string \<times> json) list" where
  "logged_data sha m = map (map_prod id (logged_field sha)) (filter (\<lambda>(k, _). k \<notin> set RESERVED) m)"

fun logged_as :: "(string \<Rightarrow> string) \<Rightarrow> string \<Rightarrow> string \<Rightarrow> (nat \<Rightarrow> string) \<Rightarrow> nat \<Rightarrow> new_event list \<Rightarrow> event list" where
  "logged_as sha chat now uuid n [] = []"
| "logged_as sha chat now uuid n (e # es) =
     logged_event chat now (uuid n) n e (logged_data sha (ne_data e)) # logged_as sha chat now uuid (Suc n) es"

text \<open>The large texts among the fields of the events.\<close>

definition large_texts :: "new_event list \<Rightarrow> string set" where
  "large_texts es = {t. length t > BLOB_BYTES \<and> (\<exists>e\<in>set es. \<exists>k. k \<notin> set RESERVED \<and> (k, JStr t) \<in> set (ne_data e))}"

lemma drop_reserved: "drop_reserved data = filter (\<lambda>(k, _). k \<notin> set RESERVED) data"
  by (simp add: drop_reserved_def RESERVED_def obj_remove_def case_prod_beta) (rule filter_cong, auto)

lemma move_large_fields_logged:
  assumes "\<And>t b. fst (put t b) = blob_ref sha t"
  shows "fst (move_large_fields put m b) = map (map_prod id (logged_field sha)) m"
  using assms
  by (induction m arbitrary: b)
     (auto simp: logged_field_def split: json.split prod.split, (metis fst_conv)+)

lemma log_events_logged:
  assumes "\<And>t b. fst (put t b) = blob_ref sha t"
  shows "fst (log_events put chat now uuid n es b) = logged_as sha chat now uuid n es"
proof (induction es arbitrary: n b)
  case (Cons e es)
  show ?case
    using Cons.IH [of "Suc n" "snd (move_large_fields put (drop_reserved (ne_data e)) b)"]
      move_large_fields_logged [of put sha "drop_reserved (ne_data e)" b, OF assms]
    by (simp add: Let_def case_prod_beta logged_data_def drop_reserved)
qed simp

lemma logged_as_length [simp]: "length (logged_as sha chat now uuid n es) = length es"
  by (induction es arbitrary: n) auto

lemma logged_as_seq [simp]: "map ev_seq (logged_as sha chat now uuid n es) = [n..<n + length es]"
  by (induction es arbitrary: n) (auto simp: logged_event_def upt_rec)

lemma logged_as_chat: "e \<in> set (logged_as sha chat now uuid n es) \<Longrightarrow> ev_chat e = chat"
  by (induction es arbitrary: n) (auto simp: logged_event_def)

lemma logged_as_Nil [simp]: "logged_as sha chat now uuid n es = [] \<longleftrightarrow> es = []"
  by (cases es) auto

text \<open>Whatever \<open>put\<close> keeps, the loop of \<open>append\<close> keeps.\<close>

lemma move_large_fields_keeps:
  assumes "\<And>t b r b'. put t b = (r, b') \<Longrightarrow> P b \<Longrightarrow> P b'" and "move_large_fields put m b = (m', b')" and "P b"
  shows "P b'"
  using assms(2,3)
proof (induction m arbitrary: b m')
  case (Cons kv m)
  obtain k v where kv: "kv = (k, v)" by (cases kv)
  show ?case
  proof (cases "\<exists>t. v = JStr t \<and> length t > BLOB_BYTES")
    case True
    then obtain t where v: "v = JStr t" "length t > BLOB_BYTES" by blast
    obtain r b1 where put: "put t b = (r, b1)" by (cases "put t b")
    from assms(1) [OF put Cons.prems(2)] have "P b1" .
    with Cons.prems(1) kv v put show ?thesis by (auto simp: Let_def split: prod.splits intro: Cons.IH)
  next
    case False
    with Cons.prems kv show ?thesis by (auto simp: Let_def split: prod.splits json.splits if_splits intro: Cons.IH)
  qed
qed simp

lemma log_events_keeps:
  assumes "\<And>t b r b'. put t b = (r, b') \<Longrightarrow> P b \<Longrightarrow> P b'" and "log_events put chat now uuid n es b = (w, b')" and "P b"
  shows "P b'"
  using assms(2,3)
proof (induction es arbitrary: n b w)
  case (Cons e es)
  then show ?case
    using move_large_fields_keeps [of put P, OF assms(1)] by (auto simp: Let_def split: prod.splits)
qed simp

text \<open>What \<open>put\<close> sets up for a text and keeps for all others holds for every large text afterwards.\<close>

lemma move_large_fields_puts:
  assumes "\<And>t b r b'. put t b = (r, b') \<Longrightarrow> Q t b'" and "\<And>t u b r b'. put t b = (r, b') \<Longrightarrow> Q u b \<Longrightarrow> Q u b'"
    and "move_large_fields put m b = (m', b')" and "(k, JStr t) \<in> set m" and "length t > BLOB_BYTES"
  shows "Q t b'"
  using assms(3,4)
proof (induction m arbitrary: b m')
  case (Cons kv m)
  show ?case
  proof (cases "(k, JStr t) \<in> set m")
    case True
    with Cons show ?thesis by (cases kv) (auto simp: Let_def split: prod.splits)
  next
    case False
    with Cons.prems have kv: "kv = (k, JStr t)" by auto
    obtain r b1 where put: "put t b = (r, b1)" by (cases "put t b")
    from assms(1) [OF put] have "Q t b1" .
    moreover from Cons.prems(1) kv assms(5) put obtain m1 where "move_large_fields put m b1 = (m1, b')"
      by (auto simp: Let_def split: prod.splits)
    ultimately show ?thesis using move_large_fields_keeps [of put "Q t"] assms(2) by metis
  qed
qed simp

lemma log_events_puts:
  assumes "\<And>t b r b'. put t b = (r, b') \<Longrightarrow> Q t b'" and "\<And>t u b r b'. put t b = (r, b') \<Longrightarrow> Q u b \<Longrightarrow> Q u b'"
    and "log_events put chat now uuid n es b = (w, b')" and "t \<in> large_texts es"
  shows "Q t b'"
  using assms(3,4)
proof (induction es arbitrary: n b w)
  case (Cons e es)
  obtain data b1 where d: "move_large_fields put (drop_reserved (ne_data e)) b = (data, b1)" by fastforce
  with Cons.prems(1) obtain w1 where w: "log_events put chat now uuid (Suc n) es b1 = (w1, b')"
    by (auto simp: Let_def split: prod.splits)
  show ?case
  proof (cases "t \<in> large_texts es")
    case True
    with Cons.IH [OF w] show ?thesis by simp
  next
    case False
    with Cons.prems(2) obtain k where "(k, JStr t) \<in> set (drop_reserved (ne_data e))" "length t > BLOB_BYTES"
      by (auto simp: large_texts_def drop_reserved)
    from move_large_fields_puts [of put Q, OF assms(1,2) d this] have "Q t b1" .
    with log_events_keeps [of put "Q t", OF assms(2) w] show ?thesis by simp
  qed
qed (simp add: large_texts_def)

lemma next_seq_above: "sorted (map ev_seq es) \<Longrightarrow> e \<in> set es \<Longrightarrow> ev_seq e < next_seq es"
  by (induction es rule: rev_induct) (auto simp: next_seq_def sorted_append less_Suc_eq_le)

lemma sorted_logged:
  "sorted (map ev_seq es) \<Longrightarrow> sorted (map ev_seq (es @ logged_as sha c now uuid (next_seq es) news))"
  using next_seq_above [of es] by (fastforce simp: sorted_append)

section \<open>The contract of a backend\<close>

record 's store_ops =
  so_append :: "string \<Rightarrow> string \<Rightarrow> (nat \<Rightarrow> string) \<Rightarrow> new_event list \<Rightarrow> 's \<Rightarrow> (event list \<times> 's) option"
  so_sync :: "string \<Rightarrow> 's \<Rightarrow> 's"
  so_read :: "string \<Rightarrow> 's \<Rightarrow> read_log option"
  so_read_shared :: "string \<Rightarrow> 's \<Rightarrow> (read_log \<times> 's) option"
  so_put_blob :: "string \<Rightarrow> 's \<Rightarrow> string \<times> 's"
  so_get_blob :: "string \<Rightarrow> 's \<Rightarrow> string + string"
  so_delete_chat :: "string \<Rightarrow> 's \<Rightarrow> delete_report \<times> 's"

definition chat_log :: "'s store_ops \<Rightarrow> string \<Rightarrow> 's \<Rightarrow> event list" where
  "chat_log ops chat s = (case so_read ops chat s of Some l \<Rightarrow> rl_events l | None \<Rightarrow> [])"

text \<open>A blob of the reference is there, with the same digest.\<close>

definition has_blob :: "'s store_ops \<Rightarrow> (string \<Rightarrow> string) \<Rightarrow> string \<Rightarrow> 's \<Rightarrow> bool" where
  "has_blob ops sha t s \<longleftrightarrow> (\<exists>b. so_get_blob ops (blob_ref sha t) s = Inr b \<and> sha b = sha t)"

text \<open>
  The chats the laws hold for are \<open>chats\<close>; \<open>room\<close> says that an append still has a name for the segment it may
  close, and \<open>writable\<close> that an event comes back from its line.
\<close>

locale event_store =
  fixes ops :: "'s store_ops"
    and inv :: "'s \<Rightarrow> bool"
    and chats :: "string set"
    and room :: "string \<Rightarrow> 's \<Rightarrow> bool"
    and writable :: "event \<Rightarrow> bool"
    and sha :: "string \<Rightarrow> string"
  assumes read_returns: "inv s \<Longrightarrow> c \<in> chats \<Longrightarrow> so_read ops c s \<noteq> None"
    and log_ascending: "inv s \<Longrightarrow> c \<in> chats \<Longrightarrow> sorted (map ev_seq (chat_log ops c s))"
    and read_shared_law: "inv s \<Longrightarrow> c \<in> chats \<Longrightarrow>
      \<exists>l s'. so_read_shared ops c s = Some (l, s') \<and> so_read ops c s = Some l \<and> inv s' \<and>
        (\<forall>d\<in>chats. chat_log ops d s' = chat_log ops d s \<and> room d s' = room d s)"
    and append_law: "inv s \<Longrightarrow> c \<in> chats \<Longrightarrow> room c s \<Longrightarrow>
      es = logged_as sha c now uuid (next_seq (chat_log ops c s)) news \<Longrightarrow> Ball (set es) writable \<Longrightarrow>
      \<exists>s'. so_append ops c now uuid news s = Some (es, s') \<and> inv s' \<and>
        chat_log ops c s' = chat_log ops c s @ es \<and>
        (\<forall>d\<in>chats. d \<noteq> c \<longrightarrow> chat_log ops d s' = chat_log ops d s) \<and>
        (\<forall>t. has_blob ops sha t s \<or> t \<in> large_texts news \<longrightarrow> has_blob ops sha t s')"
    and delete_law: "inv s \<Longrightarrow> c \<in> chats \<Longrightarrow> so_delete_chat ops c s = (r, s') \<Longrightarrow>
      inv s' \<and> chat_log ops c s' = [] \<and> (\<forall>d\<in>chats. d \<noteq> c \<longrightarrow> chat_log ops d s' = chat_log ops d s) \<and>
        (\<forall>t. has_blob ops sha t s \<longrightarrow> has_blob ops sha t s')"
begin

lemma append_shared:
  assumes "inv s" and "c \<in> chats" and "room c s"
    and "es = logged_as sha c now uuid (next_seq (chat_log ops c s)) news" and "Ball (set es) writable"
  shows "\<exists>s' l s''. so_append ops c now uuid news s = Some (es, s') \<and> so_read_shared ops c s' = Some (l, s'') \<and>
    rl_events l = chat_log ops c s @ es \<and> inv s''"
proof -
  from append_law [OF assms] obtain s' where s': "so_append ops c now uuid news s = Some (es, s')" "inv s'"
    "chat_log ops c s' = chat_log ops c s @ es" by blast
  from read_shared_law [OF this(2) assms(2)] obtain l s'' where "so_read_shared ops c s' = Some (l, s'')"
    "so_read ops c s' = Some l" "inv s''" by blast
  with s' show ?thesis by (force simp: chat_log_def)
qed

text \<open>A field that was too large for the log is found under the reference its event carries.\<close>

lemma large_field_found:
  assumes "inv s" and "c \<in> chats" and "room c s"
    and "es = logged_as sha c now uuid (next_seq (chat_log ops c s)) news" and "Ball (set es) writable"
    and "t \<in> large_texts news"
  shows "\<exists>s'. so_append ops c now uuid news s = Some (es, s') \<and> has_blob ops sha t s'"
  using append_law [OF assms(1-5)] assms(6) by blast

lemma delete_starts_over:
  assumes "inv s" and "c \<in> chats" and "so_delete_chat ops c s = (r, s')" and "room c s'"
    and "es = logged_as sha c now uuid 1 news" and "Ball (set es) writable"
  shows "\<exists>s''. so_append ops c now uuid news s' = Some (es, s'') \<and> chat_log ops c s'' = es"
proof -
  from delete_law [OF assms(1-3)] have "inv s'" "chat_log ops c s' = []" by blast+
  with append_law [of s' c es now uuid news] assms show ?thesis by (auto simp: next_seq_def)
qed

end

end
