(* ===== verification/Mem_Store.thy ===== *)
theory Mem_Store
  imports Event_Log
begin

text \<open>
  agents/src/memory/external.rs: the backend of chats the app keeps. Events live in RAM only; what was
  added is given to the app once, with the next answer. \<open>sha\<close> is the digest of a blob and
  \<open>json_bytes\<close> the length of the events' JSON.
\<close>

record mem_store =
  ms_chats :: "(string, event list) hmap"
  ms_blobs :: "(string, string) hmap"
  ms_delivered :: "(string, nat) hmap"

definition mem_new :: mem_store where
  "mem_new = \<lparr>ms_chats = [], ms_blobs = [], ms_delivered = []\<rparr>"

definition mem_events :: "string \<Rightarrow> mem_store \<Rightarrow> event list" where
  "mem_events chat s = (case hm_get chat (ms_chats s) of Some es \<Rightarrow> es | None \<Rightarrow> [])"

definition mem_load :: "string \<Rightarrow> event list \<Rightarrow> mem_store \<Rightarrow> mem_store" where
  "mem_load chat events s =
     (let es = map (\<lambda>e. e\<lparr>ev_chat := chat\<rparr>) (sort_key ev_seq events)
      in s\<lparr>ms_chats := hm_insert chat es (ms_chats s),
           ms_delivered := hm_insert chat (if es = [] then 0 else ev_seq (last es)) (ms_delivered s)\<rparr>)"

definition delivered_to :: "string \<Rightarrow> mem_store \<Rightarrow> nat" where
  "delivered_to chat s = (case hm_get chat (ms_delivered s) of Some n \<Rightarrow> n | None \<Rightarrow> 0)"

definition undelivered :: "string \<Rightarrow> mem_store \<Rightarrow> event list \<times> mem_store" where
  "undelivered chat s =
     (let es = filter (\<lambda>e. ev_seq e > delivered_to chat s) (mem_events chat s)
      in (es, if es = [] then s else s\<lparr>ms_delivered := hm_insert chat (ev_seq (last es)) (ms_delivered s)\<rparr>))"

definition mem_put_blob :: "(string \<Rightarrow> string) \<Rightarrow> string \<Rightarrow> mem_store \<Rightarrow> string \<times> mem_store" where
  "mem_put_blob sha bytes s = (blob_ref sha bytes, s\<lparr>ms_blobs := hm_insert (blob_ref sha bytes) bytes (ms_blobs s)\<rparr>)"

definition mem_get_blob :: "string \<Rightarrow> mem_store \<Rightarrow> string + string" where
  "mem_get_blob reference s = (case hm_get reference (ms_blobs s) of Some b \<Rightarrow> Inr b | None \<Rightarrow> Inl ''no such blob'')"

definition mem_append ::
  "(string \<Rightarrow> string) \<Rightarrow> string \<Rightarrow> string \<Rightarrow> (nat \<Rightarrow> string) \<Rightarrow> new_event list \<Rightarrow> mem_store \<Rightarrow> event list \<times> mem_store" where
  "mem_append sha chat now uuid events s =
     (let log = mem_events chat s;
          (written, s') = log_events (mem_put_blob sha) chat now uuid (next_seq log) events s
      in (written, s'\<lparr>ms_chats := hm_insert chat (log @ written) (ms_chats s')\<rparr>))"

definition mem_read :: "string \<Rightarrow> mem_store \<Rightarrow> read_log" where
  "mem_read chat s = \<lparr>rl_events = mem_events chat s, rl_skipped = 0\<rparr>"

definition mem_delete_chat :: "(event list \<Rightarrow> nat) \<Rightarrow> string \<Rightarrow> mem_store \<Rightarrow> delete_report \<times> mem_store" where
  "mem_delete_chat json_bytes chat s =
     (case hm_get chat (ms_chats s) of
        Some es \<Rightarrow> \<lparr>dr_files = 1, dr_bytes = json_bytes es\<rparr>
      | None \<Rightarrow> \<lparr>dr_files = 0, dr_bytes = 0\<rparr>,
      s\<lparr>ms_delivered := hm_remove chat (ms_delivered s), ms_chats := hm_remove chat (ms_chats s)\<rparr>)"

text \<open>As a backend; the read is shared as it is (the default of the contract).\<close>

definition mem_ops :: "(string \<Rightarrow> string) \<Rightarrow> (event list \<Rightarrow> nat) \<Rightarrow> mem_store store_ops" where
  "mem_ops sha json_bytes =
     \<lparr>so_append = (\<lambda>c now uuid es s. Some (mem_append sha c now uuid es s)),
      so_sync = (\<lambda>c s. s),
      so_read = (\<lambda>c s. Some (mem_read c s)),
      so_read_shared = (\<lambda>c s. Some (mem_read c s, s)),
      so_put_blob = mem_put_blob sha,
      so_get_blob = mem_get_blob,
      so_delete_chat = mem_delete_chat json_bytes\<rparr>"

section \<open>The contract\<close>

definition mem_inv :: "(string \<Rightarrow> string) \<Rightarrow> mem_store \<Rightarrow> bool" where
  "mem_inv sha s \<longleftrightarrow> (\<forall>c. sorted (map ev_seq (mem_events c s))) \<and>
     (\<forall>r b. hm_get r (ms_blobs s) = Some b \<longrightarrow> r = blob_ref sha b)"

lemma mem_ops_simps [simp]:
  "so_append (mem_ops sha json_bytes) c now uuid es s = Some (mem_append sha c now uuid es s)"
  "so_read (mem_ops sha json_bytes) c s = Some (mem_read c s)"
  "so_read_shared (mem_ops sha json_bytes) c s = Some (mem_read c s, s)"
  "so_put_blob (mem_ops sha json_bytes) t s = mem_put_blob sha t s"
  "so_get_blob (mem_ops sha json_bytes) r s = mem_get_blob r s"
  "so_delete_chat (mem_ops sha json_bytes) c s = mem_delete_chat json_bytes c s"
  by (simp_all add: mem_ops_def)

lemma mem_chat_log [simp]: "chat_log (mem_ops sha json_bytes) c s = mem_events c s"
  by (simp add: chat_log_def mem_read_def)

lemma blob_ref_inj [simp]: "blob_ref sha a = blob_ref sha b \<longleftrightarrow> sha a = sha b"
  by (simp add: blob_ref_def)

lemma mem_has_blob:
  "mem_inv sha s \<Longrightarrow> has_blob (mem_ops sha json_bytes) sha t s \<longleftrightarrow> hm_get (blob_ref sha t) (ms_blobs s) \<noteq> None"
  by (fastforce simp: has_blob_def mem_get_blob_def mem_inv_def split: option.splits)

lemma mem_put_frame:
  "mem_put_blob sha t s = (r, s') \<Longrightarrow>
     ms_chats s' = ms_chats s \<and> ms_delivered s' = ms_delivered s \<and> (mem_inv sha s \<longrightarrow> mem_inv sha s') \<and>
     (\<forall>u. hm_get (blob_ref sha u) (ms_blobs s') \<noteq> None \<longleftrightarrow> hm_get (blob_ref sha u) (ms_blobs s) \<noteq> None \<or> sha u = sha t)"
  by (auto simp: mem_put_blob_def mem_inv_def mem_events_def split: if_splits)

lemma mem_append_spec:
  assumes inv: "mem_inv sha s" and app: "mem_append sha c now uuid news s = (es, s')"
  shows "es = logged_as sha c now uuid (next_seq (mem_events c s)) news \<and> mem_inv sha s' \<and>
    mem_events c s' = mem_events c s @ es \<and> (\<forall>d. d \<noteq> c \<longrightarrow> mem_events d s' = mem_events d s) \<and>
    ms_delivered s' = ms_delivered s \<and>
    (\<forall>t. hm_get (blob_ref sha t) (ms_blobs s) \<noteq> None \<or> t \<in> large_texts news \<longrightarrow> hm_get (blob_ref sha t) (ms_blobs s') \<noteq> None)"
proof -
  obtain s1 where log: "log_events (mem_put_blob sha) c now uuid (next_seq (mem_events c s)) news s = (es, s1)"
    and s': "s' = s1\<lparr>ms_chats := hm_insert c (mem_events c s @ es) (ms_chats s1)\<rparr>"
    using app by (auto simp: mem_append_def Let_def split: prod.splits)
  note keeps = log_events_keeps [OF _ log]
  have frame: "ms_chats s1 = ms_chats s \<and> ms_delivered s1 = ms_delivered s \<and> mem_inv sha s1"
    by (rule keeps [of "\<lambda>s1. ms_chats s1 = ms_chats s \<and> ms_delivered s1 = ms_delivered s \<and> mem_inv sha s1"])
       (use inv mem_put_frame in \<open>fastforce+\<close>)
  have es: "es = logged_as sha c now uuid (next_seq (mem_events c s)) news"
    using log_events_logged [of "mem_put_blob sha" sha c now uuid "next_seq (mem_events c s)" news s] log
    by (simp add: mem_put_blob_def)
  have old: "hm_get (blob_ref sha t) (ms_blobs s) \<noteq> None \<Longrightarrow> hm_get (blob_ref sha t) (ms_blobs s1) \<noteq> None" for t
    by (rule keeps [of "\<lambda>s1. hm_get (blob_ref sha t) (ms_blobs s1) \<noteq> None"]) (use mem_put_frame in \<open>fast+\<close>)
  have new: "t \<in> large_texts news \<Longrightarrow> hm_get (blob_ref sha t) (ms_blobs s1) \<noteq> None" for t
    by (rule log_events_puts [OF _ _ log, of "\<lambda>t s1. hm_get (blob_ref sha t) (ms_blobs s1) \<noteq> None"])
       (use mem_put_frame in \<open>fast+\<close>)
  have "sorted (map ev_seq (mem_events c s @ es))"
    using inv sorted_logged [of "mem_events c s"] by (simp add: es mem_inv_def)
  then have "mem_inv sha s'" using frame inv by (auto simp: mem_inv_def s' mem_events_def)
  with frame old new show ?thesis by (auto simp: es s' mem_events_def)
qed

interpretation mem: event_store "mem_ops sha json_bytes" "mem_inv sha" UNIV "\<lambda>_ _. True" "\<lambda>_. True" sha
proof unfold_locales
  fix s c es now uuid news
  assume inv: "mem_inv sha s" and es: "es = logged_as sha c now uuid (next_seq (chat_log (mem_ops sha json_bytes) c s)) news"
  obtain w s' where app: "mem_append sha c now uuid news s = (w, s')" by fastforce
  from mem_append_spec [OF inv app] show "\<exists>s'. so_append (mem_ops sha json_bytes) c now uuid news s = Some (es, s') \<and> mem_inv sha s' \<and>
    chat_log (mem_ops sha json_bytes) c s' = chat_log (mem_ops sha json_bytes) c s @ es \<and>
    (\<forall>d\<in>UNIV. d \<noteq> c \<longrightarrow> chat_log (mem_ops sha json_bytes) d s' = chat_log (mem_ops sha json_bytes) d s) \<and>
    (\<forall>t. has_blob (mem_ops sha json_bytes) sha t s \<or> t \<in> large_texts news \<longrightarrow> has_blob (mem_ops sha json_bytes) sha t s')"
    using es inv by (auto simp: app mem_has_blob)
qed (auto simp: mem_inv_def mem_events_def mem_delete_chat_def has_blob_def mem_get_blob_def)

section \<open>What the app is given\<close>

datatype mem_op =
    MLoad string "event list"
  | MAppend string "event list"
  | MDeliver string "event list"
  | MDelete string

inductive mem_step :: "(string \<Rightarrow> string) \<Rightarrow> (event list \<Rightarrow> nat) \<Rightarrow> mem_op list \<Rightarrow> mem_store \<Rightarrow> mem_op \<Rightarrow> mem_store \<Rightarrow> bool"
  for sha json_bytes where
  mem_step_load: "mem_step sha json_bytes hist s (MLoad c es) (mem_load c es s)"
| mem_step_append: "mem_append sha c now uuid news s = (es, s') \<Longrightarrow> mem_step sha json_bytes hist s (MAppend c es) s'"
| mem_step_deliver: "undelivered c s = (es, s') \<Longrightarrow> mem_step sha json_bytes hist s (MDeliver c es) s'"
| mem_step_delete: "mem_delete_chat json_bytes c s = (r, s') \<Longrightarrow> mem_step sha json_bytes hist s (MDelete c) s'"

inductive_cases mem_step_cases: "mem_step sha json_bytes hist s e s'"

text \<open>
  What was appended to a chat, and what was given to the app of it, since it was last imported or deleted,
  oldest first; the history is newest first.
\<close>

fun appended_to :: "string \<Rightarrow> mem_op list \<Rightarrow> event list" where
  "appended_to c [] = []"
| "appended_to c (MLoad d es # h) = (if d = c then [] else appended_to c h)"
| "appended_to c (MDelete d # h) = (if d = c then [] else appended_to c h)"
| "appended_to c (MAppend d es # h) = appended_to c h @ (if d = c then es else [])"
| "appended_to c (MDeliver d es # h) = appended_to c h"

fun given_of :: "string \<Rightarrow> mem_op list \<Rightarrow> event list" where
  "given_of c [] = []"
| "given_of c (MLoad d es # h) = (if d = c then [] else given_of c h)"
| "given_of c (MDelete d # h) = (if d = c then [] else given_of c h)"
| "given_of c (MAppend d es # h) = given_of c h"
| "given_of c (MDeliver d es # h) = given_of c h @ (if d = c then es else [])"

definition pending_inv :: "string \<Rightarrow> mem_op list \<Rightarrow> mem_store \<Rightarrow> bool" where
  "pending_inv c hist s \<longleftrightarrow> (\<exists>old rest.
     mem_events c s = old @ given_of c hist @ rest \<and> appended_to c hist = given_of c hist @ rest \<and>
     (\<forall>e\<in>set (old @ given_of c hist). ev_seq e \<le> delivered_to c s) \<and> (\<forall>e\<in>set rest. delivered_to c s < ev_seq e) \<and>
     delivered_to c s < next_seq (mem_events c s))"

lemma pending_frame:
  "pending_inv c hist s \<Longrightarrow> mem_events c s' = mem_events c s \<Longrightarrow> delivered_to c s' = delivered_to c s \<Longrightarrow>
     given_of c (e # hist) = given_of c hist \<Longrightarrow> appended_to c (e # hist) = appended_to c hist \<Longrightarrow> pending_inv c (e # hist) s'"
  by (simp add: pending_inv_def)

lemma undelivered_rest:
  assumes "pending_inv c hist s"
  shows "fst (undelivered c s) = drop (length (given_of c hist)) (appended_to c hist) \<and>
    given_of c hist @ fst (undelivered c s) = appended_to c hist"
proof -
  from assms obtain old rest where s: "mem_events c s = old @ given_of c hist @ rest" "appended_to c hist = given_of c hist @ rest"
    "\<forall>e\<in>set (old @ given_of c hist). ev_seq e \<le> delivered_to c s" "\<forall>e\<in>set rest. delivered_to c s < ev_seq e"
    by (auto simp: pending_inv_def)
  then have "filter (\<lambda>e. ev_seq e > delivered_to c s) (mem_events c s) = rest"
    by (auto simp: filter_empty_conv not_less [symmetric] filter_id_conv)
  with s show ?thesis by (simp add: undelivered_def Let_def)
qed

lemma load_pending: "pending_inv c (MLoad c es # hist) (mem_load c es s)"
proof -
  define l where "l = map (\<lambda>e. e\<lparr>ev_chat := c\<rparr>) (sort_key ev_seq es)"
  have "sorted (map ev_seq l)" by (simp add: l_def comp_def)
  from next_seq_above [OF this] have above: "\<forall>e\<in>set l. ev_seq e < next_seq l" by blast
  have "mem_events c (mem_load c es s) = l" "delivered_to c (mem_load c es s) = (if l = [] then 0 else ev_seq (last l))"
    by (simp_all only: mem_load_def Let_def l_def mem_events_def delivered_to_def) simp_all
  with above show ?thesis by (auto simp: pending_inv_def next_seq_def less_Suc_eq_le)
qed

lemma deliver_pending:
  assumes inv: "mem_inv sha s" and p: "pending_inv c hist s" and d: "undelivered c s = (es, s')"
  shows "pending_inv c (MDeliver c es # hist) s'"
proof -
  from p obtain old rest where s: "mem_events c s = old @ given_of c hist @ rest" "appended_to c hist = given_of c hist @ rest"
    "\<forall>e\<in>set (old @ given_of c hist). ev_seq e \<le> delivered_to c s" "\<forall>e\<in>set rest. delivered_to c s < ev_seq e"
    "delivered_to c s < next_seq (mem_events c s)"
    unfolding pending_inv_def by blast
  from undelivered_rest [OF p] d s(2) have es: "es = rest" by simp
  have ev: "mem_events c s' = mem_events c s" using d by (auto simp: undelivered_def Let_def mem_events_def split: if_splits)
  show ?thesis
  proof (cases "rest = []")
    case True
    with d es s show ?thesis by (auto simp: pending_inv_def undelivered_def Let_def split: if_splits)
  next
    case False
    with d es have to: "delivered_to c s' = ev_seq (last rest)"
      by (auto simp: undelivered_def Let_def delivered_to_def split: if_splits)
    have "sorted (map ev_seq rest)" using inv s(1) by (auto simp: mem_inv_def sorted_append dest: spec [of _ c])
    from next_seq_above [OF this] False have "\<forall>e\<in>set rest. ev_seq e \<le> ev_seq (last rest)"
      by (auto simp: next_seq_def less_Suc_eq_le)
    moreover have "delivered_to c s < ev_seq (last rest)" using s(4) False by simp
    ultimately show ?thesis using s False
      by (force simp: pending_inv_def es ev to next_seq_def intro: exI [of _ old])
  qed
qed

definition mem_run_inv :: "(string \<Rightarrow> string) \<Rightarrow> mem_op list \<Rightarrow> mem_store \<Rightarrow> bool" where
  "mem_run_inv sha hist s \<longleftrightarrow> mem_inv sha s \<and> (\<forall>c. pending_inv c hist s)"

lemma append_pending:
  assumes inv: "mem_inv sha s" and p: "pending_inv c hist s" and a: "mem_append sha c now uuid news s = (es, s')"
  shows "pending_inv c (MAppend c es # hist) s'"
proof -
  from p obtain old rest where s: "mem_events c s = old @ given_of c hist @ rest" "appended_to c hist = given_of c hist @ rest"
    "\<forall>e\<in>set (old @ given_of c hist). ev_seq e \<le> delivered_to c s" "\<forall>e\<in>set rest. delivered_to c s < ev_seq e"
    "delivered_to c s < next_seq (mem_events c s)"
    unfolding pending_inv_def by blast
  from mem_append_spec [OF inv a] have es: "es = logged_as sha c now uuid (next_seq (mem_events c s)) news"
    and ev: "mem_events c s' = mem_events c s @ es" and to: "delivered_to c s' = delivered_to c s"
    by (auto simp: delivered_to_def)
  have "map ev_seq es = [next_seq (mem_events c s)..<next_seq (mem_events c s) + length news]" by (simp add: es)
  then have new: "e \<in> set es \<Longrightarrow> next_seq (mem_events c s) \<le> ev_seq e" for e
    by (metis atLeastLessThan_iff image_eqI list.set_map set_upt)
  with s(5) have above: "\<forall>e\<in>set es. delivered_to c s < ev_seq e" by fastforce
  then have "delivered_to c s < next_seq (mem_events c s')"
    using s(5) by (cases "es = []") (auto simp: ev next_seq_def less_SucI)
  then show ?thesis
    unfolding pending_inv_def using s(1-4) above
    by (intro exI [of _ old] exI [of _ "rest @ es"]) (auto simp: ev to)
qed

lemma mem_step_inv:
  assumes inv: "mem_run_inv sha hist s" and step: "mem_step sha json_bytes hist s e s'"
  shows "mem_run_inv sha (e # hist) s'"
proof -
  from step consider (load) c es where "e = MLoad c es" "s' = mem_load c es s"
    | (append) c now uuid news es where "e = MAppend c es" "mem_append sha c now uuid news s = (es, s')"
    | (deliver) c es where "e = MDeliver c es" "undelivered c s = (es, s')"
    | (delete) c r where "e = MDelete c" "mem_delete_chat json_bytes c s = (r, s')"
    by (rule mem_step_cases)
  then show ?thesis
  proof cases
    case load
    have "mem_events d s' = (if d = c then map (\<lambda>e. e\<lparr>ev_chat := c\<rparr>) (sort_key ev_seq es) else mem_events d s)"
      "d \<noteq> c \<Longrightarrow> delivered_to d s' = delivered_to d s" "ms_blobs s' = ms_blobs s" for d
      by (simp_all add: load mem_load_def Let_def mem_events_def delivered_to_def)
    then have "mem_inv sha s'" "d \<noteq> c \<Longrightarrow> pending_inv d (e # hist) s'" for d
      using inv pending_frame [of d hist s s' e] by (auto simp: mem_run_inv_def mem_inv_def comp_def load)
    then show ?thesis using load_pending load by (metis mem_run_inv_def)
  next
    case append
    from mem_append_spec [OF _ append(2)] inv have *: "mem_inv sha s'" "d \<noteq> c \<Longrightarrow> mem_events d s' = mem_events d s"
      "delivered_to d s' = delivered_to d s" for d
      by (auto simp: mem_run_inv_def delivered_to_def)
    with inv pending_frame [of _ hist s s' e] append_pending [OF _ _ append(2)] show ?thesis
      by (simp add: mem_run_inv_def append) metis
  next
    case deliver
    have "mem_events d s' = mem_events d s" "d \<noteq> c \<Longrightarrow> delivered_to d s' = delivered_to d s" "ms_blobs s' = ms_blobs s" for d
      using deliver(2) by (auto simp: undelivered_def Let_def mem_events_def delivered_to_def split: if_splits)
    then have "mem_inv sha s'" "d \<noteq> c \<Longrightarrow> pending_inv d (e # hist) s'" for d
      using inv pending_frame [of d hist s s' e] by (auto simp: mem_run_inv_def mem_inv_def deliver)
    then show ?thesis using deliver_pending [OF _ _ deliver(2)] inv deliver by (metis mem_run_inv_def)
  next
    case delete
    have *: "mem_events d s' = (if d = c then [] else mem_events d s)"
      "delivered_to d s' = (if d = c then 0 else delivered_to d s)" "ms_blobs s' = ms_blobs s" for d
      using delete(2) by (auto simp: mem_delete_chat_def mem_events_def delivered_to_def)
    then have "mem_inv sha s'" "d \<noteq> c \<Longrightarrow> pending_inv d (e # hist) s'" for d
      using inv pending_frame [of d hist s s' e] by (auto simp: mem_run_inv_def mem_inv_def delete)
    moreover have "pending_inv c (e # hist) s'" by (simp add: pending_inv_def delete * next_seq_def)
    ultimately show ?thesis by (metis mem_run_inv_def)
  qed
qed

interpretation mem_runs: invariant_system "mem_step sha json_bytes" "\<lambda>s. s = mem_new" "mem_run_inv sha"
proof unfold_locales
  fix s assume "s = mem_new"
  then show "mem_run_inv sha [] s"
    by (simp add: mem_run_inv_def mem_inv_def mem_new_def mem_events_def pending_inv_def delivered_to_def next_seq_def)
qed (rule mem_step_inv)

text \<open>
  The app of a chat it keeps itself gets every event once: what earlier answers gave it and what
  the next answer gives are together exactly the events appended since the chat was imported, in
  order, whatever other chats do in between; asked again at once, nothing is left.
\<close>

theorem app_gets_every_event_once:
  assumes "runs (mem_step sha json_bytes) mem_new hist s" and "undelivered c s = (es, s')"
  shows "given_of c hist @ es = appended_to c hist \<and> undelivered c s' = ([], s')"
proof -
  from mem_runs.inv_runs [OF refl assms(1)] have inv: "mem_run_inv sha hist s" .
  then have p: "pending_inv c hist s" by (simp add: mem_run_inv_def)
  with assms(2) have es: "given_of c hist @ es = appended_to c hist" using undelivered_rest by fastforce
  have "mem_run_inv sha (MDeliver c es # hist) s'"
    by (rule mem_step_inv [OF inv mem_step_deliver [OF assms(2), of sha json_bytes]])
  then have "pending_inv c (MDeliver c es # hist) s'" by (simp add: mem_run_inv_def)
  from undelivered_rest [OF this] es have "fst (undelivered c s') = []" by simp
  then show ?thesis using es by (auto simp: undelivered_def Let_def)
qed

theorem app_gets_every_event_once_witness:
  "\<exists>s es s'. runs (mem_step (\<lambda>b. b) length) mem_new [MAppend ''c'' es] s \<and> ev_kind (hd es) = ''note'' \<and>
     undelivered ''c'' s = (es, s') \<and> undelivered ''c'' s' = ([], s')"
proof -
  obtain es s where a: "mem_append (\<lambda>b. b) ''c'' ''now'' (\<lambda>_. ''1'') [new_event_of ''note'' JNull] mem_new = (es, s)" by fastforce
  have r: "runs (mem_step (\<lambda>b. b) length) mem_new [MAppend ''c'' es] s"
    by (rule runs_step [where step = "mem_step (\<lambda>b. b) length", OF runs_start mem_step_append [OF a]])
  obtain es' s' where d: "undelivered ''c'' s = (es', s')" by fastforce
  have "ev_kind (hd es) = ''note''"
    using mem_append_spec [OF _ a] by (auto simp: mem_inv_def mem_new_def mem_events_def logged_event_def new_event_of_def)
  with app_gets_every_event_once [OF r d] r d show ?thesis by auto
qed

end
