(* ===== verification/Call_Records.thy ===== *)
theory Call_Records
  imports Json
begin

text \<open>
  agents/src/memory/records.rs: what a tool call touched, with secrets taken out before it is logged.
  \<open>parse\<close> and \<open>print\<close> are \<open>serde_json\<close>'s. A string argument that is itself a JSON object is redacted
  inside; the strings in it are shorter than it, so the depth of such strings is bounded.
\<close>

definition PATH_KEYS :: "string list" where
  "PATH_KEYS = [''path'', ''paths'', ''source'', ''destination'', ''file'']"

definition SECRET_KEYS :: "string list" where
  "SECRET_KEYS = [''password'', ''passwd'', ''secret'', ''token'', ''api_key'', ''apikey'', ''authorization'', ''private_key'', ''credential'']"

definition SECRET_PREFIXES :: "string list" where
  "SECRET_PREFIXES = [''sk-'', ''ghp_'', ''gho_'', ''github_pat_'', ''xoxb-'', ''xoxp-'', ''AKIA'']"

definition REDACTED :: string where
  "REDACTED = ''[redacted]''"

definition TOOL_OPEN :: string where "TOOL_OPEN = ''<tool_call>''"
definition TOOL_CLOSE :: string where "TOOL_CLOSE = ''</tool_call>''"

text \<open>\<open>trim_start_matches\<close> and \<open>trim_end_matches\<close>.\<close>

fun trim_start_matches :: "string \<Rightarrow> string \<Rightarrow> string" where
  "trim_start_matches pat [] = []"
| "trim_start_matches pat (c # cs) =
     (if pat \<noteq> [] \<and> prefix pat (c # cs) then trim_start_matches pat (drop (length pat - 1) cs) else c # cs)"

definition trim_end_matches :: "string \<Rightarrow> string \<Rightarrow> string" where
  "trim_end_matches pat s = rev (trim_start_matches (rev pat) (rev s))"

definition call_json :: "(string \<Rightarrow> json option) \<Rightarrow> string \<Rightarrow> json option" where
  "call_json parse call_xml = parse (trim (trim_end_matches TOOL_CLOSE (trim_start_matches TOOL_OPEN (trim call_xml))))"

section \<open>Files touched\<close>

definition path_files :: "json option \<Rightarrow> string list" where
  "path_files v =
     (case v of
        Some (JStr path) \<Rightarrow> if path \<noteq> [] then [path] else []
      | Some (JArr paths) \<Rightarrow> List.map_filter json_str paths
      | _ \<Rightarrow> [])"

definition files_touched :: "(string \<Rightarrow> json option) \<Rightarrow> json \<Rightarrow> string list" where
  "files_touched parse arguments =
     (let arguments = (case arguments of JStr t \<Rightarrow> (case parse t of Some v \<Rightarrow> v | None \<Rightarrow> JNull) | other \<Rightarrow> other)
      in remdups_adj (concat (map (\<lambda>key. path_files (member_of key arguments)) PATH_KEYS)))"

section \<open>Redaction\<close>

definition is_secret_key :: "string \<Rightarrow> bool" where
  "is_secret_key key =
     (let key = map (\<lambda>c. if c = CHR ''-'' then CHR ''_'' else c) (to_lower key)
      in list_ex (\<lambda>secret. contains key secret) SECRET_KEYS)"

definition looks_like_secret :: "string \<Rightarrow> bool" where
  "looks_like_secret t =
     (let t = trim t
      in length t \<ge> 16 \<and> list_ex (\<lambda>p. prefix p t) SECRET_PREFIXES \<and> \<not> list_ex is_ws t)"

definition looks_like_object :: "string \<Rightarrow> bool" where
  "looks_like_object t \<longleftrightarrow> prefix ''{'' (trim_start t)"

text \<open>One level: \<open>inner\<close> is what becomes of a string that may be an object.\<close>

fun redact_with :: "(string \<Rightarrow> string) \<Rightarrow> json \<Rightarrow> json" where
  "redact_with inner JNull = JNull"
| "redact_with inner (JBool b) = JBool b"
| "redact_with inner (JNum t) = JNum t"
| "redact_with inner (JStr t) =
     (if looks_like_secret t then JStr REDACTED
      else if looks_like_object t then JStr (inner t)
      else JStr t)"
| "redact_with inner (JArr vs) = JArr (map (redact_with inner) vs)"
| "redact_with inner (JObj m) =
     JObj (map (\<lambda>(k, v). (k, if is_secret_key k \<and> v \<noteq> JNull then JStr REDACTED else redact_with inner v)) m)"

primrec redact_depth :: "(string \<Rightarrow> json option) \<Rightarrow> (json \<Rightarrow> string) \<Rightarrow> nat \<Rightarrow> json \<Rightarrow> json" where
  "redact_depth parse print 0 = redact_with (\<lambda>t. t)"
| "redact_depth parse print (Suc n) =
     redact_with (\<lambda>t. case parse t of Some (JObj m) \<Rightarrow> print (redact_depth parse print n (JObj m)) | _ \<Rightarrow> t)"

text \<open>The length of the longest string of a value bounds the depth.\<close>

primrec longest_str :: "json \<Rightarrow> nat" where
  "longest_str JNull = 0"
| "longest_str (JBool b) = 0"
| "longest_str (JNum t) = 0"
| "longest_str (JStr t) = length t"
| "longest_str (JArr vs) = foldr max (map longest_str vs) 0"
| "longest_str (JObj m) = foldr max (map snd (map (map_prod id longest_str) m)) 0"

definition redact :: "(string \<Rightarrow> json option) \<Rightarrow> (json \<Rightarrow> string) \<Rightarrow> json \<Rightarrow> json" where
  "redact parse print v = redact_depth parse print (longest_str v) v"

definition redact_call :: "(string \<Rightarrow> json option) \<Rightarrow> (json \<Rightarrow> string) \<Rightarrow> string \<Rightarrow> string" where
  "redact_call parse print call_xml =
     (case call_json parse call_xml of
        Some call \<Rightarrow> TOOL_OPEN @ [CHR 0x0A] @ print (redact parse print call) @ [CHR 0x0A] @ TOOL_CLOSE
      | None \<Rightarrow> call_xml)"

section \<open>No secret is left\<close>

text \<open>
  A value without secrets: nothing but a null or the placeholder under a secret name, no string that looks
  like a key; a string that holds an object is the print of one without secrets.
\<close>

inductive clean :: "(string \<Rightarrow> json option) \<Rightarrow> (json \<Rightarrow> string) \<Rightarrow> json \<Rightarrow> bool" for parse print where
  clean_null: "clean parse print JNull"
| clean_bool: "clean parse print (JBool b)"
| clean_num: "clean parse print (JNum t)"
| clean_str: "\<not> looks_like_secret t \<Longrightarrow> (looks_like_object t \<Longrightarrow> \<forall>m. parse t \<noteq> Some (JObj m)) \<Longrightarrow> clean parse print (JStr t)"
| clean_inner: "clean parse print (JObj m) \<Longrightarrow> clean parse print (JStr (print (JObj m)))"
| clean_arr: "\<forall>v\<in>set vs. clean parse print v \<Longrightarrow> clean parse print (JArr vs)"
| clean_obj: "\<forall>(k, v)\<in>set m. clean parse print v \<and> (is_secret_key k \<longrightarrow> v = JNull \<or> v = JStr REDACTED) \<Longrightarrow> clean parse print (JObj m)"

text \<open>A string of an object is shorter than the text the object was read from.\<close>

definition shorter_strings :: "(string \<Rightarrow> json option) \<Rightarrow> bool" where
  "shorter_strings parse \<longleftrightarrow> (\<forall>t m. parse t = Some (JObj m) \<longrightarrow> longest_str (JObj m) < length t)"

lemma foldr_max_le: "foldr max xs (0::nat) \<le> n \<longleftrightarrow> (\<forall>x\<in>set xs. x \<le> n)"
  by (induction xs) auto

lemma longest_str_arr: "longest_str (JArr vs) \<le> n \<longleftrightarrow> (\<forall>v\<in>set vs. longest_str v \<le> n)"
  by (simp add: foldr_max_le)

lemma longest_str_obj: "longest_str (JObj m) \<le> n \<longleftrightarrow> (\<forall>(k, v)\<in>set m. longest_str v \<le> n)"
  by (auto simp: foldr_max_le)

lemma is_object_length: "looks_like_object t \<Longrightarrow> 0 < length t"
  by (auto simp: looks_like_object_def trim_start_def)

text \<open>One level does the same with two functions that agree on the strings of the value.\<close>

lemma redact_with_cong:
  assumes "\<And>t. looks_like_object t \<Longrightarrow> length t \<le> longest_str v \<Longrightarrow> f t = g t"
  shows "redact_with f v = redact_with g v"
  using assms
proof (induction f v rule: redact_with.induct)
  case (5 f vs)
  have "redact_with f v = redact_with g v" if "v \<in> set vs" for v
    using that longest_str_arr [of vs "longest_str (JArr vs)"] by (intro 5) (auto intro: order_trans)
  then show ?case by simp
next
  case (6 f m)
  have "redact_with f v = redact_with g v" if kv: "(k, v) \<in> set m" and "\<not> (is_secret_key k \<and> v \<noteq> JNull)" for k v
    using kv longest_str_obj [of m "longest_str (JObj m)"] by (intro 6(1) [OF kv refl that(2)] 6(2)) (auto intro: order_trans)
  then show ?case by (auto simp: map_eq_conv)
qed auto

text \<open>Enough depth is enough.\<close>

lemma redact_depth_enough:
  assumes "shorter_strings parse" and "longest_str v \<le> n" and "n \<le> n'"
  shows "redact_depth parse print n v = redact_depth parse print n' v"
  using assms(2,3)
proof (induction n arbitrary: n' v)
  case 0
  then have "redact_depth parse print 0 v = redact_with f v" for f
    by (auto intro!: redact_with_cong dest: is_object_length)
  then show ?case by (cases n') auto
next
  case (Suc n)
  then obtain k where k: "n' = Suc k" "n \<le> k" by (cases n') auto
  show ?case unfolding k(1) redact_depth.simps
  proof (rule redact_with_cong)
    fix t :: string assume t: "length t \<le> longest_str v"
    have "redact_depth parse print n (JObj m) = redact_depth parse print k (JObj m)" if "parse t = Some (JObj m)" for m
      using Suc.IH [OF _ k(2), of "JObj m"] that t Suc.prems(1) assms(1) by (fastforce simp: shorter_strings_def)
    then show "(case parse t of Some (JObj m) \<Rightarrow> print (redact_depth parse print n (JObj m)) | _ \<Rightarrow> t) =
        (case parse t of Some (JObj m) \<Rightarrow> print (redact_depth parse print k (JObj m)) | _ \<Rightarrow> t)"
      by (auto split: option.split json.split)
  qed
qed

text \<open>So the definition is the recursion of the source.\<close>

lemma redact_unfold:
  assumes "shorter_strings parse"
  shows "redact parse print v =
    redact_with (\<lambda>t. case parse t of Some (JObj m) \<Rightarrow> print (redact parse print (JObj m)) | _ \<Rightarrow> t) v"
proof -
  have "redact parse print v = redact_depth parse print (Suc (longest_str v)) v"
    unfolding redact_def using assms by (rule redact_depth_enough) simp_all
  also have "\<dots> = redact_with (\<lambda>t. case parse t of Some (JObj m) \<Rightarrow> print (redact parse print (JObj m)) | _ \<Rightarrow> t) v"
    unfolding redact_depth.simps
  proof (rule redact_with_cong)
    fix t :: string assume t: "length t \<le> longest_str v"
    have "redact_depth parse print (longest_str v) (JObj m) = redact parse print (JObj m)" if "parse t = Some (JObj m)" for m
      unfolding redact_def using assms that t
      by (intro redact_depth_enough [symmetric]) (fastforce simp: shorter_strings_def)+
    then show "(case parse t of Some (JObj m) \<Rightarrow> print (redact_depth parse print (longest_str v) (JObj m)) | _ \<Rightarrow> t) =
        (case parse t of Some (JObj m) \<Rightarrow> print (redact parse print (JObj m)) | _ \<Rightarrow> t)"
      by (auto split: option.split json.split)
  qed
  finally show ?thesis .
qed

lemma placeholder_clean: "clean parse print (JStr REDACTED)"
  by (rule clean_str)
    (simp_all add: REDACTED_def looks_like_secret_def looks_like_object_def trim_def trim_start_def trim_end_def is_ws_def)

lemma redact_with_clean:
  assumes "\<And>t. looks_like_object t \<Longrightarrow> length t \<le> longest_str v \<Longrightarrow> \<not> looks_like_secret t \<Longrightarrow> clean parse print (JStr (f t))"
  shows "clean parse print (redact_with f v)"
  using assms
proof (induction f v rule: redact_with.induct)
  case (4 f t)
  then show ?case by (auto simp: placeholder_clean intro: clean_str)
next
  case (5 f vs)
  have "clean parse print (redact_with f v)" if "v \<in> set vs" for v
    using that longest_str_arr [of vs "longest_str (JArr vs)"] by (intro 5) (auto intro: order_trans)
  then have "\<forall>w\<in>set (map (redact_with f) vs). clean parse print w" by simp
  then show ?case unfolding redact_with.simps by (rule clean_arr)
next
  case (6 f m)
  have "clean parse print (redact_with f v)" if kv: "(k, v) \<in> set m" and "\<not> (is_secret_key k \<and> v \<noteq> JNull)" for k v
    using kv longest_str_obj [of m "longest_str (JObj m)"] by (intro 6(1) [OF kv refl that(2)] 6(2)) (auto intro: order_trans)
  then show ?case by (auto intro!: clean_obj simp: placeholder_clean split: if_splits)
qed (auto intro: clean.intros)

lemma redact_clean:
  assumes "shorter_strings parse"
  shows "clean parse print (redact parse print v)"
proof (induction "longest_str v" arbitrary: v rule: less_induct)
  case less
  show ?case unfolding redact_unfold [OF assms, of print v]
  proof (rule redact_with_clean)
    fix t assume t: "length t \<le> longest_str v" "\<not> looks_like_secret t"
    show "clean parse print (JStr (case parse t of Some (JObj m) \<Rightarrow> print (redact parse print (JObj m)) | _ \<Rightarrow> t))"
    proof (cases "\<exists>m. parse t = Some (JObj m)")
      case True
      then obtain m where m: "parse t = Some (JObj m)" by blast
      with assms t have "longest_str (JObj m) < longest_str v" by (fastforce simp: shorter_strings_def)
      from less [OF this] have c: "clean parse print (redact parse print (JObj m))" .
      moreover obtain m' where "redact parse print (JObj m) = JObj m'" by (simp add: redact_unfold [OF assms])
      ultimately show ?thesis using m by (auto intro: clean_inner)
    next
      case False
      with t show ?thesis by (auto split: option.split json.split intro: clean_str)
    qed
  qed
qed

section \<open>The rest stays\<close>

text \<open>A value with nothing to take out, at any level.\<close>

fun nothing_secret :: "(string \<Rightarrow> json option) \<Rightarrow> json \<Rightarrow> bool" where
  "nothing_secret parse (JStr t) \<longleftrightarrow>
     \<not> looks_like_secret t \<and> \<not> (looks_like_object t \<and> (case parse t of Some (JObj m) \<Rightarrow> True | _ \<Rightarrow> False))"
| "nothing_secret parse (JArr vs) \<longleftrightarrow> list_all (nothing_secret parse) vs"
| "nothing_secret parse (JObj m) \<longleftrightarrow> list_all (\<lambda>(k, v). nothing_secret parse v \<and> (is_secret_key k \<longrightarrow> v = JNull)) m"
| "nothing_secret parse _ \<longleftrightarrow> True"

lemma redact_with_same:
  assumes "nothing_secret parse v" and "\<And>t. \<not> (\<exists>m. parse t = Some (JObj m)) \<Longrightarrow> f t = t"
  shows "redact_with f v = v"
  using assms
proof (induction f v rule: redact_with.induct)
  case (6 f m)
  have "redact_with f v = v" if kv: "(k, v) \<in> set m" and "\<not> (is_secret_key k \<and> v \<noteq> JNull)" for k v
    using kv 6(2,3) by (intro 6(1) [OF kv refl that(2)]) (auto simp: list_all_iff)
  moreover have "\<not> (is_secret_key k \<and> v \<noteq> JNull)" if "(k, v) \<in> set m" for k v
    using that 6(2) by (auto simp: list_all_iff)
  ultimately show ?case by (auto intro!: map_idI)
qed (auto simp: list_all_iff intro!: map_idI split: option.splits json.splits)


definition demo_parse :: "string \<Rightarrow> json option" where
  "demo_parse t = (if t = ''{token: abc, path: a.txt}'' then Some (JObj [(''token'', JStr ''abc''), (''path'', JStr ''a.txt'')]) else None)"


end
