(* ===== verification/Session_Tools.thy ===== *)
theory Session_Tools
  imports Call_Records
begin

text \<open>
  agents/src/lifecycle/session_map.rs, duration.rs and ledger.rs: the tools bound to a chat, how long they stay,
  and the ledger of what the Engine added to each turn. \<open>limit\<close> gives the answers without use after
  which a loaded tool goes. A counter of idle answers is a 32-bit one.
\<close>

definition IDLE_TURNS :: nat where "IDLE_TURNS = 3"

record binding =
  bi_id :: string
  bi_turns :: int
  bi_inline :: bool
  bi_pinned :: bool
  bi_idle :: nat

record sessions =
  ss_tools :: "(string, binding list) hmap"
  ss_suppressed :: "(string, (string, nat) hmap) hmap"

section \<open>The tools of a chat\<close>

definition get_session_tools :: "string \<Rightarrow> sessions \<Rightarrow> binding list" where
  "get_session_tools chat s = (case hm_get chat (ss_tools s) of Some bs \<Rightarrow> bs | None \<Rightarrow> [])"

definition get_active_tool_ids :: "string \<Rightarrow> sessions \<Rightarrow> string list" where
  "get_active_tool_ids chat s = (case hm_get chat (ss_tools s) of Some bs \<Rightarrow> map bi_id bs | None \<Rightarrow> [])"

text \<open>The first binding of the id is updated; a new id is put behind.\<close>

fun attach_tool :: "binding \<Rightarrow> binding list \<Rightarrow> binding list" where
  "attach_tool t [] = [t]"
| "attach_tool t (b # bs) =
     (if bi_id b = bi_id t then b\<lparr>bi_turns := bi_turns t, bi_pinned := bi_pinned t, bi_idle := 0\<rparr> # bs
      else b # attach_tool t bs)"

definition update_session_tools :: "string \<Rightarrow> binding list \<Rightarrow> string list \<Rightarrow> sessions \<Rightarrow> binding list \<times> sessions" where
  "update_session_tools chat tools detach s =
     (let entry = get_session_tools chat s;
          entry = foldl (\<lambda>bs i. filter (\<lambda>b. bi_id b \<noteq> i) bs) entry detach;
          entry = foldl (\<lambda>bs t. attach_tool t bs) entry tools
      in (entry, s\<lparr>ss_tools := hm_insert chat entry (ss_tools s)\<rparr>))"

text \<open>The closure of \<open>end_turn\<close>: the binding afterwards, \<open>None\<close> when it is unloaded.\<close>

definition after_answer :: "string list \<Rightarrow> (string \<Rightarrow> nat) \<Rightarrow> binding \<Rightarrow> binding option" where
  "after_answer used limit b =
     (if \<not> bi_inline b \<or> bi_pinned b then Some b
      else if list_ex (\<lambda>i. eq_ignore_case i (bi_id b)) used then Some (b\<lparr>bi_idle := 0\<rparr>)
      else (let idle = (bi_idle b + 1) mod 2 ^ 32 in
            if idle \<ge> max (limit (bi_id b)) 1 then None else Some (b\<lparr>bi_idle := idle\<rparr>)))"

definition end_turn :: "string \<Rightarrow> string list \<Rightarrow> (string \<Rightarrow> nat) \<Rightarrow> sessions \<Rightarrow> string list \<times> sessions" where
  "end_turn chat used limit s =
     (case hm_get chat (ss_tools s) of
        None \<Rightarrow> ([], s)
      | Some bs \<Rightarrow>
          (map bi_id (filter (\<lambda>b. after_answer used limit b = None) bs),
           s\<lparr>ss_tools := hm_insert chat (List.map_filter (after_answer used limit) bs) (ss_tools s)\<rparr>))"

definition restore_if_missing :: "string \<Rightarrow> binding list \<Rightarrow> sessions \<Rightarrow> sessions" where
  "restore_if_missing chat saved s =
     (if hm_get chat (ss_tools s) = None \<and> saved \<noteq> [] then s\<lparr>ss_tools := hm_insert chat saved (ss_tools s)\<rparr> else s)"

definition suppress :: "string \<Rightarrow> string \<Rightarrow> nat \<Rightarrow> sessions \<Rightarrow> sessions" where
  "suppress chat tool answers s =
     (let tools = (case hm_get chat (ss_suppressed s) of Some m \<Rightarrow> m | None \<Rightarrow> [])
      in s\<lparr>ss_suppressed := hm_insert chat (hm_insert tool answers tools) (ss_suppressed s)\<rparr>)"

definition suppressed_tool_ids :: "string \<Rightarrow> sessions \<Rightarrow> string list" where
  "suppressed_tool_ids chat s = (case hm_get chat (ss_suppressed s) of Some m \<Rightarrow> map fst m | None \<Rightarrow> [])"

text \<open>\<open>TurnLifecycleEngine::decrement_turns\<close>.\<close>

definition count_down :: "binding \<Rightarrow> binding option" where
  "count_down b =
     (if bi_turns b = -1 then Some b
      else if bi_turns b > 1 then Some (b\<lparr>bi_turns := bi_turns b - 1\<rparr>)
      else None)"

definition decrement_turns :: "string \<Rightarrow> sessions \<Rightarrow> sessions" where
  "decrement_turns chat s =
     (let s = (case hm_get chat (ss_tools s) of
                 Some bs \<Rightarrow> s\<lparr>ss_tools := hm_insert chat (List.map_filter count_down bs) (ss_tools s)\<rparr>
               | None \<Rightarrow> s)
      in case hm_get chat (ss_suppressed s) of
           Some m \<Rightarrow> s\<lparr>ss_suppressed := hm_insert chat (hm_retain (\<lambda>_ n. n > 0) (map (map_prod id (\<lambda>n. n - 1)) m)) (ss_suppressed s)\<rparr>
         | None \<Rightarrow> s)"

section \<open>The ledger of a chat\<close>

record recorded_step =
  rs_call :: string
  rs_name :: string
  rs_result :: string

record turn_record =
  tr_key :: string
  tr_block :: string
  tr_steps :: "recorded_step list"

record ledger =
  lg_turns :: "turn_record list"
  lg_bindings :: "binding list"
  lg_notes :: "string list option"
  lg_project :: "string list"

definition empty_ledger :: ledger where
  "empty_ledger = \<lparr>lg_turns = [], lg_bindings = [], lg_notes = None, lg_project = []\<rparr>"

text \<open>\<open>hash\<close> is the hash of the trimmed text, as sixteen digits.\<close>

definition turn_key :: "(string \<Rightarrow> string) \<Rightarrow> string \<Rightarrow> nat \<Rightarrow> string" where
  "turn_key hash t occurrence = hash (trim t) @ '':'' @ nat_text occurrence"

definition LOAD_TOOL_NAME :: string where "LOAD_TOOL_NAME = ''load_tool''"

text \<open>\<open>Value::pointer\<close> of two names.\<close>

definition pointer2 :: "string \<Rightarrow> string \<Rightarrow> json \<Rightarrow> json option" where
  "pointer2 a b v = Option.bind (member_of a v) (member_of b)"

definition loaded_tool_id :: "(string \<Rightarrow> json option) \<Rightarrow> string \<Rightarrow> string option" where
  "loaded_tool_id parse call_xml =
     Option.bind (call_json parse call_xml) (\<lambda>call.
       Option.bind (Option.bind (member_of ''name'' call) json_str) (\<lambda>name.
         if name = LOAD_TOOL_NAME
         then map_option trim (Option.bind (pointer2 ''arguments'' ''id'' call) json_str)
         else Some name))"

definition loaded_tool :: "(string \<Rightarrow> json option) \<Rightarrow> recorded_step \<Rightarrow> string option" where
  "loaded_tool parse st =
     (if \<not> prefix ''Loaded tool'' (rs_result st) \<and> \<not> contains (rs_result st) ''It is loaded now'' then None
      else loaded_tool_id parse (rs_call st))"

definition ledger_record :: "string \<Rightarrow> ledger \<Rightarrow> turn_record option" where
  "ledger_record key l = find (\<lambda>t. tr_key t = key) (lg_turns l)"

definition set_turn :: "turn_record \<Rightarrow> ledger \<Rightarrow> ledger" where
  "set_turn r l =
     (let kept = filter (\<lambda>t. tr_key t \<noteq> tr_key r) (lg_turns l)
      in l\<lparr>lg_turns := (if tr_block r \<noteq> [] \<or> tr_steps r \<noteq> [] then kept @ [r] else kept)\<rparr>)"

definition unloaded_note :: "string \<Rightarrow> string" where
  "unloaded_note tool = ''[Tool '' @ [CHR 0x27] @ trim tool @ [CHR 0x27] @ '' was unloaded.]''"

definition shows_tool :: "(string \<Rightarrow> json option) \<Rightarrow> string \<Rightarrow> recorded_step \<Rightarrow> bool" where
  "shows_tool parse tool st = (case loaded_tool parse st of Some i \<Rightarrow> eq_ignore_case i (trim tool) | None \<Rightarrow> False)"

definition tombstone_step :: "(string \<Rightarrow> json option) \<Rightarrow> string \<Rightarrow> recorded_step \<Rightarrow> recorded_step" where
  "tombstone_step parse tool st = (if shows_tool parse tool st then st\<lparr>rs_result := unloaded_note tool\<rparr> else st)"

definition tombstone :: "(string \<Rightarrow> json option) \<Rightarrow> string \<Rightarrow> ledger \<Rightarrow> bool \<times> ledger" where
  "tombstone parse tool l =
     (list_ex (shows_tool parse tool) (concat (map tr_steps (lg_turns l))),
      l\<lparr>lg_turns := map (\<lambda>t. t\<lparr>tr_steps := map (tombstone_step parse tool) (tr_steps t)\<rparr>) (lg_turns l)\<rparr>)"

text \<open>The ledgers in RAM and on disk; \<open>stem\<close> names the folder of a chat, \<open>external\<close> the chats an app keeps itself.\<close>

record ledgers =
  ls_ram :: "(string, ledger) hmap"
  ls_disk :: "(string, ledger) hmap"

definition ledger_get :: "(string \<Rightarrow> string) \<Rightarrow> string \<Rightarrow> ledgers \<Rightarrow> ledger \<times> ledgers" where
  "ledger_get stem chat s =
     (case hm_get chat (ls_ram s) of
        Some l \<Rightarrow> (l, s)
      | None \<Rightarrow>
          (let l = (case hm_get (stem chat) (ls_disk s) of Some l \<Rightarrow> l | None \<Rightarrow> empty_ledger)
           in (l, s\<lparr>ls_ram := hm_insert chat l (ls_ram s)\<rparr>)))"

definition ledger_put :: "(string \<Rightarrow> string) \<Rightarrow> (string \<Rightarrow> bool) \<Rightarrow> string \<Rightarrow> ledger \<Rightarrow> ledgers \<Rightarrow> ledgers" where
  "ledger_put stem external chat l s =
     (if external chat then s\<lparr>ls_ram := hm_insert chat l (ls_ram s)\<rparr>
      else s\<lparr>ls_disk := hm_insert (stem chat) l (ls_disk s), ls_ram := hm_insert chat l (ls_ram s)\<rparr>)"

definition ledger_delete :: "(string \<Rightarrow> string) \<Rightarrow> string \<Rightarrow> ledgers \<Rightarrow> ledgers" where
  "ledger_delete stem chat s = s\<lparr>ls_ram := hm_remove chat (ls_ram s), ls_disk := hm_remove (stem chat) (ls_disk s)\<rparr>"

section \<open>How long a tool stays\<close>

text \<open>After an answer: the countdown, then the idle count (the order of the chat handler).\<close>

definition answered :: "string \<Rightarrow> (string \<Rightarrow> nat) \<Rightarrow> string list \<Rightarrow> sessions \<Rightarrow> sessions" where
  "answered chat limit used s = snd (end_turn chat used limit (decrement_turns chat s))"

text \<open>The answers of a chat, oldest first, each with the tools it used.\<close>

definition answers :: "string \<Rightarrow> (string \<Rightarrow> nat) \<Rightarrow> string list list \<Rightarrow> sessions \<Rightarrow> sessions" where
  "answers chat limit uss s = foldl (\<lambda>s used. answered chat limit used s) s uss"

text \<open>What becomes of one binding.\<close>

definition fate_step :: "(string \<Rightarrow> nat) \<Rightarrow> binding option \<Rightarrow> string list \<Rightarrow> binding option" where
  "fate_step limit b used = Option.bind (Option.bind b count_down) (after_answer used limit)"

definition fate :: "(string \<Rightarrow> nat) \<Rightarrow> string list list \<Rightarrow> binding \<Rightarrow> binding option" where
  "fate limit uss b = foldl (fate_step limit) (Some b) uss"

definition uses :: "string list \<Rightarrow> string \<Rightarrow> bool" where
  "uses used i \<longleftrightarrow> (\<exists>u\<in>set used. eq_ignore_case u i)"

text \<open>The answers without the tool since it was last used.\<close>

definition unused_for :: "string \<Rightarrow> string list list \<Rightarrow> nat" where
  "unused_for i uss = length (takeWhile (\<lambda>used. \<not> uses used i) (rev uss))"

lemma map_filter_comp: "List.map_filter g (List.map_filter f xs) = List.map_filter (\<lambda>x. Option.bind (f x) g) xs"
  by (induction xs) (auto simp: map_filter_simps split: option.splits)

lemma map_filter_Some [simp]: "List.map_filter Some xs = xs"
  by (induction xs) (auto simp: map_filter_simps)

lemma answered_tools:
  "hm_get chat (ss_tools s) = Some bs \<Longrightarrow>
     hm_get chat (ss_tools (answered chat limit used s)) = Some (List.map_filter (\<lambda>b. fate_step limit (Some b) used) bs)"
  by (simp add: answered_def decrement_turns_def end_turn_def Let_def map_filter_comp fate_step_def split: option.split)

lemma fate_step_None [simp]: "fate_step limit None used = None"
  by (simp add: fate_step_def)

lemma fate_None [simp]: "foldl (fate_step limit) None uss = None"
  by (induction uss) auto

lemma fate_Nil [simp]: "fate limit [] = Some"
  by (simp add: fate_def fun_eq_iff)

lemma answers_tools:
  "hm_get chat (ss_tools s) = Some bs \<Longrightarrow>
     hm_get chat (ss_tools (answers chat limit uss s)) = Some (List.map_filter (fate limit uss) bs)"
proof (induction uss arbitrary: s bs)
  case (Cons used uss)
  have "Option.bind (fate_step limit (Some b) used) (fate limit uss) = fate limit (used # uss) b" for b
    by (cases "fate_step limit (Some b) used") (simp_all add: fate_def)
  with Cons.IH [OF answered_tools [OF Cons.prems]] show ?case by (simp add: answers_def map_filter_comp)
qed (simp add: answers_def)

lemma fate_snoc: "fate limit (uss @ [used]) b = fate_step limit (fate limit uss b) used"
  by (simp add: fate_def)

lemma count_down_id: "count_down b = Some b' \<Longrightarrow> bi_id b' = bi_id b"
  by (auto simp: count_down_def split: if_splits)

lemma after_answer_id: "after_answer used limit b = Some b' \<Longrightarrow> bi_id b' = bi_id b"
  by (auto simp: after_answer_def Let_def split: if_splits)

lemma fate_id: "fate limit uss b = Some b' \<Longrightarrow> bi_id b' = bi_id b"
  by (induction uss arbitrary: b' rule: rev_induct)
    (auto simp: fate_snoc fate_step_def bind_eq_Some_conv dest!: count_down_id after_answer_id)

text \<open>A pinned or a bound tool is not counted; a bound one that is there for all time stays as it is.\<close>

lemma fate_step_bound: "\<not> bi_inline b \<or> bi_pinned b \<Longrightarrow> fate_step limit (Some b) used = count_down b"
  by (auto simp: fate_step_def count_down_def after_answer_def)

lemma fate_bound:
  assumes "\<not> bi_inline b \<or> bi_pinned b"
  shows "bi_turns b = -1 \<Longrightarrow> fate limit uss b = Some b"
    and "0 < bi_turns b \<Longrightarrow> fate limit uss b =
      (if int (length uss) < bi_turns b then Some (b\<lparr>bi_turns := bi_turns b - int (length uss)\<rparr>) else None)"
proof -
  show "fate limit uss b = Some b" if "bi_turns b = -1"
    using that fate_step_bound [OF assms, of limit] by (induction uss rule: rev_induct) (simp_all add: fate_snoc count_down_def)
  assume pos: "0 < bi_turns b"
  show "fate limit uss b = (if int (length uss) < bi_turns b then Some (b\<lparr>bi_turns := bi_turns b - int (length uss)\<rparr>) else None)"
  proof (induction uss rule: rev_induct)
    case Nil
    with pos show ?case by simp
  next
    case (snoc used uss)
    show ?case
    proof (cases "int (length uss) < bi_turns b")
      case True
      let ?b = "b\<lparr>bi_turns := bi_turns b - int (length uss)\<rparr>"
      have IH: "fate limit uss b = Some ?b" unfolding snoc by (rule if_P [OF True])
      have "fate_step limit (Some ?b) used = count_down ?b" using assms by (intro fate_step_bound) simp
      with True show ?thesis unfolding fate_snoc IH by (auto simp: count_down_def)
    next
      case False
      then have "fate limit uss b = None" unfolding snoc by (rule if_not_P)
      with False show ?thesis by (simp add: fate_snoc)
    qed
  qed
qed

lemma unused_for_snoc: "unused_for i (uss @ [used]) = (if uses used i then 0 else Suc (unused_for i uss))"
  by (simp add: unused_for_def)

text \<open>A loaded tool goes with the first run of answers without it that is as long as its limit.\<close>

lemma fate_loaded:
  assumes "bi_inline b" and "\<not> bi_pinned b" and "bi_turns b = -1" and "bi_idle b = 0" and "limit (bi_id b) < 2 ^ 32"
  shows "fate limit uss b =
    (if \<forall>k\<le>length uss. unused_for (bi_id b) (take k uss) < max (limit (bi_id b)) 1
     then Some (b\<lparr>bi_idle := unused_for (bi_id b) uss\<rparr>) else None)"
proof (induction uss rule: rev_induct)
  case Nil
  then show ?case using assms(4) by (simp add: fate_def unused_for_def)
next
  case (snoc used uss)
  let ?i = "bi_id b" and ?L = "max (limit (bi_id b)) 1"
  have all: "(\<forall>k\<le>length (uss @ [used]). unused_for ?i (take k (uss @ [used])) < ?L) \<longleftrightarrow>
    (\<forall>k\<le>length uss. unused_for ?i (take k uss) < ?L) \<and> unused_for ?i (uss @ [used]) < ?L"
    by (auto simp: le_Suc_eq)
  show ?case
  proof (cases "\<forall>k\<le>length uss. unused_for ?i (take k uss) < ?L")
    case True
    then have lt: "unused_for ?i uss < ?L" by fastforce
    have IH: "fate limit uss b = Some (b\<lparr>bi_idle := unused_for ?i uss\<rparr>)" unfolding snoc by (rule if_P [OF True])
    have "list_ex (\<lambda>i. eq_ignore_case i ?i) used = uses used ?i" by (simp add: list_ex_iff uses_def)
    with assms(1-3) have "fate limit (uss @ [used]) b =
      (if uses used ?i then Some (b\<lparr>bi_idle := 0\<rparr>)
       else if Suc (unused_for ?i uss) mod 2 ^ 32 \<ge> ?L then None else Some (b\<lparr>bi_idle := Suc (unused_for ?i uss) mod 2 ^ 32\<rparr>))"
      unfolding fate_snoc IH by (simp add: fate_step_def count_down_def after_answer_def Let_def)
    moreover have "Suc (unused_for ?i uss) mod 2 ^ 32 \<ge> ?L \<longleftrightarrow> \<not> Suc (unused_for ?i uss) < ?L"
      "Suc (unused_for ?i uss) < ?L \<longrightarrow> Suc (unused_for ?i uss) mod 2 ^ 32 = Suc (unused_for ?i uss)"
      using lt assms(5) by (auto simp: max_def split: if_splits)
    ultimately show ?thesis unfolding all using True by (auto simp: unused_for_snoc max_def)
  next
    case False
    with snoc all show ?thesis by (simp only: fate_snoc fate_step_None if_False) simp
  qed
qed

text \<open>A chat binds a tool once: every operation keeps that.\<close>

definition ids_distinct :: "sessions \<Rightarrow> bool" where
  "ids_distinct s \<longleftrightarrow> (\<forall>chat. distinct (get_active_tool_ids chat s))"

lemma attach_ids: "map bi_id (attach_tool t bs) = (if bi_id t \<in> bi_id ` set bs then map bi_id bs else map bi_id bs @ [bi_id t])"
  by (induction bs) auto

lemma attach_distinct: "distinct (map bi_id bs) \<Longrightarrow> distinct (map bi_id (foldl (\<lambda>bs t. attach_tool t bs) bs ts))"
  by (induction ts arbitrary: bs) (auto simp: attach_ids)

lemma detach_ids: "foldl (\<lambda>bs i. filter (\<lambda>b. bi_id b \<noteq> i) bs) bs ds = filter (\<lambda>b. bi_id b \<notin> set ds) bs"
  by (induction ds arbitrary: bs) (auto intro: filter_cong)

lemma map_filter_ids_distinct:
  assumes "distinct (map bi_id bs)" and same: "\<And>b b'. f b = Some b' \<Longrightarrow> bi_id b' = bi_id b"
  shows "distinct (map bi_id (List.map_filter f bs))"
  using assms(1)
proof (induction bs)
  case (Cons b bs)
  have "bi_id ` set (List.map_filter f bs) \<subseteq> bi_id ` set bs"
    using same by (force simp: in_map_filter image_iff)
  with Cons.prems have "bi_id b \<notin> bi_id ` set (List.map_filter f bs)" by auto
  with Cons same [of b] show ?case by (cases "f b") (simp_all add: map_filter_simps)
qed (simp add: map_filter_simps)

lemma ids_distinct_kept:
  assumes "ids_distinct s"
  shows "ids_distinct (snd (update_session_tools chat tools detach s))"
    and "ids_distinct (snd (end_turn chat used limit s))"
    and "distinct (map bi_id saved) \<Longrightarrow> ids_distinct (restore_if_missing chat saved s)"
    and "ids_distinct (suppress chat tool n s)"
    and "ids_distinct (decrement_turns chat s)"
proof -
  have d: "distinct (map bi_id bs)" if "hm_get c (ss_tools s) = Some bs" for c bs
    using assms that by (auto simp: ids_distinct_def get_active_tool_ids_def split: option.splits)
  have change: "ids_distinct (s\<lparr>ss_tools := hm_insert chat bs (ss_tools s)\<rparr>)" if "distinct (map bi_id bs)" for bs
    using assms that by (auto simp: ids_distinct_def get_active_tool_ids_def split: option.splits)
  have "distinct (map bi_id (filter P (get_session_tools chat s)))" for P
    using d by (auto simp: get_session_tools_def distinct_map_filter split: option.split)
  then show "ids_distinct (snd (update_session_tools chat tools detach s))"
    by (simp add: update_session_tools_def Let_def detach_ids change attach_distinct)
  show "ids_distinct (snd (end_turn chat used limit s))"
    using assms d by (auto simp: end_turn_def intro!: change map_filter_ids_distinct dest: after_answer_id split: option.split)
  show "distinct (map bi_id saved) \<Longrightarrow> ids_distinct (restore_if_missing chat saved s)"
    using assms change by (simp add: restore_if_missing_def)
  show "ids_distinct (suppress chat tool n s)"
    using assms by (simp add: suppress_def Let_def ids_distinct_def get_active_tool_ids_def)
  have "ids_distinct (t\<lparr>ss_suppressed := m\<rparr>) = ids_distinct t" for t m
    by (simp add: ids_distinct_def get_active_tool_ids_def)
  moreover have "ids_distinct (s\<lparr>ss_tools := hm_insert chat (List.map_filter count_down bs) (ss_tools s)\<rparr>)"
    if "hm_get chat (ss_tools s) = Some bs" for bs
    using d [OF that] by (intro change map_filter_ids_distinct) (auto dest: count_down_id)
  ultimately show "ids_distinct (decrement_turns chat s)"
    using assms by (auto simp: decrement_turns_def Let_def split: option.splits)
qed

lemma active_after:
  assumes "hm_get chat (ss_tools s) = Some bs" and "distinct (map bi_id bs)" and "b \<in> set bs"
  shows "bi_id b \<in> set (get_active_tool_ids chat (answers chat limit uss s)) \<longleftrightarrow> fate limit uss b \<noteq> None"
proof -
  have "bi_id b \<in> bi_id ` set (List.map_filter (fate limit uss) bs) \<longleftrightarrow> (\<exists>c\<in>set bs. bi_id c = bi_id b \<and> fate limit uss c \<noteq> None)"
  proof
    assume "bi_id b \<in> bi_id ` set (List.map_filter (fate limit uss) bs)"
    then obtain c c' where "c \<in> set bs" "fate limit uss c = Some c'" "bi_id b = bi_id c'" by (auto simp: in_map_filter)
    with fate_id [of limit uss c c'] show "\<exists>c\<in>set bs. bi_id c = bi_id b \<and> fate limit uss c \<noteq> None" by auto
  next
    assume "\<exists>c\<in>set bs. bi_id c = bi_id b \<and> fate limit uss c \<noteq> None"
    then obtain c c' where "c \<in> set bs" "bi_id c = bi_id b" "fate limit uss c = Some c'" by auto
    with fate_id [of limit uss c c'] show "bi_id b \<in> bi_id ` set (List.map_filter (fate limit uss) bs)"
      by (intro image_eqI [of _ _ c']) (auto simp: in_map_filter)
  qed
  moreover have "c = b" if "c \<in> set bs" "bi_id c = bi_id b" for c
    using assms(2,3) that by (auto simp: distinct_map inj_on_def)
  ultimately show ?thesis using assms(3) by (auto simp: get_active_tool_ids_def answers_tools [OF assms(1)])
qed

text \<open>
  C12. How long a tool stays with a chat: a bound one with a countdown for exactly that many answers; a bound one for all
  time, and a pinned one, for ever; and one the model loaded until the first run of answers that do
  not use it is as long as its limit, so that it always goes in the end when it is not used any more.
\<close>

theorem tool_lifetimes:
  assumes "hm_get chat (ss_tools s) = Some bs" and "distinct (map bi_id bs)" and "b \<in> set bs"
  shows "(\<not> bi_inline b \<or> bi_pinned b \<longrightarrow> bi_turns b = -1 \<longrightarrow> b \<in> set (get_session_tools chat (answers chat limit uss s))) \<and>
    (\<not> bi_inline b \<or> bi_pinned b \<longrightarrow> 0 < bi_turns b \<longrightarrow>
      (bi_id b \<in> set (get_active_tool_ids chat (answers chat limit uss s)) \<longleftrightarrow> int (length uss) < bi_turns b)) \<and>
    (bi_inline b \<longrightarrow> \<not> bi_pinned b \<longrightarrow> bi_turns b = -1 \<longrightarrow> bi_idle b = 0 \<longrightarrow> limit (bi_id b) < 2 ^ 32 \<longrightarrow>
      (bi_id b \<in> set (get_active_tool_ids chat (answers chat limit uss s)) \<longleftrightarrow>
        (\<forall>k\<le>length uss. unused_for (bi_id b) (take k uss) < max (limit (bi_id b)) 1)))"
proof (intro conjI impI)
  assume "\<not> bi_inline b \<or> bi_pinned b" "bi_turns b = -1"
  from fate_bound(1) [OF this] show "b \<in> set (get_session_tools chat (answers chat limit uss s))"
    using assms(3) by (auto simp: get_session_tools_def answers_tools [OF assms(1)] in_map_filter intro!: bexI [of _ b])
next
  assume "\<not> bi_inline b \<or> bi_pinned b" "0 < bi_turns b"
  from fate_bound(2) [OF this] show "bi_id b \<in> set (get_active_tool_ids chat (answers chat limit uss s)) \<longleftrightarrow> int (length uss) < bi_turns b"
    by (simp add: active_after [OF assms])
next
  assume "bi_inline b" "\<not> bi_pinned b" "bi_turns b = -1" "bi_idle b = 0" "limit (bi_id b) < 2 ^ 32"
  from fate_loaded [of b limit uss, OF this] show "bi_id b \<in> set (get_active_tool_ids chat (answers chat limit uss s)) \<longleftrightarrow>
      (\<forall>k\<le>length uss. unused_for (bi_id b) (take k uss) < max (limit (bi_id b)) 1)"
    by (simp add: active_after [OF assms] del: all_simps split: if_splits)
qed

definition demo_sessions :: sessions where
  "demo_sessions =
     \<lparr>ss_tools = [(''chat'', [\<lparr>bi_id = ''git'', bi_turns = -1, bi_inline = True, bi_pinned = False, bi_idle = 0\<rparr>])], ss_suppressed = []\<rparr>"

lemma tool_lifetimes_witness:
  "''git'' \<notin> set (get_active_tool_ids ''chat'' (answers ''chat'' (\<lambda>_. 2) [[''git''], [], []] demo_sessions))"
proof -
  let ?b = "\<lparr>bi_id = ''git'', bi_turns = -1, bi_inline = True, bi_pinned = False, bi_idle = 0\<rparr>"
  have "unused_for ''git'' (take 3 [[''git''], [], []]) = 2"
    by (simp add: unused_for_def uses_def eq_ignore_case_def)
  then have "\<not> (\<forall>k\<le>length [[''git''], [], []]. unused_for ''git'' (take k [[''git''], [], []]) < max 2 1)"
    by (intro notI) (drule spec [of _ 3], simp add: numeral_3_eq_3)
  moreover have "hm_get ''chat'' (ss_tools demo_sessions) = Some [?b]" by (simp add: demo_sessions_def hm_get_def)
  ultimately show ?thesis
    using tool_lifetimes [of "''chat''" demo_sessions "[?b]" ?b "\<lambda>_. 2" "[[''git''], [], []]"] by auto
qed

section \<open>Tools kept out of the suggestions\<close>

text \<open>What the model unloaded is not suggested for the answers given, and at least until the next.\<close>

lemma end_turn_suppressed [simp]: "suppressed_tool_ids chat (snd (end_turn c used limit s)) = suppressed_tool_ids chat s"
  by (simp add: end_turn_def suppressed_tool_ids_def split: option.split)

lemma answered_suppressed:
  assumes "hm_get chat (ss_suppressed s) = Some m" and "hm_ok m"
  shows "\<exists>m'. hm_get chat (ss_suppressed (answered chat limit used s)) = Some m' \<and> hm_ok m' \<and>
    hm_get tool m' = (case hm_get tool m of Some n \<Rightarrow> if 1 < n then Some (n - 1) else None | None \<Rightarrow> None)"
proof -
  let ?m = "map (map_prod (\<lambda>x. x) (\<lambda>n. n - 1)) m"
  let ?m' = "hm_retain (\<lambda>_ n. n > 0) ?m"
  have "hm_ok ?m" using assms(2) by (simp add: hm_ok_def comp_def)
  moreover have "hm_get tool ?m = map_option (\<lambda>n. n - 1) (hm_get tool m)"
    by (induction m) (auto simp: hm_get_def)
  ultimately have "hm_ok ?m'" "hm_get tool ?m' = (case hm_get tool m of Some n \<Rightarrow> if 1 < n then Some (n - 1) else None | None \<Rightarrow> None)"
    by (auto simp: hm_get_retain split: option.split)
  moreover have "hm_get chat (ss_suppressed (answered chat limit used s)) = Some ?m'"
    using assms(1) by (simp add: answered_def decrement_turns_def end_turn_def Let_def id_def split: option.split)
  ultimately show ?thesis by blast
qed

lemma suppressed_for:
  assumes "hm_get chat (ss_suppressed s) = Some m" and "hm_ok m" and "hm_get tool m = Some n"
  shows "tool \<in> set (suppressed_tool_ids chat (answers chat limit uss s)) \<longleftrightarrow> length uss < max n 1"
proof -
  have "\<exists>m'. hm_get chat (ss_suppressed (answers chat limit uss s)) = Some m' \<and> hm_ok m' \<and>
    hm_get tool m' = (if length uss < max n 1 then Some (n - length uss) else None)"
  proof (induction uss rule: rev_induct)
    case Nil
    then show ?case using assms by (simp add: answers_def)
  next
    case (snoc used uss)
    then obtain m' where m': "hm_get chat (ss_suppressed (answers chat limit uss s)) = Some m'" "hm_ok m'"
      "hm_get tool m' = (if length uss < max n 1 then Some (n - length uss) else None)" by blast
    from answered_suppressed [OF m'(1,2), of limit used tool] m'(3) show ?case
      by (fastforce simp: answers_def split: if_splits)
  qed
  then show ?thesis by (force simp: suppressed_tool_ids_def hm_get_None [symmetric] not_None_eq split: if_splits dest: hm_get_set intro: rev_image_eqI)
qed

section \<open>The ledger\<close>

lemma ledger_record_set_turn:
  "ledger_record key (set_turn r l) =
     (if key = tr_key r then (if tr_block r \<noteq> [] \<or> tr_steps r \<noteq> [] then Some r else None) else ledger_record key l)"
proof -
  let ?has = "\<lambda>t. tr_key t = key"
  have kept: "find ?has (filter (\<lambda>t. tr_key t \<noteq> tr_key r) ts) = (if key = tr_key r then None else find ?has ts)" for ts
    by (induction ts) auto
  have behind: "find ?has (xs @ [r]) = (case find ?has xs of None \<Rightarrow> if ?has r then Some r else None | Some y \<Rightarrow> Some y)" for xs
    by (induction xs) auto
  show ?thesis
    using behind [of "filter (\<lambda>t. tr_key t \<noteq> tr_key r) (lg_turns l)"] kept [of "lg_turns l"]
    by (cases "key = tr_key r") (simp_all add: ledger_record_def set_turn_def Let_def split: option.split)
qed

lemma note_shows_nothing:
  assumes "\<not> contains (unloaded_note tool) ''It is loaded now''"
  shows "\<not> shows_tool parse i (st\<lparr>rs_result := unloaded_note tool\<rparr>)"
  using assms by (simp add: shows_tool_def loaded_tool_def unloaded_note_def)

text \<open>After a tool is unloaded no turn shows it any more, and doing it again changes nothing.\<close>

lemma tombstone_shows_nothing:
  assumes "\<not> contains (unloaded_note tool) ''It is loaded now''" and "tombstone parse tool l = (changed, l')"
  shows "\<forall>t\<in>set (lg_turns l'). \<forall>st\<in>set (tr_steps t). \<not> shows_tool parse tool st"
    and "tombstone parse tool l' = (False, l')"
    and "\<not> changed \<Longrightarrow> l' = l"
proof -
  have l': "lg_turns l' = map (\<lambda>t. t\<lparr>tr_steps := map (tombstone_step parse tool) (tr_steps t)\<rparr>) (lg_turns l)"
    "changed = list_ex (shows_tool parse tool) (concat (map tr_steps (lg_turns l)))"
    using assms(2) by (auto simp: tombstone_def)
  show no: "\<forall>t\<in>set (lg_turns l'). \<forall>st\<in>set (tr_steps t). \<not> shows_tool parse tool st"
    by (auto simp: l' tombstone_step_def note_shows_nothing [OF assms(1)])
  have same: "map (\<lambda>t. t\<lparr>tr_steps := map (tombstone_step parse tool) (tr_steps t)\<rparr>) ts = ts"
    if "\<forall>t\<in>set ts. \<forall>st\<in>set (tr_steps t). \<not> shows_tool parse tool st" for ts
    using that by (auto intro!: map_idI simp: tombstone_step_def cong: map_cong)
  from no same [OF no] show "tombstone parse tool l' = (False, l')"
    by (auto simp: tombstone_def list_ex_iff)
  show "l' = l" if "\<not> changed"
  proof -
    from that have "\<forall>t\<in>set (lg_turns l). \<forall>st\<in>set (tr_steps t). \<not> shows_tool parse tool st" by (auto simp: l' list_ex_iff)
    from same [OF this] have "lg_turns l' = lg_turns l" by (simp only: l')
    moreover from assms(2) have "l' = l\<lparr>lg_turns := lg_turns l'\<rparr>" by (auto simp: tombstone_def)
    ultimately show ?thesis by simp
  qed
qed

text \<open>A ledger saved is read again, also after a restart when the Engine keeps the chat; a deleted one is gone.\<close>

lemma ledger_saved:
  "fst (ledger_get stem chat (ledger_put stem external chat l s)) = l"
  "\<not> external chat \<Longrightarrow> fst (ledger_get stem chat ((ledger_put stem external chat l s)\<lparr>ls_ram := []\<rparr>)) = l"
  "fst (ledger_get stem chat (ledger_delete stem chat s)) = empty_ledger"
  by (simp_all add: ledger_get_def ledger_put_def ledger_delete_def Let_def)

end
