(* ===== verification/Tool_Calls.thy ===== *)
theory Tool_Calls
  imports Call_Records
begin

text \<open>
  The markup of tool calls: engine/core/src/tool_calls.rs and api/src/handlers/chat/tool_parser.rs. The Engine keeps one
  form of a call, the block \<open><tool_call>...</tool_call>\<close> around the JSON of its name and arguments.
\<close>

definition quote :: char where "quote = CHR 0x22"
definition linefeed :: char where "linefeed = CHR 0x0A"

type_synonym messages = "(string \<times> string) list"

section \<open>Calls in a text\<close>

text \<open>The name of a call and its arguments as text.\<close>

definition arguments_text :: "(json \<Rightarrow> string) \<Rightarrow> json \<Rightarrow> string" where
  "arguments_text print call =
     (case (case member_of ''arguments'' call of None \<Rightarrow> member_of ''parameters'' call | v \<Rightarrow> v) of
        Some (JStr s) \<Rightarrow> s
      | Some args \<Rightarrow> print args
      | None \<Rightarrow> ''{}'')"

definition call_in :: "(string \<Rightarrow> json option) \<Rightarrow> (json \<Rightarrow> string) \<Rightarrow> string \<Rightarrow> (string \<times> string) option" where
  "call_in parse print t =
     Option.bind (parse (trim t)) (\<lambda>call.
       Option.bind (member_of ''name'' call) (\<lambda>n.
         map_option (\<lambda>name. (name, arguments_text print call)) (json_str n)))"

function split_blocks :: "(string \<Rightarrow> json option) \<Rightarrow> (json \<Rightarrow> string) \<Rightarrow> string \<Rightarrow> string \<times> (string \<times> string) list" where
  "split_blocks parse print rest =
     (case find_sub TOOL_OPEN rest of
        None \<Rightarrow> (rest, [])
      | Some start \<Rightarrow>
          (let after = drop (start + length TOOL_OPEN) rest in
           case find_sub TOOL_CLOSE after of
             None \<Rightarrow> (rest, [])
           | Some e \<Rightarrow>
               (let (t, calls) = split_blocks parse print (drop (e + length TOOL_CLOSE) after) in
                case call_in parse print (take e after) of
                  Some call \<Rightarrow> (take start rest @ t, call # calls)
                | None \<Rightarrow> (take (start + length TOOL_OPEN + e + length TOOL_CLOSE) rest @ t, calls))))"
  by pat_completeness auto
termination
  by (relation "measure (\<lambda>(_, _, rest). length rest)") (auto dest!: find_sub_Some simp: TOOL_OPEN_def TOOL_CLOSE_def)

declare split_blocks.simps [simp del]

definition split_calls :: "(string \<Rightarrow> json option) \<Rightarrow> (json \<Rightarrow> string) \<Rightarrow> string \<Rightarrow> string \<times> (string \<times> string) list" where
  "split_calls parse print content = apfst trim (split_blocks parse print content)"

definition BARE_CALL :: string where
  "BARE_CALL = CHR ''{'' # quote # ''name'' @ [quote]"

definition call_without_open ::
  "(string \<Rightarrow> json option) \<Rightarrow> (json \<Rightarrow> string) \<Rightarrow> string \<Rightarrow> (string \<times> string \<times> string) option" where
  "call_without_open parse print t =
     (if contains t TOOL_OPEN then None
      else Option.bind (find_sub TOOL_CLOSE t) (\<lambda>e.
        Option.bind (find_sub BARE_CALL (take e t)) (\<lambda>start.
          map_option (\<lambda>(name, args). (take start t, name, args)) (call_in parse print (drop start (take e t))))))"

text \<open>The longest proper prefix of \<open>pat\<close>, not empty, that the text ends with: how much of it is held back.\<close>

definition partial_end :: "string \<Rightarrow> string \<Rightarrow> nat" where
  "partial_end pat t =
     (case find (\<lambda>n. suffix (take n pat) t) (rev [1..<length pat]) of Some n \<Rightarrow> n | None \<Rightarrow> 0)"

definition before_bare_call :: "string \<Rightarrow> string" where
  "before_bare_call t =
     (case find_sub BARE_CALL t of
        Some start \<Rightarrow> take start t
      | None \<Rightarrow> take (length t - partial_end BARE_CALL t) t)"

definition canonical_call :: "(string \<Rightarrow> json option) \<Rightarrow> (json \<Rightarrow> string) \<Rightarrow> string \<Rightarrow> string \<Rightarrow> string" where
  "canonical_call parse print name arguments =
     (let arguments = (case parse arguments of Some v \<Rightarrow> v | None \<Rightarrow> JStr arguments)
      in TOOL_OPEN @ [linefeed] @ print (JObj [(''name'', JStr name), (''arguments'', arguments)]) @ [linefeed] @ TOOL_CLOSE)"

section \<open>The conversation as the model's template takes it\<close>

definition plain_message :: "string \<Rightarrow> string \<Rightarrow> json" where
  "plain_message role content = JObj [(''role'', JStr role), (''content'', JStr content)]"

definition call_id :: "nat \<Rightarrow> string" where
  "call_id n = ''call_'' @ nat_text n"

definition tool_call_json :: "nat \<Rightarrow> string \<times> string \<Rightarrow> json" where
  "tool_call_json n call =
     JObj [(''type'', JStr ''function''), (''id'', JStr (call_id n)),
           (''function'', JObj [(''name'', JStr (fst call)), (''arguments'', JStr (snd call))])]"

text \<open>The state of the loop: the calls so far, the last call's id and name, the messages so far.\<close>

definition openai_step ::
  "(string \<Rightarrow> json option) \<Rightarrow> (json \<Rightarrow> string) \<Rightarrow> nat \<times> (string \<times> string) option \<times> json list \<Rightarrow> string \<times> string
     \<Rightarrow> nat \<times> (string \<times> string) option \<times> json list" where
  "openai_step parse print st m =
     (case (st, m) of ((calls, last_call, out), (role, content)) \<Rightarrow>
        let (t, found) = (if role = ''assistant'' \<and> contains content TOOL_OPEN then split_calls parse print content else ([], [])) in
        if found \<noteq> [] then
          (calls + length found, Some (call_id (calls + length found), fst (last found)),
           out @ [JObj [(''role'', JStr ''assistant''), (''content'', JStr t),
                        (''tool_calls'', JArr (map (\<lambda>(i, call). tool_call_json i call) (enumerate (calls + 1) found)))]])
        else if role = ''tool'' then
          (calls, last_call,
           out @ [JObj ([(''role'', JStr ''tool''), (''content'', JStr content)] @
                  (case last_call of Some (i, name) \<Rightarrow> [(''tool_call_id'', JStr i), (''name'', JStr name)] | None \<Rightarrow> []))])
        else (calls, last_call, out @ [plain_message role content]))"

definition openai_messages :: "(string \<Rightarrow> json option) \<Rightarrow> (json \<Rightarrow> string) \<Rightarrow> messages \<Rightarrow> json list" where
  "openai_messages parse print messages = snd (snd (foldl (openai_step parse print) (0, None, []) messages))"

definition is_alnum :: "char \<Rightarrow> bool" where
  "is_alnum c \<longleftrightarrow> is_digit c \<or> (let n = of_char c :: nat in 65 \<le> n \<and> n \<le> 90 \<or> 97 \<le> n \<and> n \<le> 122)"

definition squash :: "string \<Rightarrow> string" where
  "squash t = to_lower (filter is_alnum t)"

definition missing_messages :: "(string \<Rightarrow> json option) \<Rightarrow> (json \<Rightarrow> string) \<Rightarrow> string \<Rightarrow> messages \<Rightarrow> nat list" where
  "missing_messages parse print prompt messages =
     (let shown = squash prompt in
      map fst (filter (\<lambda>(_, role, content).
        if role = ''assistant'' \<and> \<not> contains content TOOL_OPEN then False
        else let probe = (if contains content TOOL_OPEN
                          then (case snd (split_calls parse print content) of (name, _) # _ \<Rightarrow> squash name | [] \<Rightarrow> [])
                          else take 24 (squash content))
             in length probe \<ge> 6 \<and> \<not> contains shown probe)
        (enumerate 0 messages)))"

definition tool_response :: "string \<Rightarrow> string" where
  "tool_response content = ''<tool_response>'' @ [linefeed] @ content @ [linefeed] @ ''</tool_response>''"

definition as_user_step :: "messages \<times> bool \<Rightarrow> string \<times> string \<Rightarrow> messages \<times> bool" where
  "as_user_step st m =
     (case (st, m) of ((out, last_was_tool), (role, content)) \<Rightarrow>
        if role = ''tool'' then
          (if last_was_tool \<and> out \<noteq> []
           then butlast out @ [(fst (last out), snd (last out) @ [linefeed] @ tool_response content)]
           else out @ [(''user'', tool_response content)], True)
        else (out @ [(role, content)], False))"

definition tool_results_as_user :: "messages \<Rightarrow> messages" where
  "tool_results_as_user messages = fst (foldl as_user_step ([], False) messages)"

section \<open>What is sent while the model writes\<close>

text \<open>\<open>ContentStream\<close>: its state is what was sent.\<close>

definition stream_delta :: "string \<Rightarrow> string \<Rightarrow> string option \<times> string" where
  "stream_delta sent content =
     (if length content > length sent \<and> prefix sent content then (Some (drop (length sent) content), content) else (None, sent))"

text \<open>\<open>ToolCallTextGuard\<close>: its state is the text held back.\<close>

definition nonempty :: "string \<Rightarrow> string option" where
  "nonempty t = (if t \<noteq> [] then Some t else None)"

definition guard_push :: "string \<Rightarrow> string \<Rightarrow> string option \<times> string" where
  "guard_push held content =
     (let held = held @ content;
          emit_len = (case find_sub TOOL_OPEN held of Some start \<Rightarrow> start | None \<Rightarrow> length held - partial_end TOOL_OPEN held)
      in (nonempty (take emit_len held), drop emit_len held))"

definition guard_clear :: "string \<Rightarrow> string" where
  "guard_clear held = []"

definition guard_flush :: "string \<Rightarrow> string option \<times> string" where
  "guard_flush held = (nonempty held, [])"

section \<open>The call of an answer\<close>

record extracted_call =
  raw_json :: string
  raw_fn_name :: string
  payload_str :: string

text \<open>\<open>rfind\<close>: the last occurrence.\<close>

definition rfind_sub :: "string \<Rightarrow> string \<Rightarrow> nat option" where
  "rfind_sub pat s = map_option (\<lambda>i. length s - length pat - i) (find_sub (rev pat) (rev s))"

definition fence :: string where "fence = ''```''"

definition unfenced :: "string \<Rightarrow> string" where
  "unfenced raw =
     (let t = (case strip_prefix (fence @ ''json'') raw of
                 Some t \<Rightarrow> t
               | None \<Rightarrow> (case strip_prefix fence raw of Some t \<Rightarrow> t | None \<Rightarrow> raw))
      in trim (case strip_suffix fence t of Some t \<Rightarrow> t | None \<Rightarrow> t))"

text \<open>The search for a name in a text that is not JSON.\<close>

definition name_after :: "string \<Rightarrow> string \<Rightarrow> string option" where
  "name_after raw key =
     Option.bind (find_sub key raw) (\<lambda>pos.
       Option.bind (strip_prefix [quote] (trim_start (drop (pos + length key) raw))) (\<lambda>stripped.
         map_option (\<lambda>e. take e stripped) (find_sub [quote] stripped)))"

definition name_keys :: "string list" where
  "name_keys = map (\<lambda>k. quote # k @ [quote, CHR '':'']) [''name'', ''function'', ''tool'']"

fun first_some :: "('a \<Rightarrow> 'b option) \<Rightarrow> 'a list \<Rightarrow> 'b option" where
  "first_some f [] = None"
| "first_some f (x # xs) = (case f x of None \<Rightarrow> first_some f xs | Some y \<Rightarrow> Some y)"

definition extract_tool_call :: "(string \<Rightarrow> json option) \<Rightarrow> (json \<Rightarrow> string) \<Rightarrow> string \<Rightarrow> extracted_call option" where
  "extract_tool_call parse print t =
     (if \<not> contains t TOOL_OPEN \<or> \<not> contains t TOOL_CLOSE then None
      else Option.bind (rfind_sub TOOL_OPEN t) (\<lambda>call_start.
        let clean_token = drop call_start t in
        Option.bind (find_sub TOOL_OPEN clean_token) (\<lambda>open_at.
          let start_pos = open_at + length TOOL_OPEN in
          Option.bind (find_sub TOOL_CLOSE clean_token) (\<lambda>end_pos.
            if start_pos > end_pos then None
            else
              let raw = trim (drop start_pos (take end_pos clean_token));
                  parsed = (case parse (unfenced raw) of
                              Some v \<Rightarrow> v
                            | None \<Rightarrow> (case parse raw of Some v \<Rightarrow> v | None \<Rightarrow> JObj [(''raw'', JStr raw)]));
                  name = Option.bind (case member_of ''name'' parsed of None \<Rightarrow> member_of ''function'' parsed | v \<Rightarrow> v) json_str;
                  name = (if name = None \<or> name = Some ''unknown''
                          then (case first_some (name_after raw) name_keys of Some n \<Rightarrow> Some n | None \<Rightarrow> name)
                          else name);
                  args = (case (case member_of ''arguments'' parsed of None \<Rightarrow> member_of ''parameters'' parsed | v \<Rightarrow> v) of
                            Some v \<Rightarrow> v | None \<Rightarrow> JNull);
                  payload = (case args of JStr s \<Rightarrow> s | JNull \<Rightarrow> print parsed | v \<Rightarrow> print v)
              in Some \<lparr>raw_json = raw, raw_fn_name = (case name of Some n \<Rightarrow> n | None \<Rightarrow> ''unknown''), payload_str = payload\<rparr>))))"

text \<open>The call as the turn records it (\<open>ToolTurns::push\<close>).\<close>

definition recorded_xml :: "string \<Rightarrow> string" where
  "recorded_xml raw_call_json = TOOL_OPEN @ [linefeed] @ raw_call_json @ [linefeed] @ TOOL_CLOSE"

section \<open>What is held back\<close>

text \<open>The first place from where on the text is the tag or may still become it.\<close>

definition compatible :: "string \<Rightarrow> string \<Rightarrow> bool" where
  "compatible pat t \<longleftrightarrow> prefix pat t \<or> prefix t pat"

definition safe_length :: "string \<Rightarrow> string \<Rightarrow> nat" where
  "safe_length pat t = (LEAST i. compatible pat (drop i t))"

lemma find_sub_eqI: "prefix pat (drop i s) \<Longrightarrow> (\<And>j. j < i \<Longrightarrow> \<not> prefix pat (drop j s)) \<Longrightarrow> i \<le> length s \<Longrightarrow> find_sub pat s = Some i"
proof (induction s arbitrary: i)
  case (Cons c cs)
  show ?case
  proof (cases i)
    case 0
    with Cons.prems(1) show ?thesis by simp
  next
    case (Suc k)
    with Cons.prems(2) [of 0] have "\<not> prefix pat (c # cs)" by simp
    moreover have "find_sub pat cs = Some k"
      using Cons.IH [of k] Cons.prems Suc by (metis Suc_le_mono Suc_less_eq drop_Suc_Cons length_Cons)
    ultimately show ?thesis using Suc by simp
  qed
qed simp

lemma find_sub_prefix: "find_sub pat s = Some i \<Longrightarrow> prefix pat (drop i s)"
  using find_sub_Some [of pat s i] by (metis add_leD1 append_take_drop_id prefixI same_append_eq take_append take_all length_take min.absorb2)

lemma find_longest: "find P (rev [1..<n]) = Some m \<Longrightarrow> P m \<and> m < n \<and> (\<forall>j. m < j \<longrightarrow> j < n \<longrightarrow> \<not> P j)"
proof (induction n)
  case (Suc n)
  then show ?case by (cases "n = 0"; cases "P n") (auto simp: less_Suc_eq)
qed simp

lemma partial_end_cases:
  assumes "partial_end pat t = m"
  shows "(m = 0 \<or> m < length pat \<and> suffix (take m pat) t) \<and> (\<forall>j. m < j \<longrightarrow> j < length pat \<longrightarrow> \<not> suffix (take j pat) t)"
proof (cases "find (\<lambda>n. suffix (take n pat) t) (rev [1..<length pat])")
  case None
  with assms have "m = 0" by (simp add: partial_end_def)
  with None show ?thesis by (auto simp: find_None_iff)
next
  case (Some n)
  from find_longest [OF this] have n: "n < length pat" "suffix (take n pat) t"
    "\<And>j. n < j \<Longrightarrow> j < length pat \<Longrightarrow> \<not> suffix (take j pat) t" by auto
  then show ?thesis using assms Some n by (auto simp: partial_end_def)
qed

lemma compatible_end [simp]: "compatible pat []"
  by (simp add: compatible_def)

lemma safe_length_le: "safe_length pat t \<le> length t"
  unfolding safe_length_def by (rule Least_le) simp

lemma safe_length_compatible: "compatible pat (drop (safe_length pat t) t)"
  unfolding safe_length_def by (rule LeastI [of _ "length t"]) simp

lemma not_compatible_before: "i < safe_length pat t \<Longrightarrow> \<not> compatible pat (drop i t)"
  unfolding safe_length_def by (rule not_less_Least)

lemma safe_length_eqI:
  "compatible pat (drop i t) \<Longrightarrow> (\<And>j. j < i \<Longrightarrow> \<not> compatible pat (drop j t)) \<Longrightarrow> safe_length pat t = i"
  unfolding safe_length_def by (rule Least_equality) (auto simp: not_less [symmetric])

text \<open>It is what the guard computes, and so does the one for calls without their tag.\<close>

lemma safe_length_computed:
  assumes "pat \<noteq> []"
  shows "safe_length pat t = (case find_sub pat t of Some start \<Rightarrow> start | None \<Rightarrow> length t - partial_end pat t)"
proof (cases "find_sub pat t")
  case (Some i)
  from find_sub_Some [OF this] have len: "i + length pat \<le> length t" by simp
  have "\<not> compatible pat (drop j t)" if "j < i" for j
    using find_sub_first [OF Some that] that len by (auto simp: compatible_def dest: prefix_length_le)
  with find_sub_prefix [OF Some] Some show ?thesis by (auto intro!: safe_length_eqI simp: compatible_def)
next
  case None
  let ?m = "partial_end pat t"
  have no: "\<not> prefix pat (drop j t)" for j
    using None find_sub_None [of pat t] by (metis append_take_drop_id prefix_def)
  have m: "?m = 0 \<or> ?m < length pat \<and> suffix (take ?m pat) t" "\<And>j. ?m < j \<Longrightarrow> j < length pat \<Longrightarrow> \<not> suffix (take j pat) t"
    using partial_end_cases [OF refl, of pat t] by blast+
  have "compatible pat (drop (length t - ?m) t)"
  proof (cases "?m = 0")
    case False
    with m(1) obtain x where "t = x @ take ?m pat" "?m < length pat" by (auto simp: suffix_def)
    then have "drop (length t - ?m) t = take ?m pat" by (metis add_diff_cancel_right' append_eq_conv_conj length_append length_take min.absorb4)
    then show ?thesis by (simp add: compatible_def take_is_prefix)
  qed simp
  moreover have "\<not> compatible pat (drop j t)" if "j < length t - ?m" for j
  proof
    assume "compatible pat (drop j t)"
    with no have pre: "prefix (drop j t) pat" by (auto simp: compatible_def)
    define k where "k = length (drop j t)"
    from pre have k: "drop j t = take k pat" "k \<le> length pat"
      unfolding k_def by (metis append_eq_conv_conj prefix_def, rule prefix_length_le)
    with that have "length t - j = k" by (metis length_drop length_take min.absorb2)
    moreover from k(1) no [of j] have "k \<noteq> length pat" by auto
    moreover have "suffix (take k pat) t" using k(1) by (metis suffix_drop)
    ultimately show False using m(2) [of k] that k(2) by simp
  qed
  ultimately show ?thesis using None by (simp add: safe_length_eqI)
qed

text \<open>Text that comes later does not change what was safe.\<close>

lemma safe_length_append: "safe_length pat (t @ u) = safe_length pat t + safe_length pat (drop (safe_length pat t) t @ u)"
proof (rule safe_length_eqI)
  let ?k = "safe_length pat t" and ?r = "drop (safe_length pat t) t @ u"
  note le = safe_length_le [of pat t]
  have d: "drop (?k + i) (t @ u) = drop i ?r" for i
    using le by (simp add: add.commute)
  show "compatible pat (drop (?k + safe_length pat ?r) (t @ u))" unfolding d by (rule safe_length_compatible)
  fix j assume j: "j < ?k + safe_length pat ?r"
  show "\<not> compatible pat (drop j (t @ u))"
  proof (cases "j < ?k")
    case True
    then have "\<not> compatible pat (drop j t)" by (rule not_compatible_before)
    moreover have "drop j (t @ u) = drop j t @ u" using True le by simp
    ultimately show ?thesis
      by (auto simp: compatible_def dest: append_prefixD prefix_same_cases [of pat _ "drop j t"])
  next
    case False
    then obtain i where "j = ?k + i" by (metis le_iff_add not_less)
    with j show ?thesis unfolding \<open>j = ?k + i\<close> d by (intro not_compatible_before) simp
  qed
qed

lemma tag_chars: "TOOL_OPEN \<noteq> []" "TOOL_CLOSE \<noteq> []" "BARE_CALL \<noteq> []"
  by (simp_all add: TOOL_OPEN_def TOOL_CLOSE_def BARE_CALL_def)

text \<open>The text shown for the pieces of an answer, and what is held at the end.\<close>

fun guard_run :: "string \<Rightarrow> string list \<Rightarrow> string \<times> string" where
  "guard_run held [] = ([], held)"
| "guard_run held (piece # pieces) =
     (let (shown, held) = guard_push held piece; (rest, held) = guard_run held pieces
      in ((case shown of Some t \<Rightarrow> t | None \<Rightarrow> []) @ rest, held))"

lemma guard_push_safe:
  "guard_push held piece =
     (nonempty (take (safe_length TOOL_OPEN (held @ piece)) (held @ piece)), drop (safe_length TOOL_OPEN (held @ piece)) (held @ piece))"
  by (simp add: guard_push_def safe_length_computed [OF tag_chars(1)] Let_def)

lemma safe_length_rest: "safe_length pat (drop (safe_length pat t) t) = 0"
  using safe_length_compatible [of pat t] by (intro safe_length_eqI) simp_all

lemma take_drop_after:
  "k \<le> length t \<Longrightarrow> take (k + n) (t @ u) = take k t @ take n (drop k t @ u) \<and> drop (k + n) (t @ u) = drop n (drop k t @ u)"
  by (simp add: take_add add.commute)

lemma guard_run_safe:
  assumes "safe_length TOOL_OPEN held = 0"
  shows "guard_run held pieces =
    (take (safe_length TOOL_OPEN (held @ concat pieces)) (held @ concat pieces), drop (safe_length TOOL_OPEN (held @ concat pieces)) (held @ concat pieces))"
  using assms
proof (induction pieces arbitrary: held)
  case (Cons piece pieces)
  define t where "t = held @ piece"
  let ?u = "concat pieces" and ?k = "safe_length TOOL_OPEN t"
  note le = safe_length_le [of TOOL_OPEN t]
  have push: "guard_push held piece = (nonempty (take ?k t), drop ?k t)" by (simp add: guard_push_safe t_def)
  have "(case nonempty x of Some x \<Rightarrow> x | None \<Rightarrow> []) = x" for x by (simp add: nonempty_def)
  then have "guard_run held (piece # pieces) =
    (take ?k t @ take (safe_length TOOL_OPEN (drop ?k t @ ?u)) (drop ?k t @ ?u), drop (safe_length TOOL_OPEN (drop ?k t @ ?u)) (drop ?k t @ ?u))"
    by (simp only: guard_run.simps push Cons.IH [OF safe_length_rest] Let_def prod.case)
  also have "\<dots> = (take (safe_length TOOL_OPEN (t @ ?u)) (t @ ?u), drop (safe_length TOOL_OPEN (t @ ?u)) (t @ ?u))"
    using take_drop_after [OF le, of _ ?u] by (simp only: safe_length_append [of TOOL_OPEN t])
  finally show ?case by (simp only: t_def concat.simps append_assoc)
qed simp

text \<open>
  C11. The client sees the text of an answer up to its tool call, and never any of the call's markup, however
  the model's output is cut into tokens: what is shown depends on the whole text alone and holds no
  opening tag. What is held back is the rest: from the tag on when there is one, otherwise a beginning of it
  shorter than the tag. Nothing is lost: the two together are the text.
\<close>

theorem markup_never_shown:
  "case guard_run [] pieces of (shown, held) \<Rightarrow>
     shown @ held = concat pieces \<and> \<not> contains shown TOOL_OPEN \<and>
     (if contains (concat pieces) TOOL_OPEN then prefix TOOL_OPEN held
      else strict_prefix held TOOL_OPEN \<and>
        (\<forall>x y. concat pieces = x @ y \<longrightarrow> strict_prefix y TOOL_OPEN \<longrightarrow> length y \<le> length held))"
proof -
  let ?w = "concat pieces"
  let ?k = "safe_length TOOL_OPEN ?w"
  have run: "guard_run [] pieces = (take ?k ?w, drop ?k ?w)"
    using guard_run_safe [of "[]" pieces] safe_length_le [of TOOL_OPEN "[]"] by simp
  have no: "\<not> contains (take ?k ?w) TOOL_OPEN"
  proof
    assume "contains (take ?k ?w) TOOL_OPEN"
    then obtain a b where ab: "take ?k ?w = a @ TOOL_OPEN @ b" by (auto simp: contains_iff)
    then have "compatible TOOL_OPEN (drop (length a) ?w)"
      by (metis append_eq_conv_conj append_take_drop_id append.assoc compatible_def prefixI)
    moreover have "length a < ?k" using arg_cong [OF ab, of length] by (simp add: TOOL_OPEN_def)
    ultimately show False using not_compatible_before by blast
  qed
  show ?thesis
  proof (cases "find_sub TOOL_OPEN ?w")
    case (Some i)
    then have "?k = i" by (simp add: safe_length_computed [OF tag_chars(1)])
    with no find_sub_prefix [OF Some] Some show ?thesis by (simp add: run contains_def)
  next
    case None
    then have "\<not> prefix TOOL_OPEN (drop i ?w)" for i
      using find_sub_None [of TOOL_OPEN ?w] by (metis append_take_drop_id prefix_def)
    then have "strict_prefix (drop ?k ?w) TOOL_OPEN"
      using safe_length_compatible [of TOOL_OPEN ?w] unfolding compatible_def strict_prefix_def by (metis prefix_order.refl)
    moreover have "length y \<le> length (drop ?k ?w)" if "?w = x @ y" "strict_prefix y TOOL_OPEN" for x y
    proof -
      from that have "compatible TOOL_OPEN (drop (length x) ?w)" by (simp add: compatible_def strict_prefix_def)
      then have "?k \<le> length x" using not_compatible_before leI by blast
      with that(1) show ?thesis by simp
    qed
    ultimately show ?thesis using no None by (auto simp: run contains_def)
  qed
qed

lemma markup_never_shown_witness:
  "case guard_run [] [''Look: <tool'', ''_call>x''] of (shown, held) \<Rightarrow>
     shown = ''Look: '' \<and> held = ''<tool_call>x'' \<and> \<not> contains shown TOOL_OPEN \<and> prefix TOOL_OPEN held"
proof -
  have run: "guard_run [] [''Look: <tool'', ''_call>x''] = (''Look: '', ''<tool_call>x'')"
    by code_simp
  have "contains (concat [''Look: <tool'', ''_call>x'']) TOOL_OPEN"
    by code_simp
  with markup_never_shown [of "[''Look: <tool'', ''_call>x'']"] run show ?thesis
    by simp
qed

section \<open>Calls in the Engine's form\<close>

text \<open>A pattern does not lie across a border that starts with a character it has only in front.\<close>

lemma contains_append:
  assumes "u \<noteq> [] \<Longrightarrow> hd u \<notin> set (drop 1 pat)" and "pat \<noteq> []"
  shows "contains (s @ u) pat \<longleftrightarrow> contains s pat \<or> contains u pat"
proof
  assume "contains (s @ u) pat"
  then obtain a b where ab: "s @ u = a @ pat @ b" by (auto simp: contains_iff)
  consider "length a + length pat \<le> length s" | "length s \<le> length a" | "length a < length s" "length s < length a + length pat" by linarith
  then show "contains s pat \<or> contains u pat"
  proof cases
    case 1
    then have "prefix (a @ pat) s" using ab by (metis append.assoc length_append prefixI prefix_length_prefix)
    then show ?thesis by (auto simp: prefix_def contains_iff)
  next
    case 2
    then have "u = drop (length s) a @ pat @ b" using ab by (metis append_eq_append_conv_if append_eq_conv_conj drop_append diff_is_0_eq drop0)
    then show ?thesis by (auto simp: contains_iff)
  next
    case 3
    from 3 have "length s - length a < length pat" by arith
    with 3 have "(s @ u) ! length s = pat ! (length s - length a)" by (simp add: ab nth_append)
    moreover have u: "u \<noteq> []" using arg_cong [OF ab, of length] 3 by auto
    then have "(s @ u) ! length s = hd u" by (simp add: nth_append hd_conv_nth)
    moreover obtain k where k: "length s - length a = Suc k" using 3 by (metis Suc_diff_Suc)
    then have "pat ! (length s - length a) \<in> set (drop 1 pat)"
      using 3 nth_mem [of k "drop 1 pat"] by simp
    ultimately show ?thesis using assms(1) [OF u] by simp
  qed
next
  assume "contains s pat \<or> contains u pat"
  then show "contains (s @ u) pat"
    unfolding contains_iff by (metis append.assoc)
qed

lemma contains_Cons: "pat \<noteq> [] \<Longrightarrow> c \<noteq> hd pat \<Longrightarrow> contains (c # t) pat \<longleftrightarrow> contains t pat"
  by (cases pat) (auto simp: contains_def)

lemma find_tag_here: "find_sub TOOL_OPEN (TOOL_OPEN @ t) = Some 0" "find_sub TOOL_CLOSE (TOOL_CLOSE @ t) = Some 0"
  by (simp_all add: TOOL_OPEN_def TOOL_CLOSE_def)

text \<open>A text without the closing tag, and then the tag: no part of the two is an earlier one.\<close>

lemma find_close_after:
  assumes "\<not> contains s TOOL_CLOSE"
  shows "find_sub TOOL_CLOSE (s @ TOOL_CLOSE @ t) = Some (length s)"
proof (rule find_sub_eqI)
  show "prefix TOOL_CLOSE (drop (length s) (s @ TOOL_CLOSE @ t))" by simp
  fix j assume j: "j < length s"
  show "\<not> prefix TOOL_CLOSE (drop j (s @ TOOL_CLOSE @ t))"
  proof
    assume "prefix TOOL_CLOSE (drop j (s @ TOOL_CLOSE @ t))"
    then obtain u where u: "drop j s @ TOOL_CLOSE @ t = TOOL_CLOSE @ u" using j by (auto simp: prefix_def)
    have "\<not> length TOOL_CLOSE \<le> length (drop j s)"
    proof
      assume "length TOOL_CLOSE \<le> length (drop j s)"
      with u have "prefix TOOL_CLOSE (drop j s)" by (metis prefixI prefix_length_prefix)
      with assms show False by (metis append_take_drop_id contains_iff prefix_def)
    qed
    then have "length s - j < 12" "0 < length s - j" using j by (auto simp: TOOL_CLOSE_def)
    moreover from u have "(drop j s @ TOOL_CLOSE @ t) ! (length s - j) = (TOOL_CLOSE @ u) ! (length s - j)" by simp
    then have "CHR ''<'' = (TOOL_CLOSE @ u) ! (length s - j)" by (simp add: nth_append TOOL_CLOSE_def)
    ultimately show False by (auto simp: TOOL_CLOSE_def nth_append less_Suc_eq numeral_nat)
  qed
qed simp

lemma split_one_block:
  assumes "\<not> contains s TOOL_CLOSE"
  shows "split_blocks parse print (TOOL_OPEN @ s @ TOOL_CLOSE @ t) =
    (let (t', calls) = split_blocks parse print t in
     case call_in parse print s of
       Some call \<Rightarrow> (t', call # calls)
     | None \<Rightarrow> (TOOL_OPEN @ s @ TOOL_CLOSE @ t', calls))"
  by (subst split_blocks.simps) (simp add: find_tag_here find_close_after [OF assms] Let_def split: option.split prod.split)

lemma split_no_block: "\<not> contains t TOOL_OPEN \<Longrightarrow> split_blocks parse print t = (t, [])"
  by (subst split_blocks.simps) (simp add: contains_def)

text \<open>The value a call is printed from; printing an object gives braces around the rest.\<close>

definition call_value :: "(string \<Rightarrow> json option) \<Rightarrow> string \<Rightarrow> string \<Rightarrow> json" where
  "call_value parse name arguments =
     JObj [(''name'', JStr name), (''arguments'', case parse arguments of Some v \<Rightarrow> v | None \<Rightarrow> JStr arguments)]"

definition in_braces :: "string \<Rightarrow> bool" where
  "in_braces t \<longleftrightarrow> (\<exists>u. t = CHR ''{'' # u @ [CHR ''}''])"

lemma trim_lines: "in_braces t \<Longrightarrow> trim (linefeed # t @ [linefeed]) = t"
  by (auto simp: in_braces_def trim_def trim_start_def trim_end_def is_ws_def linefeed_def)

lemma canonical_value:
  "canonical_call parse print name arguments =
     TOOL_OPEN @ (linefeed # print (call_value parse name arguments) @ [linefeed]) @ TOOL_CLOSE"
  by (simp add: canonical_call_def call_value_def Let_def)

lemma call_in_value:
  assumes "parse (print (call_value parse name arguments)) = Some (call_value parse name arguments)"
    and "in_braces (print (call_value parse name arguments))"
  shows "call_in parse print (linefeed # print (call_value parse name arguments) @ [linefeed]) =
    Some (name, case parse arguments of Some (JStr s) \<Rightarrow> s | Some v \<Rightarrow> print v | None \<Rightarrow> arguments)"
proof -
  have "member_of ''name'' (call_value parse name arguments) = Some (JStr name)"
    "arguments_text print (call_value parse name arguments) = (case parse arguments of Some (JStr s) \<Rightarrow> s | Some v \<Rightarrow> print v | None \<Rightarrow> arguments)"
    by (simp_all add: call_value_def member_of_def obj_get_def arguments_text_def split: option.split json.split)
  then show ?thesis by (simp add: call_in_def trim_lines [OF assms(2)] assms(1))
qed

lemma close_in_lines: "contains (linefeed # t @ [linefeed]) TOOL_CLOSE \<longleftrightarrow> contains t TOOL_CLOSE"
proof -
  have "contains (t @ [linefeed]) TOOL_CLOSE \<longleftrightarrow> contains t TOOL_CLOSE \<or> contains [linefeed] TOOL_CLOSE"
    by (rule contains_append) (simp_all add: TOOL_CLOSE_def linefeed_def)
  moreover have "\<not> contains [linefeed] TOOL_CLOSE" by (simp add: contains_def TOOL_CLOSE_def)
  moreover have "contains (linefeed # t @ [linefeed]) TOOL_CLOSE \<longleftrightarrow> contains (t @ [linefeed]) TOOL_CLOSE"
    by (rule contains_Cons) (simp_all add: TOOL_CLOSE_def linefeed_def)
  ultimately show ?thesis by blast
qed

text \<open>
  A call a model made in its own format is read back from the Engine's form with its name and its arguments,
  word for word when they are not JSON, and the message with it becomes an OpenAI message with that
  one call. The JSON of the call must not hold the closing tag.
\<close>

theorem canonical_call_round_trip:
  assumes "parse (print (call_value parse name arguments)) = Some (call_value parse name arguments)"
    and "in_braces (print (call_value parse name arguments))" and "\<not> contains (print (call_value parse name arguments)) TOOL_CLOSE"
  defines "args \<equiv> case parse arguments of Some (JStr s) \<Rightarrow> s | Some v \<Rightarrow> print v | None \<Rightarrow> arguments"
  shows "split_calls parse print (canonical_call parse print name arguments) = ([], [(name, args)]) \<and>
    openai_messages parse print [(''assistant'', canonical_call parse print name arguments), (''tool'', result)] =
      [JObj [(''role'', JStr ''assistant''), (''content'', JStr []), (''tool_calls'', JArr [tool_call_json 1 (name, args)])],
       JObj [(''role'', JStr ''tool''), (''content'', JStr result), (''tool_call_id'', JStr (call_id 1)), (''name'', JStr name)]]"
proof -
  have close: "\<not> contains (linefeed # print (call_value parse name arguments) @ [linefeed]) TOOL_CLOSE"
    unfolding close_in_lines by (rule assms(3))
  have "split_blocks parse print [] = ([], [])" by (rule split_no_block) (simp add: contains_def TOOL_OPEN_def)
  with split_one_block [OF close, of parse print "[]"] call_in_value [of parse print name arguments, OF assms(1,2)]
  have s: "split_calls parse print (canonical_call parse print name arguments) = ([], [(name, args)])"
    by (simp add: split_calls_def canonical_value args_def trim_def trim_start_def trim_end_def)
  moreover have "contains (canonical_call parse print name arguments) TOOL_OPEN"
    unfolding canonical_value contains_def by (simp add: find_tag_here del: append.simps)
  ultimately show ?thesis by (simp add: openai_messages_def openai_step_def)
qed

text \<open>
  A call whose arguments hold the closing tag, say the text of a file about these tags, is not read back: the block is
  taken to end inside the arguments, what is before is no JSON, and the message goes to the model's
  template as plain text without a call; the tool's result after it answers none.
\<close>

theorem call_with_tag_lost:
  assumes "print (call_value parse name arguments) = a @ TOOL_CLOSE @ b" and "\<not> contains a TOOL_CLOSE" and "\<not> contains b TOOL_OPEN"
    and "parse (trim (linefeed # a)) = None"
  shows "split_calls parse print (canonical_call parse print name arguments) = (canonical_call parse print name arguments, []) \<and>
    openai_messages parse print [(''assistant'', canonical_call parse print name arguments), (''tool'', result)] =
      [plain_message ''assistant'' (canonical_call parse print name arguments),
       JObj [(''role'', JStr ''tool''), (''content'', JStr result)]]"
proof -
  let ?rest = "b @ [linefeed] @ TOOL_CLOSE"
  have c: "canonical_call parse print name arguments = TOOL_OPEN @ (linefeed # a) @ TOOL_CLOSE @ ?rest"
    by (simp add: canonical_value assms(1))
  have "\<not> contains (linefeed # a) TOOL_CLOSE"
    using assms(2) by (auto simp: contains_iff Cons_eq_append_conv TOOL_CLOSE_def linefeed_def)
  note split = split_one_block [OF this, of parse print ?rest]
  have "contains ?rest TOOL_OPEN \<longleftrightarrow> contains b TOOL_OPEN \<or> contains ([linefeed] @ TOOL_CLOSE) TOOL_OPEN"
    by (rule contains_append) (simp_all add: TOOL_OPEN_def linefeed_def)
  then have "\<not> contains ?rest TOOL_OPEN"
    using assms(3) by (simp add: contains_def TOOL_OPEN_def TOOL_CLOSE_def linefeed_def)
  from split split_no_block [OF this] assms(4)
  have "split_blocks parse print (canonical_call parse print name arguments) = (canonical_call parse print name arguments, [])"
    by (simp add: c call_in_def)
  moreover have "trim (canonical_call parse print name arguments) = canonical_call parse print name arguments"
    by (simp add: c TOOL_OPEN_def TOOL_CLOSE_def trim_def trim_start_def trim_end_def is_ws_def)
  ultimately show ?thesis by (simp add: split_calls_def openai_messages_def openai_step_def)
qed

definition call_parse :: "string \<Rightarrow> json option" where
  "call_parse t = (if t = ''{}'' then Some (JObj [(''name'', JStr ''f''), (''arguments'', JStr ''x'')]) else None)"

lemma canonical_call_round_trip_witness:
  "split_calls call_parse (\<lambda>_. ''{}'') (canonical_call call_parse (\<lambda>_. ''{}'') ''f'' ''x'') = ([], [(''f'', ''x'')])"
proof -
  have "call_value call_parse ''f'' ''x'' = JObj [(''name'', JStr ''f''), (''arguments'', JStr ''x'')]"
    by (simp add: call_value_def call_parse_def)
  moreover have "in_braces ''{}''" by (simp add: in_braces_def)
  ultimately show ?thesis
    using canonical_call_round_trip [of call_parse "\<lambda>_. ''{}''" "''f''" "''x''"]
    by (simp add: call_parse_def contains_def TOOL_CLOSE_def)
qed

lemma call_with_tag_lost_witness:
  "snd (split_calls (\<lambda>_. None) (\<lambda>_. ''{'' @ TOOL_CLOSE @ ''}'') (canonical_call (\<lambda>_. None) (\<lambda>_. ''{'' @ TOOL_CLOSE @ ''}'') ''f'' TOOL_CLOSE)) = []"
  using call_with_tag_lost [of "\<lambda>_. ''{'' @ TOOL_CLOSE @ ''}''" "\<lambda>_. None" "''f''" TOOL_CLOSE "''{''" "''}''"]
  by (simp add: contains_def TOOL_CLOSE_def TOOL_OPEN_def)

section \<open>The call of an answer, extracted\<close>

lemma rfind_last:
  assumes "\<not> contains (drop 1 (pat @ u)) pat" and "pat \<noteq> []"
  shows "rfind_sub pat (s @ pat @ u) = Some (length s)"
proof -
  have "find_sub (rev pat) (rev u @ rev pat @ rev s) = Some (length u)"
  proof (rule find_sub_eqI)
    show "prefix (rev pat) (drop (length u) (rev u @ rev pat @ rev s))" by simp
    fix j assume j: "j < length u"
    show "\<not> prefix (rev pat) (drop j (rev u @ rev pat @ rev s))"
    proof
      assume "prefix (rev pat) (drop j (rev u @ rev pat @ rev s))"
      then obtain z where z: "drop j (rev u) @ rev pat @ rev s = rev pat @ z" using j by (auto simp: prefix_def)
      have "prefix (rev pat) (drop j (rev u) @ rev (drop 1 pat))"
      proof (rule prefix_length_prefix)
        show "prefix (rev pat) (drop j (rev u) @ rev pat @ rev s)" unfolding z by simp
        have "rev pat = rev (drop 1 pat) @ [hd pat]" using assms(2) by (cases pat) simp_all
        then show "prefix (drop j (rev u) @ rev (drop 1 pat)) (drop j (rev u) @ rev pat @ rev s)" by simp
        show "length (rev pat) \<le> length (drop j (rev u) @ rev (drop 1 pat))" using j assms(2) by (cases pat) auto
      qed
      then obtain w where "drop j (rev u) @ rev (drop 1 pat) = rev pat @ w" by (auto simp: prefix_def)
      then have "rev (rev u @ rev (drop 1 pat)) = rev (take j (rev u) @ rev pat @ w)" by (metis append_take_drop_id append.assoc)
      then have "drop 1 pat @ u = rev w @ pat @ rev (take j (rev u))" by simp
      moreover have "drop 1 (pat @ u) = drop 1 pat @ u" using assms(2) by (cases pat) simp_all
      ultimately show False using assms(1) by (auto simp: contains_iff)
    qed
  qed simp
  then show ?thesis by (simp add: rfind_sub_def)
qed

lemma close_not_open: "contains (TOOL_CLOSE @ t) TOOL_OPEN \<longleftrightarrow> contains t TOOL_OPEN"
  by (simp add: TOOL_CLOSE_def) (simp add: TOOL_OPEN_def contains_def)

lemma open_not_close: "contains (TOOL_OPEN @ t) TOOL_CLOSE \<longleftrightarrow> contains t TOOL_CLOSE"
  by (simp add: TOOL_OPEN_def) (simp add: TOOL_CLOSE_def contains_def)

lemma one_open: "contains (drop 1 (TOOL_OPEN @ t)) TOOL_OPEN \<longleftrightarrow> contains t TOOL_OPEN"
  by (simp add: TOOL_OPEN_def contains_def)

lemma last_open:
  assumes "\<not> contains body TOOL_OPEN" and "\<not> contains after TOOL_OPEN"
  shows "rfind_sub TOOL_OPEN (before @ TOOL_OPEN @ body @ TOOL_CLOSE @ after) = Some (length before)"
proof (rule rfind_last)
  have "contains (body @ TOOL_CLOSE @ after) TOOL_OPEN \<longleftrightarrow> contains body TOOL_OPEN \<or> contains (TOOL_CLOSE @ after) TOOL_OPEN"
    by (rule contains_append) (simp_all add: TOOL_OPEN_def TOOL_CLOSE_def)
  with assms show "\<not> contains (drop 1 (TOOL_OPEN @ body @ TOOL_CLOSE @ after)) TOOL_OPEN"
    unfolding one_open close_not_open by simp
qed (simp add: TOOL_OPEN_def)

lemma contains_mid [simp]: "contains (a @ pat @ b) pat"
  by (auto simp: contains_iff)

definition payload_of :: "(json \<Rightarrow> string) \<Rightarrow> json \<Rightarrow> string" where
  "payload_of print v =
     (case (case member_of ''arguments'' v of None \<Rightarrow> member_of ''parameters'' v | a \<Rightarrow> a) of
        Some (JStr s) \<Rightarrow> s | Some JNull \<Rightarrow> print v | None \<Rightarrow> print v | Some args \<Rightarrow> print args)"

text \<open>
  The last call block of an answer is the call that runs, whatever text or blocks come before it and text
  after it; a fence of the model around the JSON is taken off for that, the text of the block is kept.
\<close>

lemma last_call_extracted:
  assumes "\<not> contains body TOOL_OPEN" and "\<not> contains body TOOL_CLOSE" and "\<not> contains after TOOL_OPEN"
    and "parse (unfenced (trim body)) = Some v" and "member_of ''name'' v = Some (JStr n)" and "n \<noteq> ''unknown''"
  shows "extract_tool_call parse print (before @ TOOL_OPEN @ body @ TOOL_CLOSE @ after) =
    Some \<lparr>raw_json = trim body, raw_fn_name = n, payload_str = payload_of print v\<rparr>"
proof -
  let ?t = "before @ TOOL_OPEN @ body @ TOOL_CLOSE @ after"
  have "contains ?t TOOL_OPEN" by simp
  moreover have "contains ?t TOOL_CLOSE" using contains_mid [of "before @ TOOL_OPEN @ body" TOOL_CLOSE after] by simp
  moreover have "find_sub TOOL_CLOSE (TOOL_OPEN @ body @ TOOL_CLOSE @ after) = Some (length TOOL_OPEN + length body)"
    using find_close_after [of "TOOL_OPEN @ body" after] assms(2) by (simp add: open_not_close)
  ultimately show ?thesis
    using assms(4-6) last_open [OF assms(1,3), of before]
    by (simp add: extract_tool_call_def find_tag_here Let_def payload_of_def split: option.split json.split)
qed

section \<open>A fenced call in the log\<close>

lemma unfenced_json: "unfenced (fence @ ''json'' @ x @ fence) = trim x"
proof -
  have "strip_prefix (fence @ ''json'') (fence @ ''json'' @ x @ fence) = Some (x @ fence)"
    by (simp add: strip_prefix_def fence_def)
  moreover have "strip_suffix fence (x @ fence) = Some x" by (simp add: strip_suffix_def suffix_def)
  ultimately show ?thesis by (simp add: unfenced_def)
qed

lemma recorded_call_json:
  assumes "raw = fence @ x @ fence"
  shows "call_json parse (recorded_xml raw) = parse raw"
proof -
  have "trim (recorded_xml raw) = recorded_xml raw"
    by (simp add: recorded_xml_def TOOL_OPEN_def TOOL_CLOSE_def trim_def trim_start_def trim_end_def is_ws_def)
  moreover have "trim_start_matches TOOL_OPEN (recorded_xml raw) = linefeed # raw @ [linefeed] @ TOOL_CLOSE"
    by (simp add: recorded_xml_def TOOL_OPEN_def linefeed_def)
  moreover have "trim_end_matches TOOL_CLOSE (linefeed # raw @ [linefeed] @ TOOL_CLOSE) = linefeed # raw @ [linefeed]"
    by (simp add: trim_end_matches_def TOOL_CLOSE_def linefeed_def)
  moreover have "trim (linefeed # raw @ [linefeed]) = raw"
    by (simp add: assms trim_def trim_start_def trim_end_def is_ws_def linefeed_def fence_def)
  ultimately show ?thesis by (simp add: call_json_def)
qed

text \<open>
  C38. A call the model put into a Markdown fence runs like any other, but what the log records of it has no redaction:
  the block is recorded with its fence, which the redaction does not read as JSON, so the secrets in
  the arguments are logged as they are.
\<close>

theorem fenced_call_logged_with_secrets:
  assumes "\<not> contains (fence @ ''json'' @ x @ fence) TOOL_OPEN" and "\<not> contains (fence @ ''json'' @ x @ fence) TOOL_CLOSE"
    and "\<not> contains after TOOL_OPEN"
    and "parse (trim x) = Some v" and "member_of ''name'' v = Some (JStr n)" and "n \<noteq> ''unknown''"
    and "parse (fence @ ''json'' @ x @ fence) = None"
  shows "\<exists>call. extract_tool_call parse print (before @ TOOL_OPEN @ (fence @ ''json'' @ x @ fence) @ TOOL_CLOSE @ after) = Some call \<and>
    raw_fn_name call = n \<and> payload_str call = payload_of print v \<and>
    redact_call parse print (recorded_xml (raw_json call)) = recorded_xml (raw_json call) \<and>
    contains (recorded_xml (raw_json call)) x"
proof -
  let ?raw = "fence @ ''json'' @ x @ fence"
  have raw: "trim ?raw = ?raw" by (simp add: fence_def trim_def trim_start_def trim_end_def is_ws_def)
  have "extract_tool_call parse print (before @ TOOL_OPEN @ ?raw @ TOOL_CLOSE @ after) =
    Some \<lparr>raw_json = ?raw, raw_fn_name = n, payload_str = payload_of print v\<rparr>"
    using last_call_extracted [OF assms(1-3) _ assms(5,6)] assms(4) raw unfenced_json [of x] by simp
  moreover have "redact_call parse print (recorded_xml ?raw) = recorded_xml ?raw"
    using recorded_call_json [of ?raw "''json'' @ x"] assms(7) by (simp add: redact_call_def)
  moreover have "contains (recorded_xml ?raw) x"
    using contains_mid [of "TOOL_OPEN @ [linefeed] @ fence @ ''json''" x "fence @ [linefeed] @ TOOL_CLOSE"] by (simp add: recorded_xml_def)
  ultimately show ?thesis by simp
qed

lemma fenced_call_logged_with_secrets_witness:
  "\<exists>call. extract_tool_call call_parse (\<lambda>_. []) ([] @ TOOL_OPEN @ (fence @ ''json'' @ ''{}'' @ fence) @ TOOL_CLOSE @ []) = Some call \<and>
     redact_call call_parse (\<lambda>_. []) (recorded_xml (raw_json call)) = recorded_xml (raw_json call)"
  using fenced_call_logged_with_secrets [of "''{}''" "[]" call_parse _ "''f''" "\<lambda>_. []" "[]"]
  by (simp add: call_parse_def contains_def TOOL_OPEN_def TOOL_CLOSE_def fence_def member_of_def obj_get_def
      trim_def trim_start_def trim_end_def is_ws_def) blast

section \<open>The other streams\<close>

lemma before_bare_call_safe: "before_bare_call t = take (safe_length BARE_CALL t) t"
  by (simp add: before_bare_call_def safe_length_computed [OF tag_chars(3)] split: option.split)

text \<open>What goes out of a partial answer still goes out when more of the answer is there.\<close>

lemma before_bare_call_grows: "prefix (before_bare_call t) (before_bare_call (t @ u))"
  using take_drop_after [OF safe_length_le, of BARE_CALL t _ u]
  by (simp only: before_bare_call_safe safe_length_append [of BARE_CALL t]) simp

fun stream_run :: "string \<Rightarrow> string list \<Rightarrow> string list \<times> string" where
  "stream_run sent [] = ([], sent)"
| "stream_run sent (c # cs) =
     (let (d, sent) = stream_delta sent c; (ds, sent) = stream_run sent cs
      in ((case d of Some x \<Rightarrow> x # ds | None \<Rightarrow> ds), sent))"

lemma stream_run_sent: "stream_run sent cs = (ds, sent') \<Longrightarrow> sent' = sent @ concat ds \<and> [] \<notin> set ds \<and> (sent' = sent \<or> sent' \<in> set cs)"
proof (induction cs arbitrary: sent ds)
  case (Cons c cs)
  then show ?case
    by (auto simp: stream_delta_def prefix_def Let_def split: if_splits prod.splits dest!: Cons.IH)
qed simp

text \<open>A content that only grows goes out whole.\<close>

lemma stream_run_growing: "sorted_wrt prefix (sent # cs) \<Longrightarrow> snd (stream_run sent cs) = last (sent # cs)"
proof (induction cs arbitrary: sent)
  case (Cons c cs)
  from Cons.prems have p: "prefix sent c" and s: "sorted_wrt prefix (c # cs)" by auto
  have "snd (stream_delta sent c) = c"
    using p by (auto simp: stream_delta_def prefix_def)
  with Cons.IH [OF s] show ?case by (cases "stream_delta sent c"; cases "stream_run c cs") auto
qed simp

end
