(* ===== verification/Tool_Turns.thy ===== *)
theory Tool_Turns
  imports Session_Tools Tool_Calls
begin

text \<open>
  api/src/handlers/chat/tool_turns.rs: the tool steps of one answer, and what loading, unloading and the end of an
  answer do to the tools bound to the chat and to its ledger. What a tool's registry entry and the
  prompt compiler say are parameters: \<open>default_turns\<close> of an installed tool, and the tool a function
  name belongs to (\<open>resolve\<close>). A chat without a session has no bindings, a private one no ledger.
\<close>

definition UNLOADED_TOOL_ANSWERS :: nat where "UNLOADED_TOOL_ANSWERS = 3"

record tool_turns =
  tt_steps :: "recorded_step list"
  tt_functions :: "json list"
  tt_tool_role :: bool

definition turns_start :: "recorded_step option \<Rightarrow> bool \<Rightarrow> tool_turns" where
  "turns_start auto_loaded tool_role =
     \<lparr>tt_steps = (case auto_loaded of Some st \<Rightarrow> [st] | None \<Rightarrow> []), tt_functions = [], tt_tool_role = tool_role\<rparr>"

definition add_loaded_tool :: "bool \<Rightarrow> json list \<Rightarrow> tool_turns \<Rightarrow> tool_turns" where
  "add_loaded_tool native_tools schemas t = (if native_tools then t\<lparr>tt_functions := tt_functions t @ schemas\<rparr> else t)"

definition push_step :: "string \<Rightarrow> string \<Rightarrow> string \<Rightarrow> tool_turns \<Rightarrow> tool_turns" where
  "push_step raw name result t =
     t\<lparr>tt_steps := tt_steps t @ [\<lparr>rs_call = recorded_xml raw, rs_name = name, rs_result = result\<rparr>]\<rparr>"

text \<open>The call of a step, read without trimming the block first.\<close>

definition step_call :: "(string \<Rightarrow> json option) \<Rightarrow> recorded_step \<Rightarrow> json option" where
  "step_call parse st = parse (trim (trim_end_matches TOOL_CLOSE (trim_start_matches TOOL_OPEN (rs_call st))))"

definition loads_tool :: "(string \<Rightarrow> json option) \<Rightarrow> string \<Rightarrow> recorded_step \<Rightarrow> bool" where
  "loads_tool parse i st =
     (let call = (case step_call parse st of Some v \<Rightarrow> v | None \<Rightarrow> JNull)
      in Option.bind (member_of ''name'' call) json_str = Some LOAD_TOOL_NAME \<and>
         (case Option.bind (pointer2 ''arguments'' ''id'' call) json_str of
            Some loaded \<Rightarrow> eq_ignore_case (trim loaded) (trim i)
          | None \<Rightarrow> False))"

definition tombstone_turn :: "(string \<Rightarrow> json option) \<Rightarrow> string \<Rightarrow> tool_turns \<Rightarrow> tool_turns" where
  "tombstone_turn parse i t =
     t\<lparr>tt_steps := map (\<lambda>st. if loads_tool parse i st then st\<lparr>rs_result := unloaded_note i\<rparr> else st) (tt_steps t)\<rparr>"

definition loaded_ids :: "(string \<Rightarrow> json option) \<Rightarrow> tool_turns \<Rightarrow> string list" where
  "loaded_ids parse t =
     List.map_filter (\<lambda>st.
       Option.bind (step_call parse st) (\<lambda>call.
         case Option.bind (pointer2 ''arguments'' ''id'' call) json_str of
           Some i \<Rightarrow> Some i
         | None \<Rightarrow> Option.bind (member_of ''name'' call) json_str))
       (filter (\<lambda>st. prefix ''Loaded tool'' (rs_result st)) (tt_steps t))"

definition turn_chars :: "tool_turns \<Rightarrow> nat" where
  "turn_chars t = sum_list (map (\<lambda>st. length (rs_call st) + length (rs_result st)) (tt_steps t))"

section \<open>The prompt with the steps\<close>

definition format_tool_response :: "(json \<Rightarrow> string) \<Rightarrow> string \<Rightarrow> json \<Rightarrow> string" where
  "format_tool_response print name content =
     ''<tool_response>'' @ [linefeed] @ ''{'' @ quote # ''name'' @ [quote] @ '': '' @ quote # name @ [quote] @ '', '' @
     quote # ''content'' @ [quote] @ '': '' @ print content @ ''}'' @ [linefeed] @ ''</tool_response>''"

definition format_tool_response_raw :: "(string \<Rightarrow> json option) \<Rightarrow> (json \<Rightarrow> string) \<Rightarrow> string \<Rightarrow> string \<Rightarrow> string" where
  "format_tool_response_raw parse print name raw =
     format_tool_response print name (case parse raw of Some v \<Rightarrow> v | None \<Rightarrow> JObj [(''output'', JStr raw)])"

definition step_messages :: "(string \<Rightarrow> json option) \<Rightarrow> (json \<Rightarrow> string) \<Rightarrow> recorded_step list \<Rightarrow> bool \<Rightarrow> messages" where
  "step_messages parse print steps tool_role =
     concat (map (\<lambda>st.
       [(''assistant'', rs_call st),
        if tool_role then (''tool'', rs_result st)
        else (''user'', format_tool_response_raw parse print (rs_name st) (rs_result st))]) steps)"

definition envelope_of :: "(string \<Rightarrow> json option) \<Rightarrow> string \<Rightarrow> json" where
  "envelope_of parse json_prompt = (case parse json_prompt of Some v \<Rightarrow> v | None \<Rightarrow> JObj [])"

definition extend_messages :: "messages \<Rightarrow> json \<Rightarrow> json" where
  "extend_messages ms envelope =
     (case envelope of
        JObj m \<Rightarrow>
          (case obj_get ''messages'' m of
             Some (JArr old) \<Rightarrow> JObj (obj_insert ''messages'' (JArr (old @ map (\<lambda>(role, content). plain_message role content) ms)) m)
           | _ \<Rightarrow> envelope)
      | _ \<Rightarrow> envelope)"

definition with_steps :: "(string \<Rightarrow> json option) \<Rightarrow> (json \<Rightarrow> string) \<Rightarrow> string \<Rightarrow> recorded_step list \<Rightarrow> bool \<Rightarrow> string" where
  "with_steps parse print json_prompt steps tool_role =
     print (extend_messages (step_messages parse print steps tool_role) (envelope_of parse json_prompt))"

definition function_name :: "json \<Rightarrow> string" where
  "function_name schema =
     (case Option.bind (case pointer2 ''function'' ''name'' schema of None \<Rightarrow> member_of ''name'' schema | v \<Rightarrow> v) json_str of
        Some n \<Rightarrow> n | None \<Rightarrow> [])"

fun unique_from :: "string list \<Rightarrow> json list \<Rightarrow> json list" where
  "unique_from seen [] = []"
| "unique_from seen (schema # schemas) =
     (if function_name schema \<in> set seen then unique_from seen schemas
      else schema # unique_from (function_name schema # seen) schemas)"

definition unique_functions :: "json list \<Rightarrow> json list" where
  "unique_functions schemas = unique_from [] schemas"

text \<open>\<open>continuation\<close>, for a prompt without media.\<close>

definition continuation :: "(string \<Rightarrow> json option) \<Rightarrow> (json \<Rightarrow> string) \<Rightarrow> string \<Rightarrow> tool_turns \<Rightarrow> string" where
  "continuation parse print json_prompt t =
     (let prompt = with_steps parse print json_prompt (tt_steps t) (tt_tool_role t) in
      if tt_functions t = [] then prompt
      else
        (let envelope = envelope_of parse prompt;
             tools = (case member_of ''tools'' envelope of Some (JArr vs) \<Rightarrow> vs | _ \<Rightarrow> []);
             all = JArr (unique_functions (tools @ tt_functions t))
         in print (case envelope of JObj m \<Rightarrow> JObj (obj_insert ''tools'' all m) | v \<Rightarrow> v)))"

definition template_renders_tool_role :: "string \<Rightarrow> bool" where
  "template_renders_tool_role t \<longleftrightarrow> contains t (quote # ''tool'' @ [quote]) \<or> contains t (CHR 0x27 # ''tool'' @ [CHR 0x27])"

definition template_has_tool_role :: "string option \<Rightarrow> bool" where
  "template_has_tool_role t = (case t of Some t \<Rightarrow> template_renders_tool_role t | None \<Rightarrow> False)"

definition template_renders_tools :: "string option \<Rightarrow> bool" where
  "template_renders_tools t = (case t of Some t \<Rightarrow> contains t ''tools'' | None \<Rightarrow> False)"

section \<open>Loading, unloading and the end of an answer\<close>

record tool_state =
  ts_sessions :: sessions
  ts_ledgers :: ledgers

definition idle_limit :: "(string \<Rightarrow> int option) \<Rightarrow> string \<Rightarrow> nat" where
  "idle_limit default_turns i =
     (case default_turns i of
        Some n \<Rightarrow> if 0 < n \<and> n < 2 ^ 32 then nat n else IDLE_TURNS
      | None \<Rightarrow> IDLE_TURNS)"

definition used_tool :: "(string \<Rightarrow> json option) \<Rightarrow> (string \<Rightarrow> string option) \<Rightarrow> recorded_step \<Rightarrow> string option" where
  "used_tool parse resolve st =
     Option.bind (call_json parse (rs_call st)) (\<lambda>call.
       Option.bind (Option.bind (member_of ''name'' call) json_str) (\<lambda>name.
         if name = LOAD_TOOL_NAME then Option.bind (pointer2 ''arguments'' ''id'' call) json_str
         else Some (case resolve name of Some i \<Rightarrow> i | None \<Rightarrow> name)))"

text \<open>The note in the earlier turns of a chat that has a ledger.\<close>

definition tombstone_ledger ::
  "(string \<Rightarrow> json option) \<Rightarrow> (string \<Rightarrow> string) \<Rightarrow> (string \<Rightarrow> bool) \<Rightarrow> string option \<Rightarrow> string \<Rightarrow> ledgers \<Rightarrow> ledgers" where
  "tombstone_ledger parse stem external ledger_chat i ls =
     (case ledger_chat of
        None \<Rightarrow> ls
      | Some chat \<Rightarrow>
          (let (l, ls) = ledger_get stem chat ls; (changed, l) = tombstone parse i l
           in if changed then ledger_put stem external chat l ls else ls))"

definition end_turn_tools ::
  "(string \<Rightarrow> json option) \<Rightarrow> (string \<Rightarrow> string) \<Rightarrow> (string \<Rightarrow> bool) \<Rightarrow> (string \<Rightarrow> int option) \<Rightarrow> (string \<Rightarrow> string option)
     \<Rightarrow> string option \<Rightarrow> string option \<Rightarrow> tool_turns \<Rightarrow> tool_state \<Rightarrow> tool_state" where
  "end_turn_tools parse stem external default_turns resolve ledger_chat session t s =
     (case session of
        None \<Rightarrow> s
      | Some chat \<Rightarrow>
          (let used = List.map_filter (used_tool parse resolve) (tt_steps t);
               (ids, ss) = end_turn chat used (idle_limit default_turns) (ts_sessions s)
           in \<lparr>ts_sessions = ss, ts_ledgers = foldl (\<lambda>ls i. tombstone_ledger parse stem external ledger_chat i ls) (ts_ledgers s) ids\<rparr>))"

text \<open>
  The branches of \<open>run_meta_tool\<close> that change the tools; \<open>loaded\<close> is the tool the search loaded, and the id to
  unload is the trimmed argument.
\<close>

definition run_load_tool :: "string option \<Rightarrow> string option \<Rightarrow> tool_state \<Rightarrow> tool_state" where
  "run_load_tool session loaded s =
     (case (loaded, session) of
        (Some i, Some chat) \<Rightarrow>
          s\<lparr>ts_sessions := snd (update_session_tools chat
              [\<lparr>bi_id = i, bi_turns = -1, bi_inline = True, bi_pinned = False, bi_idle = 0\<rparr>] [] (ts_sessions s))\<rparr>
      | _ \<Rightarrow> s)"

definition run_unload_tool ::
  "(string \<Rightarrow> json option) \<Rightarrow> (string \<Rightarrow> string) \<Rightarrow> (string \<Rightarrow> bool) \<Rightarrow> string option \<Rightarrow> string option \<Rightarrow> string \<Rightarrow> tool_state
     \<Rightarrow> string \<times> tool_state" where
  "run_unload_tool parse stem external ledger_chat session i s =
     (let ss = (case session of
                  Some chat \<Rightarrow> suppress chat i UNLOADED_TOOL_ANSWERS (snd (update_session_tools chat [] [i] (ts_sessions s)))
                | None \<Rightarrow> ts_sessions s)
      in (''Tool '' @ [CHR 0x27] @ i @ [CHR 0x27] @ '' unloaded.'',
          \<lparr>ts_sessions = ss, ts_ledgers = tombstone_ledger parse stem external ledger_chat i (ts_ledgers s)\<rparr>))"

text \<open>\<open>room\<close>: whether the answer can load tools at all; \<open>is_meta\<close> and \<open>installed\<close> are the tool search's.\<close>

definition needs_load ::
  "(string \<Rightarrow> json option) \<Rightarrow> (string \<Rightarrow> bool) \<Rightarrow> (string \<Rightarrow> bool) \<Rightarrow> bool \<Rightarrow> string list \<Rightarrow> string option \<Rightarrow> string \<Rightarrow> tool_turns
     \<Rightarrow> sessions \<Rightarrow> bool" where
  "needs_load parse is_meta installed room loaded_tool_ids session name t s =
     (if \<not> room \<or> is_meta name then False
      else
        (let loaded = (\<lambda>i. eq_ignore_case i (trim name));
             bound = (case session of Some chat \<Rightarrow> get_active_tool_ids chat s | None \<Rightarrow> [])
         in \<not> list_ex loaded loaded_tool_ids \<and> \<not> list_ex loaded bound \<and> \<not> list_ex loaded (loaded_ids parse t) \<and> installed name))"

section \<open>The prompt only grows\<close>

lemma step_messages_append: "step_messages parse print (a @ b) tool_role = step_messages parse print a tool_role @ step_messages parse print b tool_role"
  by (simp add: step_messages_def)

lemma extend_messages_append: "extend_messages b (extend_messages a v) = extend_messages (a @ b) v"
  by (auto simp: extend_messages_def split: json.split option.split) (simp_all add: obj_insert_def update_last)

text \<open>The steps so far and then the next ones give the same prompt as all at once.\<close>

lemma with_steps_append:
  assumes "\<And>v. parse (print v) = Some v"
  shows "with_steps parse print (with_steps parse print p a tool_role) b tool_role = with_steps parse print p (a @ b) tool_role"
  by (simp add: with_steps_def envelope_of_def assms extend_messages_append step_messages_append)

lemma unique_from_fresh: "v \<in> set (unique_from seen vs) \<Longrightarrow> function_name v \<notin> set seen \<and> v \<in> set vs"
  by (induction seen vs rule: unique_from.induct) (auto split: if_splits)

lemma unique_from_distinct: "distinct (map function_name (unique_from seen vs))"
  by (induction seen vs rule: unique_from.induct) (auto dest: unique_from_fresh)

lemma unique_from_all: "v \<in> set vs \<Longrightarrow> function_name v \<in> set seen \<union> function_name ` set (unique_from seen vs)"
  by (induction seen vs rule: unique_from.induct) (auto split: if_splits)

text \<open>Each function is offered once, and none is lost.\<close>

lemma unique_functions_names:
  "distinct (map function_name (unique_functions vs)) \<and> function_name ` set (unique_functions vs) = function_name ` set vs"
  using unique_from_distinct [of "[]" vs] unique_from_all [of _ vs "[]"] unique_from_fresh [of _ "[]" vs]
  unfolding unique_functions_def by auto

section \<open>Unloading\<close>

definition ledger_shows :: "(string \<Rightarrow> json option) \<Rightarrow> string \<Rightarrow> ledger \<Rightarrow> bool" where
  "ledger_shows parse i l \<longleftrightarrow> (\<exists>t\<in>set (lg_turns l). \<exists>st\<in>set (tr_steps t). shows_tool parse i st)"

lemma tombstone_ledger_shows:
  assumes "\<not> contains (unloaded_note i) ''It is loaded now''"
  shows "\<not> ledger_shows parse i (fst (ledger_get stem chat (tombstone_ledger parse stem external (Some chat) i ls)))"
proof -
  obtain l ls1 where g: "ledger_get stem chat ls = (l, ls1)" by fastforce
  obtain changed l' where t: "tombstone parse i l = (changed, l')" by fastforce
  from g have again: "fst (ledger_get stem chat ls1) = l" by (auto simp: ledger_get_def Let_def split: option.splits)
  note no = tombstone_shows_nothing [OF assms t]
  show ?thesis
  proof (cases changed)
    case True
    then show ?thesis using no(1) by (simp add: tombstone_ledger_def g t ledger_saved(1) ledger_shows_def)
  next
    case False
    then show ?thesis using no(1) no(3) again by (simp add: tombstone_ledger_def g t ledger_shows_def)
  qed
qed

text \<open>A note for one tool brings no other one back.\<close>

lemma tombstone_keeps_hidden:
  assumes "\<not> contains (unloaded_note i) ''It is loaded now''" and "\<not> ledger_shows parse j (fst (ledger_get stem chat ls))"
  shows "\<not> ledger_shows parse j (fst (ledger_get stem chat (tombstone_ledger parse stem external (Some chat) i ls)))"
proof -
  obtain l ls1 where g: "ledger_get stem chat ls = (l, ls1)" by fastforce
  obtain changed l' where t: "tombstone parse i l = (changed, l')" by fastforce
  from g have again: "fst (ledger_get stem chat ls1) = l" by (auto simp: ledger_get_def Let_def split: option.splits)
  from t assms(2) g have "\<not> ledger_shows parse j l'"
    by (auto simp: ledger_shows_def tombstone_def tombstone_step_def note_shows_nothing [OF assms(1)])
  with again assms(2) g show ?thesis by (simp add: tombstone_ledger_def t ledger_saved(1))
qed

lemma tombstones_hide:
  assumes "\<forall>i\<in>set ids. \<not> contains (unloaded_note i) ''It is loaded now''" and "i \<in> set ids"
  shows "\<not> ledger_shows parse i (fst (ledger_get stem chat (foldl (\<lambda>ls i. tombstone_ledger parse stem external (Some chat) i ls) ls ids)))"
  using assms
proof (induction ids rule: rev_induct)
  case (snoc j ids)
  let ?ls = "foldl (\<lambda>ls i. tombstone_ledger parse stem external (Some chat) i ls) ls ids"
  from snoc.prems(1) have j: "\<not> contains (unloaded_note j) ''It is loaded now''" by simp
  show ?case
  proof (cases "i = j")
    case True
    with tombstone_ledger_shows [OF j, of parse stem chat external ?ls] show ?thesis by simp
  next
    case False
    with snoc have "\<not> ledger_shows parse i (fst (ledger_get stem chat ?ls))" by simp
    from tombstone_keeps_hidden [OF j this, of external] show ?thesis by simp
  qed
qed simp

lemma hm_insert_keys: "fst ` set (hm_insert k v m) = insert k (fst ` set m)"
  by (simp add: hm_insert_def dom_update)

lemma update_detach:
  "get_session_tools chat (snd (update_session_tools chat [] [i] s)) = filter (\<lambda>b. bi_id b \<noteq> i) (get_session_tools chat s)"
  by (simp add: update_session_tools_def get_session_tools_def Let_def)

lemma active_ids: "get_active_tool_ids chat s = map bi_id (get_session_tools chat s)"
  by (simp add: get_active_tool_ids_def get_session_tools_def split: option.split)

lemma suppress_tools [simp]: "get_session_tools chat (suppress c i n s) = get_session_tools chat s"
  by (simp add: suppress_def get_session_tools_def Let_def)

definition sessions_ok :: "sessions \<Rightarrow> bool" where
  "sessions_ok s \<longleftrightarrow> (\<forall>chat m. hm_get chat (ss_suppressed s) = Some m \<longrightarrow> hm_ok m)"

text \<open>
  A tool the model unloads by its id is gone: it is not bound to the chat any more while every other tool is, it is
  kept out of the suggestions for the next three answers and no longer, and no turn of the ledger
  shows it.
\<close>

theorem unloaded_tool_is_gone:
  assumes "run_unload_tool parse stem external (Some chat) (Some chat) i s = (reply, s')" and "sessions_ok (ts_sessions s)"
    and "\<not> contains (unloaded_note i) ''It is loaded now''"
  shows "get_session_tools chat (ts_sessions s') = filter (\<lambda>b. bi_id b \<noteq> i) (get_session_tools chat (ts_sessions s)) \<and>
    (i \<in> set (suppressed_tool_ids chat (answers chat limit uss (ts_sessions s'))) \<longleftrightarrow> length uss < 3) \<and>
    \<not> ledger_shows parse i (fst (ledger_get stem chat (ts_ledgers s')))"
proof -
  have s': "ts_sessions s' = suppress chat i UNLOADED_TOOL_ANSWERS (snd (update_session_tools chat [] [i] (ts_sessions s)))"
    "ts_ledgers s' = tombstone_ledger parse stem external (Some chat) i (ts_ledgers s)"
    using assms(1) by (auto simp: run_unload_tool_def Let_def)
  let ?m = "case hm_get chat (ss_suppressed (ts_sessions s)) of Some m \<Rightarrow> m | None \<Rightarrow> []"
  have "hm_get chat (ss_suppressed (ts_sessions s')) = Some (hm_insert i UNLOADED_TOOL_ANSWERS ?m)"
    by (simp add: s' suppress_def update_session_tools_def Let_def)
  moreover have "hm_ok (hm_insert i UNLOADED_TOOL_ANSWERS ?m)"
    using assms(2) by (auto simp: sessions_ok_def split: option.split)
  ultimately have "i \<in> set (suppressed_tool_ids chat (answers chat limit uss (ts_sessions s'))) \<longleftrightarrow> length uss < 3"
    using suppressed_for [of chat "ts_sessions s'" _ i UNLOADED_TOOL_ANSWERS] by (simp add: UNLOADED_TOOL_ANSWERS_def)
  then show ?thesis
    using tombstone_ledger_shows [OF assms(3)] by (simp add: s' update_detach)
qed

definition demo_tools :: tool_state where
  "demo_tools = \<lparr>ts_sessions = demo_sessions, ts_ledgers = \<lparr>ls_ram = [], ls_disk = []\<rparr>\<rparr>"

lemma unloaded_tool_is_gone_witness:
  "get_session_tools ''chat'' (ts_sessions (snd (run_unload_tool (\<lambda>_. None) (\<lambda>c. c) (\<lambda>_. False) (Some ''chat'') (Some ''chat'') ''git'' demo_tools))) = []"
proof -
  let ?r = "run_unload_tool (\<lambda>_. None) (\<lambda>c. c) (\<lambda>_. False) (Some ''chat'') (Some ''chat'') ''git'' demo_tools"
  have "\<not> contains (unloaded_note ''git'') ''It is loaded now''"
    by (simp add: unloaded_note_def trim_def trim_start_def trim_end_def is_ws_def contains_def)
  moreover have "sessions_ok (ts_sessions demo_tools)" by (simp add: sessions_ok_def demo_tools_def demo_sessions_def)
  ultimately have "get_session_tools ''chat'' (ts_sessions (snd ?r)) =
    filter (\<lambda>b. bi_id b \<noteq> ''git'') (get_session_tools ''chat'' (ts_sessions demo_tools))"
    using unloaded_tool_is_gone [of "\<lambda>_. None" "\<lambda>c. c" "\<lambda>_. False" "''chat''" "''git''" demo_tools "fst ?r" "snd ?r"] by simp
  then show ?thesis by (simp add: demo_tools_def demo_sessions_def get_session_tools_def hm_get_def)
qed

text \<open>
  A tool the model unloads under its id in other letters stays: the answer says that it was unloaded and the ledger no
  longer shows it, but it is still bound to the chat and not suppressed; and because it counts as
  loaded, a call by its id does not load it again.
\<close>

theorem unload_in_other_case_keeps_tool:
  assumes "b \<in> set (get_session_tools chat (ts_sessions s))" and "eq_ignore_case (bi_id b) i" and "bi_id b \<noteq> i"
    and "run_unload_tool parse stem external (Some chat) (Some chat) i s = (reply, s')"
    and "\<not> contains (unloaded_note i) ''It is loaded now''" and "eq_ignore_case (bi_id b) (trim name)"
  shows "reply = ''Tool '' @ [CHR 0x27] @ i @ [CHR 0x27] @ '' unloaded.'' \<and>
    \<not> ledger_shows parse i (fst (ledger_get stem chat (ts_ledgers s'))) \<and>
    b \<in> set (get_session_tools chat (ts_sessions s')) \<and>
    (bi_id b \<in> set (suppressed_tool_ids chat (ts_sessions s')) \<longrightarrow> bi_id b \<in> set (suppressed_tool_ids chat (ts_sessions s))) \<and>
    \<not> needs_load parse is_meta installed room loaded_tool_ids (Some chat) name t (ts_sessions s')"
proof -
  have s': "ts_sessions s' = suppress chat i UNLOADED_TOOL_ANSWERS (snd (update_session_tools chat [] [i] (ts_sessions s)))"
    "ts_ledgers s' = tombstone_ledger parse stem external (Some chat) i (ts_ledgers s)"
    "reply = ''Tool '' @ [CHR 0x27] @ i @ [CHR 0x27] @ '' unloaded.''"
    using assms(4) by (auto simp: run_unload_tool_def Let_def)
  have b: "b \<in> set (get_session_tools chat (ts_sessions s'))" using assms(1,3) by (simp add: s' update_detach)
  moreover have "list_ex (\<lambda>i. eq_ignore_case i (trim name)) (get_active_tool_ids chat (ts_sessions s'))"
    using b assms(6) by (auto simp: active_ids list_ex_iff)
  moreover have "bi_id b \<in> set (suppressed_tool_ids chat (ts_sessions s)) "
    if "bi_id b \<in> set (suppressed_tool_ids chat (ts_sessions s'))"
    using that assms(3)
    by (auto simp: s' suppressed_tool_ids_def suppress_def update_session_tools_def Let_def hm_insert_keys split: option.splits)
  ultimately show ?thesis using tombstone_ledger_shows [OF assms(5)] by (auto simp: s'(2,3) needs_load_def Let_def)
qed

lemma unload_in_other_case_keeps_tool_witness:
  "get_active_tool_ids ''chat'' (ts_sessions (snd (run_unload_tool (\<lambda>_. None) (\<lambda>c. c) (\<lambda>_. False) (Some ''chat'') (Some ''chat'') ''Git'' demo_tools))) = [''git'']"
proof -
  let ?r = "run_unload_tool (\<lambda>_. None) (\<lambda>c. c) (\<lambda>_. False) (Some ''chat'') (Some ''chat'') ''Git'' demo_tools"
  let ?b = "\<lparr>bi_id = ''git'', bi_turns = -1, bi_inline = True, bi_pinned = False, bi_idle = 0\<rparr>"
  have tools: "get_session_tools ''chat'' (ts_sessions demo_tools) = [?b]"
    by (simp add: demo_tools_def demo_sessions_def get_session_tools_def hm_get_def)
  have "\<not> contains (unloaded_note ''Git'') ''It is loaded now''"
    by (simp add: unloaded_note_def trim_def trim_start_def trim_end_def is_ws_def contains_def)
  moreover have "eq_ignore_case (bi_id ?b) ''Git''" by code_simp
  moreover have "eq_ignore_case (bi_id ?b) (trim ''git'')"
    by (simp add: eq_ignore_case_def trim_def trim_start_def trim_end_def is_ws_def)
  ultimately have "?b \<in> set (get_session_tools ''chat'' (ts_sessions (snd ?r)))"
    using unload_in_other_case_keeps_tool [of ?b "''chat''" demo_tools "''Git''" "\<lambda>_. None" "\<lambda>c. c" "\<lambda>_. False" "fst ?r" "snd ?r" "''git''"]
      tools by simp
  moreover have "get_session_tools ''chat'' (ts_sessions (snd ?r)) = [?b]"
    by (simp add: run_unload_tool_def Let_def update_detach tools)
  ultimately show ?thesis by (simp add: active_ids)
qed

section \<open>The end of an answer\<close>

text \<open>A tool unloaded because it was idle is not bound any more, and no turn shows it.\<close>

lemma idle_tool_gone:
  assumes "end_turn_tools parse stem external default_turns resolve (Some chat) (Some chat) t s = s'"
    and "ids_distinct (ts_sessions s)" and "b \<in> set (get_session_tools chat (ts_sessions s))"
    and "after_answer (List.map_filter (used_tool parse resolve) (tt_steps t)) (idle_limit default_turns) b = None"
    and "\<forall>c\<in>set (get_session_tools chat (ts_sessions s)). \<not> contains (unloaded_note (bi_id c)) ''It is loaded now''"
  shows "bi_id b \<notin> set (get_active_tool_ids chat (ts_sessions s'))"
    and "\<not> ledger_shows parse (bi_id b) (fst (ledger_get stem chat (ts_ledgers s')))"
proof -
  let ?after = "after_answer (List.map_filter (used_tool parse resolve) (tt_steps t)) (idle_limit default_turns)"
  from assms(3) obtain bs where bs: "hm_get chat (ss_tools (ts_sessions s)) = Some bs" "b \<in> set bs"
    by (cases "hm_get chat (ss_tools (ts_sessions s))") (auto simp: get_session_tools_def)
  let ?ids = "map bi_id (filter (\<lambda>b. ?after b = None) bs)"
  from bs assms(1) have s': "hm_get chat (ss_tools (ts_sessions s')) = Some (List.map_filter ?after bs)"
    "ts_ledgers s' = foldl (\<lambda>ls i. tombstone_ledger parse stem external (Some chat) i ls) (ts_ledgers s) ?ids"
    by (auto simp: end_turn_tools_def end_turn_def Let_def)
  from assms(2) bs(1) have d: "distinct (map bi_id bs)"
    unfolding ids_distinct_def get_active_tool_ids_def by (metis option.simps(5))
  show "bi_id b \<notin> set (get_active_tool_ids chat (ts_sessions s'))"
  proof
    assume "bi_id b \<in> set (get_active_tool_ids chat (ts_sessions s'))"
    then obtain c c' where c: "c \<in> set bs" "?after c = Some c'" "bi_id b = bi_id c'"
      by (auto simp: get_active_tool_ids_def s'(1) in_map_filter)
    with after_answer_id [OF c(2)] d bs(2) have "c = b" by (auto simp: distinct_map inj_on_def)
    with c(2) assms(4) show False by simp
  qed
  have "bi_id b \<in> set ?ids" using bs(2) assms(4) by auto
  moreover have "\<forall>i\<in>set ?ids. \<not> contains (unloaded_note i) ''It is loaded now''"
    using assms(5) bs(1) by (auto simp: get_session_tools_def)
  ultimately show "\<not> ledger_shows parse (bi_id b) (fst (ledger_get stem chat (ts_ledgers s')))"
    unfolding s'(2) by (intro tombstones_hide)
qed

text \<open>A call in a fence does not count as a use of its tool.\<close>

lemma fenced_use_not_counted:
  "raw = fence @ x @ fence \<Longrightarrow> parse raw = None \<Longrightarrow>
     used_tool parse resolve \<lparr>rs_call = recorded_xml raw, rs_name = n, rs_result = r\<rparr> = None"
  by (simp add: used_tool_def recorded_call_json)

text \<open>A tool loaded again counts from the start, and stays where it was bound.\<close>

lemma load_resets:
  assumes "b \<in> set (get_session_tools chat (ts_sessions s))" and "ids_distinct (ts_sessions s)" and "bi_id b = i"
  shows "b\<lparr>bi_turns := -1, bi_pinned := False, bi_idle := 0\<rparr> \<in> set (get_session_tools chat (ts_sessions (run_load_tool (Some chat) (Some i) s)))"
    and "get_active_tool_ids chat (ts_sessions (run_load_tool (Some chat) (Some i) s)) = get_active_tool_ids chat (ts_sessions s)"
proof -
  let ?t = "\<lparr>bi_id = i, bi_turns = -1, bi_inline = True, bi_pinned = False, bi_idle = 0\<rparr>"
  have tools: "get_session_tools chat (ts_sessions (run_load_tool (Some chat) (Some i) s)) = attach_tool ?t (get_session_tools chat (ts_sessions s))"
    by (simp add: run_load_tool_def update_session_tools_def get_session_tools_def Let_def)
  have "b\<lparr>bi_turns := -1, bi_pinned := False, bi_idle := 0\<rparr> \<in> set (attach_tool ?t bs)" if "b \<in> set bs" "distinct (map bi_id bs)" for bs
    using that assms(3) by (induction bs) auto
  moreover have "distinct (map bi_id (get_session_tools chat (ts_sessions s)))"
    using assms(2) by (simp add: ids_distinct_def active_ids)
  ultimately show "b\<lparr>bi_turns := -1, bi_pinned := False, bi_idle := 0\<rparr> \<in> set (get_session_tools chat (ts_sessions (run_load_tool (Some chat) (Some i) s)))"
    using assms(1) by (simp add: tools)
  show "get_active_tool_ids chat (ts_sessions (run_load_tool (Some chat) (Some i) s)) = get_active_tool_ids chat (ts_sessions s)"
    using assms(1,3) by (auto simp: active_ids tools attach_ids)
qed

end
