(* ===== verification/Jsonl_Store.thy ===== *)
theory Jsonl_Store
  imports Event_Log
begin

text \<open>
  agents/src/memory/store.rs: the built-in backend. Each chat has a folder with closed segments (compressed) and an open one,
  JSON lines both; blobs are files by digest. The libraries are a record of functions (\<open>codec\<close>): serde_json's line of
  an event and its reading, zstd, SHA-256 and the hash that names the folder of an unusual chat id.
  A file is the list of its bytes; \<open>cd_synced\<close> counts the bytes of the open segment that are known to be on the disk,
  which a power cut leaves. The files change only through the store.
\<close>

section \<open>Reading lines\<close>

text \<open>
  A reader gives its bytes and then the end of the file or, when the decoder fails on what follows, an
  error, again each time it is asked. \<open>BufRead::split\<close> gives a line at a time; the bytes
  before an error are lost.
\<close>

record reader =
  rd_bytes :: string
  rd_fails :: bool

definition newline :: char where "newline = CHR 0x0A"

definition next_line :: "reader \<Rightarrow> (string option \<times> reader) option" where
  "next_line r =
     (case split_once newline (rd_bytes r) of
        Some (line, rest) \<Rightarrow> Some (Some line, r\<lparr>rd_bytes := rest\<rparr>)
      | None \<Rightarrow>
          if rd_fails r then Some (None, r\<lparr>rd_bytes := []\<rparr>)
          else if rd_bytes r = [] then None
          else Some (Some (rd_bytes r), r\<lparr>rd_bytes := []\<rparr>))"

definition read_line :: "(string \<Rightarrow> event option) \<Rightarrow> string option \<Rightarrow> read_log \<Rightarrow> read_log" where
  "read_line parse line l =
     (case line of
        None \<Rightarrow> l\<lparr>rl_skipped := rl_skipped l + 1\<rparr>
      | Some bytes \<Rightarrow>
          if list_all is_ws bytes then l
          else case parse bytes of
            Some e \<Rightarrow> l\<lparr>rl_events := rl_events l @ [e]\<rparr>
          | None \<Rightarrow> l\<lparr>rl_skipped := rl_skipped l + 1\<rparr>)"

text \<open>The loop of \<open>read_lines\<close>; it does not end on a reader that fails.\<close>

partial_function (option) read_lines :: "(string \<Rightarrow> event option) \<Rightarrow> reader \<Rightarrow> read_log \<Rightarrow> read_log option" where
  "read_lines parse r l =
     (case next_line r of
        None \<Rightarrow> Some l
      | Some (line, r') \<Rightarrow> read_lines parse r' (read_line parse line l))"

section \<open>The store\<close>

record codec =
  co_line :: "event \<Rightarrow> string"
  co_event :: "string \<Rightarrow> event option"
  co_zip :: "string \<Rightarrow> string"
  co_unzip :: "string \<Rightarrow> reader"
  co_sha :: "string \<Rightarrow> string"
  co_hash :: "string \<Rightarrow> string"

record chat_state =
  cs_next_seq :: nat
  cs_open_bytes :: nat

record chat_dir =
  cd_closed :: "(string, string) hmap"
  cd_open :: "string option"
  cd_synced :: nat

type_synonym stamp = "nat \<times> nat"

record jsonl_store =
  js_segment_bytes :: nat
  js_chats :: "(string, chat_state option) hmap"
  js_hot :: "(string \<times> stamp \<times> read_log) list"
  js_dirs :: "(string, chat_dir) hmap"
  js_blobs :: "(string, string) hmap"

definition no_dir :: chat_dir where
  "no_dir = \<lparr>cd_closed = [], cd_open = None, cd_synced = 0\<rparr>"

definition plain_char :: "char \<Rightarrow> bool" where
  "plain_char c \<longleftrightarrow> is_digit c \<or> (65 \<le> (of_char c :: nat) \<and> (of_char c :: nat) \<le> 90) \<or>
     (97 \<le> (of_char c :: nat) \<and> (of_char c :: nat) \<le> 122) \<or> c = CHR ''-'' \<or> c = CHR ''_''"

definition chat_stem :: "codec \<Rightarrow> string \<Rightarrow> string" where
  "chat_stem co chat =
     (if chat \<noteq> [] \<and> length chat \<le> 64 \<and> list_all plain_char chat then chat else ''chat-'' @ co_hash co chat)"

definition chat_dir :: "codec \<Rightarrow> string \<Rightarrow> jsonl_store \<Rightarrow> chat_dir" where
  "chat_dir co chat s = (case hm_get (chat_stem co chat) (js_dirs s) of Some d \<Rightarrow> d | None \<Rightarrow> no_dir)"

definition set_dir :: "codec \<Rightarrow> string \<Rightarrow> chat_dir \<Rightarrow> jsonl_store \<Rightarrow> jsonl_store" where
  "set_dir co chat d s = s\<lparr>js_dirs := hm_insert (chat_stem co chat) d (js_dirs s)\<rparr>"

definition open_content :: "chat_dir \<Rightarrow> string" where
  "open_content d = (case cd_open d of Some b \<Rightarrow> b | None \<Rightarrow> [])"

text \<open>\<open>events-NNNN.jsonl.zst\<close>; the segments in the order of their names.\<close>

definition pad4 :: "string \<Rightarrow> string" where
  "pad4 t = replicate (4 - length t) CHR ''0'' @ t"

definition segment_name :: "nat \<Rightarrow> string" where
  "segment_name n = ''events-'' @ pad4 (nat_text n) @ ''.jsonl.zst''"

definition closed_segments :: "chat_dir \<Rightarrow> (string \<times> string) list" where
  "closed_segments d = sort_key fst (cd_closed d)"

definition stamp :: "codec \<Rightarrow> string \<Rightarrow> jsonl_store \<Rightarrow> stamp" where
  "stamp co chat s = (length (cd_closed (chat_dir co chat s)), length (open_content (chat_dir co chat s)))"

definition jsonl_new :: "(string, chat_dir) hmap \<Rightarrow> (string, string) hmap \<Rightarrow> jsonl_store" where
  "jsonl_new dirs blobs =
     \<lparr>js_segment_bytes = SEGMENT_BYTES, js_chats = [], js_hot = [], js_dirs = dirs, js_blobs = blobs\<rparr>"

text \<open>The compressed segment is synced before the open one is removed.\<close>

definition rotate_segment :: "codec \<Rightarrow> chat_dir \<Rightarrow> chat_dir" where
  "rotate_segment co d =
     \<lparr>cd_closed = hm_insert (segment_name (length (cd_closed d) + 1)) (co_zip co (open_content d)) (cd_closed d),
      cd_open = None, cd_synced = 0\<rparr>"

fun read_segments :: "codec \<Rightarrow> (string \<times> string) list \<Rightarrow> read_log \<Rightarrow> read_log option" where
  "read_segments co [] l = Some l"
| "read_segments co ((name, bytes) # segs) l =
     Option.bind (read_lines (co_event co) (co_unzip co bytes) l) (read_segments co segs)"

definition read_dir :: "codec \<Rightarrow> chat_dir \<Rightarrow> read_log option" where
  "read_dir co d =
     Option.bind (read_segments co (closed_segments d) empty_log)
       (\<lambda>l. case cd_open d of
              Some b \<Rightarrow> read_lines (co_event co) \<lparr>rd_bytes = b, rd_fails = False\<rparr> l
            | None \<Rightarrow> Some l)"

definition jsonl_read :: "codec \<Rightarrow> string \<Rightarrow> jsonl_store \<Rightarrow> read_log option" where
  "jsonl_read co chat s = read_dir co (chat_dir co chat s)"

text \<open>\<open>state\<close>: the chat's state, read from its log the first time.\<close>

definition load_state :: "codec \<Rightarrow> string \<Rightarrow> jsonl_store \<Rightarrow> chat_state option" where
  "load_state co chat s =
     (case hm_get chat (js_chats s) of
        Some (Some st) \<Rightarrow> Some st
      | _ \<Rightarrow> map_option (\<lambda>l. \<lparr>cs_next_seq = next_seq (rl_events l), cs_open_bytes = length (open_content (chat_dir co chat s))\<rparr>)
               (jsonl_read co chat s))"

definition jsonl_put_blob :: "codec \<Rightarrow> string \<Rightarrow> jsonl_store \<Rightarrow> string \<times> jsonl_store" where
  "jsonl_put_blob co bytes s =
     (let hex = co_sha co bytes
      in (''sha256:'' @ hex, if hm_get hex (js_blobs s) = None then s\<lparr>js_blobs := hm_insert hex bytes (js_blobs s)\<rparr> else s))"

definition is_hex :: "char \<Rightarrow> bool" where
  "is_hex c \<longleftrightarrow> is_digit c \<or> c \<in> set ''abcdefABCDEF''"

definition jsonl_get_blob :: "string \<Rightarrow> jsonl_store \<Rightarrow> string + string" where
  "jsonl_get_blob reference s =
     (case strip_prefix ''sha256:'' reference of
        None \<Rightarrow> Inl ''not a blob reference''
      | Some hex \<Rightarrow>
          if \<not> (length hex = 64 \<and> list_all is_hex hex) then Inl ''not a blob reference''
          else case hm_get hex (js_blobs s) of Some b \<Rightarrow> Inr b | None \<Rightarrow> Inl ''no such file'')"

text \<open>The first hot log of a chat, and the list without it.\<close>

fun take_hot :: "string \<Rightarrow> (string \<times> stamp \<times> read_log) list \<Rightarrow> ((stamp \<times> read_log) \<times> (string \<times> stamp \<times> read_log) list) option" where
  "take_hot chat [] = None"
| "take_hot chat ((c, st, l) # hot) =
     (if c = chat then Some ((st, l), hot) else map_option (\<lambda>(x, hot'). (x, (c, st, l) # hot')) (take_hot chat hot))"

fun extend_hot ::
  "string \<Rightarrow> stamp \<Rightarrow> stamp \<Rightarrow> event list \<Rightarrow> (string \<times> stamp \<times> read_log) list \<Rightarrow> (string \<times> stamp \<times> read_log) list" where
  "extend_hot chat before new written [] = []"
| "extend_hot chat before new written ((c, st, l) # hot) =
     (if c = chat
      then if st = before then (c, new, l\<lparr>rl_events := rl_events l @ written\<rparr>) # hot else hot
      else (c, st, l) # extend_hot chat before new written hot)"

definition lines_text :: "codec \<Rightarrow> event list \<Rightarrow> string" where
  "lines_text co es = concat (map (\<lambda>e. co_line co e @ [newline]) es)"

definition jsonl_append ::
  "codec \<Rightarrow> string \<Rightarrow> string \<Rightarrow> (nat \<Rightarrow> string) \<Rightarrow> new_event list \<Rightarrow> jsonl_store \<Rightarrow> (event list \<times> jsonl_store) option" where
  "jsonl_append co chat now uuid events s =
     (if events = [] then Some ([], s)
      else map_option (\<lambda>st.
        let d = chat_dir co chat s;
            full = cs_open_bytes st \<ge> js_segment_bytes s;
            d = (if full then rotate_segment co d else d);
            open_bytes = (if full then 0 else cs_open_bytes st);
            cut = (open_bytes > 0 \<and> last (open_content d) \<noteq> newline);
            open_bytes = (if cut then open_bytes + 1 else open_bytes);
            (written, s1) = log_events (jsonl_put_blob co) chat now uuid (cs_next_seq st) events s;
            buffer = lines_text co written;
            before = (length (cd_closed d), open_bytes);
            d = d\<lparr>cd_open := Some (open_content d @ (if cut then [newline] else []) @ buffer)\<rparr>;
            open_bytes = open_bytes + length buffer;
            st = \<lparr>cs_next_seq = cs_next_seq st + length events, cs_open_bytes = open_bytes\<rparr>
        in (written, (set_dir co chat d s1)
              \<lparr>js_chats := hm_insert chat (Some st) (js_chats s1),
               js_hot := extend_hot chat before (fst before, open_bytes) written (js_hot s1)\<rparr>))
        (load_state co chat s))"

definition jsonl_sync :: "codec \<Rightarrow> string \<Rightarrow> jsonl_store \<Rightarrow> jsonl_store" where
  "jsonl_sync co chat s =
     (let d = chat_dir co chat s
      in case cd_open d of None \<Rightarrow> s | Some b \<Rightarrow> set_dir co chat (d\<lparr>cd_synced := length b\<rparr>) s)"

definition jsonl_read_shared :: "codec \<Rightarrow> string \<Rightarrow> jsonl_store \<Rightarrow> (read_log \<times> jsonl_store) option" where
  "jsonl_read_shared co chat s =
     (let now = stamp co chat s;
          miss = (\<lambda>hot. map_option (\<lambda>l.
                    let hot = hot @ [(chat, now, l)]
                    in (l, s\<lparr>js_hot := (if length hot > HOT_LOGS then drop 1 hot else hot)\<rparr>))
                  (jsonl_read co chat s))
      in case take_hot chat (js_hot s) of
           Some ((st, l), rest) \<Rightarrow> if st = now then Some (l, s\<lparr>js_hot := rest @ [(chat, st, l)]\<rparr>) else miss rest
         | None \<Rightarrow> miss (js_hot s))"

definition jsonl_delete_chat :: "codec \<Rightarrow> string \<Rightarrow> jsonl_store \<Rightarrow> delete_report \<times> jsonl_store" where
  "jsonl_delete_chat co chat s =
     (let d = chat_dir co chat s;
          files = map snd (closed_segments d) @ (case cd_open d of Some b \<Rightarrow> [b] | None \<Rightarrow> [])
      in (\<lparr>dr_files = length files, dr_bytes = sum_list (map length files)\<rparr>,
          (set_dir co chat no_dir s)
            \<lparr>js_chats := hm_insert chat None (js_chats s), js_hot := filter (\<lambda>(c, _). c \<noteq> chat) (js_hot s)\<rparr>))"

definition jsonl_ops :: "codec \<Rightarrow> jsonl_store store_ops" where
  "jsonl_ops co =
     \<lparr>so_append = jsonl_append co, so_sync = jsonl_sync co, so_read = jsonl_read co, so_read_shared = jsonl_read_shared co,
      so_put_blob = jsonl_put_blob co, so_get_blob = jsonl_get_blob, so_delete_chat = jsonl_delete_chat co\<rparr>"

section \<open>A power cut\<close>

text \<open>What was in RAM is gone; of each open segment at least what was synced is left. \<open>left\<close> says how much.\<close>

definition cut_dir :: "nat \<Rightarrow> chat_dir \<Rightarrow> chat_dir" where
  "cut_dir n d = d\<lparr>cd_open := map_option (take (max n (cd_synced d))) (cd_open d)\<rparr>"

definition power_cut :: "(string \<Rightarrow> nat) \<Rightarrow> jsonl_store \<Rightarrow> jsonl_store" where
  "power_cut left s = s\<lparr>js_chats := [], js_hot := [], js_dirs := map (\<lambda>(stem, d). (stem, cut_dir (left stem) d)) (js_dirs s)\<rparr>"

section \<open>What is read\<close>

definition event_lines :: "string \<Rightarrow> string list" where
  "event_lines b = filter (\<lambda>line. \<not> list_all is_ws line) (split_on (\<lambda>c. c = newline) b)"

definition line_events :: "(string \<Rightarrow> event option) \<Rightarrow> string \<Rightarrow> event list" where
  "line_events parse b = List.map_filter parse (event_lines b)"

definition bad_lines :: "(string \<Rightarrow> event option) \<Rightarrow> string \<Rightarrow> nat" where
  "bad_lines parse b = length (filter (\<lambda>line. parse line = None) (event_lines b))"

lemma split_on_append: "P c \<Longrightarrow> split_on P (a @ c # b) = split_on P a @ split_on P b"
  by (induction a) (auto split: list.splits)

lemma split_on_none: "(\<forall>c\<in>set a. \<not> P c) \<Longrightarrow> split_on P a = [a]"
  by (induction a) auto

lemma event_lines_append: "event_lines (a @ newline # b) = event_lines a @ event_lines b"
  by (simp add: event_lines_def split_on_append)

lemma map_filter_append [simp]: "List.map_filter f (xs @ ys) = List.map_filter f xs @ List.map_filter f ys"
  by (simp add: List.map_filter_def)

lemma line_events_append: "line_events parse (a @ newline # b) = line_events parse a @ line_events parse b"
  by (simp add: line_events_def event_lines_append)

lemma line_events_Nil [simp]: "line_events parse [] = []"
  by (simp add: line_events_def event_lines_def List.map_filter_def)

lemma bad_lines_append: "bad_lines parse (a @ newline # b) = bad_lines parse a + bad_lines parse b"
  by (simp add: bad_lines_def event_lines_append)

lemma next_line_fails: "next_line r = Some (line, r') \<Longrightarrow> rd_fails r' = rd_fails r"
  by (auto simp: next_line_def split: option.splits if_splits)

lemma next_line_None: "next_line r = None \<Longrightarrow> \<not> rd_fails r"
  by (auto simp: next_line_def split: option.splits if_splits)

lemma read_lines_ends:
  assumes "read_lines parse r l = Some l'"
  shows "\<not> rd_fails r"
  by (rule read_lines.raw_induct [where P = "\<lambda>parse r l l'. \<not> rd_fails r", OF _ assms])
     (auto split: option.splits prod.splits dest: next_line_None next_line_fails)

lemma read_lines_fails: "rd_fails r \<Longrightarrow> read_lines parse r l = None"
  using read_lines_ends by (cases "read_lines parse r l") auto

lemma read_line_one:
  assumes "newline \<notin> set line"
  shows "read_line parse (Some line) l =
    l\<lparr>rl_events := rl_events l @ line_events parse line, rl_skipped := rl_skipped l + bad_lines parse line\<rparr>"
proof -
  from assms have "split_on (\<lambda>c. c = newline) line = [line]" by (intro split_on_none) auto
  then show ?thesis
    by (auto simp: read_line_def line_events_def bad_lines_def event_lines_def map_filter_simps split: option.splits)
qed

lemma read_lines_plain:
  "read_lines parse \<lparr>rd_bytes = b, rd_fails = False\<rparr> l =
     Some (l\<lparr>rl_events := rl_events l @ line_events parse b, rl_skipped := rl_skipped l + bad_lines parse b\<rparr>)"
proof (induction "length b" arbitrary: b l rule: less_induct)
  case less
  show ?case
  proof (cases "split_once newline b")
    case None
    then have n: "newline \<notin> set b" by simp
    show ?thesis
    proof (cases "b = []")
      case True
      then show ?thesis
        by (subst read_lines.simps) (simp add: next_line_def bad_lines_def event_lines_def)
    next
      case False
      then have "read_lines parse \<lparr>rd_bytes = b, rd_fails = False\<rparr> l =
          read_lines parse \<lparr>rd_bytes = [], rd_fails = False\<rparr> (read_line parse (Some b) l)"
        by (subst read_lines.simps) (simp add: next_line_def None del: split_once_None)
      also have "\<dots> = Some (read_line parse (Some b) l)"
        by (subst read_lines.simps) (simp add: next_line_def)
      finally show ?thesis by (simp add: read_line_one [OF n])
    qed
  next
    case (Some lr)
    then obtain line rest where s: "split_once newline b = Some (line, rest)" by (cases lr) auto
    then have b: "b = line @ newline # rest" "newline \<notin> set line" by (simp_all add: split_once_Some)
    have "read_lines parse \<lparr>rd_bytes = b, rd_fails = False\<rparr> l =
        read_lines parse \<lparr>rd_bytes = rest, rd_fails = False\<rparr> (read_line parse (Some line) l)"
      using s by (subst read_lines.simps) (simp add: next_line_def)
    then show ?thesis
      using less.hyps [of rest] b by (simp add: read_line_one line_events_append bad_lines_append)
  qed
qed

section \<open>The events of a folder\<close>

abbreviation segment_bytes :: "codec \<Rightarrow> string \<Rightarrow> string" where
  "segment_bytes co z \<equiv> rd_bytes (co_unzip co z)"

definition closed_events :: "codec \<Rightarrow> chat_dir \<Rightarrow> event list" where
  "closed_events co d = concat (map (\<lambda>(n, z). line_events (co_event co) (segment_bytes co z)) (closed_segments d))"

definition dir_log :: "codec \<Rightarrow> chat_dir \<Rightarrow> read_log" where
  "dir_log co d =
     \<lparr>rl_events = closed_events co d @ line_events (co_event co) (open_content d),
      rl_skipped = sum_list (map (\<lambda>(n, z). bad_lines (co_event co) (segment_bytes co z)) (closed_segments d)) +
        bad_lines (co_event co) (open_content d)\<rparr>"

abbreviation dir_events :: "codec \<Rightarrow> chat_dir \<Rightarrow> event list" where
  "dir_events co d \<equiv> rl_events (dir_log co d)"

lemma read_segments_plain:
  "(\<forall>(n, z)\<in>set segs. \<not> rd_fails (co_unzip co z)) \<Longrightarrow>
     read_segments co segs l = Some (l\<lparr>rl_events := rl_events l @ concat (map (\<lambda>(n, z). line_events (co_event co) (segment_bytes co z)) segs),
       rl_skipped := rl_skipped l + sum_list (map (\<lambda>(n, z). bad_lines (co_event co) (segment_bytes co z)) segs)\<rparr>)"
proof (induction segs arbitrary: l)
  case (Cons nz segs)
  obtain n z where nz: "nz = (n, z)" by (cases nz)
  from Cons.prems nz have "co_unzip co z = \<lparr>rd_bytes = segment_bytes co z, rd_fails = False\<rparr>" by auto
  then have "read_lines (co_event co) (co_unzip co z) l = Some (l\<lparr>rl_events := rl_events l @ line_events (co_event co) (segment_bytes co z),
    rl_skipped := rl_skipped l + bad_lines (co_event co) (segment_bytes co z)\<rparr>)" by (metis read_lines_plain)
  with Cons nz show ?case by (simp add: ac_simps)
qed simp

lemma closed_segments_set [simp]: "set (closed_segments d) = set (cd_closed d)"
  by (simp add: closed_segments_def)

lemma read_dir_plain:
  "(\<forall>(n, z)\<in>set (cd_closed d). \<not> rd_fails (co_unzip co z)) \<Longrightarrow> read_dir co d = Some (dir_log co d)"
  by (simp add: read_dir_def read_segments_plain dir_log_def closed_events_def empty_log_def open_content_def
        read_lines_plain bad_lines_def event_lines_def split: option.splits)

lemma read_segments_fails:
  "(n, z) \<in> set segs \<Longrightarrow> rd_fails (co_unzip co z) \<Longrightarrow> read_segments co segs l = None"
proof (induction segs arbitrary: l)
  case (Cons nz segs)
  then show ?case by (cases nz) (auto simp: read_lines_fails bind_eq_None_conv)
qed simp

lemma read_dir_fails: "(n, z) \<in> set (cd_closed d) \<Longrightarrow> rd_fails (co_unzip co z) \<Longrightarrow> read_dir co d = None"
  by (simp add: read_dir_def read_segments_fails)

section \<open>The names of segments\<close>

lemma text_nat_Cons: "text_nat (c # cs) = (of_char c - 48) * 10 ^ length cs + text_nat cs"
proof -
  have "foldl (\<lambda>n c. n * 10 + (of_char c - 48)) a cs = a * 10 ^ length cs + foldl (\<lambda>n c. n * 10 + (of_char c - 48)) 0 cs"
    for a :: nat
    by (induction cs rule: rev_induct) (simp_all add: algebra_simps)
  from this [of "of_char c - 48"] show ?thesis by (simp add: text_nat_def)
qed

lemma text_nat_bound: "list_all is_digit t \<Longrightarrow> text_nat t < 10 ^ length t"
proof (induction t)
  case (Cons c t)
  then have "of_char c \<le> (57 :: nat)" by (simp add: is_digit_def)
  then have "of_char c - 48 \<le> (9 :: nat)" by linarith
  with Cons have "(of_char c - 48) * 10 ^ length t + text_nat t < 9 * 10 ^ length t + (10 ^ length t :: nat)"
    by (intro add_le_less_mono mult_right_mono) auto
  then show ?case by (simp add: text_nat_Cons)
qed (simp add: text_nat_def)

lemma digits_in_order:
  "length a = length b \<Longrightarrow> list_all is_digit a \<Longrightarrow> list_all is_digit b \<Longrightarrow> text_nat a < text_nat b \<Longrightarrow> a < b"
proof (induction a b rule: list_induct2)
  case (Cons x xs y ys)
  let ?n = "(10 :: nat) ^ length xs"
  from Cons have b: "text_nat xs < ?n" "text_nat ys < ?n" using text_nat_bound [of xs] text_nat_bound [of ys] by auto
  from Cons.prems have d: "48 \<le> (of_char x :: nat)" "48 \<le> (of_char y :: nat)" by (auto simp: is_digit_def)
  show ?case
  proof (cases "x = y")
    case True
    with Cons show ?thesis by (simp add: text_nat_Cons)
  next
    case False
    have "(of_char x :: nat) < of_char y"
    proof (rule ccontr)
      assume "\<not> (of_char x :: nat) < of_char y"
      with False have "(of_char y :: nat) < of_char x" by (metis less_char_def linorder_neqE)
      with d have "Suc (of_char y - 48) \<le> (of_char x - 48 :: nat)" by simp
      then have "Suc (of_char y - 48) * ?n \<le> (of_char x - 48) * ?n" by (rule mult_right_mono) simp
      with b(2) Cons.prems(3) Cons.hyps show False by (simp add: text_nat_Cons)
    qed
    then show ?thesis by (simp add: less_char_def)
  qed
qed simp

lemma length_nat_text: "n < 10 ^ k \<Longrightarrow> 0 < k \<Longrightarrow> length (nat_text n) \<le> k"
proof (induction n arbitrary: k rule: nat_text.induct)
  case (1 n)
  show ?case
  proof (cases "n < 10")
    case True
    with 1 show ?thesis by (simp add: nat_text.simps [of n])
  next
    case False
    with 1(2) have "k \<noteq> 1" by (intro notI) simp
    with 1(3) have "1 < k" by simp
    then obtain j where k: "k = Suc j" "0 < j" by (cases k) auto
    with 1(2) have "n div 10 < 10 ^ j" by (simp add: less_mult_imp_div_less mult.commute)
    from 1(1) [OF False this k(2)] k False show ?thesis by (simp add: nat_text.simps [of n])
  qed
qed

lemma pad4_facts:
  assumes "n < 10000"
  shows "length (pad4 (nat_text n)) = 4" "list_all is_digit (pad4 (nat_text n))" "text_nat (pad4 (nat_text n)) = n"
proof -
  have "text_nat (replicate j CHR ''0'' @ t) = text_nat t" for j t
    by (induction j) (simp_all add: text_nat_Cons)
  then show "text_nat (pad4 (nat_text n)) = n" by (simp add: pad4_def)
  show "length (pad4 (nat_text n)) = 4" using length_nat_text [of n 4] assms by (simp add: pad4_def)
  have "list_all is_digit (replicate j CHR ''0'')" for j by (induction j) (simp_all add: is_digit_def)
  then show "list_all is_digit (pad4 (nat_text n))" by (simp add: pad4_def)
qed

lemma append_less_append: "length a = length b \<Longrightarrow> a < b \<Longrightarrow> p @ a @ s < p @ b @ (s :: string)"
proof -
  have "length a = length b \<Longrightarrow> a < b \<Longrightarrow> a @ s < b @ s" by (induction a b rule: list_induct2) auto
  moreover have "x < y \<Longrightarrow> p @ x < p @ y" for x y by (induction p) auto
  ultimately show "length a = length b \<Longrightarrow> a < b \<Longrightarrow> p @ a @ s < p @ b @ s" by blast
qed

lemma segment_name_less: "i < j \<Longrightarrow> j < 10000 \<Longrightarrow> segment_name i < segment_name j"
  unfolding segment_name_def using pad4_facts [of i] pad4_facts [of j]
  by (intro append_less_append digits_in_order) auto

lemma segment_names_sorted: "n < 10000 \<Longrightarrow> sorted_wrt (<) (map segment_name [1..<Suc n])"
  by (simp add: sorted_wrt_iff_nth_less segment_name_less del: upt_Suc)

text \<open>A folder whose segments were closed one after another.\<close>

definition named_in_order :: "chat_dir \<Rightarrow> bool" where
  "named_in_order d \<longleftrightarrow> length (cd_closed d) < 10000 \<and> map fst (cd_closed d) = map segment_name [1..<Suc (length (cd_closed d))]"

lemma closed_in_order: "named_in_order d \<Longrightarrow> closed_segments d = cd_closed d"
  unfolding closed_segments_def named_in_order_def
  by (rule sort_key_id_if_sorted) (metis segment_names_sorted strict_sorted_imp_sorted)

lemma hm_insert_new: "k \<notin> fst ` set m \<Longrightarrow> hm_insert k v m = m @ [(k, v)]"
  by (induction m) (auto simp: hm_insert_def)

lemma rotate_in_order:
  assumes "named_in_order d" and "length (cd_closed d) < 9999"
  shows "named_in_order (rotate_segment co d)"
    "cd_closed (rotate_segment co d) = cd_closed d @ [(segment_name (length (cd_closed d) + 1), co_zip co (open_content d))]"
proof -
  let ?n = "length (cd_closed d)"
  have "segment_name (Suc ?n) \<noteq> segment_name i" if "1 \<le> i" "i < Suc ?n" for i
    using segment_name_less [of i "Suc ?n"] that assms(2) by auto
  then have "segment_name (?n + 1) \<notin> segment_name ` {1..<Suc ?n}" by force
  moreover have "set (map fst (cd_closed d)) = segment_name ` {1..<Suc ?n}"
    using assms(1) unfolding named_in_order_def by (simp only: set_map set_upt)
  ultimately have "segment_name (?n + 1) \<notin> set (map fst (cd_closed d))" by metis
  then show c: "cd_closed (rotate_segment co d) = cd_closed d @ [(segment_name (?n + 1), co_zip co (open_content d))]"
    by (simp add: rotate_segment_def hm_insert_new)
  show "named_in_order (rotate_segment co d)"
    using assms by (simp add: named_in_order_def c)
qed

section \<open>Files written by the store\<close>

text \<open>
  What the log relies on of the libraries, for the events \<open>E\<close> that are written: an event comes back from its
  line, which has no line feed; a line cut short is not an event; what was compressed comes
  back; a digest is 64 hexadecimal digits.
\<close>

definition codec_ok :: "codec \<Rightarrow> event set \<Rightarrow> bool" where
  "codec_ok co E \<longleftrightarrow>
     (\<forall>e\<in>E. co_event co (co_line co e) = Some e \<and> newline \<notin> set (co_line co e) \<and> \<not> list_all is_ws (co_line co e) \<and>
        (\<forall>p. strict_prefix p (co_line co e) \<longrightarrow> list_all is_ws p \<or> co_event co p = None)) \<and>
     (\<forall>b. co_unzip co (co_zip co b) = \<lparr>rd_bytes = b, rd_fails = False\<rparr>) \<and>
     (\<forall>b. length (co_sha co b) = 64 \<and> list_all is_hex (co_sha co b))"

lemma codec_okD:
  assumes "codec_ok co E"
  shows "e \<in> E \<Longrightarrow> co_event co (co_line co e) = Some e" "e \<in> E \<Longrightarrow> newline \<notin> set (co_line co e)"
    "e \<in> E \<Longrightarrow> \<not> list_all is_ws (co_line co e)"
    "e \<in> E \<Longrightarrow> strict_prefix p (co_line co e) \<Longrightarrow> list_all is_ws p \<or> co_event co p = None"
    "co_unzip co (co_zip co b) = \<lparr>rd_bytes = b, rd_fails = False\<rparr>"
    "length (co_sha co b) = 64" "list_all is_hex (co_sha co b)"
  using assms by (simp_all add: codec_ok_def)

text \<open>Each line of such a file is the line of an event or cut short from one.\<close>

definition written :: "codec \<Rightarrow> event set \<Rightarrow> string \<Rightarrow> bool" where
  "written co E b \<longleftrightarrow> (\<forall>line\<in>set (split_on (\<lambda>c. c = newline) b). line = [] \<or> (\<exists>e\<in>E. prefix line (co_line co e)))"

lemma written_Nil [simp]: "written co E []"
  by (simp add: written_def)

lemma written_append: "written co E (a @ newline # b) \<longleftrightarrow> written co E a \<and> written co E b"
  by (auto simp: written_def split_on_append)

lemma written_lines:
  assumes ok: "codec_ok co E" and es: "set es \<subseteq> E" and b: "written co E b" "b = [] \<or> last b = newline"
  shows "written co E (b @ lines_text co es) \<and> line_events (co_event co) (b @ lines_text co es) = line_events (co_event co) b @ es \<and>
    bad_lines (co_event co) (b @ lines_text co es) = bad_lines (co_event co) b"
  using es b
proof (induction es arbitrary: b)
  case (Cons e es)
  let ?l = "co_line co e"
  note c = codec_okD(1-3) [OF ok, of e]
  from Cons.prems c(2) have one: "split_on (\<lambda>c. c = newline) ?l = [?l]" by (intro split_on_none) auto
  with Cons.prems c have l: "written co E ?l" "line_events (co_event co) ?l = [e]" "bad_lines (co_event co) ?l = 0"
    by (auto simp: written_def line_events_def bad_lines_def event_lines_def map_filter_simps)
  have "written co E (b @ ?l @ [newline]) \<and> line_events (co_event co) (b @ ?l @ [newline]) = line_events (co_event co) b @ [e] \<and>
    bad_lines (co_event co) (b @ ?l @ [newline]) = bad_lines (co_event co) b"
  proof (cases "b = []")
    case True
    with l written_append [of co E ?l "[]"] line_events_append [of "co_event co" ?l "[]"] bad_lines_append [of "co_event co" ?l "[]"]
    show ?thesis by (simp add: bad_lines_def event_lines_def)
  next
    case False
    with Cons.prems obtain a where a: "b = a @ [newline]" by (metis append_butlast_last_id)
    have "b @ ?l @ [newline] = a @ newline # (?l @ newline # [])" "b = a @ newline # []" by (simp_all add: a)
    with l Cons.prems(2) show ?thesis
      by (simp only: written_append line_events_append bad_lines_append) (simp add: bad_lines_def event_lines_def)
  qed
  with Cons.IH [of "b @ ?l @ [newline]"] Cons.prems show ?case by (simp add: lines_text_def)
qed (simp add: lines_text_def)

text \<open>A file cut anywhere gives the first of its events.\<close>

lemma split_on_take:
  "\<exists>k p. k < length (split_on P b) \<and> split_on P (take n b) = take k (split_on P b) @ [p] \<and> prefix p (split_on P b ! k)"
proof (induction b arbitrary: n)
  case (Cons c b)
  show ?case
  proof (cases n)
    case 0
    then show ?thesis by (intro exI [of _ 0] exI [of _ "[]"]) (simp split: list.splits)
  next
    case (Suc m)
    from Cons.IH [of m] obtain k p where k: "k < length (split_on P b)" "split_on P (take m b) = take k (split_on P b) @ [p]"
      "prefix p (split_on P b ! k)" by blast
    show ?thesis
    proof (cases "P c")
      case True
      with k Suc show ?thesis by (intro exI [of _ "Suc k"] exI [of _ p]) simp
    next
      case False
      obtain w ws where w: "split_on P b = w # ws" by (cases "split_on P b") auto
      show ?thesis
      proof (cases k)
        case 0
        with k w False Suc show ?thesis by (intro exI [of _ 0] exI [of _ "c # p"]) simp
      next
        case (Suc j)
        with k w False \<open>n = Suc m\<close> show ?thesis by (intro exI [of _ k] exI [of _ p]) simp
      qed
    qed
  qed
qed (auto intro: exI [of _ "[]"])

lemma written_take:
  assumes ok: "codec_ok co E" and b: "written co E b"
  shows "written co E (take n b) \<and> prefix (line_events (co_event co) (take n b)) (line_events (co_event co) b)"
proof -
  let ?s = "split_on (\<lambda>c. c = newline)"
  let ?f = "\<lambda>ls. List.map_filter (co_event co) (filter (\<lambda>line. \<not> list_all is_ws line) ls)"
  obtain k p where k: "k < length (?s b)" "?s (take n b) = take k (?s b) @ [p]" "prefix p (?s b ! k)"
    using split_on_take [of "\<lambda>c. c = newline" b n] by blast
  have full: "?s b = take k (?s b) @ ?s b ! k # drop (Suc k) (?s b)" using k(1) by (rule id_take_nth_drop)
  have line: "?s b ! k = [] \<or> (\<exists>e\<in>E. prefix (?s b ! k) (co_line co e))" using b k(1) by (simp add: written_def)
  from line k(3) have "p = [] \<or> (\<exists>e\<in>E. prefix p (co_line co e))" by (auto dest: prefix_order.trans)
  with b k(2) have "written co E (take n b)" by (auto simp: written_def dest: in_set_takeD)
  moreover have "?f [p] = [] \<or> p = ?s b ! k"
  proof (cases "p = ?s b ! k")
    case False
    with k(3) line obtain e where "e \<in> E" "strict_prefix p (co_line co e)"
      by (auto simp: prefix_order.le_less intro: prefix_order.less_le_trans)
    from codec_okD(4) [OF ok this] show ?thesis by (auto simp: map_filter_simps)
  qed simp
  then have "prefix (?f (take k (?s b) @ [p])) (?f (take k (?s b) @ ?s b ! k # drop (Suc k) (?s b)))"
    by (auto simp: map_filter_simps split: option.splits)
  then have "prefix (line_events (co_event co) (take n b)) (line_events (co_event co) b)"
    using k(2) full by (simp add: line_events_def event_lines_def)
  ultimately show ?thesis by simp
qed

section \<open>The folder of a chat\<close>

definition dir_ok :: "codec \<Rightarrow> event set \<Rightarrow> chat_dir \<Rightarrow> bool" where
  "dir_ok co E d \<longleftrightarrow> named_in_order d \<and> (\<forall>(n, z)\<in>set (cd_closed d). \<exists>b. z = co_zip co b) \<and>
     written co E (open_content d) \<and> cd_synced d \<le> length (open_content d)"

text \<open>The events that are on the disk whatever happens.\<close>

definition durable_events :: "codec \<Rightarrow> chat_dir \<Rightarrow> event list" where
  "durable_events co d = closed_events co d @ line_events (co_event co) (take (cd_synced d) (open_content d))"

lemma dir_ok_read: "codec_ok co E \<Longrightarrow> dir_ok co E d \<Longrightarrow> read_dir co d = Some (dir_log co d)"
  by (rule read_dir_plain) (auto simp: dir_ok_def codec_okD(5))

lemma dir_ok_none [simp]: "dir_ok co E no_dir"
  by (simp add: dir_ok_def no_dir_def named_in_order_def open_content_def)

lemma dir_events_none [simp]: "dir_events co no_dir = []" "bad_lines (co_event co) [] = 0"
  by (simp_all add: dir_log_def no_dir_def open_content_def closed_events_def closed_segments_def bad_lines_def event_lines_def)

lemma durable_prefix: "codec_ok co E \<Longrightarrow> dir_ok co E d \<Longrightarrow> prefix (durable_events co d) (dir_events co d)"
  using written_take [of co E "open_content d" "cd_synced d"] by (simp add: dir_ok_def durable_events_def dir_log_def)

lemma dir_ok_rotate:
  assumes ok: "codec_ok co E" and d: "dir_ok co E d" and n: "length (cd_closed d) < 9999"
  shows "dir_ok co E (rotate_segment co d) \<and> dir_log co (rotate_segment co d) = dir_log co d \<and>
    durable_events co (rotate_segment co d) = dir_events co d \<and> open_content (rotate_segment co d) = []"
proof -
  from d have names: "named_in_order d" by (simp add: dir_ok_def)
  note r = rotate_in_order [OF names n, of co]
  have o: "open_content (rotate_segment co d) = []" "cd_synced (rotate_segment co d) = 0"
    by (simp_all add: rotate_segment_def open_content_def)
  have "dir_ok co E (rotate_segment co d)" using d r by (auto simp: dir_ok_def o)
  moreover have "closed_segments (rotate_segment co d) = closed_segments d @ [(segment_name (length (cd_closed d) + 1), co_zip co (open_content d))]"
    using closed_in_order [OF names] closed_in_order [OF r(1)] r(2) by simp
  ultimately show ?thesis
    by (simp add: dir_log_def durable_events_def closed_events_def o codec_okD(5) [OF ok])
qed

text \<open>Lines added to the open segment, on a line of their own.\<close>

definition add_lines :: "codec \<Rightarrow> event list \<Rightarrow> chat_dir \<Rightarrow> chat_dir" where
  "add_lines co es d =
     d\<lparr>cd_open := Some (open_content d @ (if open_content d \<noteq> [] \<and> last (open_content d) \<noteq> newline then [newline] else []) @ lines_text co es)\<rparr>"

lemma dir_ok_add_lines:
  assumes ok: "codec_ok co E" and d: "dir_ok co E d" and es: "set es \<subseteq> E"
  shows "dir_ok co E (add_lines co es d) \<and> dir_events co (add_lines co es d) = dir_events co d @ es \<and>
    rl_skipped (dir_log co (add_lines co es d)) = rl_skipped (dir_log co d) \<and>
    durable_events co (add_lines co es d) = durable_events co d"
proof -
  let ?o = "open_content d"
  define fix_nl where "fix_nl = (if ?o \<noteq> [] \<and> last ?o \<noteq> newline then [newline] else [])"
  have "line_events (co_event co) (?o @ fix_nl) = line_events (co_event co) ?o \<and>
    bad_lines (co_event co) (?o @ fix_nl) = bad_lines (co_event co) ?o \<and> written co E (?o @ fix_nl)"
    using d line_events_append [of _ ?o "[]"] bad_lines_append [of _ ?o "[]"] written_append [of _ _ ?o "[]"]
    by (simp add: fix_nl_def dir_ok_def)
  moreover have "?o @ fix_nl = [] \<or> last (?o @ fix_nl) = newline" by (auto simp: fix_nl_def)
  ultimately have l: "written co E (?o @ fix_nl @ lines_text co es)"
    "line_events (co_event co) (?o @ fix_nl @ lines_text co es) = line_events (co_event co) ?o @ es"
    "bad_lines (co_event co) (?o @ fix_nl @ lines_text co es) = bad_lines (co_event co) ?o"
    using written_lines [OF ok es, of "?o @ fix_nl"] by auto
  have a: "open_content (add_lines co es d) = ?o @ fix_nl @ lines_text co es" "cd_closed (add_lines co es d) = cd_closed d"
    "cd_synced (add_lines co es d) = cd_synced d"
    by (simp_all add: add_lines_def open_content_def fix_nl_def)
  then have c: "closed_segments (add_lines co es d) = closed_segments d" by (simp add: closed_segments_def)
  from d have "cd_synced d \<le> length ?o" by (simp add: dir_ok_def)
  with d l show ?thesis
    by (simp add: dir_ok_def named_in_order_def a c dir_log_def durable_events_def closed_events_def)
qed

lemma dir_ok_cut:
  assumes ok: "codec_ok co E" and d: "dir_ok co E d"
  shows "dir_ok co E (cut_dir n d) \<and> prefix (dir_events co (cut_dir n d)) (dir_events co d) \<and>
    durable_events co (cut_dir n d) = durable_events co d"
proof -
  let ?m = "max n (cd_synced d)"
  have a: "open_content (cut_dir n d) = take ?m (open_content d)" "cd_closed (cut_dir n d) = cd_closed d"
    "cd_synced (cut_dir n d) = cd_synced d"
    by (simp_all add: cut_dir_def open_content_def split: option.splits)
  then have c: "closed_segments (cut_dir n d) = closed_segments d" by (simp add: closed_segments_def)
  from d have "cd_synced d \<le> length (open_content d)" "written co E (open_content d)" by (simp_all add: dir_ok_def)
  with d written_take [OF ok this(2), of ?m] show ?thesis
    by (simp add: dir_ok_def named_in_order_def a c dir_log_def durable_events_def closed_events_def min_def)
qed

lemma dir_ok_sync:
  assumes "dir_ok co E d" and "cd_open d = Some b"
  shows "dir_ok co E (d\<lparr>cd_synced := length b\<rparr>) \<and> dir_log co (d\<lparr>cd_synced := length b\<rparr>) = dir_log co d \<and>
    durable_events co (d\<lparr>cd_synced := length b\<rparr>) = dir_events co d"
  using assms by (simp add: dir_ok_def named_in_order_def open_content_def dir_log_def durable_events_def closed_events_def closed_segments_def)

section \<open>The store\<close>

definition state_of :: "codec \<Rightarrow> chat_dir \<Rightarrow> chat_state" where
  "state_of co d = \<lparr>cs_next_seq = Suc (length (dir_events co d)), cs_open_bytes = length (open_content d)\<rparr>"

definition chat_ok :: "codec \<Rightarrow> event set \<Rightarrow> string \<Rightarrow> jsonl_store \<Rightarrow> bool" where
  "chat_ok co E c s \<longleftrightarrow> (let d = chat_dir co c s in
     dir_ok co E d \<and> map ev_seq (dir_events co d) = [1..<Suc (length (dir_events co d))] \<and>
     (\<forall>st. hm_get c (js_chats s) = Some (Some st) \<longrightarrow> st = state_of co d))"

text \<open>A hot log is what the files say now.\<close>

definition hot_ok :: "codec \<Rightarrow> string set \<Rightarrow> jsonl_store \<Rightarrow> bool" where
  "hot_ok co C s \<longleftrightarrow> distinct (map fst (js_hot s)) \<and> length (js_hot s) \<le> HOT_LOGS \<and>
     (\<forall>(c, st, l)\<in>set (js_hot s). c \<in> C \<and> st = stamp co c s \<and> l = dir_log co (chat_dir co c s))"

definition blobs_ok :: "codec \<Rightarrow> jsonl_store \<Rightarrow> bool" where
  "blobs_ok co s \<longleftrightarrow> (\<forall>h b. hm_get h (js_blobs s) = Some b \<longrightarrow> h = co_sha co b)"

definition jsonl_inv :: "codec \<Rightarrow> event set \<Rightarrow> string set \<Rightarrow> jsonl_store \<Rightarrow> bool" where
  "jsonl_inv co E C s \<longleftrightarrow> 0 < js_segment_bytes s \<and> (\<forall>c\<in>C. chat_ok co E c s) \<and> hot_ok co C s \<and> blobs_ok co s"

lemma jsonl_invD:
  assumes "jsonl_inv co E C s"
  shows "0 < js_segment_bytes s" "c \<in> C \<Longrightarrow> dir_ok co E (chat_dir co c s)"
    "c \<in> C \<Longrightarrow> map ev_seq (dir_events co (chat_dir co c s)) = [1..<Suc (length (dir_events co (chat_dir co c s)))]"
    "c \<in> C \<Longrightarrow> hm_get c (js_chats s) = Some (Some st) \<Longrightarrow> st = state_of co (chat_dir co c s)"
    "hot_ok co C s" "blobs_ok co s"
  using assms by (simp_all add: jsonl_inv_def chat_ok_def Let_def)

lemma next_seq_numbered: "map ev_seq es = [1..<Suc (length es)] \<Longrightarrow> next_seq es = Suc (length es)"
  by (cases es rule: rev_cases) (auto simp: next_seq_def)

lemma next_seq_inv: "jsonl_inv co E C s \<Longrightarrow> c \<in> C \<Longrightarrow> next_seq (dir_events co (chat_dir co c s)) = Suc (length (dir_events co (chat_dir co c s)))"
  by (rule next_seq_numbered) (rule jsonl_invD(3))

lemma jsonl_read_inv:
  "codec_ok co E \<Longrightarrow> jsonl_inv co E C s \<Longrightarrow> c \<in> C \<Longrightarrow> jsonl_read co c s = Some (dir_log co (chat_dir co c s))"
  by (simp add: jsonl_read_def dir_ok_read [OF _ jsonl_invD(2)])

lemma load_state_inv:
  "codec_ok co E \<Longrightarrow> jsonl_inv co E C s \<Longrightarrow> c \<in> C \<Longrightarrow> load_state co c s = Some (state_of co (chat_dir co c s))"
  using jsonl_invD(4) [of co E C s c]
  by (auto simp: load_state_def jsonl_read_inv next_seq_inv state_of_def split: option.splits)

lemma chat_dir_set [simp]:
  "inj_on (chat_stem co) C \<Longrightarrow> c \<in> C \<Longrightarrow> x \<in> C \<Longrightarrow> chat_dir co x (set_dir co c d s) = (if x = c then d else chat_dir co x s)"
  by (auto simp: chat_dir_def set_dir_def dest: inj_onD)

lemma chat_dir_cong: "js_dirs s' = js_dirs s \<Longrightarrow> chat_dir co c s' = chat_dir co c s"
  by (simp add: chat_dir_def)

lemma chat_dir_updates [simp]:
  "chat_dir co c (s\<lparr>js_chats := a\<rparr>) = chat_dir co c s" "chat_dir co c (s\<lparr>js_hot := h\<rparr>) = chat_dir co c s"
  "chat_dir co c (s\<lparr>js_blobs := b\<rparr>) = chat_dir co c s"
  by (simp_all add: chat_dir_def)

lemma set_dir_frame [simp]:
  "js_chats (set_dir co c d s) = js_chats s" "js_hot (set_dir co c d s) = js_hot s"
  "js_blobs (set_dir co c d s) = js_blobs s" "js_segment_bytes (set_dir co c d s) = js_segment_bytes s"
  by (simp_all add: set_dir_def)

text \<open>A state where one chat's folder changed.\<close>

lemma jsonl_inv_change:
  assumes inv: "jsonl_inv co E C s" and c: "c \<in> C" and seg: "js_segment_bytes s' = js_segment_bytes s"
    and dirs: "\<And>x. x \<in> C \<Longrightarrow> chat_dir co x s' = (if x = c then d else chat_dir co x s)"
    and chats: "\<And>x. x \<noteq> c \<Longrightarrow> hm_get x (js_chats s') = hm_get x (js_chats s)"
    and d: "dir_ok co E d" "map ev_seq (dir_events co d) = [1..<Suc (length (dir_events co d))]"
    and st: "\<And>st. hm_get c (js_chats s') = Some (Some st) \<Longrightarrow> st = state_of co d"
    and hot: "distinct (map fst (js_hot s'))" "length (js_hot s') \<le> HOT_LOGS"
      "\<And>x st l. (x, st, l) \<in> set (js_hot s') \<Longrightarrow> x \<noteq> c \<and> (x, st, l) \<in> set (js_hot s) \<or>
         x = c \<and> st = (length (cd_closed d), length (open_content d)) \<and> l = dir_log co d"
    and blobs: "blobs_ok co s'"
  shows "jsonl_inv co E C s'"
proof -
  have "chat_ok co E x s'" if "x \<in> C" for x
    using that inv dirs [OF that] chats [of x] d st by (auto simp: jsonl_inv_def chat_ok_def Let_def)
  moreover have "hot_ok co C s'"
  proof -
    have "x \<in> C \<and> st = stamp co x s' \<and> l = dir_log co (chat_dir co x s')" if m: "(x, st, l) \<in> set (js_hot s')" for x st l
    proof (cases "x = c")
      case True
      with hot(3) [OF m] dirs [OF c] c show ?thesis by (simp add: stamp_def)
    next
      case False
      with hot(3) [OF m] have "(x, st, l) \<in> set (js_hot s)" by simp
      with jsonl_invD(5) [OF inv] have "x \<in> C" "st = stamp co x s" "l = dir_log co (chat_dir co x s)"
        by (auto simp: hot_ok_def)
      with False dirs show ?thesis by (simp add: stamp_def)
    qed
    with hot(1,2) show ?thesis by (auto simp: hot_ok_def)
  qed
  ultimately show ?thesis using inv blobs seg by (simp add: jsonl_inv_def)
qed

section \<open>Every operation keeps the invariant\<close>

lemma extend_hot_frame:
  "distinct (map fst hot) \<Longrightarrow> distinct (map fst (extend_hot c before new es hot)) \<and>
     length (extend_hot c before new es hot) \<le> length hot \<and> set (map fst (extend_hot c before new es hot)) \<subseteq> set (map fst hot)"
proof (induction hot)
  case (Cons h hot)
  then show ?case by (cases h) (auto simp del: set_map)
qed simp

lemma extend_hot_set:
  "distinct (map fst hot) \<Longrightarrow> (x, st, l) \<in> set (extend_hot c before new es hot) \<Longrightarrow>
     x \<noteq> c \<and> (x, st, l) \<in> set hot \<or>
     x = c \<and> st = new \<and> (\<exists>l0. (c, before, l0) \<in> set hot \<and> l = l0\<lparr>rl_events := rl_events l0 @ es\<rparr>)"
proof (induction hot)
  case (Cons h hot)
  then show ?case by (cases h) (force split: if_splits)
qed simp

lemma take_hot_None: "take_hot c hot = None \<longleftrightarrow> c \<notin> fst ` set hot"
  by (induction hot) (auto split: if_splits)

lemma take_hot_Some:
  "take_hot c hot = Some ((st, l), rest) \<Longrightarrow> distinct (map fst hot) \<Longrightarrow>
     (c, st, l) \<in> set hot \<and> set rest = set hot - {(c, st, l)} \<and> distinct (map fst rest) \<and> c \<notin> fst ` set rest \<and> length hot = Suc (length rest)"
proof (induction hot arbitrary: rest)
  case (Cons h hot)
  obtain x st' l' where h: "h = (x, st', l')" by (cases h) auto
  show ?case
  proof (cases "x = c")
    case True
    with Cons.prems h show ?thesis by (auto simp: image_iff)
  next
    case False
    with Cons.prems h obtain r where r: "take_hot c hot = Some ((st, l), r)" "rest = h # r" by auto
    with Cons.IH [OF r(1)] Cons.prems False h show ?thesis by (auto simp: image_iff)
  qed
qed simp

lemma put_blob_frame:
  "jsonl_put_blob co t s = (r, s') \<Longrightarrow>
     js_chats s' = js_chats s \<and> js_hot s' = js_hot s \<and> js_dirs s' = js_dirs s \<and> js_segment_bytes s' = js_segment_bytes s \<and>
     (blobs_ok co s \<longrightarrow> blobs_ok co s') \<and> hm_get (co_sha co t) (js_blobs s') \<noteq> None \<and>
     (\<forall>h. hm_get h (js_blobs s) \<noteq> None \<longrightarrow> hm_get h (js_blobs s') \<noteq> None)"
  by (auto simp: jsonl_put_blob_def Let_def blobs_ok_def split: if_splits)

lemma log_events_frame:
  assumes "log_events (jsonl_put_blob co) c now uuid n news s = (es, s1)"
  shows "js_chats s1 = js_chats s" "js_hot s1 = js_hot s" "js_dirs s1 = js_dirs s" "js_segment_bytes s1 = js_segment_bytes s"
    "blobs_ok co s \<Longrightarrow> blobs_ok co s1" "es = logged_as (co_sha co) c now uuid n news"
    "hm_get h (js_blobs s) \<noteq> None \<Longrightarrow> hm_get h (js_blobs s1) \<noteq> None"
    "t \<in> large_texts news \<Longrightarrow> hm_get (co_sha co t) (js_blobs s1) \<noteq> None"
proof -
  note keeps = log_events_keeps [OF _ assms]
  have "js_chats s1 = js_chats s \<and> js_hot s1 = js_hot s \<and> js_dirs s1 = js_dirs s \<and> js_segment_bytes s1 = js_segment_bytes s"
    by (rule keeps [of "\<lambda>s1. js_chats s1 = js_chats s \<and> js_hot s1 = js_hot s \<and> js_dirs s1 = js_dirs s \<and> js_segment_bytes s1 = js_segment_bytes s"])
       (use put_blob_frame in \<open>fastforce+\<close>)
  then show "js_chats s1 = js_chats s" "js_hot s1 = js_hot s" "js_dirs s1 = js_dirs s" "js_segment_bytes s1 = js_segment_bytes s"
    by auto
  show "blobs_ok co s \<Longrightarrow> blobs_ok co s1" by (rule keeps [of "blobs_ok co"]) (use put_blob_frame in \<open>fast+\<close>)
  show "es = logged_as (co_sha co) c now uuid n news"
    using log_events_logged [of "jsonl_put_blob co" "co_sha co" c now uuid n news s] assms
    by (simp add: jsonl_put_blob_def Let_def blob_ref_def)
  show "hm_get h (js_blobs s) \<noteq> None \<Longrightarrow> hm_get h (js_blobs s1) \<noteq> None"
    by (rule keeps [of "\<lambda>s1. hm_get h (js_blobs s1) \<noteq> None"]) (use put_blob_frame in \<open>fast+\<close>)
  show "t \<in> large_texts news \<Longrightarrow> hm_get (co_sha co t) (js_blobs s1) \<noteq> None"
    by (rule log_events_puts [OF _ _ assms, of "\<lambda>t s1. hm_get (co_sha co t) (js_blobs s1) \<noteq> None"])
       (use put_blob_frame in \<open>fast+\<close>)
qed

lemma jsonl_append_spec:
  assumes ok: "codec_ok co E" and inj: "inj_on (chat_stem co) C" and inv: "jsonl_inv co E C s" and c: "c \<in> C"
    and room: "length (cd_closed (chat_dir co c s)) < 9999"
    and es: "es = logged_as (co_sha co) c now uuid (next_seq (dir_events co (chat_dir co c s))) news" and E: "set es \<subseteq> E"
  shows "\<exists>s'. jsonl_append co c now uuid news s = Some (es, s') \<and> jsonl_inv co E C s' \<and>
    dir_events co (chat_dir co c s') = dir_events co (chat_dir co c s) @ es \<and>
    prefix (durable_events co (chat_dir co c s)) (durable_events co (chat_dir co c s')) \<and>
    (\<forall>x\<in>C. x \<noteq> c \<longrightarrow> chat_dir co x s' = chat_dir co x s) \<and>
    (\<forall>h. hm_get h (js_blobs s) \<noteq> None \<longrightarrow> hm_get h (js_blobs s') \<noteq> None) \<and>
    (\<forall>t\<in>large_texts news. hm_get (co_sha co t) (js_blobs s') \<noteq> None)"
proof (cases "news = []")
  case True
  with inv es show ?thesis by (simp add: jsonl_append_def large_texts_def)
next
  case False
  note I = jsonl_invD [OF inv]
  let ?d = "chat_dir co c s"
  define full where "full \<longleftrightarrow> length (open_content ?d) \<ge> js_segment_bytes s"
  define d where "d = (if full then rotate_segment co ?d else ?d)"
  define cut where "cut \<longleftrightarrow> open_content d \<noteq> [] \<and> last (open_content d) \<noteq> newline"
  define d' where "d' = add_lines co es d"
  obtain w s1 where log: "log_events (jsonl_put_blob co) c now uuid (Suc (length (dir_events co ?d))) news s = (w, s1)"
    by fastforce
  note F = log_events_frame [OF this]
  have w: "w = es" using F(6) es next_seq_inv [OF inv c] by simp
  have rot: "dir_ok co E d \<and> dir_log co d = dir_log co ?d \<and> prefix (durable_events co ?d) (durable_events co d)"
    using dir_ok_rotate [OF ok I(2) [OF c] room] I(2) [OF c] durable_prefix [OF ok I(2) [OF c]] by (simp add: d_def)
  have add: "dir_ok co E d'" "dir_events co d' = dir_events co ?d @ es" "rl_skipped (dir_log co d') = rl_skipped (dir_log co ?d)"
    "durable_events co d' = durable_events co d"
    using dir_ok_add_lines [OF ok _ E, of d] rot by (simp_all add: d'_def)
  have len: "length (open_content d) = (if full then 0 else length (open_content ?d))"
    by (simp add: d_def rotate_segment_def open_content_def)
  have open': "open_content d' = open_content d @ (if cut then [newline] else []) @ lines_text co es" "cd_closed d' = cd_closed d"
    by (simp_all add: d'_def add_lines_def open_content_def cut_def)
  have num: "map ev_seq (dir_events co d') = [1..<Suc (length (dir_events co d'))]"
    using I(3) [OF c] upt_add_eq_append [of 1 "Suc (length (dir_events co ?d))" "length news"]
    by (simp add: add(2) es next_seq_inv [OF inv c] del: upt_Suc)
  let ?n = "length (open_content d) + (if cut then 1 else 0)"
  let ?new = "(length (cd_closed d), ?n + length (lines_text co es))"
  define s' where "s' = (set_dir co c d' s1)\<lparr>js_chats := hm_insert c (Some (state_of co d')) (js_chats s1),
    js_hot := extend_hot c (length (cd_closed d), ?n) ?new es (js_hot s1)\<rparr>"
  have run: "jsonl_append co c now uuid news s = Some (es, s')"
  proof -
    have st: "\<lparr>cs_next_seq = Suc (length (dir_events co ?d)) + length news, cs_open_bytes = ?n + length (lines_text co es)\<rparr> = state_of co d'"
      by (simp add: state_of_def add(2) open' es)
    have d'_eq: "d\<lparr>cd_open := Some (open_content d @ (if cut then [newline] else []) @ lines_text co es)\<rparr> = d'"
      by (simp add: d'_def add_lines_def cut_def)
    have cut_eq: "(0 < (if full then 0 else length (open_content ?d)) \<and> last (open_content d) \<noteq> newline) = cut"
      using len by (auto simp: cut_def)
    have dir: "(if full then rotate_segment co ?d else ?d) = d" by (simp add: d_def)
    show ?thesis
      unfolding jsonl_append_def load_state_inv [OF ok inv c] state_of_def [of co ?d] Let_def
      using False
      by (simp only: option.map chat_state.simps dir cut_eq log w prod.case d'_eq s'_def len st fst_conv if_False full_def [symmetric])
         (simp add: w len st [symmetric])
  qed
  have hotI: "distinct (map fst (js_hot s))" "length (js_hot s) \<le> HOT_LOGS"
    "\<And>x st l. (x, st, l) \<in> set (js_hot s) \<Longrightarrow> x \<in> C \<and> st = stamp co x s \<and> l = dir_log co (chat_dir co x s)"
    using I(5) by (auto simp: hot_ok_def)
  have same: "chat_dir co x s1 = chat_dir co x s" for x by (rule chat_dir_cong [OF F(3)])
  have "jsonl_inv co E C s'"
  proof (rule jsonl_inv_change [OF inv c, where d = d'])
    show "chat_dir co x s' = (if x = c then d' else chat_dir co x s)" if "x \<in> C" for x
      using that inj c by (simp add: s'_def same)
    show "blobs_ok co s'" using F(5) [OF I(6)] by (simp add: s'_def blobs_ok_def)
    show "distinct (map fst (js_hot s'))" "length (js_hot s') \<le> HOT_LOGS"
      using extend_hot_frame [OF hotI(1), of c "(length (cd_closed d), ?n)" ?new es] hotI(2) F(2) by (simp_all add: s'_def)
    fix x st l assume "(x, st, l) \<in> set (js_hot s')"
    then have "(x, st, l) \<in> set (extend_hot c (length (cd_closed d), ?n) ?new es (js_hot s))" by (simp add: s'_def F(2))
    from extend_hot_set [OF hotI(1) this]
    show "x \<noteq> c \<and> (x, st, l) \<in> set (js_hot s) \<or> x = c \<and> st = (length (cd_closed d'), length (open_content d')) \<and> l = dir_log co d'"
    proof (elim disjE conjE exE)
      fix l0 assume "x = c" "st = ?new" "(c, (length (cd_closed d), ?n), l0) \<in> set (js_hot s)" "l = l0\<lparr>rl_events := rl_events l0 @ es\<rparr>"
      moreover from hotI(3) [OF this(3)] have "l0 = dir_log co ?d" by simp
      ultimately show ?thesis using add(2,3) by (simp add: open')
    qed simp
  qed (use F num add in \<open>simp_all add: s'_def\<close>)
  moreover have "chat_dir co c s' = d'" "x \<in> C \<Longrightarrow> x \<noteq> c \<Longrightarrow> chat_dir co x s' = chat_dir co x s" for x
    using inj c by (simp_all add: s'_def same)
  moreover have "hm_get h (js_blobs s) \<noteq> None \<Longrightarrow> hm_get h (js_blobs s') \<noteq> None"
    "t \<in> large_texts news \<Longrightarrow> hm_get (co_sha co t) (js_blobs s') \<noteq> None" for h t
    using F(7,8) by (simp_all add: s'_def)
  ultimately show ?thesis using run add rot by auto
qed

lemma jsonl_inv_same_dirs:
  assumes inv: "jsonl_inv co E C s" and same: "js_dirs s' = js_dirs s" "js_segment_bytes s' = js_segment_bytes s"
    "js_blobs s' = js_blobs s"
    and chats: "\<And>c st. hm_get c (js_chats s') = Some (Some st) \<Longrightarrow> hm_get c (js_chats s) = Some (Some st)"
    and hot: "distinct (map fst (js_hot s'))" "length (js_hot s') \<le> HOT_LOGS"
      "\<And>c st l. (c, st, l) \<in> set (js_hot s') \<Longrightarrow> (c, st, l) \<in> set (js_hot s) \<or>
         c \<in> C \<and> st = stamp co c s \<and> l = dir_log co (chat_dir co c s)"
  shows "jsonl_inv co E C s'"
proof -
  have d: "chat_dir co c s' = chat_dir co c s" "stamp co c s' = stamp co c s" for c
    using same(1) by (simp_all add: chat_dir_def stamp_def)
  have "chat_ok co E c s'" if "c \<in> C" for c
    using that inv chats [of c] by (auto simp: jsonl_inv_def chat_ok_def Let_def d)
  moreover have "hot_ok co C s'"
    using hot jsonl_invD(5) [OF inv] by (fastforce simp: hot_ok_def d)
  ultimately show ?thesis using inv same by (simp add: jsonl_inv_def blobs_ok_def)
qed

lemma drop1_hot: "distinct (map fst hot) \<Longrightarrow> distinct (map fst (drop 1 hot)) \<and> set (drop 1 hot) \<subseteq> set hot"
  by (cases hot) auto

lemma jsonl_read_shared_spec:
  assumes ok: "codec_ok co E" and inv: "jsonl_inv co E C s" and c: "c \<in> C"
  shows "\<exists>s'. jsonl_read_shared co c s = Some (dir_log co (chat_dir co c s), s') \<and> jsonl_inv co E C s' \<and>
    js_dirs s' = js_dirs s \<and> js_blobs s' = js_blobs s"
proof -
  let ?l = "dir_log co (chat_dir co c s)"
  have hotI: "distinct (map fst (js_hot s))" "length (js_hot s) \<le> HOT_LOGS"
    "\<And>x st l. (x, st, l) \<in> set (js_hot s) \<Longrightarrow> x \<in> C \<and> st = stamp co x s \<and> l = dir_log co (chat_dir co x s)"
    using jsonl_invD(5) [OF inv] by (auto simp: hot_ok_def)
  show ?thesis
  proof (cases "take_hot c (js_hot s)")
    case None
    let ?h = "js_hot s @ [(c, stamp co c s, ?l)]"
    let ?s = "s\<lparr>js_hot := (if length ?h > HOT_LOGS then drop 1 ?h else ?h)\<rparr>"
    from None have d: "distinct (map fst ?h)" using hotI(1) by (simp add: take_hot_None)
    have "jsonl_inv co E C ?s"
      by (rule jsonl_inv_same_dirs [OF inv]) (use d hotI(2) c drop1_hot [OF d] in \<open>auto split: if_splits\<close>)
    with None show ?thesis
      by (simp add: jsonl_read_shared_def Let_def jsonl_read_inv [OF ok inv c] del: append.simps)
  next
    case (Some x)
    then obtain st l rest where t: "take_hot c (js_hot s) = Some ((st, l), rest)" by (cases x) auto
    note T = take_hot_Some [OF t hotI(1)]
    then have "(c, st, l) \<in> set (js_hot s)" by simp
    from hotI(3) [OF this] have st: "st = stamp co c s" "l = ?l" by simp_all
    let ?s = "s\<lparr>js_hot := rest @ [(c, st, l)]\<rparr>"
    have "jsonl_inv co E C ?s"
      by (rule jsonl_inv_same_dirs [OF inv]) (use T hotI(2) c st in auto)
    with t st show ?thesis by (simp add: jsonl_read_shared_def Let_def)
  qed
qed

lemma jsonl_sync_spec:
  assumes inj: "inj_on (chat_stem co) C" and inv: "jsonl_inv co E C s" and c: "c \<in> C"
  shows "jsonl_inv co E C (jsonl_sync co c s) \<and>
    (\<forall>x\<in>C. dir_log co (chat_dir co x (jsonl_sync co c s)) = dir_log co (chat_dir co x s)) \<and>
    durable_events co (chat_dir co c (jsonl_sync co c s)) = dir_events co (chat_dir co c s) \<and>
    (\<forall>x\<in>C. x \<noteq> c \<longrightarrow> chat_dir co x (jsonl_sync co c s) = chat_dir co x s)"
proof (cases "cd_open (chat_dir co c s)")
  case None
  with inv show ?thesis by (simp add: jsonl_sync_def Let_def durable_events_def dir_log_def open_content_def)
next
  case (Some b)
  let ?d = "chat_dir co c s" and ?s = "jsonl_sync co c s"
  let ?d' = "?d\<lparr>cd_synced := length b\<rparr>"
  note I = jsonl_invD [OF inv]
  note D = dir_ok_sync [OF I(2) [OF c] Some]
  have s: "?s = set_dir co c ?d' s" using Some by (simp add: jsonl_sync_def Let_def)
  have st: "state_of co ?d' = state_of co ?d" using D by (simp add: state_of_def open_content_def)
  have "jsonl_inv co E C ?s"
  proof (rule jsonl_inv_change [OF inv c, where d = ?d'])
    fix x st l assume m: "(x, st, l) \<in> set (js_hot ?s)"
    then have "(x, st, l) \<in> set (js_hot s)" by (simp add: s)
    with I(5) have "st = stamp co x s" "l = dir_log co (chat_dir co x s)" by (auto simp: hot_ok_def)
    with m D show "x \<noteq> c \<and> (x, st, l) \<in> set (js_hot s) \<or> x = c \<and> st = (length (cd_closed ?d'), length (open_content ?d')) \<and> l = dir_log co ?d'"
      by (auto simp: s stamp_def open_content_def)
  qed (use inj c D I(3) [OF c] I(4) [OF c] I(5,6) st in \<open>simp_all add: s hot_ok_def blobs_ok_def\<close>)
  with D inj c show ?thesis by (simp add: s)
qed

lemma jsonl_delete_spec:
  assumes inj: "inj_on (chat_stem co) C" and inv: "jsonl_inv co E C s" and c: "c \<in> C"
    and del: "jsonl_delete_chat co c s = (r, s')"
  shows "jsonl_inv co E C s' \<and> chat_dir co c s' = no_dir \<and> js_blobs s' = js_blobs s \<and>
    (\<forall>x\<in>C. x \<noteq> c \<longrightarrow> chat_dir co x s' = chat_dir co x s)"
proof -
  note I = jsonl_invD [OF inv]
  have s': "s' = (set_dir co c no_dir s)\<lparr>js_chats := hm_insert c None (js_chats s), js_hot := filter (\<lambda>(x, _). x \<noteq> c) (js_hot s)\<rparr>"
    using del by (simp add: jsonl_delete_chat_def Let_def)
  have "jsonl_inv co E C s'"
  proof (rule jsonl_inv_change [OF inv c, where d = no_dir])
    show "distinct (map fst (js_hot s'))" "length (js_hot s') \<le> HOT_LOGS"
      using I(5) by (auto simp: s' hot_ok_def distinct_map_filter intro: le_trans [OF length_filter_le])
  qed (use inj c I(6) in \<open>auto simp: s' blobs_ok_def\<close>)
  with inj c show ?thesis by (simp add: s')
qed

lemma chat_dir_power_cut:
  "chat_dir co c (power_cut left s) = cut_dir (left (chat_stem co c)) (chat_dir co c s)"
proof -
  have "hm_get k (map (\<lambda>(stem, d). (stem, cut_dir (left stem) d)) m) = map_option (cut_dir (left k)) (hm_get k m)" for k m
    by (induction m) (auto simp: hm_get_def)
  then show ?thesis
    by (simp add: chat_dir_def power_cut_def cut_dir_def no_dir_def split: option.splits)
qed

lemma numbered_prefix:
  assumes "prefix a b" and "map ev_seq b = [1..<Suc (length b)]"
  shows "map ev_seq a = [1..<Suc (length a)]"
proof -
  from assms(1) obtain r where b: "b = a @ r" by (rule prefixE)
  have "map ev_seq a = take (length a) (map ev_seq b)" by (simp add: b)
  also have "\<dots> = [1..<Suc (length a)]" using assms(2) by (simp add: b take_upt del: upt_Suc)
  finally show ?thesis .
qed

lemma jsonl_cut_spec:
  assumes ok: "codec_ok co E" and inv: "jsonl_inv co E C s"
  shows "jsonl_inv co E C (power_cut left s) \<and> (\<forall>c\<in>C.
    prefix (dir_events co (chat_dir co c (power_cut left s))) (dir_events co (chat_dir co c s)) \<and>
    durable_events co (chat_dir co c (power_cut left s)) = durable_events co (chat_dir co c s))"
proof -
  note I = jsonl_invD [OF inv]
  have D: "dir_ok co E (chat_dir co c (power_cut left s))"
    "prefix (dir_events co (chat_dir co c (power_cut left s))) (dir_events co (chat_dir co c s))"
    "durable_events co (chat_dir co c (power_cut left s)) = durable_events co (chat_dir co c s)" if "c \<in> C" for c
    using dir_ok_cut [OF ok I(2) [OF that]] by (simp_all add: chat_dir_power_cut)
  have "chat_ok co E c (power_cut left s)" if "c \<in> C" for c
    using D [OF that] numbered_prefix [OF _ I(3) [OF that]]
    by (simp add: chat_ok_def Let_def) (simp add: power_cut_def)
  then have "jsonl_inv co E C (power_cut left s)"
    using I(1,6) by (simp add: jsonl_inv_def hot_ok_def power_cut_def blobs_ok_def)
  with D show ?thesis by blast
qed

section \<open>The contract\<close>

lemma jsonl_ops_simps [simp]:
  "so_append (jsonl_ops co) = jsonl_append co" "so_read (jsonl_ops co) = jsonl_read co"
  "so_read_shared (jsonl_ops co) = jsonl_read_shared co" "so_put_blob (jsonl_ops co) = jsonl_put_blob co"
  "so_get_blob (jsonl_ops co) = jsonl_get_blob" "so_delete_chat (jsonl_ops co) = jsonl_delete_chat co"
  "so_sync (jsonl_ops co) = jsonl_sync co"
  by (simp_all add: jsonl_ops_def)

lemma jsonl_chat_log:
  "codec_ok co E \<Longrightarrow> jsonl_inv co E C s \<Longrightarrow> c \<in> C \<Longrightarrow> chat_log (jsonl_ops co) c s = dir_events co (chat_dir co c s)"
  by (simp add: chat_log_def jsonl_read_inv)

lemma jsonl_has_blob:
  assumes "codec_ok co E" and "blobs_ok co s"
  shows "has_blob (jsonl_ops co) (co_sha co) t s \<longleftrightarrow> hm_get (co_sha co t) (js_blobs s) \<noteq> None"
proof -
  have "strip_prefix ''sha256:'' (blob_ref (co_sha co) t) = Some (co_sha co t)"
    by (simp add: strip_prefix_def blob_ref_def)
  with assms show ?thesis
    by (auto simp: has_blob_def jsonl_get_blob_def codec_okD(6,7) blobs_ok_def split: option.splits)
qed

definition jsonl_valid :: "codec \<Rightarrow> event set \<Rightarrow> string set \<Rightarrow> jsonl_store \<Rightarrow> bool" where
  "jsonl_valid co E C s \<longleftrightarrow> codec_ok co E \<and> inj_on (chat_stem co) C \<and> jsonl_inv co E C s"

interpretation jsonl: event_store "jsonl_ops co" "jsonl_valid co E C" C
  "\<lambda>c s. length (cd_closed (chat_dir co c s)) < 9999" "\<lambda>e. e \<in> E" "co_sha co"
proof unfold_locales
  fix s c assume v: "jsonl_valid co E C s" and c: "c \<in> C"
  then have V: "codec_ok co E" "inj_on (chat_stem co) C" "jsonl_inv co E C s" by (simp_all add: jsonl_valid_def)
  note log = jsonl_chat_log [OF V(1)]
  show "so_read (jsonl_ops co) c s \<noteq> None" by (simp add: jsonl_read_inv [OF V(1,3) c])
  show "sorted (map ev_seq (chat_log (jsonl_ops co) c s))"
    by (simp add: log [OF V(3) c] jsonl_invD(3) [OF V(3) c] del: upt_Suc)
  from jsonl_read_shared_spec [OF V(1,3) c] obtain s' where s':
    "jsonl_read_shared co c s = Some (dir_log co (chat_dir co c s), s')" "jsonl_inv co E C s'" "js_dirs s' = js_dirs s" by blast
  then have "chat_dir co d s' = chat_dir co d s" for d by (simp add: chat_dir_def)
  with s' V show "\<exists>l s'. so_read_shared (jsonl_ops co) c s = Some (l, s') \<and> so_read (jsonl_ops co) c s = Some l \<and> jsonl_valid co E C s' \<and>
      (\<forall>d\<in>C. chat_log (jsonl_ops co) d s' = chat_log (jsonl_ops co) d s \<and>
        (length (cd_closed (chat_dir co d s')) < 9999) = (length (cd_closed (chat_dir co d s)) < 9999))"
    using c by (auto simp: jsonl_valid_def log jsonl_read_inv)
  {
    fix es now uuid news assume room: "length (cd_closed (chat_dir co c s)) < 9999"
      and es: "es = logged_as (co_sha co) c now uuid (next_seq (chat_log (jsonl_ops co) c s)) news" and E: "Ball (set es) (\<lambda>e. e \<in> E)"
    from es have "es = logged_as (co_sha co) c now uuid (next_seq (dir_events co (chat_dir co c s))) news" by (simp add: log [OF V(3) c])
    from jsonl_append_spec [OF V c room this] E obtain s' where s':
      "jsonl_append co c now uuid news s = Some (es, s')" "jsonl_inv co E C s'"
      "dir_events co (chat_dir co c s') = dir_events co (chat_dir co c s) @ es"
      "\<forall>x\<in>C. x \<noteq> c \<longrightarrow> chat_dir co x s' = chat_dir co x s"
      "\<forall>h. hm_get h (js_blobs s) \<noteq> None \<longrightarrow> hm_get h (js_blobs s') \<noteq> None"
      "\<forall>t\<in>large_texts news. hm_get (co_sha co t) (js_blobs s') \<noteq> None"
      by blast
    then show "\<exists>s'. so_append (jsonl_ops co) c now uuid news s = Some (es, s') \<and> jsonl_valid co E C s' \<and>
        chat_log (jsonl_ops co) c s' = chat_log (jsonl_ops co) c s @ es \<and>
        (\<forall>d\<in>C. d \<noteq> c \<longrightarrow> chat_log (jsonl_ops co) d s' = chat_log (jsonl_ops co) d s) \<and>
        (\<forall>t. has_blob (jsonl_ops co) (co_sha co) t s \<or> t \<in> large_texts news \<longrightarrow> has_blob (jsonl_ops co) (co_sha co) t s')"
      using V c jsonl_has_blob [OF V(1) jsonl_invD(6) [OF V(3)]] jsonl_has_blob [OF V(1) jsonl_invD(6) [OF s'(2)]]
      by (auto simp: jsonl_valid_def log [OF V(3)] log [OF s'(2)])
  next
    fix r s' assume "so_delete_chat (jsonl_ops co) c s = (r, s')"
    then have s': "jsonl_inv co E C s'" "chat_dir co c s' = no_dir" "js_blobs s' = js_blobs s"
      "\<forall>x\<in>C. x \<noteq> c \<longrightarrow> chat_dir co x s' = chat_dir co x s"
      using jsonl_delete_spec [OF V(2,3) c] by simp_all
    then show "jsonl_valid co E C s' \<and> chat_log (jsonl_ops co) c s' = [] \<and>
        (\<forall>d\<in>C. d \<noteq> c \<longrightarrow> chat_log (jsonl_ops co) d s' = chat_log (jsonl_ops co) d s) \<and>
        (\<forall>t. has_blob (jsonl_ops co) (co_sha co) t s \<longrightarrow> has_blob (jsonl_ops co) (co_sha co) t s')"
      using V c jsonl_has_blob [OF V(1) jsonl_invD(6) [OF V(3)]] jsonl_has_blob [OF V(1) jsonl_invD(6) [OF s'(1)]]
      by (auto simp: jsonl_valid_def log [OF V(3)] log [OF s'(1)])
  }
qed

section \<open>Runs of the store\<close>

datatype log_op =
    LAppend string "event list"
  | LSync string
  | LRead string "event list"
  | LDelete string
  | LPowerCut

text \<open>
  What a log promises: appended events are there, in order, until the chat is deleted; a power cut may
  take the newest away, but none of those the chat had when it was last synced. \<open>L\<close> gives the
  events of each chat, \<open>D\<close> how many of them are durable.
\<close>

inductive log_spec :: "log_op list \<Rightarrow> (string \<Rightarrow> event list) \<Rightarrow> (string \<Rightarrow> nat) \<Rightarrow> bool" where
  spec_start: "log_spec [] (\<lambda>_. []) (\<lambda>_. 0)"
| spec_append: "log_spec h L D \<Longrightarrow> log_spec (LAppend c es # h) (L(c := L c @ es)) D"
| spec_sync: "log_spec h L D \<Longrightarrow> log_spec (LSync c # h) L (D(c := length (L c)))"
| spec_read: "log_spec h L D \<Longrightarrow> log_spec (LRead c (L c) # h) L D"
| spec_delete: "log_spec h L D \<Longrightarrow> log_spec (LDelete c # h) (L(c := [])) (D(c := 0))"
| spec_power_cut: "log_spec h L D \<Longrightarrow> (\<forall>c. prefix (L' c) (L c) \<and> D c \<le> length (L' c)) \<Longrightarrow> log_spec (LPowerCut # h) L' D"

inductive_cases log_spec_NilE: "log_spec [] L D"
inductive_cases log_spec_AppendE: "log_spec (LAppend c es # h) L D"

inductive jsonl_step :: "codec \<Rightarrow> event set \<Rightarrow> string set \<Rightarrow> log_op list \<Rightarrow> jsonl_store \<Rightarrow> log_op \<Rightarrow> jsonl_store \<Rightarrow> bool"
  for co E C where
  jstep_append: "c \<in> C \<Longrightarrow> length (cd_closed (chat_dir co c s)) < 9999 \<Longrightarrow>
     jsonl_append co c now uuid news s = Some (es, s') \<Longrightarrow>
     set (logged_as (co_sha co) c now uuid (next_seq (chat_log (jsonl_ops co) c s)) news) \<subseteq> E \<Longrightarrow>
     jsonl_step co E C h s (LAppend c es) s'"
| jstep_sync: "c \<in> C \<Longrightarrow> jsonl_step co E C h s (LSync c) (jsonl_sync co c s)"
| jstep_read: "c \<in> C \<Longrightarrow> jsonl_read_shared co c s = Some (l, s') \<Longrightarrow> jsonl_step co E C h s (LRead c (rl_events l)) s'"
| jstep_delete: "c \<in> C \<Longrightarrow> jsonl_delete_chat co c s = (r, s') \<Longrightarrow> jsonl_step co E C h s (LDelete c) s'"
| jstep_power_cut: "jsonl_step co E C h s LPowerCut (power_cut left s)"

inductive_cases jsonl_step_cases: "jsonl_step co E C h s e s'"

definition jsonl_run_inv :: "codec \<Rightarrow> event set \<Rightarrow> string set \<Rightarrow> log_op list \<Rightarrow> jsonl_store \<Rightarrow> bool" where
  "jsonl_run_inv co E C h s \<longleftrightarrow> jsonl_valid co E C s \<and> (\<exists>L D. log_spec h L D \<and>
     (\<forall>c. (c \<in> C \<longrightarrow> L c = dir_events co (chat_dir co c s) \<and> D c \<le> length (durable_events co (chat_dir co c s))) \<and>
        (c \<notin> C \<longrightarrow> D c \<le> length (L c))))"

lemma jsonl_step_inv:
  assumes inv: "jsonl_run_inv co E C h s" and step: "jsonl_step co E C h s e s'"
  shows "jsonl_run_inv co E C (e # h) s'"
proof -
  from inv obtain L D where spec: "log_spec h L D" and V: "codec_ok co E" "inj_on (chat_stem co) C" "jsonl_inv co E C s"
    and L: "\<And>c. c \<in> C \<Longrightarrow> L c = dir_events co (chat_dir co c s)"
    and D: "\<And>c. c \<in> C \<Longrightarrow> D c \<le> length (durable_events co (chat_dir co c s))" "\<And>c. c \<notin> C \<Longrightarrow> D c \<le> length (L c)"
    by (auto simp: jsonl_run_inv_def jsonl_valid_def)
  have keep: "jsonl_run_inv co E C (e # h) s'" if "jsonl_inv co E C s'" "log_spec (e # h) L' D'"
    "\<And>c. c \<in> C \<Longrightarrow> L' c = dir_events co (chat_dir co c s') \<and> D' c \<le> length (durable_events co (chat_dir co c s'))"
    "\<And>c. c \<notin> C \<Longrightarrow> D' c \<le> length (L' c)" for L' D'
    using that V by (auto simp: jsonl_run_inv_def jsonl_valid_def)
  from step consider (append) c now uuid news es where "c \<in> C" "length (cd_closed (chat_dir co c s)) < 9999"
      "jsonl_append co c now uuid news s = Some (es, s')"
      "set (logged_as (co_sha co) c now uuid (next_seq (chat_log (jsonl_ops co) c s)) news) \<subseteq> E" "e = LAppend c es"
    | (sync) c where "c \<in> C" "e = LSync c" "s' = jsonl_sync co c s"
    | (read) c l where "c \<in> C" "jsonl_read_shared co c s = Some (l, s')" "e = LRead c (rl_events l)"
    | (delete) c r where "c \<in> C" "jsonl_delete_chat co c s = (r, s')" "e = LDelete c"
    | (cut) left where "e = LPowerCut" "s' = power_cut left s"
    by (rule jsonl_step_cases) blast+
  then show ?thesis
  proof cases
    case append
    from append(4) have "set (logged_as (co_sha co) c now uuid (next_seq (dir_events co (chat_dir co c s))) news) \<subseteq> E"
      by (simp add: jsonl_chat_log [OF V(1,3) append(1)])
    from jsonl_append_spec [OF V append(1,2) refl this] append(3) have a: "jsonl_inv co E C s'" "dir_events co (chat_dir co c s') = dir_events co (chat_dir co c s) @ es"
      "prefix (durable_events co (chat_dir co c s)) (durable_events co (chat_dir co c s'))"
      "\<forall>x\<in>C. x \<noteq> c \<longrightarrow> chat_dir co x s' = chat_dir co x s"
      by auto
    have dd: "D x \<le> length (durable_events co (chat_dir co x s'))" if "x \<in> C" for x
      using D(1) [OF that] prefix_length_le [OF a(3)] a(4) that by (cases "x = c") auto
    show ?thesis
      by (rule keep [OF a(1) spec_append [OF spec, of c es, folded append(5)]]) (use append(1) a L D(2) dd in auto)
  next
    case sync
    from jsonl_sync_spec [OF V(2,3) sync(1)] sync(3) have a: "jsonl_inv co E C s'"
      "\<forall>x\<in>C. dir_log co (chat_dir co x s') = dir_log co (chat_dir co x s)"
      "durable_events co (chat_dir co c s') = dir_events co (chat_dir co c s)"
      "\<forall>x\<in>C. x \<noteq> c \<longrightarrow> chat_dir co x s' = chat_dir co x s" by auto
    show ?thesis
      by (rule keep [OF a(1) spec_sync [OF spec, of c, folded sync(2)]]) (use sync(1) a L D in auto)
  next
    case read
    from jsonl_read_shared_spec [OF V(1,3) read(1)] read(2) have a: "jsonl_inv co E C s'" "l = dir_log co (chat_dir co c s)"
      "js_dirs s' = js_dirs s" by auto
    then have "chat_dir co x s' = chat_dir co x s" for x by (simp add: chat_dir_def)
    with spec_read [OF spec, of c] read(1,3) a L D show ?thesis by (intro keep [OF a(1), of L D]) auto
  next
    case delete
    from jsonl_delete_spec [OF V(2,3) delete(1,2)] have a: "jsonl_inv co E C s'" "chat_dir co c s' = no_dir"
      "\<forall>x\<in>C. x \<noteq> c \<longrightarrow> chat_dir co x s' = chat_dir co x s" by auto
    show ?thesis
      by (rule keep [OF a(1) spec_delete [OF spec, of c, folded delete(3)]]) (use delete(1) a L D in auto)
  next
    case cut
    note a = jsonl_cut_spec [OF V(1,3), of left]
    let ?L = "\<lambda>c. if c \<in> C then dir_events co (chat_dir co c s') else L c"
    have "prefix (durable_events co (chat_dir co c s')) (dir_events co (chat_dir co c s'))" if "c \<in> C" for c
      using durable_prefix [OF V(1) jsonl_invD(2)] a that cut(2) by blast
    then have "length (durable_events co (chat_dir co c s')) \<le> length (dir_events co (chat_dir co c s'))" if "c \<in> C" for c
      using that prefix_length_le by blast
    then have d: "D c \<le> length (dir_events co (chat_dir co c s'))" if "c \<in> C" for c
      using that D(1) [OF that] a cut(2) by fastforce
    have "\<forall>c. prefix (?L c) (L c) \<and> D c \<le> length (?L c)"
      using a L D(2) d cut(2) by auto
    from spec_power_cut [OF spec this] cut a D show ?thesis by (intro keep [of ?L D]) auto
  qed
qed

interpretation jsonl_runs: invariant_system "jsonl_step co E C"
  "\<lambda>s. codec_ok co E \<and> inj_on (chat_stem co) C \<and> s = jsonl_new [] []" "jsonl_run_inv co E C"
proof unfold_locales
  fix s assume s: "codec_ok co E \<and> inj_on (chat_stem co) C \<and> s = jsonl_new [] []"
  have d0: "chat_dir co c (jsonl_new [] []) = no_dir" for c by (simp add: chat_dir_def jsonl_new_def)
  with s have d: "chat_dir co c s = no_dir" for c by simp
  have f: "0 < js_segment_bytes s" "js_chats s = []" "js_hot s = []" "js_blobs s = []"
    using s by (simp_all add: jsonl_new_def SEGMENT_BYTES_def)
  have "jsonl_inv co E C s"
    by (simp add: jsonl_inv_def chat_ok_def d hot_ok_def blobs_ok_def Let_def f)
  moreover have "durable_events co no_dir = []"
    by (simp add: durable_events_def closed_events_def closed_segments_def no_dir_def open_content_def)
  ultimately show "jsonl_run_inv co E C [] s"
    using s spec_start unfolding jsonl_run_inv_def jsonl_valid_def
    by (intro conjI exI [of _ "\<lambda>_. []"] exI [of _ "\<lambda>_. 0"]) (simp_all add: d0)
qed (rule jsonl_step_inv)


text \<open>Libraries and events for the witnesses.\<close>

definition demo_event :: event where
  "demo_event = logged_event ''c'' ''now'' ''1'' 1 (new_event_of ''note'' JNull) []"

definition demo_codec_of :: "event \<Rightarrow> codec" where
  "demo_codec_of e =
     \<lparr>co_line = (\<lambda>_. ''{}''), co_event = (\<lambda>t. if t = ''{}'' then Some e else None),
      co_zip = (\<lambda>b. CHR ''z'' # b),
      co_unzip = (\<lambda>z. case z of [] \<Rightarrow> \<lparr>rd_bytes = [], rd_fails = True\<rparr> | c # b \<Rightarrow> \<lparr>rd_bytes = b, rd_fails = (c \<noteq> CHR ''z'')\<rparr>),
      co_sha = (\<lambda>_. replicate 64 CHR ''0''), co_hash = (\<lambda>c. c)\<rparr>"

definition demo_codec :: codec where
  "demo_codec = demo_codec_of demo_event"

lemma demo_codec_of_ok: "codec_ok (demo_codec_of e) {e}"
proof -
  have "p = [] \<or> p = ''{''" if "strict_prefix p ''{}''" for p
    using that by (auto simp: strict_prefix_def prefix_def Cons_eq_append_conv append_eq_Cons_conv)
  then show ?thesis
    by (auto simp: codec_ok_def demo_codec_of_def newline_def is_ws_def is_hex_def is_digit_def list_all_iff)
qed

lemma demo_codec_ok: "codec_ok demo_codec {demo_event}"
  by (simp add: demo_codec_def demo_codec_of_ok)

lemma demo_append:
  "\<exists>s. jsonl_append demo_codec ''c'' ''now'' (\<lambda>_. ''1'') [new_event_of ''note'' JNull] (jsonl_new [] []) = Some ([demo_event], s) \<and>
     runs (jsonl_step demo_codec {demo_event} {''c''}) (jsonl_new [] []) [LAppend ''c'' [demo_event]] s \<and>
     cd_closed (chat_dir demo_codec ''c'' s) = []"
proof -
  have start: "jsonl_run_inv demo_codec {demo_event} {''c''} [] (jsonl_new [] [])"
    by (rule jsonl_runs.inv_start) (simp add: demo_codec_ok)
  then have inv: "jsonl_inv demo_codec {demo_event} {''c''} (jsonl_new [] [])" by (simp add: jsonl_run_inv_def jsonl_valid_def)
  have d: "chat_dir demo_codec ''c'' (jsonl_new [] []) = no_dir" by (simp add: chat_dir_def jsonl_new_def)
  have l: "logged_as (co_sha demo_codec) ''c'' ''now'' (\<lambda>_. ''1'') (next_seq []) [new_event_of ''note'' JNull] = [demo_event]"
    by (simp add: demo_event_def next_seq_def logged_data_def new_event_of_def)
  from jsonl_append_spec [OF demo_codec_ok _ inv, of "''c''" "[demo_event]" "''now''" "\<lambda>_. ''1''" "[new_event_of ''note'' JNull]"]
  obtain s where s: "jsonl_append demo_codec ''c'' ''now'' (\<lambda>_. ''1'') [new_event_of ''note'' JNull] (jsonl_new [] []) = Some ([demo_event], s)"
    using l by (auto simp: d) (auto simp: no_dir_def)
  have "jsonl_step demo_codec {demo_event} {''c''} [] (jsonl_new [] []) (LAppend ''c'' [demo_event]) s"
  proof (rule jstep_append [OF _ _ s])
    show "set (logged_as (co_sha demo_codec) ''c'' ''now'' (\<lambda>_. ''1'') (next_seq (chat_log (jsonl_ops demo_codec) ''c'' (jsonl_new [] []))) [new_event_of ''note'' JNull]) \<subseteq> {demo_event}"
      using l by (simp add: jsonl_chat_log [OF demo_codec_ok inv] d)
  qed (simp_all add: d no_dir_def)
  moreover have "cd_closed (chat_dir demo_codec ''c'' s) = []"
  proof -
    have "0 < js_segment_bytes (jsonl_new [] [])" by (simp add: jsonl_new_def SEGMENT_BYTES_def)
    moreover have "open_content no_dir = []" "cd_closed no_dir = []" by (simp_all add: open_content_def no_dir_def)
    ultimately show ?thesis
      using s chat_dir_set [of demo_codec "{''c''}" "''c''" "''c''"]
      by (auto simp: jsonl_append_def load_state_inv [OF demo_codec_ok inv] d Let_def state_of_def split: prod.splits)
  qed
  ultimately show ?thesis using s runs_step [where step = "jsonl_step demo_codec {demo_event} {''c''}", OF runs_start] by blast
qed


section \<open>A crash while a segment is closed\<close>

text \<open>The process ends in \<open>rotate\<close>: \<open>z\<close> is what was written of the compressed segment, the open one is still there.\<close>

definition cut_in_rotation :: "codec \<Rightarrow> string \<Rightarrow> string \<Rightarrow> jsonl_store \<Rightarrow> jsonl_store" where
  "cut_in_rotation co chat z s =
     (let d = chat_dir co chat s
      in (set_dir co chat (d\<lparr>cd_closed := hm_insert (segment_name (length (cd_closed d) + 1)) z (cd_closed d)\<rparr>) s)
           \<lparr>js_chats := [], js_hot := []\<rparr>)"

text \<open>
  C36. A process that ends while it closes a segment does harm. When it had written a part that the decoder
  refuses, the chat is lost to the engine: no read and no append of it returns any more. When the
  part was complete, every event of the open segment is read twice from then on.
\<close>

theorem crash_while_closing:
  assumes "codec_ok co E" and "inj_on (chat_stem co) C" and "runs (jsonl_step co E C) (jsonl_new [] []) h s" and "c \<in> C"
    and "length (cd_closed (chat_dir co c s)) < 9999"
  shows "(rd_fails (co_unzip co z) \<longrightarrow> jsonl_read co c (cut_in_rotation co c z s) = None \<and>
      jsonl_read_shared co c (cut_in_rotation co c z s) = None \<and>
      jsonl_append co c now uuid (e # es) (cut_in_rotation co c z s) = None) \<and>
    (\<exists>l l' older. jsonl_read co c s = Some l \<and>
      jsonl_read co c (cut_in_rotation co c (co_zip co (open_content (chat_dir co c s))) s) = Some l' \<and>
      rl_events l = older @ line_events (co_event co) (open_content (chat_dir co c s)) \<and>
      rl_events l' = rl_events l @ line_events (co_event co) (open_content (chat_dir co c s)))"
proof -
  let ?d = "chat_dir co c s" and ?n = "segment_name (length (cd_closed (chat_dir co c s)) + 1)"
  from jsonl_runs.inv_runs [OF _ assms(3)] assms have inv: "jsonl_inv co E C s" by (auto simp: jsonl_run_inv_def jsonl_valid_def)
  have dir: "chat_dir co c (cut_in_rotation co c y s) = ?d\<lparr>cd_closed := hm_insert ?n y (cd_closed ?d)\<rparr>" for y
    using assms(2,4) by (simp add: cut_in_rotation_def Let_def)
  have read: "jsonl_read co c (cut_in_rotation co c z s) = None" if "rd_fails (co_unzip co z)"
    using read_dir_fails [OF hm_get_set that, of ?n "?d\<lparr>cd_closed := hm_insert ?n z (cd_closed ?d)\<rparr>"]
    by (simp add: jsonl_read_def dir)
  have ram: "js_hot (cut_in_rotation co c z s) = []" "js_chats (cut_in_rotation co c z s) = []"
    by (simp_all add: cut_in_rotation_def Let_def)
  have "rd_fails (co_unzip co z) \<longrightarrow> jsonl_read co c (cut_in_rotation co c z s) = None \<and>
      jsonl_read_shared co c (cut_in_rotation co c z s) = None \<and>
      jsonl_append co c now uuid (e # es) (cut_in_rotation co c z s) = None"
    using read by (simp add: jsonl_read_shared_def Let_def ram jsonl_append_def load_state_def)
  moreover
  let ?y = "co_zip co (open_content ?d)"
  have ok: "dir_ok co E ?d" using jsonl_invD(2) [OF inv assms(4)] .
  then have names: "named_in_order ?d" by (simp add: dir_ok_def)
  note r = rotate_in_order [OF names assms(5), of co]
  let ?d' = "?d\<lparr>cd_closed := hm_insert ?n ?y (cd_closed ?d)\<rparr>"
  have closed: "cd_closed ?d' = cd_closed (rotate_segment co ?d)" by (simp add: rotate_segment_def)
  then have "dir_ok co E ?d'" using ok r(1) dir_ok_rotate [OF assms(1) ok assms(5)]
    by (auto simp: dir_ok_def named_in_order_def open_content_def)
  from dir_ok_read [OF assms(1) this] have "jsonl_read co c (cut_in_rotation co c ?y s) = Some (dir_log co ?d')"
    by (simp add: jsonl_read_def dir)
  moreover have "closed_events co ?d' = closed_events co (rotate_segment co ?d)"
    using closed by (simp only: closed_events_def closed_segments_def)
  moreover have "closed_events co (rotate_segment co ?d) = dir_events co ?d"
    using dir_ok_rotate [OF assms(1) ok assms(5)] by (metis append_Nil2 dir_log_def line_events_Nil read_log.select_convs(1))
  moreover have "dir_events co ?d' = closed_events co ?d' @ line_events (co_event co) (open_content ?d)"
    by (simp add: dir_log_def open_content_def)
  ultimately show ?thesis using jsonl_read_inv [OF assms(1) inv assms(4)] by (simp add: dir_log_def)
qed

theorem crash_while_closing_witness:
  "\<exists>s. runs (jsonl_step demo_codec {demo_event} {''c''}) (jsonl_new [] []) [LAppend ''c'' [demo_event]] s \<and>
     jsonl_read demo_codec ''c'' (cut_in_rotation demo_codec ''c'' [] s) = None"
proof -
  from demo_append obtain s where s: "runs (jsonl_step demo_codec {demo_event} {''c''}) (jsonl_new [] []) [LAppend ''c'' [demo_event]] s"
    "cd_closed (chat_dir demo_codec ''c'' s) = []" by blast
  moreover have "rd_fails (co_unzip demo_codec [])" by (simp add: demo_codec_def demo_codec_of_def)
  ultimately show ?thesis using crash_while_closing [OF demo_codec_ok _ s(1), of "''c''" "[]"] by auto
qed

end
