(* ===== verification/Transcript.thy ===== *)
theory Transcript
  imports Mem_Store Jsonl_Store
begin

text \<open>
  agents/src/memory/transcript.rs and api/src/handlers/chat/ingest_events.rs: the visible transcript of a chat from its
  events, and the events a client request adds to it. The client of the event log: it works on any
  backend, through its operations. \<open>hash\<close> is the hash of a role and a text. A \<open>BTreeMap\<close> is the
  association list whose entries are read in the order of their keys.
\<close>

record client_message =
  cm_role :: string
  cm_text :: string
  cm_id :: "string option"
  cm_extra :: "(string \<times> json) list"

record logged =
  lg_event_id :: string
  lg_key :: string
  lg_role :: string
  lg_text :: string

definition message_key :: "(string \<Rightarrow> string \<Rightarrow> string) \<Rightarrow> string \<Rightarrow> string \<Rightarrow> string option \<Rightarrow> string" where
  "message_key hash role text i =
     (case i of
        Some k \<Rightarrow> if k \<noteq> [] then ''id:'' @ k else ''h:'' @ hash (to_lower role) (trim text)
      | None \<Rightarrow> ''h:'' @ hash (to_lower role) (trim text))"

section \<open>The transcript\<close>

definition event_pos :: "event \<Rightarrow> nat option" where
  "event_pos e = Option.bind (obj_get ''pos'' (ev_data e)) json_u64"

definition event_field :: "string \<Rightarrow> event \<Rightarrow> string" where
  "event_field key e = (case event_str key e of Some s \<Rightarrow> s | None \<Rightarrow> [])"

definition logged_of :: "event \<Rightarrow> logged" where
  "logged_of e =
     \<lparr>lg_event_id = ev_id e, lg_key = event_field ''key'' e, lg_role = event_field ''role'' e, lg_text = event_field ''text'' e\<rparr>"

definition transcript_step :: "(nat, logged) hmap \<Rightarrow> event \<Rightarrow> (nat, logged) hmap" where
  "transcript_step slots e =
     (case event_pos e of
        None \<Rightarrow> slots
      | Some pos \<Rightarrow>
          if ev_kind e = ''message'' \<or> ev_kind e = ''message.edited'' then hm_insert pos (logged_of e) slots
          else if ev_kind e = ''message.retracted'' then hm_remove pos slots
          else slots)"

definition transcript :: "event list \<Rightarrow> (nat, logged) hmap" where
  "transcript events = foldl transcript_step [] events"

section \<open>What a request changes\<close>

datatype change = New nat | Edited nat string | Retracted nat string

type_synonym sent = "string \<times> string \<times> string option"

text \<open>The guard of \<open>compare\<close>: the same message, or the Engine's own answer coming back as text.\<close>

definition same_message :: "(string \<Rightarrow> string \<Rightarrow> string) \<Rightarrow> logged \<Rightarrow> sent \<Rightarrow> bool" where
  "same_message hash l m =
     (case m of (role, text, i) \<Rightarrow>
        trim (lg_text l) = trim text \<and> (eq_ignore_case (lg_role l) role \<or> lg_key l = message_key hash (to_lower role) text i))"

definition slot_at :: "logged option list \<Rightarrow> nat \<Rightarrow> logged option" where
  "slot_at slots pos = (if pos < length slots then slots ! pos else None)"

definition put_slot :: "nat \<Rightarrow> logged option \<Rightarrow> logged option list \<Rightarrow> logged option list" where
  "put_slot pos x slots = (slots @ replicate (Suc pos - length slots) None)[pos := x]"

definition sent_change :: "(string \<Rightarrow> string \<Rightarrow> string) \<Rightarrow> logged option list \<Rightarrow> nat \<times> sent \<Rightarrow> change list" where
  "sent_change hash slots pm =
     (case pm of (pos, m) \<Rightarrow>
        case slot_at slots pos of
          None \<Rightarrow> [New pos]
        | Some l \<Rightarrow> if same_message hash l m then [] else [Edited pos (lg_event_id l)])"

definition compare_slots :: "(string \<Rightarrow> string \<Rightarrow> string) \<Rightarrow> logged option list \<Rightarrow> sent list \<Rightarrow> change list" where
  "compare_slots hash slots messages =
     concat (map (sent_change hash slots) (enumerate 0 messages)) @
     List.map_filter (\<lambda>(pos, slot). map_option (\<lambda>l. Retracted pos (lg_event_id l)) slot)
       (drop (length messages) (enumerate 0 slots))"

definition slots_step :: "logged option list \<Rightarrow> event \<Rightarrow> logged option list" where
  "slots_step slots e =
     (if ev_kind e \<noteq> ''message'' \<and> ev_kind e \<noteq> ''message.edited'' \<and> ev_kind e \<noteq> ''message.retracted'' then slots
      else case event_pos e of
        None \<Rightarrow> slots
      | Some pos \<Rightarrow> put_slot pos (if ev_kind e = ''message.retracted'' then None else Some (logged_of e)) slots)"

definition changes :: "(string \<Rightarrow> string \<Rightarrow> string) \<Rightarrow> event list \<Rightarrow> sent list \<Rightarrow> change list" where
  "changes hash events messages = compare_slots hash (foldl slots_step [] events) messages"

section \<open>The events of the changes\<close>

definition message_event ::
  "(string \<Rightarrow> string \<Rightarrow> string) \<Rightarrow> string \<Rightarrow> nat \<Rightarrow> client_message \<Rightarrow> (string \<times> json) list \<Rightarrow> new_event" where
  "message_event hash kind pos m extra =
     (let role = to_lower (cm_role m);
          data = [(''role'', JStr role), (''text'', JStr (cm_text m)), (''pos'', json_nat pos),
                  (''key'', JStr (message_key hash role (cm_text m) (cm_id m))), (''source'', JStr ''client'')];
          data = (case cm_id m of Some i \<Rightarrow> obj_insert ''msg_id'' (JStr i) data | None \<Rightarrow> data)
      in new_event_of kind (JObj (obj_extend extra (obj_extend (cm_extra m) data))))"

fun change_event :: "(string \<Rightarrow> string \<Rightarrow> string) \<Rightarrow> (nat \<Rightarrow> client_message) \<Rightarrow> change \<Rightarrow> new_event" where
  "change_event hash message (New pos) = message_event hash ''message'' pos (message pos) []"
| "change_event hash message (Edited pos old) =
     message_event hash ''message.edited'' pos (message pos) [(''supersedes'', JStr old)]"
| "change_event hash message (Retracted pos old) =
     new_event_of ''message.retracted'' (JObj [(''pos'', json_nat pos), (''retracts'', JStr old)])"

definition change_events :: "(string \<Rightarrow> string \<Rightarrow> string) \<Rightarrow> change list \<Rightarrow> (nat \<Rightarrow> client_message) \<Rightarrow> new_event list" where
  "change_events hash cs message = map (change_event hash message) cs"

text \<open>The same from a transcript: its positions in order, each into its slot.\<close>

definition diff_messages :: "(string \<Rightarrow> string \<Rightarrow> string) \<Rightarrow> (nat, logged) hmap \<Rightarrow> client_message list \<Rightarrow> new_event list" where
  "diff_messages hash logged messages =
     (let slots = foldl (\<lambda>slots (pos, m). put_slot pos (Some m) slots) [] (sort_key fst logged);
          sent = map (\<lambda>m. (cm_role m, cm_text m, cm_id m)) messages
      in change_events hash (compare_slots hash slots sent) (\<lambda>pos. messages ! pos))"

definition answer_event :: "(string \<Rightarrow> string \<Rightarrow> string) \<Rightarrow> string \<Rightarrow> nat \<Rightarrow> new_event" where
  "answer_event hash text pos =
     new_event_of ''message''
       (JObj [(''role'', JStr ''assistant''), (''text'', JStr text), (''pos'', json_nat pos),
              (''key'', JStr (message_key hash ''assistant'' text None)), (''source'', JStr ''engine'')])"

section \<open>The request of a client\<close>

datatype content_part = TextPart string | MediaPart

datatype message_content = Text string | Array "content_part list"

fun text_content :: "message_content \<Rightarrow> string" where
  "text_content (Text t) = t"
| "text_content (Array parts) =
     trim_end (concat (map (\<lambda>p. case p of TextPart t \<Rightarrow> t @ [newline] | MediaPart \<Rightarrow> []) parts))"

record external_message =
  em_role :: string
  em_content :: message_content
  em_id :: "string option"
  em_tool_calls :: "json option"
  em_tool_call_id :: "string option"

definition client_message_of :: "string \<Rightarrow> external_message \<Rightarrow> client_message" where
  "client_message_of workspace m =
     (let extra = (case em_tool_calls m of Some calls \<Rightarrow> obj_insert ''tool_calls'' calls [] | None \<Rightarrow> []);
          extra = (case em_tool_call_id m of Some i \<Rightarrow> obj_insert ''tool_call_id'' (JStr i) extra | None \<Rightarrow> extra);
          extra = obj_insert ''workspace'' (JStr workspace) extra
      in \<lparr>cm_role = em_role m, cm_text = text_content (em_content m), cm_id = em_id m, cm_extra = extra\<rparr>)"

definition sent_of :: "external_message \<Rightarrow> sent" where
  "sent_of m = (em_role m, text_content (em_content m), em_id m)"

definition ingest_request ::
  "'s store_ops \<Rightarrow> (string \<Rightarrow> string \<Rightarrow> string) \<Rightarrow> string \<Rightarrow> string \<Rightarrow> (nat \<Rightarrow> string) \<Rightarrow> string \<Rightarrow> external_message list \<Rightarrow> 's
     \<Rightarrow> (event list \<times> 's) option" where
  "ingest_request ops hash workspace now uuid chat messages s =
     Option.bind (so_read_shared ops chat s)
       (\<lambda>(l, s1). so_append ops chat now uuid
          (change_events hash (changes hash (rl_events l) (map sent_of messages))
             (\<lambda>pos. client_message_of workspace (messages ! pos))) s1)"

definition history_messages :: "'s store_ops \<Rightarrow> string \<Rightarrow> 's \<Rightarrow> (external_message list \<times> 's) option" where
  "history_messages ops chat s =
     map_option (\<lambda>(l, s1).
       (map (\<lambda>(_, m). \<lparr>em_role = lg_role m, em_content = Text (lg_text m), em_id = None, em_tool_calls = None, em_tool_call_id = None\<rparr>)
          (sort_key fst (transcript (rl_events l))), s1))
       (so_read_shared ops chat s)"

section \<open>Slots and transcript\<close>

lemma slot_at_put [simp]: "slot_at (put_slot pos x slots) p = (if p = pos then x else slot_at slots p)"
  by (auto simp: slot_at_def put_slot_def nth_append nth_list_update)

lemma slot_at_Nil [simp]: "slot_at [] p = None"
  by (simp add: slot_at_def)

lemma transcript_snoc: "transcript (es @ [e]) = transcript_step (transcript es) e"
  by (simp add: transcript_def)

lemma transcript_append: "transcript (es @ es') = foldl transcript_step (transcript es) es'"
  by (simp add: transcript_def)

lemma transcript_step_get:
  "hm_get p (transcript_step slots e) =
     (if event_pos e = Some p \<and> (ev_kind e = ''message'' \<or> ev_kind e = ''message.edited'') then Some (logged_of e)
      else if event_pos e = Some p \<and> ev_kind e = ''message.retracted'' then None
      else hm_get p slots)"
  by (auto simp: transcript_step_def split: option.splits)

lemma slots_transcript: "slot_at (foldl slots_step [] events) p = hm_get p (transcript events)"
proof (induction events rule: rev_induct)
  case (snoc e events)
  then show ?case
    by (auto simp: transcript_snoc transcript_step_get slots_step_def split: option.splits)
qed (simp add: transcript_def)

lemma hm_ok_transcript [simp]: "hm_ok (transcript events)"
proof (induction events rule: rev_induct)
  case (snoc e events)
  then show ?case by (auto simp: transcript_snoc transcript_step_def split: option.splits)
qed (simp add: transcript_def)

lemma json_u64_le: "json_u64 v = Some n \<Longrightarrow> n \<le> U64_MAX"
  by (cases v) (auto simp: as_u64_def split: if_splits)

lemma transcript_pos: "hm_get p (transcript events) = Some l \<Longrightarrow> p \<le> U64_MAX"
proof (induction events arbitrary: l rule: rev_induct)
  case (snoc e events)
  then show ?case
    by (auto simp: transcript_snoc transcript_step_get event_pos_def bind_eq_Some_conv dest: json_u64_le split: if_splits)
qed (simp add: transcript_def)

lemma map_filter_map: "List.map_filter f (map g xs) = List.map_filter (\<lambda>x. f (g x)) xs"
  by (induction xs) (simp_all add: map_filter_simps split: option.splits)

lemma map_filter_cong: "(\<And>x. x \<in> set xs \<Longrightarrow> f x = g x) \<Longrightarrow> List.map_filter f xs = List.map_filter g xs"
  by (induction xs) (simp_all add: map_filter_simps split: option.splits)

text \<open>What is compared are the slots that hold a message; empty ones behind the last change nothing.\<close>

lemma retracted_from:
  assumes "length slots \<le> k"
  shows "List.map_filter (\<lambda>(pos, slot). map_option (\<lambda>l. Retracted pos (lg_event_id l)) slot) (drop n (enumerate 0 slots)) =
    List.map_filter (\<lambda>p. map_option (\<lambda>l. Retracted p (lg_event_id l)) (slot_at slots p)) [n..<k]"
proof -
  let ?f = "\<lambda>p. map_option (\<lambda>l. Retracted p (lg_event_id l)) (slot_at slots p)"
  have "drop n (enumerate 0 slots) = map (\<lambda>p. (p, slots ! p)) [n..<length slots]"
    by (rule nth_equalityI) (auto simp: nth_enumerate_eq)
  then have "List.map_filter (\<lambda>(pos, slot). map_option (\<lambda>l. Retracted pos (lg_event_id l)) slot) (drop n (enumerate 0 slots)) =
    List.map_filter ?f [n..<length slots]"
    by (simp only: map_filter_map) (rule map_filter_cong, simp add: slot_at_def)
  moreover have "List.map_filter ?f [n..<k] = List.map_filter ?f [n..<length slots]"
  proof (cases "n \<le> length slots")
    case True
    with assms have "[n..<k] = [n..<length slots] @ [length slots..<k]" by (metis le_Suc_ex upt_add_eq_append)
    moreover have "List.map_filter ?f [length slots..<k] = []" by (auto simp: List.map_filter_def slot_at_def filter_empty_conv)
    ultimately show ?thesis by simp
  next
    case False
    then have "List.map_filter ?f [n..<k] = []" by (auto simp: List.map_filter_def slot_at_def filter_empty_conv)
    with False show ?thesis by (simp add: List.map_filter_def)
  qed
  ultimately show ?thesis by simp
qed

lemma compare_slots_cong:
  assumes "\<And>p. slot_at a p = slot_at b p"
  shows "compare_slots hash a ms = compare_slots hash b ms"
  using assms retracted_from [of a "max (length a) (length b)" "length ms"]
    retracted_from [of b "max (length a) (length b)" "length ms"]
  by (simp add: compare_slots_def sent_change_def [abs_def])

text \<open>
  The changes of a request, by position: a message where none is shown is new, one that is not the
  shown one is an edit, and what is shown behind the last message is retracted.
\<close>

fun change_at :: "change \<Rightarrow> nat" where
  "change_at (New p) = p"
| "change_at (Edited p _) = p"
| "change_at (Retracted p _) = p"

definition change_of :: "(string \<Rightarrow> string \<Rightarrow> string) \<Rightarrow> event list \<Rightarrow> sent list \<Rightarrow> nat \<Rightarrow> change option" where
  "change_of hash events ms p =
     (case hm_get p (transcript events) of
        None \<Rightarrow> if p < length ms then Some (New p) else None
      | Some l \<Rightarrow>
          if p < length ms then if same_message hash l (ms ! p) then None else Some (Edited p (lg_event_id l))
          else Some (Retracted p (lg_event_id l)))"

lemma change_of_at [simp]: "change_of hash events ms p = Some c \<Longrightarrow> change_at c = p"
  by (auto simp: change_of_def split: option.splits if_splits)

lemma map_filter_concat: "concat (map (\<lambda>x. case f x of None \<Rightarrow> [] | Some y \<Rightarrow> [y]) xs) = List.map_filter f xs"
  by (induction xs) (auto simp: map_filter_simps split: option.splits)

lemma changes_by_position:
  "\<exists>k \<ge> length ms. (\<forall>p l. hm_get p (transcript events) = Some l \<longrightarrow> p < k) \<and>
     changes hash events ms = List.map_filter (change_of hash events ms) [0..<k]"
proof -
  let ?s = "foldl slots_step [] events" and ?f = "change_of hash events ms"
  let ?k = "max (length ms) (length ?s)"
  have "enumerate 0 ms = map (\<lambda>p. (p, ms ! p)) [0..<length ms]"
    by (rule nth_equalityI) (auto simp: nth_enumerate_eq)
  then have "concat (map (sent_change hash ?s) (enumerate 0 ms)) = concat (map (\<lambda>p. case ?f p of None \<Rightarrow> [] | Some c \<Rightarrow> [c]) [0..<length ms])"
    by (auto simp: sent_change_def slots_transcript change_of_def comp_def intro!: arg_cong [where f = concat] map_cong split: option.splits)
  then have a: "concat (map (sent_change hash ?s) (enumerate 0 ms)) = List.map_filter ?f [0..<length ms]"
    by (simp only: map_filter_concat)
  have b: "List.map_filter (\<lambda>p. map_option (\<lambda>l. Retracted p (lg_event_id l)) (slot_at ?s p)) [length ms..<?k] =
    List.map_filter ?f [length ms..<?k]"
    by (rule map_filter_cong) (auto simp: slots_transcript change_of_def split: option.splits)
  have "[0..<?k] = [0..<length ms] @ [length ms..<?k]" by (metis le0 le_add_diff_inverse max.cobounded1 upt_add_eq_append)
  moreover have "changes hash events ms = List.map_filter ?f [0..<length ms] @ List.map_filter ?f [length ms..<?k]"
    unfolding changes_def compare_slots_def a using retracted_from [of ?s ?k "length ms"] b by simp
  moreover have "p < ?k" if "hm_get p (transcript events) = Some l" for p l
    using that by (auto simp: slot_at_def simp flip: slots_transcript split: if_splits)
  ultimately show ?thesis by (intro exI [of _ ?k]) auto
qed

section \<open>What is shown after a request\<close>

text \<open>A string field as it is read back from the log: a large one is in a blob and reads as empty.\<close>

definition kept_text :: "string \<Rightarrow> string" where
  "kept_text t = (if length t \<le> BLOB_BYTES then t else [])"

lemma obj_get_logged_data:
  "k \<notin> set RESERVED \<Longrightarrow> obj_get k (logged_data sha m) = map_option (logged_field sha) (obj_get k m)"
  unfolding logged_data_def obj_get_def by (induction m) auto

lemma logged_field_simps [simp]:
  "logged_field sha (JNum t) = JNum t"
  "json_str (logged_field sha (JStr t)) = (if length t \<le> BLOB_BYTES then Some t else None)"
  by (auto simp: logged_field_def)

lemma client_extra:
  "k \<notin> {''tool_calls'', ''tool_call_id'', ''workspace''} \<Longrightarrow>
     obj_get k (obj_extend (cm_extra (client_message_of workspace m)) d) = obj_get k d"
  by (auto simp: client_message_of_def obj_extend_def obj_insert_def Let_def obj_get_def update_conv' split: option.splits)

lemma message_event_fields:
  assumes "e = message_event hash kind pos (client_message_of workspace m) extra"
    and "set (map fst extra) \<subseteq> {''supersedes''}"
  shows "ne_kind e = kind" "obj_get ''pos'' (ne_data e) = Some (json_nat pos)"
    "obj_get ''role'' (ne_data e) = Some (JStr (to_lower (em_role m)))"
    "obj_get ''text'' (ne_data e) = Some (JStr (text_content (em_content m)))"
proof -
  have skip: "obj_get k (obj_extend extra d) = obj_get k d" if "k \<noteq> ''supersedes''" for k d
    using assms(2) that by (induction extra arbitrary: d) (auto simp: obj_extend_def)
  show "ne_kind e = kind" by (simp add: assms(1) message_event_def Let_def new_event_of_def)
  have f: "cm_role (client_message_of workspace m) = em_role m" "cm_text (client_message_of workspace m) = text_content (em_content m)"
    by (simp_all add: client_message_of_def Let_def)
  show "obj_get ''pos'' (ne_data e) = Some (json_nat pos)"
    "obj_get ''role'' (ne_data e) = Some (JStr (to_lower (em_role m)))"
    "obj_get ''text'' (ne_data e) = Some (JStr (text_content (em_content m)))"
    by (simp_all add: assms(1) message_event_def Let_def new_event_of_def skip client_extra f split: option.splits)
       (simp_all add: obj_get_def)
qed

lemma obj_get_not_reserved [simp]:
  "obj_get ''pos'' (logged_data sha m) = map_option (logged_field sha) (obj_get ''pos'' m)"
  "obj_get ''role'' (logged_data sha m) = map_option (logged_field sha) (obj_get ''role'' m)"
  "obj_get ''text'' (logged_data sha m) = map_option (logged_field sha) (obj_get ''text'' m)"
  by (rule obj_get_logged_data, simp add: RESERVED_def)+

text \<open>The logged event of a change: its position, its kind and the message it shows.\<close>

lemma change_event_logged:
  fixes message :: "nat \<Rightarrow> external_message"
  assumes p: "change_at c \<le> U64_MAX"
    and n: "n = change_event hash (\<lambda>p. client_message_of workspace (message p)) c"
    and e: "e = logged_event chat now i seq n (logged_data sha (ne_data n))"
  shows "event_pos e = Some (change_at c)"
    "ev_kind e = (case c of New _ \<Rightarrow> ''message'' | Edited _ _ \<Rightarrow> ''message.edited'' | Retracted _ _ \<Rightarrow> ''message.retracted'')"
    "\<not> (\<exists>q k. c = Retracted q k) \<Longrightarrow> lg_text (logged_of e) = kept_text (text_content (em_content (message (change_at c)))) \<and>
       lg_role (logged_of e) = kept_text (to_lower (em_role (message (change_at c))))"
proof -
  have f: "ev_data e = logged_data sha (ne_data n)" "ev_kind e = ne_kind n" by (simp_all add: e logged_event_def)
  have "event_pos e = Some (change_at c) \<and>
    ev_kind e = (case c of New _ \<Rightarrow> ''message'' | Edited _ _ \<Rightarrow> ''message.edited'' | Retracted _ _ \<Rightarrow> ''message.retracted'') \<and>
    (\<not> (\<exists>q k. c = Retracted q k) \<longrightarrow> lg_text (logged_of e) = kept_text (text_content (em_content (message (change_at c)))) \<and>
       lg_role (logged_of e) = kept_text (to_lower (em_role (message (change_at c)))))"
  proof (cases c)
    case (New q)
    note m = message_event_fields [of n hash "''message''" q workspace "message q" "[]"]
    from n New m p show ?thesis
      by (simp add: event_pos_def f logged_of_def event_field_def event_str_def kept_text_def json_nat_def [symmetric])
         (simp add: json_nat_def as_u64_def)
  next
    case (Edited q old)
    note m = message_event_fields [of n hash "''message.edited''" q workspace "message q" "[(''supersedes'', JStr old)]"]
    from n Edited m p show ?thesis
      by (simp add: event_pos_def f logged_of_def event_field_def event_str_def kept_text_def)
         (simp add: json_nat_def as_u64_def)
  next
    case (Retracted q old)
    with n have "obj_get ''pos'' (ne_data n) = Some (json_nat q)" "ne_kind n = ''message.retracted''"
      by (simp_all add: new_event_of_def obj_get_def)
    with Retracted p show ?thesis
      by (simp add: event_pos_def f json_nat_def as_u64_def)
  qed
  then show "event_pos e = Some (change_at c)"
    "ev_kind e = (case c of New _ \<Rightarrow> ''message'' | Edited _ _ \<Rightarrow> ''message.edited'' | Retracted _ _ \<Rightarrow> ''message.retracted'')"
    "\<not> (\<exists>q k. c = Retracted q k) \<Longrightarrow> lg_text (logged_of e) = kept_text (text_content (em_content (message (change_at c)))) \<and>
       lg_role (logged_of e) = kept_text (to_lower (em_role (message (change_at c))))"
    by blast+
qed

text \<open>An event that shows a change.\<close>

definition shows_change :: "(nat \<Rightarrow> external_message) \<Rightarrow> change \<Rightarrow> event \<Rightarrow> bool" where
  "shows_change message c e \<longleftrightarrow>
     event_pos e = Some (change_at c) \<and>
     ev_kind e = (case c of New _ \<Rightarrow> ''message'' | Edited _ _ \<Rightarrow> ''message.edited'' | Retracted _ _ \<Rightarrow> ''message.retracted'') \<and>
     (\<not> (\<exists>q k. c = Retracted q k) \<longrightarrow> lg_text (logged_of e) = kept_text (text_content (em_content (message (change_at c)))) \<and>
       lg_role (logged_of e) = kept_text (to_lower (em_role (message (change_at c)))))"

lemma changes_logged:
  assumes "\<forall>c\<in>set cs. change_at c \<le> U64_MAX"
  shows "list_all2 (shows_change message) cs
    (logged_as sha chat now uuid n (change_events hash cs (\<lambda>p. client_message_of workspace (message p))))"
  using assms
proof (induction cs arbitrary: n)
  case (Cons c cs)
  have "shows_change message c (logged_event chat now (uuid n) n e (logged_data sha (ne_data e)))"
    if "e = change_event hash (\<lambda>p. client_message_of workspace (message p)) c" for e
    using change_event_logged [OF _ that refl, of chat now "uuid n" n sha] Cons.prems by (simp add: shows_change_def)
  with Cons show ?case by (simp add: change_events_def)
qed (simp add: change_events_def)

text \<open>What is shown at the position of a change afterwards.\<close>

definition shown_after :: "(nat \<Rightarrow> external_message) \<Rightarrow> change \<Rightarrow> logged option \<Rightarrow> bool" where
  "shown_after message c shown \<longleftrightarrow>
     (case c of
        Retracted _ _ \<Rightarrow> shown = None
      | _ \<Rightarrow> \<exists>l. shown = Some l \<and> lg_text l = kept_text (text_content (em_content (message (change_at c)))) \<and>
          lg_role l = kept_text (to_lower (em_role (message (change_at c)))))"

lemma transcript_shown:
  assumes "list_all2 (shows_change message) cs es" and "distinct (map change_at cs)"
  shows "p \<notin> change_at ` set cs \<Longrightarrow> hm_get p (foldl transcript_step t es) = hm_get p t"
    and "c \<in> set cs \<Longrightarrow> change_at c = p \<Longrightarrow> shown_after message c (hm_get p (foldl transcript_step t es))"
  using assms
proof (induction cs es arbitrary: t rule: list_all2_induct)
  case (Cons d cs e es)
  {
    case 1
    with Cons show ?case by (auto simp: transcript_step_get shows_change_def)
  next
    case 2
    show ?case
    proof (cases "d = c")
      case True
      with 2 have "p \<notin> change_at ` set cs" by auto
      moreover from 2 have "distinct (map change_at cs)" by simp
      ultimately have "hm_get p (foldl transcript_step t (e # es)) = hm_get p (transcript_step t e)"
        using Cons.IH(1) by simp
      with Cons.hyps(1) True 2(2) show ?thesis
        by (auto simp: shows_change_def shown_after_def transcript_step_get split: change.split)
    next
      case False
      with 2 Cons.IH(2) show ?thesis by simp
    qed
  }
qed simp_all

lemma distinct_positions: "distinct (map change_at (List.map_filter (change_of hash es ms) [0..<k]))"
proof (induction k)
  case (Suc k)
  then show ?case
    by (auto simp: map_filter_simps in_map_filter split: option.splits)
qed (simp add: map_filter_simps)

text \<open>Each message of a request as it is shown afterwards; nothing is shown behind the last.\<close>

lemma transcript_after:
  assumes len: "length msgs \<le> U64_MAX"
    and cs: "cs = changes hash events (map sent_of msgs)"
    and es: "es = logged_as sha chat now uuid n (change_events hash cs (\<lambda>p. client_message_of workspace (msgs ! p)))"
  shows "p < length msgs \<Longrightarrow> \<exists>l. hm_get p (transcript (events @ es)) = Some l \<and>
      (same_message hash l (sent_of (msgs ! p)) \<and> hm_get p (transcript events) = Some l \<or>
       lg_text l = kept_text (text_content (em_content (msgs ! p))) \<and> lg_role l = kept_text (to_lower (em_role (msgs ! p))))"
    and "\<not> p < length msgs \<Longrightarrow> hm_get p (transcript (events @ es)) = None"
proof -
  let ?f = "change_of hash events (map sent_of msgs)"
  obtain k where k: "length msgs \<le> k" "\<And>p l. hm_get p (transcript events) = Some l \<Longrightarrow> p < k"
    "cs = List.map_filter ?f [0..<k]"
    using changes_by_position [of "map sent_of msgs" events hash] unfolding cs by auto
  have range: "p < k" if "?f p = Some c" for p c
    using that k(1) k(2) [of p] by (auto simp: change_of_def split: option.splits if_splits)
  have set: "c \<in> set cs \<longleftrightarrow> ?f (change_at c) = Some c" for c
  proof -
    have "c \<in> set cs \<longleftrightarrow> (\<exists>p<k. ?f p = Some c)" by (auto simp only: k(3) in_map_filter set_upt atLeastLessThan_iff)
    then show ?thesis using range change_of_at by metis
  qed
  have "change_at c \<le> U64_MAX" if "c \<in> set cs" for c
  proof -
    have "p \<le> U64_MAX" if "?f p = Some c" for p
      using that len by (auto simp: change_of_def split: option.splits if_splits dest!: transcript_pos)
    with that show ?thesis by (simp only: set)
  qed
  then have shown: "list_all2 (shows_change (\<lambda>p. msgs ! p)) cs es" unfolding es by (intro changes_logged) blast
  note d = distinct_positions [of hash events "map sent_of msgs" k, folded k(3)]
  have other: "hm_get p (transcript (events @ es)) = hm_get p (transcript events)" if "?f p = None" for p
  proof -
    have "p \<notin> change_at ` set cs" using that set by fastforce
    from transcript_shown(1) [OF shown d this] show ?thesis by (simp only: transcript_append)
  qed
  have changed: "shown_after (\<lambda>p. msgs ! p) c (hm_get p (transcript (events @ es)))" if "?f p = Some c" for p c
  proof -
    from change_of_at [OF that] have at: "change_at c = p" .
    with that have "c \<in> set cs" by (simp only: set)
    from transcript_shown(2) [OF shown d this at] show ?thesis by (simp only: transcript_append)
  qed
  show "\<exists>l. hm_get p (transcript (events @ es)) = Some l \<and>
      (same_message hash l (sent_of (msgs ! p)) \<and> hm_get p (transcript events) = Some l \<or>
       lg_text l = kept_text (text_content (em_content (msgs ! p))) \<and> lg_role l = kept_text (to_lower (em_role (msgs ! p))))"
    if "p < length msgs"
  proof (cases "?f p")
    case None
    with that other [OF None] show ?thesis by (auto simp: change_of_def split: option.splits if_splits)
  next
    case (Some c)
    with that Some changed [OF Some] show ?thesis by (auto simp: change_of_def shown_after_def split: option.splits if_splits)
  qed
  show "hm_get p (transcript (events @ es)) = None" if "\<not> p < length msgs"
  proof (cases "?f p")
    case None
    with that other [OF None] show ?thesis by (auto simp: change_of_def split: option.splits if_splits)
  next
    case (Some c)
    with that changed [OF Some] show ?thesis by (auto simp: change_of_def shown_after_def split: option.splits if_splits)
  qed
qed

section \<open>A request, on any backend\<close>

lemma same_kept:
  assumes "lg_text l = kept_text (text_content (em_content m))" and "lg_role l = kept_text (to_lower (em_role m))"
    and "length (text_content (em_content m)) \<le> BLOB_BYTES" and "length (em_role m) \<le> BLOB_BYTES"
  shows "same_message hash l (sent_of m)"
  using assms by (simp add: same_message_def sent_of_def eq_ignore_case_def kept_text_def to_lower_def [of "em_role m"])
    (simp flip: to_lower_def)

lemma no_changes:
  assumes "\<And>p. case hm_get p (transcript events) of Some l \<Rightarrow> p < length ms \<and> same_message hash l (ms ! p) | None \<Rightarrow> length ms \<le> p"
  shows "changes hash events ms = []"
proof -
  have "change_of hash events ms p = None" for p
    using assms [of p] by (auto simp: change_of_def split: option.splits)
  then show ?thesis using changes_by_position [of ms events hash] by (auto simp: List.map_filter_def)
qed

lemma changed_message:
  assumes "change_of hash events ms p = Some c"
  shows "c \<in> set (changes hash events ms)"
proof -
  obtain k where "\<And>p l. hm_get p (transcript events) = Some l \<Longrightarrow> p < k" "length ms \<le> k"
    "changes hash events ms = List.map_filter (change_of hash events ms) [0..<k]"
    using changes_by_position [of ms events hash] by auto
  moreover have "p < length ms \<or> hm_get p (transcript events) \<noteq> None"
    using assms by (auto simp: change_of_def split: option.splits if_splits)
  ultimately have "p < k" "changes hash events ms = List.map_filter (change_of hash events ms) [0..<k]" by fastforce+
  with assms show ?thesis by (auto simp: in_map_filter simp del: upt_Suc)
qed

text \<open>The events a request logs, of its messages and what the log shows.\<close>

definition request_events ::
  "(string \<Rightarrow> string) \<Rightarrow> (string \<Rightarrow> string \<Rightarrow> string) \<Rightarrow> string \<Rightarrow> string \<Rightarrow> (nat \<Rightarrow> string) \<Rightarrow> string \<Rightarrow> external_message list
     \<Rightarrow> event list \<Rightarrow> event list" where
  "request_events sha hash workspace now uuid chat msgs events =
     logged_as sha chat now uuid (next_seq events)
       (change_events hash (changes hash events (map sent_of msgs)) (\<lambda>p. client_message_of workspace (msgs ! p)))"

context event_store
begin

lemma ingest_logs:
  assumes "inv s" and "c \<in> chats" and "room c s"
    and "es = request_events sha hash workspace now uuid c msgs (chat_log ops c s)" and "Ball (set es) writable"
  shows "\<exists>s'. ingest_request ops hash workspace now uuid c msgs s = Some (es, s') \<and> inv s' \<and> chat_log ops c s' = chat_log ops c s @ es"
proof -
  from read_shared_law [OF assms(1,2)] obtain l s1 where s1: "so_read_shared ops c s = Some (l, s1)" "so_read ops c s = Some l"
    "inv s1" "chat_log ops c s1 = chat_log ops c s" "room c s1 = room c s" using assms(2) by blast
  from s1(2) have l: "rl_events l = chat_log ops c s" by (simp add: chat_log_def)
  from append_law [OF s1(3) assms(2)] s1(4,5) assms(3,4,5) obtain s' where
    "so_append ops c now uuid (change_events hash (changes hash (chat_log ops c s) (map sent_of msgs))
       (\<lambda>p. client_message_of workspace (msgs ! p))) s1 = Some (es, s')"
    "inv s'" "chat_log ops c s' = chat_log ops c s @ es"
    unfolding request_events_def by metis
  then show ?thesis by (simp add: ingest_request_def s1(1) l)
qed

lemma ingest_shows:
  assumes "inv s" and "c \<in> chats" and "room c s" and "length msgs \<le> U64_MAX"
    and "\<forall>m\<in>set msgs. length (text_content (em_content m)) \<le> BLOB_BYTES \<and> length (em_role m) \<le> BLOB_BYTES"
    and "es = request_events sha hash workspace now uuid c msgs (chat_log ops c s)" and "Ball (set es) writable"
  shows "\<exists>s'. ingest_request ops hash workspace now uuid c msgs s = Some (es, s') \<and> inv s' \<and>
    (\<forall>p. case hm_get p (transcript (chat_log ops c s')) of
           Some l \<Rightarrow> p < length msgs \<and> same_message hash l (sent_of (msgs ! p))
         | None \<Rightarrow> length msgs \<le> p) \<and>
    changes hash (chat_log ops c s') (map sent_of msgs) = []"
proof -
  from ingest_logs [OF assms(1-3,6,7)] obtain s' where
    s': "ingest_request ops hash workspace now uuid c msgs s = Some (es, s')" "inv s'" "chat_log ops c s' = chat_log ops c s @ es" by blast
  note after = transcript_after [OF assms(4) refl assms(6) [unfolded request_events_def]]
  have shown: "case hm_get p (transcript (chat_log ops c s')) of
      Some l \<Rightarrow> p < length msgs \<and> same_message hash l (sent_of (msgs ! p)) | None \<Rightarrow> length msgs \<le> p" for p
  proof (cases "p < length msgs")
    case True
    with assms(5) have "length (text_content (em_content (msgs ! p))) \<le> BLOB_BYTES" "length (em_role (msgs ! p)) \<le> BLOB_BYTES"
      by (simp_all add: nth_mem)
    with after(1) [OF True] s'(3) True same_kept show ?thesis by fastforce
  next
    case False
    with after(2) [OF False] s'(3) show ?thesis by simp
  qed
  then have "changes hash (chat_log ops c s') (map sent_of msgs) = []"
  proof (intro no_changes)
    show "case hm_get p (transcript (chat_log ops c s')) of
        Some l \<Rightarrow> p < length (map sent_of msgs) \<and> same_message hash l (map sent_of msgs ! p)
      | None \<Rightarrow> length (map sent_of msgs) \<le> p" for p
      using shown [of p] by (auto split: option.splits)
  qed
  with s' shown show ?thesis by blast
qed

text \<open>The same for a message too long for the log.\<close>

lemma ingest_long:
  assumes "inv s" and "c \<in> chats" and "room c s" and "length msgs \<le> U64_MAX"
    and "p < length msgs" and "hm_get p (transcript (chat_log ops c s)) = None"
    and "BLOB_BYTES < length (text_content (em_content (msgs ! p)))" and "trim (text_content (em_content (msgs ! p))) \<noteq> []"
    and "es = request_events sha hash workspace now uuid c msgs (chat_log ops c s)" and "Ball (set es) writable"
  shows "\<exists>s' l. ingest_request ops hash workspace now uuid c msgs s = Some (es, s') \<and> inv s' \<and>
    hm_get p (transcript (chat_log ops c s')) = Some l \<and> lg_text l = [] \<and>
    Edited p (lg_event_id l) \<in> set (changes hash (chat_log ops c s') (map sent_of msgs))"
proof -
  from ingest_logs [OF assms(1-3,9,10)] obtain s' where
    s': "ingest_request ops hash workspace now uuid c msgs s = Some (es, s')" "inv s'" "chat_log ops c s' = chat_log ops c s @ es" by blast
  from transcript_after(1) [OF assms(4) refl assms(9) [unfolded request_events_def] assms(5)] assms(6,7) s'(3)
  obtain l where l: "hm_get p (transcript (chat_log ops c s')) = Some l" "lg_text l = []" by (auto simp: kept_text_def)
  moreover have "\<not> same_message hash l (sent_of (msgs ! p))"
    using assms(8) l(2) by (simp add: same_message_def sent_of_def trim_def trim_start_def trim_end_def)
  ultimately have "change_of hash (chat_log ops c s') (map sent_of msgs) p = Some (Edited p (lg_event_id l))"
    using assms(5) by (simp add: change_of_def)
  from changed_message [OF this] s' l show ?thesis by blast
qed

end

section \<open>From the events and from the transcript\<close>

lemma slots_of_entries:
  "distinct (map fst xs) \<Longrightarrow> slot_at (foldl (\<lambda>slots (pos, m). put_slot pos (Some m) slots) ss xs) p =
     (case map_of xs p of Some m \<Rightarrow> Some m | None \<Rightarrow> slot_at ss p)"
proof (induction xs arbitrary: ss)
  case (Cons x xs)
  obtain a b where x: "x = (a, b)" by (cases x)
  with Cons.prems have "a = p \<Longrightarrow> map_of xs p = None" by (auto simp: map_of_eq_None_iff)
  with Cons x show ?case by (cases "a = p"; cases "map_of xs p") auto
qed simp

lemma slots_of_transcript:
  assumes "hm_ok m"
  shows "slot_at (foldl (\<lambda>slots (pos, l). put_slot pos (Some l) slots) [] (sort_key fst m)) p = hm_get p m"
proof -
  from assms have d: "distinct (map fst m)" by (simp add: hm_ok_def)
  then have d': "distinct (map fst (sort_key fst m))" by (simp add: distinct_map)
  have "map_of (sort_key fst m) = map_of m" by (rule map_of_inject_set [THEN iffD2, OF d' d]) simp
  with slots_of_entries [OF d', of "[]"] show ?thesis by (simp add: hm_get_def split: option.splits)
qed

text \<open>
  The changes of a request found straight from the events are those found from the transcript: gaps,
  edits, retractions and events of other kinds in the log make no difference.
\<close>

theorem changes_match_diff:
  "diff_messages hash (transcript events) messages =
     change_events hash (changes hash events (map (\<lambda>m. (cm_role m, cm_text m, cm_id m)) messages)) (\<lambda>pos. messages ! pos)"
  by (simp add: diff_messages_def changes_def Let_def slots_transcript slots_of_transcript
      compare_slots_cong [where a = "foldl slots_step [] events"
        and b = "foldl (\<lambda>slots (pos, m). put_slot pos (Some m) slots) [] (sort_key fst (transcript events))"])

section \<open>What a client's request leaves in the log\<close>


definition demo_message :: "string \<Rightarrow> external_message" where
  "demo_message t = \<lparr>em_role = ''User'', em_content = Text t, em_id = None, em_tool_calls = None, em_tool_call_id = None\<rparr>"


text \<open>
  A message longer than a line of the log holds is lost to the transcript. It is kept as a blob, and what reads the
  transcript takes the field for missing: the message is shown empty, to the engine mode that puts the
  logged transcript in front of a request as to everything else, and each further request of the client, which
  sends the same message, is found to edit it.
\<close>

theorem long_message_lost:
  assumes "mem_inv sha s" and "length msgs \<le> U64_MAX" and "p < length msgs" and "hm_get p (transcript (mem_events c s)) = None"
    and "BLOB_BYTES < length (text_content (em_content (msgs ! p)))" and "trim (text_content (em_content (msgs ! p))) \<noteq> []"
  shows "\<exists>es s' l. ingest_request (mem_ops sha json_bytes) hash workspace now uuid c msgs s = Some (es, s') \<and>
    hm_get p (transcript (mem_events c s')) = Some l \<and> lg_text l = [] \<and>
    Edited p (lg_event_id l) \<in> set (changes hash (mem_events c s') (map sent_of msgs))"
  using mem.ingest_long [where c = c and json_bytes = json_bytes and hash = hash and workspace = workspace and now = now and uuid = uuid,
    OF assms(1) UNIV_I TrueI assms(2,3) _ assms(5,6) refl] assms(4) unfolding mem_chat_log by blast

lemma long_message_lost_witness:
  "\<exists>es s' l. ingest_request (mem_ops (\<lambda>t. t) (\<lambda>_. 0)) (\<lambda>_ t. t) ''w'' ''now'' (\<lambda>_. ''1'') ''c'' [demo_message (replicate 8193 CHR ''a'')] mem_new = Some (es, s') \<and>
     hm_get 0 (transcript (mem_events ''c'' s')) = Some l \<and> lg_text l = []"
proof -
  have "mem_inv (\<lambda>t. t) mem_new" by (simp add: mem_inv_def mem_new_def mem_events_def)
  moreover have "trim (replicate n CHR ''a'') = replicate n CHR ''a''" for n
  proof -
    have "dropWhile is_ws (replicate n CHR ''a'') = replicate n CHR ''a''" by (cases n) (simp_all add: is_ws_def)
    then show ?thesis by (simp add: trim_def trim_start_def trim_end_def)
  qed
  ultimately show ?thesis
    using long_message_lost [of "\<lambda>t. t" mem_new "[demo_message (replicate 8193 CHR ''a'')]" 0 "''c''" "\<lambda>_. 0" "\<lambda>_ t. t"]
    by (fastforce simp: U64_MAX_def demo_message_def BLOB_BYTES_def mem_new_def mem_events_def transcript_def)
qed

end
