(* ===== verification/Turn_Log.thy ===== *)
theory Turn_Log
  imports Transcript Tool_Turns
begin

text \<open>
  What the log keeps of a turn: \<open>ingest_turn\<close> of api/src/handlers/chat/ingest_events.rs and \<open>unindexed_turns\<close> of
  agents/src/memory/transcript.rs, the turns whose answer has no card yet.
\<close>

definition opt_json :: "json option \<Rightarrow> json" where
  "opt_json v = (case v of Some v \<Rightarrow> v | None \<Rightarrow> JNull)"

definition tool_event_logged :: "json \<Rightarrow> new_event" where
  "tool_event_logged event =
     (if Option.bind (member_of ''op'' event) json_str = Some ''approval'' then new_event_of ''approval'' event
      else new_event_of ''context_edit''
        (JObj [(''op'', opt_json (member_of ''op'' event)), (''target'', opt_json (member_of ''target'' event)),
               (''ok'', opt_json (member_of ''ok'' event))]))"

definition step_events :: "(string \<Rightarrow> json option) \<Rightarrow> (json \<Rightarrow> string) \<Rightarrow> nat \<times> recorded_step \<Rightarrow> new_event list" where
  "step_events parse print ist =
     (case ist of (index, st) \<Rightarrow>
        let call = redact_call parse print (rs_call st);
            files = (case Option.bind (call_json parse (rs_call st)) (member_of ''arguments'') of
                       Some args \<Rightarrow> files_touched parse args | None \<Rightarrow> [])
        in [new_event_of ''tool_call''
              (JObj [(''step'', json_nat index), (''tool'', JStr (rs_name st)), (''call'', JStr call), (''files'', JArr (map JStr files))]),
            new_event_of ''tool_result''
              (JObj [(''step'', json_nat index), (''tool'', JStr (rs_name st)), (''result'', JStr (rs_result st))])])"

text \<open>The events in front of the answer.\<close>

definition turn_notes ::
  "(string \<Rightarrow> json option) \<Rightarrow> (json \<Rightarrow> string) \<Rightarrow> recorded_step list \<Rightarrow> json list \<Rightarrow> json option \<Rightarrow> new_event list" where
  "turn_notes parse print steps tool_events compaction =
     (case compaction of
        Some c \<Rightarrow> if c = JNull then [] else [new_event_of ''context_edit'' (JObj [(''op'', JStr ''compaction''), (''detail'', c)])]
      | None \<Rightarrow> []) @
     map tool_event_logged tool_events @
     concat (map (step_events parse print) (enumerate 0 steps))"

definition turn_events ::
  "(string \<Rightarrow> json option) \<Rightarrow> (json \<Rightarrow> string) \<Rightarrow> (string \<Rightarrow> string \<Rightarrow> string) \<Rightarrow> recorded_step list \<Rightarrow> json list \<Rightarrow> json option \<Rightarrow> string
     \<Rightarrow> nat \<Rightarrow> new_event list" where
  "turn_events parse print hash steps tool_events compaction answer answer_pos =
     turn_notes parse print steps tool_events compaction @ [answer_event hash answer answer_pos]"

definition ingest_turn ::
  "'s store_ops \<Rightarrow> (string \<Rightarrow> json option) \<Rightarrow> (json \<Rightarrow> string) \<Rightarrow> (string \<Rightarrow> string \<Rightarrow> string) \<Rightarrow> string \<Rightarrow> (nat \<Rightarrow> string) \<Rightarrow> string
     \<Rightarrow> recorded_step list \<Rightarrow> json list \<Rightarrow> json option \<Rightarrow> string \<Rightarrow> nat \<Rightarrow> 's \<Rightarrow> (event list \<times> 's) option" where
  "ingest_turn ops parse print hash now uuid chat steps tool_events compaction answer answer_pos s =
     map_option (\<lambda>(written, s1). (written, so_sync ops chat s1))
       (so_append ops chat now uuid (turn_events parse print hash steps tool_events compaction answer answer_pos) s)"

record unindexed =
  un_user_pos :: nat
  un_answer_pos :: nat
  un_user :: string
  un_answer :: string

definition carded :: "event list \<Rightarrow> nat set" where
  "carded events =
     set (List.map_filter (\<lambda>e. Option.bind (obj_get ''answer_pos'' (ev_data e)) json_u64)
       (filter (\<lambda>e. ev_kind e = ''card_enrichment'' \<or> ev_kind e = ''card_enrichment_failed'') events))"

definition engine_answers :: "event list \<Rightarrow> string set" where
  "engine_answers events = set (map ev_id (filter (\<lambda>e. ev_kind e = ''message'' \<and> event_str ''source'' e = Some ''engine'') events))"

definition unindexed_turns :: "event list \<Rightarrow> unindexed list" where
  "unindexed_turns events =
     (let slots = transcript events in
      List.map_filter (\<lambda>(pos, answer).
        if pos = 0 then None
        else Option.bind (hm_get (pos - 1) slots) (\<lambda>user.
          if lg_role user = ''user''
          then Some \<lparr>un_user_pos = pos - 1, un_answer_pos = pos, un_user = lg_text user, un_answer = lg_text answer\<rparr>
          else None))
        (filter (\<lambda>(_, answer). trim (lg_text answer) \<noteq> [])
          (filter (\<lambda>(pos, answer). lg_role answer = ''assistant'' \<and> lg_event_id answer \<in> engine_answers events \<and> pos \<notin> carded events)
            (sort_key fst slots))))"

section \<open>What of a turn is in the log\<close>

lemma not_shown_kinds:
  "ev_kind e \<notin> {''message'', ''message.edited'', ''message.retracted''} \<Longrightarrow> transcript_step t e = t"
  by (auto simp: transcript_step_def split: option.split)

lemma turn_notes_kinds:
  "e \<in> set (turn_notes parse print steps tool_events compaction) \<Longrightarrow>
     ne_kind e \<in> {''context_edit'', ''approval'', ''tool_call'', ''tool_result''}"
  by (auto simp: turn_notes_def tool_event_logged_def step_events_def new_event_of_def Let_def split: option.splits if_splits)

text \<open>Every call of the turn is logged, redacted, before its result.\<close>

lemma calls_redacted:
  assumes "i < length steps"
  shows "\<exists>before call result after. turn_events parse print hash steps tool_events compaction answer pos = before @ [call, result] @ after \<and>
    ne_kind call = ''tool_call'' \<and> obj_get ''call'' (ne_data call) = Some (JStr (redact_call parse print (rs_call (steps ! i)))) \<and>
    ne_kind result = ''tool_result'' \<and> obj_get ''result'' (ne_data result) = Some (JStr (rs_result (steps ! i)))"
proof -
  have "enumerate 0 steps = take i (enumerate 0 steps) @ (i, steps ! i) # drop (Suc i) (enumerate 0 steps)"
    using assms by (metis id_take_nth_drop length_enumerate nth_enumerate_eq add.left_neutral)
  then obtain a b where "concat (map (step_events parse print) (enumerate 0 steps)) = a @ step_events parse print (i, steps ! i) @ b"
    by (metis concat.simps(2) concat_append list.simps(9) map_append)
  then show ?thesis
    unfolding turn_events_def turn_notes_def
    by (intro exI [of _ "(case compaction of
        Some c \<Rightarrow> if c = JNull then [] else [new_event_of ''context_edit'' (JObj [(''op'', JStr ''compaction''), (''detail'', c)])]
      | None \<Rightarrow> []) @ map tool_event_logged tool_events @ a"] exI [of _ "b @ [answer_event hash answer pos]"] exI)
      (auto simp: step_events_def Let_def new_event_of_def obj_get_def)
qed

lemma not_in_turn:
  assumes "e \<in> set (logged_as sha c now uuid n news)" and "\<And>m. m \<in> set news \<Longrightarrow> P (ne_kind m)"
  shows "P (ev_kind e)"
  using assms by (induction news arbitrary: n) (auto simp: logged_event_def)

lemma foldl_transcript_idle: "(\<And>e. e \<in> set es \<Longrightarrow> transcript_step t e = t) \<Longrightarrow> foldl transcript_step t es = t"
  by (induction es) auto

lemma logged_as_append: "logged_as sha c now uuid n (a @ b) = logged_as sha c now uuid n a @ logged_as sha c now uuid (n + length a) b"
  by (induction a arbitrary: n) auto

text \<open>After a turn the transcript shows its answer behind what it showed before.\<close>

lemma transcript_after_turn:
  assumes "pos \<le> U64_MAX"
    and "es = logged_as sha c now uuid n (turn_events parse print hash steps tool_events compaction answer pos)"
  shows "\<exists>l. hm_get p (transcript (events @ es)) = (if p = pos then Some l else hm_get p (transcript events)) \<and>
    lg_text l = kept_text answer \<and> lg_role l = ''assistant'' \<and> lg_event_id l = ev_id (last es) \<and>
    ev_kind (last es) = ''message'' \<and> event_str ''source'' (last es) = Some ''engine''"
proof -
  let ?news = "turn_notes parse print steps tool_events compaction"
  let ?front = "logged_as sha c now uuid n ?news"
  let ?m = "n + length ?news"
  let ?e = "logged_event c now (uuid ?m) ?m (answer_event hash answer pos) (logged_data sha (ne_data (answer_event hash answer pos)))"
  have es: "es = ?front @ [?e]" by (simp add: assms(2) turn_events_def logged_as_append)
  have "transcript_step t e = t" if "e \<in> set ?front" for e t
  proof -
    have "ev_kind e \<in> {''context_edit'', ''approval'', ''tool_call'', ''tool_result''}"
      using that by (rule not_in_turn) (rule turn_notes_kinds)
    then show ?thesis by (intro not_shown_kinds) auto
  qed
  then have "transcript (events @ es) = transcript_step (transcript events) ?e"
    by (simp add: es transcript_append foldl_transcript_idle)
  moreover have "event_pos ?e = Some pos" "ev_kind ?e = ''message''" "lg_text (logged_of ?e) = kept_text answer"
    "lg_role (logged_of ?e) = ''assistant''" "lg_event_id (logged_of ?e) = ev_id ?e" "event_str ''source'' ?e = Some ''engine''"
    using assms(1)
    by (simp_all add: event_pos_def logged_event_def answer_event_def new_event_of_def obj_get_def logged_data_def RESERVED_def
        logged_of_def event_field_def event_str_def kept_text_def json_nat_def as_u64_def BLOB_BYTES_def logged_field_def)
  ultimately show ?thesis
    by (intro exI [of _ "logged_of ?e"]) (simp add: transcript_step_get es)
qed

section \<open>The turns without a card\<close>

lemma unindexed_iff:
  "t \<in> set (unindexed_turns events) \<longleftrightarrow>
     (\<exists>pos answer user. hm_get pos (transcript events) = Some answer \<and> 0 < pos \<and>
        lg_role answer = ''assistant'' \<and> lg_event_id answer \<in> engine_answers events \<and> pos \<notin> carded events \<and>
        trim (lg_text answer) \<noteq> [] \<and> hm_get (pos - 1) (transcript events) = Some user \<and> lg_role user = ''user'' \<and>
        t = \<lparr>un_user_pos = pos - 1, un_answer_pos = pos, un_user = lg_text user, un_answer = lg_text answer\<rparr>)"
  (is "_ \<longleftrightarrow> (\<exists>pos answer user. ?found pos answer user)")
proof
  assume "t \<in> set (unindexed_turns events)"
  then obtain pos answer where "(pos, answer) \<in> set (transcript events)" "lg_role answer = ''assistant''"
    "lg_event_id answer \<in> engine_answers events" "pos \<notin> carded events" "trim (lg_text answer) \<noteq> []"
    and t: "(if pos = 0 then None
        else Option.bind (hm_get (pos - 1) (transcript events)) (\<lambda>user.
          if lg_role user = ''user''
          then Some \<lparr>un_user_pos = pos - 1, un_answer_pos = pos, un_user = lg_text user, un_answer = lg_text answer\<rparr>
          else None)) = Some t"
    by (auto simp: unindexed_turns_def Let_def in_map_filter)
  moreover from t obtain user where "hm_get (pos - 1) (transcript events) = Some user" "lg_role user = ''user''" "0 < pos"
    "t = \<lparr>un_user_pos = pos - 1, un_answer_pos = pos, un_user = lg_text user, un_answer = lg_text answer\<rparr>"
    by (auto simp: bind_eq_Some_conv split: if_splits)
  ultimately show "\<exists>pos answer user. ?found pos answer user" unfolding hm_get_in_set [OF hm_ok_transcript] by blast
next
  assume "\<exists>pos answer user. ?found pos answer user"
  then obtain pos answer user where "?found pos answer user" by blast
  then show "t \<in> set (unindexed_turns events)"
    unfolding unindexed_turns_def Let_def in_map_filter by (intro bexI [of _ "(pos, answer)"]) (auto dest: hm_get_set)
qed

lemma carded_append: "carded (a @ b) = carded a \<union> carded b"
  by (simp add: carded_def)

lemma engine_answers_append: "engine_answers (a @ b) = engine_answers a \<union> engine_answers b"
  by (simp add: engine_answers_def)

text \<open>An event with the card of an answer, or with the failure to make one.\<close>

definition closes_job :: "nat \<Rightarrow> event \<Rightarrow> bool" where
  "closes_job pos e \<longleftrightarrow>
     (ev_kind e = ''card_enrichment'' \<or> ev_kind e = ''card_enrichment_failed'') \<and>
     Option.bind (obj_get ''answer_pos'' (ev_data e)) json_u64 = Some pos"

lemma carded_iff: "pos \<in> carded events \<longleftrightarrow> (\<exists>e\<in>set events. closes_job pos e)"
  by (auto simp: carded_def in_map_filter closes_job_def)

lemma transcript_later: "\<forall>e\<in>set es. event_pos e \<noteq> Some p \<Longrightarrow> hm_get p (foldl transcript_step t es) = hm_get p t"
  by (induction es arbitrary: t) (simp_all add: transcript_step_get)

text \<open>
  The log is its own job list: a turn the Engine answered is found as one without a card from its answer on until
  an event holds its card or says that none could be made, through whatever else is logged as
  long as its two messages are not edited or taken back, and never again afterwards. Only an answer that
  is empty or too long for the log is never found.
\<close>

theorem turn_waits_for_its_card:
  assumes "0 < pos" and "pos \<le> U64_MAX"
    and "es = logged_as sha c now uuid n (turn_events parse print hash steps tool_events compaction answer pos)"
    and "hm_get (pos - 1) (transcript before) = Some user" and "lg_role user = ''user''"
    and "\<forall>e\<in>set later. event_pos e \<notin> {Some (pos - 1), Some pos}"
  shows "\<lparr>un_user_pos = pos - 1, un_answer_pos = pos, un_user = lg_text user, un_answer = answer\<rparr> \<in> set (unindexed_turns (before @ es @ later)) \<longleftrightarrow>
    trim answer \<noteq> [] \<and> length answer \<le> BLOB_BYTES \<and> \<not> (\<exists>e\<in>set (before @ es @ later). closes_job pos e)"
proof -
  from transcript_after_turn [OF assms(2,3), of _ before] obtain l where
    l: "hm_get pos (transcript (before @ es)) = Some l" "lg_text l = kept_text answer" "lg_role l = ''assistant''"
      "lg_event_id l = ev_id (last es)" "ev_kind (last es) = ''message''" "event_str ''source'' (last es) = Some ''engine''" by metis
  from transcript_after_turn [OF assms(2,3), of "pos - 1" before] assms(1,4)
  have "hm_get (pos - 1) (transcript (before @ es)) = Some user" by auto
  with l(1) have shown: "hm_get pos (transcript (before @ es @ later)) = Some l" "hm_get (pos - 1) (transcript (before @ es @ later)) = Some user"
    using assms(6) transcript_append [of "before @ es" later] by (auto simp: transcript_later)
  have "es \<noteq> []" by (simp add: assms(3) turn_events_def)
  then have "lg_event_id l \<in> engine_answers (before @ es @ later)"
    using l(4-6) last_in_set by (fastforce simp: engine_answers_def)
  note here = this
  have kept: "trim (lg_text l) \<noteq> [] \<longleftrightarrow> trim answer \<noteq> [] \<and> length answer \<le> BLOB_BYTES"
    by (simp add: l(2) kept_text_def trim_def trim_start_def trim_end_def)
  show ?thesis (is "?t \<in> _ \<longleftrightarrow> ?cond")
  proof
    assume "?t \<in> set (unindexed_turns (before @ es @ later))"
    with shown kept show ?cond by (auto simp: unindexed_iff carded_iff)
  next
    assume cond: ?cond
    then have "lg_text l = answer" by (simp add: l(2) kept_text_def)
    with cond shown kept here l(3) assms(1,5) show "?t \<in> set (unindexed_turns (before @ es @ later))"
      unfolding unindexed_iff by (intro exI [of _ pos] exI [of _ l] exI [of _ user]) (auto simp: carded_iff)
  qed
qed

text \<open>
  Once an answer at a position has a card, no later answer there is ever found without one: after the user edits a
  message or asks for another answer, the new turn keeps the card of the one it replaced, unless a new
  card happens to be made in the idle time right after it.
\<close>

theorem replaced_turn_never_found:
  assumes "e \<in> set before" and "closes_job pos e"
  shows "\<forall>t\<in>set (unindexed_turns (before @ later)). un_answer_pos t \<noteq> pos"
proof
  fix t assume "t \<in> set (unindexed_turns (before @ later))"
  moreover have "pos \<in> carded (before @ later)" using assms by (auto simp: carded_iff)
  ultimately show "un_answer_pos t \<noteq> pos" by (auto simp: unindexed_iff)
qed

definition demo_question :: event where
  "demo_question =
     \<lparr>ev_v = 1, ev_id = ''q'', ev_chat = ''c'', ev_seq = 1, ev_ts = ''now'', ev_kind = ''message'',
      ev_data = [(''role'', JStr ''user''), (''text'', JStr ''hi''), (''pos'', json_nat 0)]\<rparr>"

definition demo_turn :: "event list" where
  "demo_turn = logged_as (\<lambda>t. t) ''c'' ''now'' (\<lambda>_. ''1'') 2 (turn_events (\<lambda>_. None) (\<lambda>_. []) (\<lambda>_ t. t) [] [] None ''hello'' 1)"

definition demo_card :: event where
  "demo_card =
     \<lparr>ev_v = 1, ev_id = ''k'', ev_chat = ''c'', ev_seq = 3, ev_ts = ''now'', ev_kind = ''card_enrichment'',
      ev_data = [(''answer_pos'', json_nat 1)]\<rparr>"

lemma demo_question_shown: "hm_get 0 (transcript [demo_question]) = Some (logged_of demo_question)" "lg_role (logged_of demo_question) = ''user''"
  by (simp_all add: transcript_def transcript_step_def demo_question_def event_pos_def obj_get_def logged_of_def event_field_def
      event_str_def U64_MAX_def)

lemma turn_waits_for_its_card_witness:
  "\<exists>t\<in>set (unindexed_turns ([demo_question] @ demo_turn @ [])). un_answer_pos t = 1 \<and> un_answer t = ''hello''"
proof -
  have "\<not> (\<exists>e\<in>set ([demo_question] @ demo_turn @ []). closes_job 1 e)"
    by (simp add: closes_job_def demo_question_def demo_turn_def turn_events_def turn_notes_def logged_event_def answer_event_def new_event_of_def)
  moreover have "trim ''hello'' \<noteq> []" by (simp add: trim_def trim_start_def trim_end_def is_ws_def)
  ultimately have "\<lparr>un_user_pos = 1 - 1, un_answer_pos = 1, un_user = lg_text (logged_of demo_question), un_answer = ''hello''\<rparr>
      \<in> set (unindexed_turns ([demo_question] @ demo_turn @ []))"
    using turn_waits_for_its_card [OF _ _ demo_turn_def _ demo_question_shown(2), of "[demo_question]" "[]"] demo_question_shown(1)
    by (simp add: U64_MAX_def BLOB_BYTES_def)
  then show ?thesis by force
qed

lemma replaced_turn_never_found_witness:
  "\<forall>t\<in>set (unindexed_turns ([demo_question, demo_card] @ demo_turn)). un_answer_pos t \<noteq> 1"
  using replaced_turn_never_found [of demo_card "[demo_question, demo_card]" 1 demo_turn]
  by (simp add: closes_job_def demo_card_def obj_get_def U64_MAX_def)

end
