(* ===== verification/Agent_Rules.thy ===== *)
theory Agent_Rules
  imports Line_Diff Json
begin

text \<open>
  cmd/src/agent/rules.rs: the rules of the terminal agent, \<open>tool\<close> or \<open>tool(pattern)\<close>, from its settings files
  and flags; what they say of a call; the rule \<open>always allow\<close> saves. A path is its text with slashes;
  \<open>display\<close> is how a path is shown, and reading a file and parsing the settings are parameters.
\<close>

text \<open>\<open>Mode\<close> of cmd/src/agent/tools.rs.\<close>

datatype agent_mode = Ask_Mode | Accept_Edits | Plan_Mode | Full_Mode

record project =
  pj_mode :: "agent_mode option"
  pj_allow :: "string list"
  pj_deny :: "string list"

record layer =
  ly_label :: string
  ly_settings :: project

record agent_settings =
  st_layers :: "layer list"
  st_problems :: "string list"
  st_places :: "(string \<times> string) list"

record rule =
  ru_tool :: string
  ru_pattern :: "string option"
  ru_source :: string

record rules =
  rl_allowed :: "rule list"
  rl_denied :: "rule list"
  rl_root :: string

datatype verdict = Allowed | Denied string | Asks

definition linefeed_char :: char where "linefeed_char = CHR 0x0A"

section \<open>Patterns\<close>

text \<open>The loop of \<open>glob\<close> after the first part; the last part has to be the end of the text.\<close>

fun glob_rest :: "string list \<Rightarrow> string \<Rightarrow> bool" where
  "glob_rest [] rest = True"
| "glob_rest [part] rest = suffix part rest"
| "glob_rest (part # q # parts) rest =
     (case find_sub part rest of Some at \<Rightarrow> glob_rest (q # parts) (drop (at + length part) rest) | None \<Rightarrow> False)"

definition glob :: "string \<Rightarrow> string \<Rightarrow> bool" where
  "glob pattern t =
     (case split_on (\<lambda>c. c = CHR ''*'') pattern of
        [] \<Rightarrow> True
      | [_] \<Rightarrow> pattern = t
      | first # parts \<Rightarrow> (case strip_prefix first t of Some rest \<Rightarrow> glob_rest parts rest | None \<Rightarrow> False))"

section \<open>Rules as text\<close>

definition parse_one :: "string \<Rightarrow> string \<Rightarrow> rule" where
  "parse_one t source =
     (let t = trim t in
      case split_once (CHR ''('') t of
        Some (tool, rest) \<Rightarrow>
          \<lparr>ru_tool = trim tool,
           ru_pattern = Some (trim (case strip_suffix '')'' rest of Some x \<Rightarrow> x | None \<Rightarrow> rest)),
           ru_source = source\<rparr>
      | None \<Rightarrow> \<lparr>ru_tool = t, ru_pattern = None, ru_source = source\<rparr>)"

text \<open>The loop over the characters of a list, with a comma after the last.\<close>

fun parse_list :: "string \<Rightarrow> int \<Rightarrow> string \<Rightarrow> string \<Rightarrow> rule list" where
  "parse_list source depth item [] = []"
| "parse_list source depth item (c # cs) =
     (if c = CHR '','' \<and> depth = 0
      then (let t = trim item in if t \<noteq> [] then [parse_one t source] else []) @ parse_list source depth [] cs
      else parse_list source
             (if c = CHR ''('' then depth + 1 else if c = CHR '')'' then depth - 1 else depth)
             (item @ [c]) cs)"

definition parse_rules :: "string \<Rightarrow> string \<Rightarrow> rule list" where
  "parse_rules lst source = parse_list source 0 [] (lst @ '','')"

definition show_rule :: "rule \<Rightarrow> string" where
  "show_rule r = (case ru_pattern r of Some p \<Rightarrow> ru_tool r @ ''('' @ p @ '')'' | None \<Rightarrow> ru_tool r)"

definition rule_matches :: "rule \<Rightarrow> string \<Rightarrow> string \<Rightarrow> bool" where
  "rule_matches r tool target \<longleftrightarrow>
     ru_tool r = tool \<and> (case ru_pattern r of None \<Rightarrow> True | Some p \<Rightarrow> glob p target)"

section \<open>The rules in use\<close>

definition slashes :: "string \<Rightarrow> string" where
  "slashes s = map (\<lambda>c. if c = CHR 0x5C then CHR ''/'' else c) s"

definition rules_new :: "(string \<Rightarrow> string) \<Rightarrow> string \<Rightarrow> rules" where
  "rules_new display root =
     \<lparr>rl_allowed = [], rl_denied = [],
      rl_root = rev (dropWhile (\<lambda>c. c = CHR ''/'') (rev (slashes (display root)))) @ ''/''\<rparr>"

definition add_rules :: "string \<Rightarrow> string list \<Rightarrow> string list \<Rightarrow> rules \<Rightarrow> rules" where
  "add_rules source allowed denied rl =
     (let parsed = (\<lambda>rs. map (\<lambda>r. parse_one r source) (filter (\<lambda>r. trim r \<noteq> []) rs))
      in rl\<lparr>rl_allowed := rl_allowed rl @ parsed allowed, rl_denied := rl_denied rl @ parsed denied\<rparr>)"

definition add_flags :: "string \<Rightarrow> string list \<Rightarrow> string list \<Rightarrow> rules \<Rightarrow> rules" where
  "add_flags source allowed denied rl =
     (let parsed = (\<lambda>ls. concat (map (\<lambda>l. parse_rules l source) ls))
      in rl\<lparr>rl_allowed := rl_allowed rl @ parsed allowed, rl_denied := rl_denied rl @ parsed denied\<rparr>)"

definition show_rules :: "rules \<Rightarrow> string" where
  "show_rules rl =
     join [linefeed_char]
       (concat (map (\<lambda>(title, rs).
          if rs = [] then [] else title # map (\<lambda>r. ''  '' @ show_rule r @ ''  ['' @ ru_source r @ '']'') rs)
        [(''Allowed without asking:'', rl_allowed rl), (''Always refused:'', rl_denied rl)]))"

definition names_tool :: "string \<Rightarrow> rules \<Rightarrow> bool" where
  "names_tool tool rl = list_ex (\<lambda>r. ru_tool r = tool) (rl_allowed rl)"

definition first_line :: "string \<Rightarrow> string" where
  "first_line t = trim (case lines_of t of [] \<Rightarrow> [] | l # _ \<Rightarrow> l)"

definition target :: "string \<Rightarrow> string \<Rightarrow> string \<Rightarrow> string" where
  "target root tool what =
     (if tool = ''run_command''
      then (case rsplit_once linefeed_char what of
              Some (command, final) \<Rightarrow> if prefix ''in '' final then trim command else trim what
            | None \<Rightarrow> trim what)
      else if tool = ''write_file'' \<or> tool = ''edit_file''
      then (let path = slashes (case split_once (CHR '' '') (first_line what) of Some (_, path) \<Rightarrow> path | None \<Rightarrow> first_line what)
            in case strip_prefix root path of Some p \<Rightarrow> p | None \<Rightarrow> path)
      else first_line what)"

text \<open>The commands chained in a command, for the deny rules, and the mark of one that does more than one thing.\<close>

definition chain_char :: "char \<Rightarrow> bool" where
  "chain_char c \<longleftrightarrow> c \<in> {linefeed_char, CHR '';'', CHR ''|'', CHR ''&''}"

definition call_parts :: "string \<Rightarrow> string \<Rightarrow> string list" where
  "call_parts tool t =
     t # (if tool = ''run_command'' then filter (\<lambda>p. p \<noteq> []) (map trim (split_on chain_char t)) else [])"

definition chained :: "string \<Rightarrow> bool" where
  "chained command \<longleftrightarrow>
     list_ex (\<lambda>c. c \<in> {linefeed_char, CHR '';'', CHR ''|'', CHR ''&'', CHR ''>'', CHR ''<'', CHR 0x60}) command \<or> contains command ''$(''"

definition refusal_text :: "rule \<Rightarrow> string" where
  "refusal_text r = ''refused by the rule '' @ show_rule r @ '' in '' @ ru_source r"

definition check_call :: "string \<Rightarrow> string \<Rightarrow> rules \<Rightarrow> verdict" where
  "check_call tool what rl =
     (let t = target (rl_root rl) tool what in
      case find (\<lambda>r. list_ex (rule_matches r tool) (call_parts tool t)) (rl_denied rl) of
        Some r \<Rightarrow> Denied (refusal_text r)
      | None \<Rightarrow>
          if tool = ''run_command'' \<and> chained t then Asks
          else if list_ex (\<lambda>r. rule_matches r tool t) (rl_allowed rl) then Allowed
          else Asks)"

definition split_whitespace :: "string \<Rightarrow> string list" where
  "split_whitespace s = filter (\<lambda>w. w \<noteq> []) (split_on is_ws s)"

definition is_alpha :: "char \<Rightarrow> bool" where
  "is_alpha c \<longleftrightarrow> (65 \<le> (of_char c :: nat) \<and> (of_char c :: nat) \<le> 90) \<or> (97 \<le> (of_char c :: nat) \<and> (of_char c :: nat) \<le> 122)"

definition sub_command_word :: "string \<Rightarrow> bool" where
  "sub_command_word w \<longleftrightarrow>
     (case w of [] \<Rightarrow> False | c # _ \<Rightarrow> is_alpha c) \<and>
     list_all (\<lambda>c. is_alpha c \<or> is_digit c \<or> c = CHR ''-'' \<or> c = CHR ''_'') w"

definition suggest :: "string \<Rightarrow> string \<Rightarrow> rules \<Rightarrow> string option" where
  "suggest tool what rl =
     (let t = target (rl_root rl) tool what in
      if t = [] \<or> list_ex (\<lambda>c. c \<in> {CHR ''('', CHR '')'', CHR ''*''}) t then None
      else if tool \<noteq> ''run_command'' then Some (tool @ ''('' @ t @ '')'')
      else if chained t then None
      else (case split_whitespace t of
              w # v # _ \<Rightarrow> if sub_command_word v then Some (''run_command('' @ w @ '' '' @ v @ ''*)'') else Some (''run_command('' @ t @ '')'')
            | _ \<Rightarrow> Some (''run_command('' @ t @ '')'')))"

definition allow_rule :: "string \<Rightarrow> string \<Rightarrow> rules \<Rightarrow> rules" where
  "allow_rule r source rl = rl\<lparr>rl_allowed := rl_allowed rl @ [parse_one r source]\<rparr>"

section \<open>The settings files\<close>

definition PROJECT_FILE :: string where "PROJECT_FILE = ''settings.json''"
definition LOCAL_FILE :: string where "LOCAL_FILE = ''settings.local.json''"

definition in_folder :: "string \<Rightarrow> string \<Rightarrow> string" where
  "in_folder dir name = dir @ ''/'' @ name"

text \<open>The files in the order they are read: path, label, and where a file of the first version moved to.\<close>

definition settings_files :: "string option \<Rightarrow> string \<Rightarrow> string \<Rightarrow> (string \<times> string \<times> string option) list" where
  "settings_files home dir agents =
     (case home of
        Some h \<Rightarrow> [(in_folder (in_folder h ''config'') ''agent.json'', ''~/.cluaiz/config/agent.json'', None)]
      | None \<Rightarrow> []) @
     map (\<lambda>(old, new). (in_folder (in_folder dir ''.cluaiz'') old, ''.cluaiz/'' @ old, Some (in_folder agents new)))
       [(''agent.json'', PROJECT_FILE), (''agent.local.json'', LOCAL_FILE)] @
     map (\<lambda>name. (in_folder agents name, ''.agents/'' @ name, None)) [PROJECT_FILE, LOCAL_FILE]"

definition global_mode_problem :: "string \<Rightarrow> string" where
  "global_mode_problem path =
     [CHR 0x22] @ ''mode'' @ [CHR 0x22] @ '' in '' @ path @
     '' is not used: the mode for every folder is the App'' @ [CHR 0x27] @ ''s security mode (/mode); its rules are used''"

definition load_layer ::
  "(string \<Rightarrow> string option) \<Rightarrow> (string \<Rightarrow> string + project) \<Rightarrow> (string \<Rightarrow> string) \<Rightarrow> bool \<Rightarrow>
   agent_settings \<Rightarrow> nat \<times> string \<times> string \<times> string option \<Rightarrow> agent_settings" where
  "load_layer read parse display has_home st f =
     (case f of (index, path, label, moved) \<Rightarrow>
        case read path of
          None \<Rightarrow> st
        | Some content \<Rightarrow>
            (let st = (case moved of
                         Some new \<Rightarrow> st\<lparr>st_problems := st_problems st @
                           [display path @ '' is read from its old place; move it to '' @ display new]\<rparr>
                       | None \<Rightarrow> st)
             in case parse content of
                  Inl e \<Rightarrow> st\<lparr>st_problems := st_problems st @ [display path @ '' is not used: '' @ e]\<rparr>
                | Inr pj \<Rightarrow>
                    (let global = (index = 0 \<and> has_home);
                         st = (if global \<and> pj_mode pj \<noteq> None
                               then st\<lparr>st_problems := st_problems st @ [global_mode_problem (display path)]\<rparr> else st);
                         pj = (if global then pj\<lparr>pj_mode := None\<rparr> else pj)
                     in st\<lparr>st_layers := st_layers st @ [\<lparr>ly_label = label, ly_settings = pj\<rparr>]\<rparr>)))"

definition load_settings ::
  "(string \<Rightarrow> string option) \<Rightarrow> (string \<Rightarrow> bool) \<Rightarrow> (string \<Rightarrow> string + project) \<Rightarrow> (string \<Rightarrow> string) \<Rightarrow>
   string option \<Rightarrow> string \<Rightarrow> string \<Rightarrow> agent_settings" where
  "load_settings read is_file parse display home dir agents =
     (let files = settings_files home dir agents;
          places = map (\<lambda>(path, label, _). (label, path)) (filter (\<lambda>(path, _, moved). moved = None \<or> is_file path) files)
      in foldl (load_layer read parse display (home \<noteq> None))
           \<lparr>st_layers = [], st_problems = [], st_places = places\<rparr> (enumerate 0 files))"

text \<open>The mode of the nearest file that sets one.\<close>

fun first_mode :: "layer list \<Rightarrow> agent_mode option" where
  "first_mode [] = None"
| "first_mode (l # ls) = (case pj_mode (ly_settings l) of Some m \<Rightarrow> Some m | None \<Rightarrow> first_mode ls)"

definition settings_mode :: "agent_settings \<Rightarrow> agent_mode option" where
  "settings_mode st = first_mode (rev (st_layers st))"

text \<open>How cmd/src/agent starts with the rules of every layer.\<close>

definition add_layers :: "agent_settings \<Rightarrow> rules \<Rightarrow> rules" where
  "add_layers st rl = foldl (\<lambda>rl l. add_rules (ly_label l) (pj_allow (ly_settings l)) (pj_deny (ly_settings l)) rl) rl (st_layers st)"

text \<open>
  \<open>save_allow\<close>: what the settings file holds afterwards, or why nothing was saved. Writing does not fail.
\<close>

definition opened :: "(string \<Rightarrow> string + json) \<Rightarrow> string option \<Rightarrow> string + json" where
  "opened parse content = (case content of Some t \<Rightarrow> parse t | None \<Rightarrow> Inr (JObj []))"

definition with_allowed :: "string \<Rightarrow> json list \<Rightarrow> (string \<times> json) list \<Rightarrow> json" where
  "with_allowed r items m =
     JObj (obj_insert ''allow'' (JArr (if list_ex (\<lambda>v. json_str v = Some r) items then items else items @ [JStr r])) m)"

definition save_allow ::
  "(string \<Rightarrow> string + json) \<Rightarrow> (json \<Rightarrow> string) \<Rightarrow> string \<Rightarrow> string option \<Rightarrow> string \<Rightarrow> string + string" where
  "save_allow parse pretty file content r =
     (case opened parse content of
        Inl e \<Rightarrow> Inl (file @ '' is not valid JSON ('' @ e @ ''); nothing was saved'')
      | Inr (JObj m) \<Rightarrow>
          (case (case obj_get ''allow'' m of Some v \<Rightarrow> v | None \<Rightarrow> JArr []) of
             JArr items \<Rightarrow> Inr (pretty (with_allowed r items m) @ [linefeed_char])
           | _ \<Rightarrow> Inl ([CHR 0x22] @ ''allow'' @ [CHR 0x22] @ '' in '' @ file @ '' is not a list; nothing was saved''))
      | Inr _ \<Rightarrow> Inl (file @ '' is not a JSON object; nothing was saved''))"

text \<open>\<open>keep_out_of_git\<close>: the text of \<open>.git/info/exclude\<close> with the line of the file.\<close>

definition git_exclude :: "string \<Rightarrow> string option \<Rightarrow> string" where
  "git_exclude line content =
     (let current = (case content of Some t \<Rightarrow> t | None \<Rightarrow> []) in
      if list_ex (\<lambda>l. trim l = line) (lines_of current) then current
      else (if current \<noteq> [] \<and> last current \<noteq> linefeed_char then current @ [linefeed_char] else current) @ line @ [linefeed_char])"

section \<open>A pattern matches what its stars can stand for\<close>

text \<open>The reference: a star stands for any text, every other character for itself.\<close>

fun wild :: "string \<Rightarrow> string \<Rightarrow> bool" where
  "wild [] t \<longleftrightarrow> t = []"
| "wild (c # p) t \<longleftrightarrow>
     (if c = CHR ''*'' then list_ex (\<lambda>k. wild p (drop k t)) [0..<Suc (length t)]
      else (case t of [] \<Rightarrow> False | d # t' \<Rightarrow> c = d \<and> wild p t'))"

text \<open>The parts after the first, each after some gap, up to the end of the text.\<close>

fun any_rest :: "string list \<Rightarrow> string \<Rightarrow> bool" where
  "any_rest [] t \<longleftrightarrow> t = []"
| "any_rest (p # ps) t \<longleftrightarrow> (\<exists>k\<le>length t. prefix p (drop k t) \<and> any_rest ps (drop (k + length p) t))"

lemma list_ex_upto: "list_ex P [0..<Suc n] \<longleftrightarrow> (\<exists>k\<le>n. P k)"
  by (auto simp: list_ex_iff less_Suc_eq_le simp del: upt_Suc)

lemma wild_split:
  "wild pattern t \<longleftrightarrow>
     (case split_on (\<lambda>c. c = CHR ''*'') pattern of
        [] \<Rightarrow> True
      | w # ws \<Rightarrow> prefix w t \<and> any_rest ws (drop (length w) t))"
proof (induction pattern arbitrary: t)
  case Nil
  then show ?case by simp
next
  case (Cons c p)
  obtain w ws where s: "split_on (\<lambda>c. c = CHR ''*'') p = w # ws"
    using split_on_not_Nil by (metis neq_Nil_conv)
  show ?case
  proof (cases "c = CHR ''*''")
    case True
    then show ?thesis
      using s by (simp add: Cons.IH list_ex_upto add.commute del: upt_Suc)
  next
    case False
    then show ?thesis
      using s by (cases t) (auto simp: Cons.IH)
  qed
qed

lemma any_rest_later: "any_rest (p # ps) (drop n t) \<Longrightarrow> m \<le> n \<Longrightarrow> any_rest (p # ps) (drop m t)"
proof -
  assume "any_rest (p # ps) (drop n t)" "m \<le> n"
  then obtain k where k: "k \<le> length t - n" "prefix p (drop (k + n) t)" "any_rest ps (drop (k + length p + n) t)"
    by (auto simp: add.commute add.left_commute)
  show ?thesis
  proof (cases "n \<le> length t")
    case True
    with k \<open>m \<le> n\<close> show ?thesis
      by (auto intro!: exI [of _ "k + n - m"] simp: add.commute add.left_commute)
  next
    case False
    with k have "p = []" "any_rest ps []" by auto
    then show ?thesis by (auto intro!: exI [of _ "length t - m"])
  qed
qed

lemma suffix_gap: "suffix p t \<longleftrightarrow> (\<exists>k\<le>length t. prefix p (drop k t) \<and> drop (k + length p) t = [])"
proof
  assume "suffix p t"
  then obtain a where "t = a @ p" by (auto simp: suffix_def)
  then show "\<exists>k\<le>length t. prefix p (drop k t) \<and> drop (k + length p) t = []"
    by (intro exI [of _ "length a"]) simp
next
  assume "\<exists>k\<le>length t. prefix p (drop k t) \<and> drop (k + length p) t = []"
  then obtain k b where k: "drop k t = p @ b" "drop (k + length p) t = []"
    by (auto simp: prefix_def)
  have "drop (k + length p) t = drop (length p) (drop k t)" by (simp add: add.commute)
  with k have "b = []" by simp
  with k have "drop k t = p" by simp
  then show "suffix p t" by (metis suffix_drop)
qed

lemma glob_rest_greedy: "ps \<noteq> [] \<Longrightarrow> glob_rest ps t \<longleftrightarrow> any_rest ps t"
proof (induction ps t rule: glob_rest.induct)
  case (1 t)
  then show ?case by simp
next
  case (2 p t)
  then show ?case by (simp add: suffix_gap)
next
  case (3 p q ps t)
  show ?case
  proof (cases "find_sub p t")
    case None
    have "\<not> prefix p (drop k t)" if "k \<le> length t" for k
      using None that unfolding find_sub_None by (metis append_take_drop_id prefix_def)
    with None show ?thesis by auto
  next
    case (Some i)
    from find_sub_Some [OF Some] have i: "i \<le> length t" "prefix p (drop i t)"
      by (metis add_leD1) (metis find_sub_Some [OF Some] add_leD1 append_eq_conv_conj drop_drop length_take min.absorb2 prefixI)
    have "i \<le> k" if "prefix p (drop k t)" for k
      using find_sub_first [OF Some, of k] that by force
    then have "any_rest (p # q # ps) t \<longleftrightarrow> any_rest (q # ps) (drop (i + length p) t)"
      using i any_rest_later [of q ps _ t "i + length p"] by (auto simp del: any_rest.simps(2) simp: any_rest.simps(2) [of p])
    with 3 Some show ?thesis by simp
  qed
qed

lemma glob_wild: "glob pattern t \<longleftrightarrow> wild pattern t"
proof -
  obtain w ws where s: "split_on (\<lambda>c. c = CHR ''*'') pattern = w # ws"
    using split_on_not_Nil by (metis neq_Nil_conv)
  have single: "w = pattern" if "ws = []"
    using s that by (induction pattern arbitrary: w) (auto split: if_splits list.splits)
  show ?thesis
  proof (cases ws)
    case Nil
    have "prefix w t \<and> drop (length w) t = [] \<longleftrightarrow> w = t" by (auto simp: prefix_def)
    with Nil single s show ?thesis by (simp add: glob_def wild_split)
  next
    case (Cons q ps)
    with s glob_rest_greedy [of "q # ps" "drop (length w) t"] show ?thesis
      by (simp add: glob_def wild_split strip_prefix_def del: any_rest.simps)
  qed
qed

text \<open>
  A pattern matches a text exactly when its stars can stand for some text each: the greedy search for the
  parts from left to right never misses a match and never finds a false one.
\<close>

theorem glob_is_wildcard: "glob pattern t \<longleftrightarrow> wild pattern t"
  by (rule glob_wild)

section \<open>What the rules let through\<close>

lemma wild_plain: "CHR ''*'' \<notin> set p \<Longrightarrow> wild p t \<longleftrightarrow> t = p"
  by (induction p arbitrary: t) (auto split: list.splits)

lemma wild_open_end: "CHR ''*'' \<notin> set p \<Longrightarrow> wild (p @ ''*'') t \<longleftrightarrow> prefix p t"
proof (induction p arbitrary: t)
  case Nil
  then show ?case by (auto simp: list_ex_upto simp del: upt_Suc)
next
  case (Cons c p)
  then show ?case by (cases t) auto
qed

lemma check_allowed_iff:
  "check_call tool what rl = Allowed \<longleftrightarrow>
     (\<forall>r\<in>set (rl_denied rl). \<forall>part\<in>set (call_parts tool (target (rl_root rl) tool what)). \<not> rule_matches r tool part) \<and>
     \<not> (tool = ''run_command'' \<and> chained (target (rl_root rl) tool what)) \<and>
     (\<exists>r\<in>set (rl_allowed rl). rule_matches r tool (target (rl_root rl) tool what))"
  by (auto simp: check_call_def Let_def list_ex_iff find_None_iff find_Some_iff split: option.splits if_splits)

lemma check_denied_iff:
  "(\<exists>reason. check_call tool what rl = Denied reason) \<longleftrightarrow>
     (\<exists>r\<in>set (rl_denied rl). \<exists>part\<in>set (call_parts tool (target (rl_root rl) tool what)). rule_matches r tool part)"
  by (auto simp: check_call_def Let_def list_ex_iff find_None_iff find_Some_iff split: option.splits if_splits)

lemma rule_matches_wild:
  "rule_matches r tool t \<longleftrightarrow> ru_tool r = tool \<and> (\<forall>p. ru_pattern r = Some p \<longrightarrow> wild p t)"
  by (auto simp: rule_matches_def glob_wild split: option.splits)

lemma plain_iff:
  "\<not> chained t \<longleftrightarrow> (\<forall>c\<in>set t. c \<notin> {linefeed_char, CHR '';'', CHR ''|'', CHR ''&'', CHR ''>'', CHR ''<'', CHR 0x60}) \<and> \<not> contains t ''$(''"
  by (auto simp: chained_def list_ex_iff)

lemma target_of_part: "t \<in> set (call_parts tool t)"
  by (simp add: call_parts_def)

text \<open>
  C18. What an allow rule lets run unasked: a call of a rule's tool that matches its pattern as the wildcard it
  is written as, that no deny rule matches; and a command is then a single one, with no command chained to it, redirected or
  run inside of it. Allow rules never overrule a deny rule.
\<close>

theorem allowed_call:
  assumes "check_call tool what rl = Allowed"
  shows "(\<exists>r\<in>set (rl_allowed rl). ru_tool r = tool \<and> (\<forall>p. ru_pattern r = Some p \<longrightarrow> wild p (target (rl_root rl) tool what))) \<and>
    (\<forall>r\<in>set (rl_denied rl). ru_tool r = tool \<longrightarrow> (\<exists>p. ru_pattern r = Some p \<and> \<not> wild p (target (rl_root rl) tool what))) \<and>
    (tool = ''run_command'' \<longrightarrow>
       (\<forall>c\<in>set (target (rl_root rl) tool what). c \<notin> {linefeed_char, CHR '';'', CHR ''|'', CHR ''&'', CHR ''>'', CHR ''<'', CHR 0x60}) \<and>
       \<not> contains (target (rl_root rl) tool what) ''$('')"
  using assms target_of_part unfolding check_allowed_iff rule_matches_wild plain_iff [symmetric] by blast

definition demo_rules :: rules where
  "demo_rules = add_rules ''.agents/settings.json'' [''run_command(git *)'', ''edit_file(src/*)''] [''run_command(git push*)'']
     (rules_new id ''/w'')"

lemma allowed_call_witness:
  "check_call ''run_command'' (''git status'' @ [linefeed_char] @ ''in /w'') demo_rules = Allowed \<and>
   \<not> contains (target ''/w/'' ''run_command'' (''git status'' @ [linefeed_char] @ ''in /w'')) ''$(''"
proof -
  have a: "check_call ''run_command'' (''git status'' @ [linefeed_char] @ ''in /w'') demo_rules = Allowed"
    by code_simp
  have "rl_root demo_rules = ''/w/''"
    by code_simp
  with a allowed_call [OF a] show ?thesis
    by simp
qed

section \<open>Always allow\<close>

lemma parse_shown_rule:
  assumes "CHR ''('' \<notin> set tool" and "trim tool = tool" and "trim p = p"
  shows "parse_one (tool @ ''('' @ p @ '')'') source = \<lparr>ru_tool = tool, ru_pattern = Some p, ru_source = source\<rparr>"
proof -
  have "\<not> is_ws (hd (tool @ ''('' @ p @ '')''))"
    using trim_fixed_hd [OF assms(2)] by (cases tool) (auto simp: is_ws_def)
  then have "trim (tool @ ''('' @ p @ '')'') = tool @ ''('' @ p @ '')''"
    by (intro trim_fixed) (auto simp: is_ws_def)
  moreover have "split_once (CHR ''('') (tool @ ''('' @ p @ '')'') = Some (tool, p @ '')'')"
    using assms(1) by (simp add: split_once_Some)
  ultimately show ?thesis
    using assms by (simp add: parse_one_def strip_suffix_def)
qed

lemma split_whitespace_words: "w \<in> set (split_whitespace t) \<Longrightarrow> w \<noteq> [] \<and> set w \<subseteq> set t \<and> (\<forall>c\<in>set w. \<not> is_ws c)"
proof -
  have "w \<in> set (split_on is_ws t) \<Longrightarrow> set w \<subseteq> set t \<and> (\<forall>c\<in>set w. \<not> is_ws c)" for w
    by (induction t arbitrary: w) (fastforce split: if_splits list.splits)+
  then show "w \<in> set (split_whitespace t) \<Longrightarrow> w \<noteq> [] \<and> set w \<subseteq> set t \<and> (\<forall>c\<in>set w. \<not> is_ws c)"
    by (auto simp: split_whitespace_def)
qed

text \<open>The pattern of the rule that is suggested for a target.\<close>

definition suggested_pattern :: "string \<Rightarrow> string \<Rightarrow> string" where
  "suggested_pattern tool t =
     (case split_whitespace t of
        w # v # _ \<Rightarrow> if tool = ''run_command'' \<and> sub_command_word v then w @ '' '' @ v @ ''*'' else t
      | _ \<Rightarrow> t)"

lemma suggested_rule:
  assumes s: "suggest tool what rl = Some r"
    and tool: "CHR ''('' \<notin> set tool" "trim tool = tool"
    and t: "trim (target (rl_root rl) tool what) = target (rl_root rl) tool what"
  shows "parse_one r source =
      \<lparr>ru_tool = tool, ru_pattern = Some (suggested_pattern tool (target (rl_root rl) tool what)), ru_source = source\<rparr>"
    and "CHR ''*'' \<notin> set (target (rl_root rl) tool what)"
proof -
  let ?t = "target (rl_root rl) tool what"
  show "CHR ''*'' \<notin> set ?t"
    using s by (auto simp: suggest_def Let_def list_ex_iff split: if_splits)
  have r: "r = tool @ ''('' @ suggested_pattern tool ?t @ '')''"
    using s by (auto simp: suggest_def suggested_pattern_def Let_def split: if_splits list.splits)
  have "trim (suggested_pattern tool ?t) = suggested_pattern tool ?t"
  proof (cases "suggested_pattern tool ?t = ?t")
    case False
    then obtain w v vs where ws: "split_whitespace ?t = w # v # vs" and p: "suggested_pattern tool ?t = w @ '' '' @ v @ ''*''"
      by (auto simp: suggested_pattern_def split: if_splits list.splits)
    from ws split_whitespace_words [of w ?t] have "w \<noteq> []" "\<not> is_ws (hd w)" by auto
    then show ?thesis unfolding p by (intro trim_fixed) (auto simp: is_ws_def)
  qed (simp add: t)
  from parse_shown_rule [OF tool this, of source] r show "parse_one r source = \<lparr>ru_tool = tool, ru_pattern = Some (suggested_pattern tool ?t), ru_source = source\<rparr>"
    by simp
qed

lemma suggested_matches:
  assumes "CHR ''*'' \<notin> set t"
  shows "wild (suggested_pattern tool t) t' \<longleftrightarrow>
    (case split_whitespace t of
       w # v # _ \<Rightarrow> if tool = ''run_command'' \<and> sub_command_word v then prefix (w @ '' '' @ v) t' else t' = t
     | _ \<Rightarrow> t' = t)"
proof (cases "split_whitespace t")
  case Nil
  with assms show ?thesis by (simp add: suggested_pattern_def wild_plain)
next
  case (Cons w vs)
  show ?thesis
  proof (cases vs)
    case Nil
    with Cons assms show ?thesis by (simp add: suggested_pattern_def wild_plain)
  next
    case (Cons v us)
    with \<open>split_whitespace t = w # vs\<close> have "CHR ''*'' \<notin> set (w @ '' '' @ v)"
      using split_whitespace_words [of w t] split_whitespace_words [of v t] assms by auto
    from wild_open_end [OF this, of t'] have "wild (w @ '' '' @ v @ ''*'') t' \<longleftrightarrow> prefix (w @ '' '' @ v) t'" by simp
    with Cons \<open>split_whitespace t = w # vs\<close> assms show ?thesis by (simp add: suggested_pattern_def wild_plain)
  qed
qed

lemma check_after_allow:
  "check_call tool what (allow_rule r source rl) =
     (if check_call tool what rl = Asks \<and> rule_matches (parse_one r source) tool (target (rl_root rl) tool what) \<and>
         \<not> (tool = ''run_command'' \<and> chained (target (rl_root rl) tool what))
      then Allowed else check_call tool what rl)"
  by (auto simp: check_call_def allow_rule_def Let_def split: option.splits)

text \<open>
  Always allow is as narrow as it says. After the rule suggested for a call is saved, the calls that run unasked and did not
  before are calls of the same tool, on exactly the same file or command, or, for a command whose second word
  looks like a sub-command, single commands that begin with the same two words; and the call itself is not asked for again,
  provided its two words are one space apart.
\<close>

theorem always_allow_is_narrow:
  assumes "suggest tool what rl = Some r"
    and "CHR ''('' \<notin> set tool" and "trim tool = tool"
    and "trim (target (rl_root rl) tool what) = target (rl_root rl) tool what"
  shows "(check_call tool' what' (allow_rule r source rl) = Allowed \<longrightarrow> check_call tool' what' rl \<noteq> Allowed \<longrightarrow>
      tool' = tool \<and>
      (target (rl_root rl) tool what' = target (rl_root rl) tool what \<or>
       tool = ''run_command'' \<and> \<not> chained (target (rl_root rl) tool what') \<and>
       (\<exists>w v. take 2 (split_whitespace (target (rl_root rl) tool what)) = [w, v] \<and> sub_command_word v \<and>
          prefix (w @ '' '' @ v) (target (rl_root rl) tool what')))) \<and>
    (check_call tool what rl = Asks \<longrightarrow>
       (\<forall>w v. take 2 (split_whitespace (target (rl_root rl) tool what)) = [w, v] \<longrightarrow>
          prefix (w @ '' '' @ v) (target (rl_root rl) tool what)) \<longrightarrow>
       check_call tool what (allow_rule r source rl) = Allowed)"
proof -
  let ?t = "target (rl_root rl) tool what" and ?t' = "target (rl_root rl) tool' what'"
  note parsed = suggested_rule(1) [OF assms, of source] suggested_rule(2) [OF assms]
  have m: "rule_matches (parse_one r source) tool2 t2 \<longleftrightarrow> tool2 = tool \<and> wild (suggested_pattern tool ?t) t2" for tool2 t2
    by (auto simp: rule_matches_wild parsed)
  have plain: "\<not> (tool = ''run_command'' \<and> chained ?t)"
    using assms(1) by (auto simp: suggest_def Let_def split: if_splits)
  note w = suggested_matches [OF parsed(2), of tool]
  have "tool' = tool \<and> \<not> (tool = ''run_command'' \<and> chained ?t') \<and> wild (suggested_pattern tool ?t) ?t'"
    if "check_call tool' what' (allow_rule r source rl) = Allowed" "check_call tool' what' rl \<noteq> Allowed"
    using that by (auto simp: check_after_allow m split: if_splits)
  then have "check_call tool' what' (allow_rule r source rl) = Allowed \<longrightarrow> check_call tool' what' rl \<noteq> Allowed \<longrightarrow>
      tool' = tool \<and>
      (target (rl_root rl) tool what' = ?t \<or>
       tool = ''run_command'' \<and> \<not> chained (target (rl_root rl) tool what') \<and>
       (\<exists>w v. take 2 (split_whitespace ?t) = [w, v] \<and> sub_command_word v \<and> prefix (w @ '' '' @ v) (target (rl_root rl) tool what')))"
    by (cases "split_whitespace ?t"; cases "tl (split_whitespace ?t)") (auto simp: w split: if_splits)
  moreover have "check_call tool what (allow_rule r source rl) = Allowed"
    if a: "check_call tool what rl = Asks"
      and words: "\<forall>w v. take 2 (split_whitespace ?t) = [w, v] \<longrightarrow> prefix (w @ '' '' @ v) ?t"
  proof -
    have "wild (suggested_pattern tool ?t) ?t"
      using words by (cases "split_whitespace ?t"; cases "tl (split_whitespace ?t)") (auto simp: w)
    with a plain show ?thesis by (simp add: check_after_allow m)
  qed
  ultimately show ?thesis by blast
qed

definition demo_command :: string where
  "demo_command = ''git diff x'' @ [linefeed_char] @ ''in /w''"

definition empty_rules :: rules where
  "empty_rules = rules_new id ''/w''"

lemma always_allow_is_narrow_witness:
  "suggest ''run_command'' demo_command empty_rules = Some ''run_command(git diff*)'' \<and>
   check_call ''run_command'' demo_command (allow_rule ''run_command(git diff*)'' ''local'' empty_rules) = Allowed"
proof -
  have s: "suggest ''run_command'' demo_command empty_rules = Some ''run_command(git diff*)''" by code_simp
  have t: "target (rl_root empty_rules) ''run_command'' demo_command = ''git diff x''" by code_simp
  have w: "take 2 (split_whitespace ''git diff x'') = [''git'', ''diff'']" by code_simp
  have a: "check_call ''run_command'' demo_command empty_rules = Asks" by code_simp
  have tr: "trim ''git diff x'' = ''git diff x''" "trim ''run_command'' = ''run_command''" by code_simp+
  have pre: "prefix (''git'' @ '' '' @ ''diff'') ''git diff x''" by code_simp
  show ?thesis
    using always_allow_is_narrow [OF s, of "''run_command''" demo_command "''local''"] s a t w tr pre by simp
qed

text \<open>A file name after a command counts as its sub-command, so its rule allows more than the command; and a
  command with two spaces is asked for again although its rule was saved.\<close>

lemma suggested_rule_gaps:
  "suggest ''run_command'' (''rm notes'' @ [linefeed_char] @ ''in /w'') (rules_new id ''/w'') = Some ''run_command(rm notes*)''"
  "check_call ''run_command'' (''rm notes -rf src'' @ [linefeed_char] @ ''in /w'') (allow_rule ''run_command(rm notes*)'' ''local'' (rules_new id ''/w'')) = Allowed"
  "suggest ''run_command'' (''git  status'' @ [linefeed_char] @ ''in /w'') (rules_new id ''/w'') = Some ''run_command(git status*)''"
  "check_call ''run_command'' (''git  status'' @ [linefeed_char] @ ''in /w'') (allow_rule ''run_command(git status*)'' ''local'' (rules_new id ''/w'')) = Asks"
  by code_simp+

section \<open>The settings files together\<close>

lemma load_layer_cases:
  "load_layer read parse display h st (index, path, label, moved) =
     (case read path of
        None \<Rightarrow> st
      | Some content \<Rightarrow>
          (case parse content of
             Inl e \<Rightarrow> (load_layer read parse display h st (index, path, label, moved))
           | Inr pj \<Rightarrow> (load_layer read parse display h st (index, path, label, moved))
               \<lparr>st_layers := st_layers st @ [\<lparr>ly_label = label, ly_settings = (if index = 0 \<and> h then pj\<lparr>pj_mode := None\<rparr> else pj)\<rparr>]\<rparr>))"
  by (auto simp: load_layer_def Let_def split: option.splits sum.splits)

definition layer_of ::
  "(string \<Rightarrow> string option) \<Rightarrow> (string \<Rightarrow> string + project) \<Rightarrow> bool \<Rightarrow> nat \<times> string \<times> string \<times> string option \<Rightarrow> layer option" where
  "layer_of read parse h f =
     (case f of (index, path, label, moved) \<Rightarrow>
        case map_option parse (read path) of
          Some (Inr pj) \<Rightarrow> Some \<lparr>ly_label = label, ly_settings = (if index = 0 \<and> h then pj\<lparr>pj_mode := None\<rparr> else pj)\<rparr>
        | _ \<Rightarrow> None)"

lemma load_layer_layers:
  "st_layers (load_layer read parse display h st f) = st_layers st @ (case layer_of read parse h f of Some l \<Rightarrow> [l] | None \<Rightarrow> [])"
  by (cases f) (auto simp: load_layer_def layer_of_def Let_def split: option.splits sum.splits)

lemma load_layers_foldl:
  "st_layers (foldl (load_layer read parse display h) st fs) = st_layers st @ List.map_filter (layer_of read parse h) fs"
  by (induction fs arbitrary: st) (auto simp: load_layer_layers map_filter_simps split: option.splits)

lemma load_settings_layers:
  "st_layers (load_settings read is_file parse display home dir agents) =
     List.map_filter (layer_of read parse (home \<noteq> None)) (enumerate 0 (settings_files home dir agents))"
  by (simp add: load_settings_def Let_def load_layers_foldl)

fun first_Some :: "('a \<Rightarrow> 'b option) \<Rightarrow> 'a list \<Rightarrow> 'b option" where
  "first_Some f [] = None"
| "first_Some f (x # xs) = (case f x of Some y \<Rightarrow> Some y | None \<Rightarrow> first_Some f xs)"

lemma first_mode_append: "first_mode (a @ b) = (case first_mode a of Some m \<Rightarrow> Some m | None \<Rightarrow> first_mode b)"
  by (induction a) (auto split: option.splits)

text \<open>The mode a settings file sets, if it is there, can be parsed and has one.\<close>

definition mode_in :: "(string \<Rightarrow> string option) \<Rightarrow> (string \<Rightarrow> string + project) \<Rightarrow> string \<Rightarrow> agent_mode option" where
  "mode_in read parse path = (case map_option parse (read path) of Some (Inr pj) \<Rightarrow> pj_mode pj | _ \<Rightarrow> None)"

lemma first_mode_layer:
  "first_mode (rev (List.map_filter (layer_of read parse h) ((index, path, label, moved) # fs))) =
     (case first_mode (rev (List.map_filter (layer_of read parse h) fs)) of
        Some m \<Rightarrow> Some m
      | None \<Rightarrow> if index = 0 \<and> h then None else mode_in read parse path)"
  by (auto simp: map_filter_simps layer_of_def mode_in_def first_mode_append split: option.splits sum.splits)

lemma first_Some_append: "first_Some f (a @ b) = (case first_Some f a of Some m \<Rightarrow> Some m | None \<Rightarrow> first_Some f b)"
  by (induction a) (auto split: option.splits)

definition file_mode ::
  "(string \<Rightarrow> string option) \<Rightarrow> (string \<Rightarrow> string + project) \<Rightarrow> bool \<Rightarrow> nat \<times> string \<times> string \<times> string option \<Rightarrow> agent_mode option" where
  "file_mode read parse h f = (if fst f = 0 \<and> h then None else mode_in read parse (fst (snd f)))"

lemma layers_mode:
  "first_mode (rev (List.map_filter (layer_of read parse h) fs)) = first_Some (file_mode read parse h) (rev fs)"
proof (induction fs)
  case Nil
  then show ?case by (simp add: map_filter_simps)
next
  case (Cons f fs)
  obtain index path label moved where f: "f = (index, path, label, moved)" by (cases f)
  show ?case
    unfolding f first_mode_layer Cons.IH
    by (cases "first_Some (file_mode read parse h) (rev fs)") (simp_all add: first_Some_append file_mode_def [of read parse h "(index, path, label, moved)"] split: option.split)
qed

text \<open>
  The mode comes from the nearest file that sets one: the user's own file of the project, then the shared one, then
  the two of the first version; a file that is missing or broken is passed over. The file for every folder sets no mode.
\<close>

theorem nearest_mode_wins:
  "settings_mode (load_settings read is_file parse display home dir agents) =
     first_Some (mode_in read parse)
       [agents @ ''/settings.local.json'', agents @ ''/settings.json'',
        dir @ ''/.cluaiz/agent.local.json'', dir @ ''/.cluaiz/agent.json'']"
  by (cases home)
     (simp_all only: settings_mode_def load_settings_layers layers_mode settings_files_def option.case enumerate_simps
        append_Nil append_Cons list.map prod.case in_folder_def PROJECT_FILE_def LOCAL_FILE_def rev.simps first_Some.simps
        option.simps append_assoc simp_thms if_False if_True One_nat_def nat.distinct
        file_mode_def fst_conv snd_conv)

lemma add_layers_denied:
  "rl_denied (foldl (\<lambda>rl l. add_rules (ly_label l) (pj_allow (ly_settings l)) (pj_deny (ly_settings l)) rl) rl ls) =
     rl_denied rl @ concat (map (\<lambda>l. map (\<lambda>r. parse_one r (ly_label l)) (filter (\<lambda>r. trim r \<noteq> []) (pj_deny (ly_settings l)))) ls)"
  by (induction ls arbitrary: rl) (simp_all add: add_rules_def Let_def)

lemma add_layers_root: "rl_root (foldl (\<lambda>rl l. add_rules (ly_label l) (pj_allow (ly_settings l)) (pj_deny (ly_settings l)) rl) rl ls) = rl_root rl"
  by (induction ls arbitrary: rl) (simp_all add: add_rules_def Let_def)

text \<open>
  A call that a deny rule of any settings file matches is refused, whatever the other files, the flags
  and the rules saved later allow; for a command it is enough that the rule matches one of the commands chained in it.
\<close>

theorem denied_by_any_file:
  assumes "(path, label, moved) \<in> set (settings_files home dir agents)"
    and "read path = Some content" and "parse content = Inr pj"
    and "d \<in> set (pj_deny pj)" and "trim d \<noteq> []"
    and "part \<in> set (call_parts tool (target (rl_root (rules_new display root)) tool what))"
    and "rule_matches (parse_one d label) tool part"
  shows "\<exists>reason. check_call tool what
      (foldl (\<lambda>rl r. allow_rule r ''.agents/settings.local.json'' rl)
        (add_flags ''--disallowed-tools'' [] refused
          (add_flags ''--allowed-tools'' allowed []
            (add_layers (load_settings read is_file parse display home dir agents) (rules_new display root)))) saved) =
      Denied reason"
proof -
  define st where "st = load_settings read is_file parse display home dir agents"
  have "(path, label, moved) \<in> snd ` set (enumerate 0 (settings_files home dir agents))"
    unfolding set_map [symmetric] map_snd_enumerate by (rule assms(1))
  then obtain i where i: "(i, path, label, moved) \<in> set (enumerate 0 (settings_files home dir agents))"
    by auto
  then have "\<exists>l. layer_of read parse (home \<noteq> None) (i, path, label, moved) = Some l \<and> ly_label l = label \<and> pj_deny (ly_settings l) = pj_deny pj"
    by (simp add: layer_of_def assms(2,3))
  with i obtain l where l: "l \<in> set (st_layers st)" "ly_label l = label" "pj_deny (ly_settings l) = pj_deny pj"
    unfolding st_def load_settings_layers in_map_filter by blast
  have later: "rl_denied (foldl (\<lambda>rl r. allow_rule r s rl) rl saved) = rl_denied rl \<and> rl_root (foldl (\<lambda>rl r. allow_rule r s rl) rl saved) = rl_root rl"
    for rl s by (induction saved arbitrary: rl) (simp_all add: allow_rule_def)
  have "parse_one d label \<in> set (rl_denied (add_layers st (rules_new display root)))"
    using l assms(4,5) by (simp add: add_layers_def add_layers_denied) (metis (mono_tags) imageI mem_Collect_eq)
  moreover define final where "final = foldl (\<lambda>rl r. allow_rule r ''.agents/settings.local.json'' rl)
        (add_flags ''--disallowed-tools'' [] refused (add_flags ''--allowed-tools'' allowed [] (add_layers st (rules_new display root)))) saved"
  ultimately have "parse_one d label \<in> set (rl_denied final)" "rl_root final = rl_root (rules_new display root)"
    by (simp_all add: later add_flags_def Let_def add_layers_def add_layers_root)
  with assms(6,7) have "\<exists>reason. check_call tool what final = Denied reason"
    unfolding check_denied_iff by metis
  then show ?thesis unfolding final_def st_def .
qed

lemma denied_by_any_file_witness:
  "\<exists>reason. check_call ''run_command'' ''git push x''
      (foldl (\<lambda>rl r. allow_rule r ''.agents/settings.local.json'' rl)
        (add_flags ''--disallowed-tools'' [] []
          (add_flags ''--allowed-tools'' [''run_command''] []
            (add_layers (load_settings (\<lambda>p. if p = ''/h/config/agent.json'' then Some ''...'' else None) (\<lambda>p. False)
               (\<lambda>t. Inr \<lparr>pj_mode = None, pj_allow = [], pj_deny = [''run_command(git push*)'']\<rparr>) id (Some ''/h'') ''/w'' ''/w/.agents'')
              empty_rules))) [''run_command(git push*)'']) = Denied reason"
  unfolding empty_rules_def
proof (rule denied_by_any_file)
  show "(''/h/config/agent.json'', ''~/.cluaiz/config/agent.json'', None) \<in> set (settings_files (Some ''/h'') ''/w'' ''/w/.agents'')"
    by code_simp
  show "rule_matches (parse_one ''run_command(git push*)'' ''~/.cluaiz/config/agent.json'') ''run_command'' ''git push x''"
    by code_simp
  show "''git push x'' \<in> set (call_parts ''run_command'' (target (rl_root (rules_new id ''/w'')) ''run_command'' ''git push x''))"
    by code_simp
  show "trim ''run_command(git push*)'' \<noteq> []"
    by code_simp
  show "''run_command(git push*)'' \<in> set (pj_deny \<lparr>pj_mode = None, pj_allow = [], pj_deny = [''run_command(git push*)'']\<rparr>)"
    by simp
qed simp_all

section \<open>Saving a rule\<close>

text \<open>The items of the allow list of a settings file.\<close>

definition allow_items :: "(string \<times> json) list \<Rightarrow> json list" where
  "allow_items m = (case obj_get ''allow'' m of Some (JArr vs) \<Rightarrow> vs | _ \<Rightarrow> [])"

lemma json_str_iff: "json_str v = Some r \<longleftrightarrow> v = JStr r"
  by (cases v) auto

lemma obj_insert_again: "obj_get k m = Some v \<Longrightarrow> obj_insert k v m = m"
  by (induction m) (auto simp: obj_insert_def obj_get_def split: if_splits)

text \<open>
  Saving a rule adds it to the allow list once and keeps everything else in the file, and saving it again
  changes nothing; a file that is not a JSON object, or whose allow list is no list, is left as it is.
\<close>

theorem saved_rule_kept:
  assumes roundtrip: "\<And>m. opened parse content = Inr (JObj m) \<Longrightarrow>
      parse (pretty (with_allowed r (allow_items m) m) @ [linefeed_char]) = Inr (with_allowed r (allow_items m) m)"
  shows "case save_allow parse pretty file content r of
      Inl why \<Rightarrow>
        (case opened parse content of
           Inr (JObj m) \<Rightarrow> \<exists>v. obj_get ''allow'' m = Some v \<and> (\<forall>vs. v \<noteq> JArr vs)
         | _ \<Rightarrow> True)
    | Inr t' \<Rightarrow>
        (\<exists>m m'. opened parse content = Inr (JObj m) \<and> parse t' = Inr (JObj m') \<and>
           allow_items m' = (if JStr r \<in> set (allow_items m) then allow_items m else allow_items m @ [JStr r]) \<and>
           (\<forall>k. k \<noteq> ''allow'' \<longrightarrow> obj_get k m' = obj_get k m) \<and>
           save_allow parse pretty file (Some t') r = Inr t')"
proof (cases "save_allow parse pretty file content r")
  case (Inl why)
  then show ?thesis by (auto simp: save_allow_def split: option.splits sum.splits json.splits)
next
  case (Inr t')
  then obtain m where m: "opened parse content = Inr (JObj m)"
    and t': "t' = pretty (with_allowed r (allow_items m) m) @ [linefeed_char]"
    by (auto simp: save_allow_def allow_items_def split: option.splits sum.splits json.splits)
  define items where "items = (if JStr r \<in> set (allow_items m) then allow_items m else allow_items m @ [JStr r])"
  define m' where "m' = obj_insert ''allow'' (JArr items) m"
  have w: "with_allowed r (allow_items m) m = JObj m'"
    by (simp add: with_allowed_def m'_def items_def json_str_iff list_ex_iff)
  from roundtrip [OF m] have p: "parse t' = Inr (JObj m')" by (simp add: t' w)
  have i: "obj_get ''allow'' m' = Some (JArr items)" by (simp add: m'_def)
  have "with_allowed r items m' = JObj m'"
    using obj_insert_again [OF i] by (simp add: with_allowed_def json_str_iff list_ex_iff) (simp add: items_def)
  then have "save_allow parse pretty file (Some t') r = Inr t'"
    by (simp add: save_allow_def opened_def p i) (simp add: t' w)
  moreover have "allow_items m' = items" by (simp add: allow_items_def i)
  moreover have "\<forall>k. k \<noteq> ''allow'' \<longrightarrow> obj_get k m' = obj_get k m" by (simp add: m'_def)
  ultimately show ?thesis using Inr m p items_def by auto
qed

definition demo_saved :: "(string \<times> json) list" where
  "demo_saved = [(''mode'', JStr ''plan''), (''allow'', JArr [JStr ''read_file''])]"

definition demo_pretty :: "json \<Rightarrow> string" where
  "demo_pretty v = (if v = JObj demo_saved then ''saved'' else ''other'')"

definition demo_open :: "string \<Rightarrow> string + json" where
  "demo_open t =
     (if t = ''saved'' @ [linefeed_char] then Inr (JObj demo_saved)
      else if t = ''old'' then Inr (JObj [(''mode'', JStr ''plan'')]) else Inl ''expected value'')"

lemma saved_rule_kept_witness:
  "\<exists>m'. save_allow demo_open demo_pretty ''f'' (Some ''old'') ''read_file'' = Inr (''saved'' @ [linefeed_char]) \<and>
     demo_open (''saved'' @ [linefeed_char]) = Inr (JObj m') \<and> allow_items m' = [JStr ''read_file''] \<and>
     obj_get ''mode'' m' = Some (JStr ''plan'')"
proof -
  have s: "save_allow demo_open demo_pretty ''f'' (Some ''old'') ''read_file'' = Inr (''saved'' @ [linefeed_char])"
    by code_simp
  have o: "opened demo_open (Some ''old'') = Inr (JObj [(''mode'', JStr ''plan'')])"
    by code_simp
  have w: "with_allowed ''read_file'' (allow_items [(''mode'', JStr ''plan'')]) [(''mode'', JStr ''plan'')] = JObj demo_saved"
    by code_simp
  have r: "demo_open (demo_pretty (JObj demo_saved) @ [linefeed_char]) = Inr (JObj demo_saved)"
    by code_simp
  have a: "allow_items [(''mode'', JStr ''plan'')] = []" "obj_get ''mode'' [(''mode'', JStr ''plan'')] = Some (JStr ''plan'')"
    by code_simp+
  have "\<And>m. opened demo_open (Some ''old'') = Inr (JObj m) \<Longrightarrow>
      demo_open (demo_pretty (with_allowed ''read_file'' (allow_items m) m) @ [linefeed_char]) = Inr (with_allowed ''read_file'' (allow_items m) m)"
    using w r by (simp add: o)
  from saved_rule_kept [of demo_open "Some ''old''" demo_pretty "''read_file''" "''f''", OF this] show ?thesis
    by (auto simp: s o a)
qed

end
