(* ===== verification/Agent_Tools.thy ===== *)
theory Agent_Tools
  imports Agent_Rules Checkpoints Command_Policy
begin

text \<open>
  cmd/src/agent/tools.rs: the terminal agent's own tools on the files of its folder, and the gate every change
  and command passes. A call may fail with the text the model is told. The disk is that of the checkpoints; a
  folder is not a file on it. What is outside of the code is in \<open>front\<close>: the user's answers (other programs may
  change files while a question is open), canonical paths, running commands, UTF-8, and the tools that are not built in.
\<close>

record agent_tools =
  at_root :: string
  at_allow_all :: bool
  at_strict :: bool
  at_mode :: agent_mode
  at_always :: "string list"
  at_rules :: rules
  at_refused :: bool
  at_cancelled :: bool
  at_checkpoints :: checkpoints

type_synonym 'a action = "agent_tools \<Rightarrow> disk \<Rightarrow> (string + 'a) \<times> agent_tools \<times> disk"

text \<open>\<open>ApprovalResponse\<close> of the terminal, and what a command did.\<close>

datatype response = Once | Remember | Session | Feedback string | Refuse

record command_run =
  cr_exit :: int
  cr_cancelled :: bool
  cr_signal :: "string option"
  cr_stdout :: string
  cr_stderr :: string

record front =
  fr_screen :: bool
  fr_stops :: bool
  fr_approve :: "string \<Rightarrow> string \<Rightarrow> string option \<Rightarrow> disk \<Rightarrow> response \<times> disk"
  fr_resolve :: "string \<Rightarrow> string + string"
  fr_display :: "string \<Rightarrow> string"
  fr_lossy :: "string \<Rightarrow> string"
  fr_utf8 :: "string \<Rightarrow> bool"
  fr_io :: string
  fr_prompt :: "string \<Rightarrow> string"
  fr_parse :: "string \<Rightarrow> string + json"
  fr_pretty :: "json \<Rightarrow> string"
  fr_local :: string
  fr_exclude :: "(string \<times> string) option"
  fr_cwd :: bool
  fr_execute :: "string \<Rightarrow> security_mode \<Rightarrow> nat \<Rightarrow> bool \<Rightarrow> disk \<Rightarrow> (string + command_run) \<times> disk"
  fr_other :: "string \<Rightarrow> json \<Rightarrow> (string \<times> string) action"
  fr_glob_rules :: "string \<Rightarrow> string"

text \<open>The question mark of Rust.\<close>

definition and_then :: "'a action \<Rightarrow> ('a \<Rightarrow> 'b action) \<Rightarrow> 'b action" where
  "and_then m f s d = (case m s d of (Inl e, s', d') \<Rightarrow> (Inl e, s', d') | (Inr x, s', d') \<Rightarrow> f x s' d')"

definition fails :: "string \<Rightarrow> 'a action" where
  "fails e s d = (Inl e, s, d)"

definition gives :: "'a \<Rightarrow> 'a action" where
  "gives x s d = (Inr x, s, d)"

section \<open>Modes\<close>

definition require_approval :: "agent_tools \<Rightarrow> agent_tools" where
  "require_approval s = s\<lparr>at_allow_all := False, at_strict := False, at_mode := Ask_Mode, at_always := []\<rparr>"

definition set_mode :: "agent_mode \<Rightarrow> agent_tools \<Rightarrow> agent_tools" where
  "set_mode m s = (require_approval s)\<lparr>at_mode := m, at_allow_all := (m = Full_Mode)\<rparr>"

text \<open>\<open>Mode::from_global\<close>: the App's security mode as a mode and whether reads ask too.\<close>

definition from_global :: "string \<Rightarrow> agent_mode \<times> bool" where
  "from_global v = (if v = ''full_access'' then (Full_Mode, False) else if v = ''strict'' then (Ask_Mode, True) else (Ask_Mode, False))"

definition tools_new :: "(string \<Rightarrow> string) \<Rightarrow> string \<Rightarrow> bool \<Rightarrow> checkpoints \<Rightarrow> agent_tools" where
  "tools_new display root allow_all c =
     \<lparr>at_root = root, at_allow_all = allow_all, at_strict = False, at_mode = (if allow_all then Full_Mode else Ask_Mode),
      at_always = [], at_rules = rules_new display root, at_refused = False, at_cancelled = False, at_checkpoints = c\<rparr>"

section \<open>The gate\<close>

definition REMEMBER :: string where "REMEMBER = ''remember''"
definition FORGET :: string where "FORGET = ''forget''"

definition plan_refusal :: string where
  "plan_refusal = ''plan mode: nothing is changed or run now. Read what you need, then write the plan (files, changes, commands) for the user to approve''"

definition nobody_can_approve :: string where
  "nobody_can_approve = ''not allowed: nobody can approve this call in this run, so it did not run and you have no result from it. Use a tool that needs no approval (read_file reads a project file), or say what you could not find out; do not guess''"

definition is_edit :: "string \<Rightarrow> bool" where
  "is_edit tool \<longleftrightarrow> tool = ''write_file'' \<or> tool = ''edit_file''"

definition is_memory :: "string \<Rightarrow> bool" where
  "is_memory tool \<longleftrightarrow> tool = REMEMBER \<or> tool = FORGET"

definition put_file :: "string \<Rightarrow> string \<Rightarrow> disk \<Rightarrow> disk" where
  "put_file path content d = d\<lparr>dk_files := (dk_files d)(path := Some content)\<rparr>"

text \<open>The answer \<open>always allow in this folder\<close>: the rule is saved and, if it could be, in use from now on.\<close>

definition remember_rule :: "front \<Rightarrow> string \<Rightarrow> agent_tools \<Rightarrow> disk \<Rightarrow> agent_tools \<times> disk" where
  "remember_rule fr r s d =
     (case save_allow (fr_parse fr) (fr_pretty fr) (fr_local fr) (dk_files d (fr_local fr)) r of
        Inl e \<Rightarrow> (s, d)
      | Inr content \<Rightarrow>
          if dk_locked d (fr_local fr) then (s, d)
          else (s\<lparr>at_rules := allow_rule r (''.agents/'' @ LOCAL_FILE) (at_rules s)\<rparr>,
                (case (dk_files d (fr_local fr), fr_exclude fr) of
                   (None, Some (path, line)) \<Rightarrow>
                     put_file path (git_exclude line (dk_files d path)) (put_file (fr_local fr) content d)
                 | _ \<Rightarrow> put_file (fr_local fr) content d)))"

definition answered_call :: "front \<Rightarrow> string \<Rightarrow> string option \<Rightarrow> response \<Rightarrow> unit action" where
  "answered_call fr tool r answer s d =
     (case answer of
        Once \<Rightarrow> (Inr (), s, d)
      | Remember \<Rightarrow> (case r of Some r \<Rightarrow> (case remember_rule fr r s d of (s', d') \<Rightarrow> (Inr (), s', d')) | None \<Rightarrow> (Inr (), s, d))
      | Session \<Rightarrow> (Inr (), s\<lparr>at_always := List.insert tool (at_always s)\<rparr>, d)
      | Feedback t \<Rightarrow> (Inl (''The user did not allow this and said: '' @ t), s, d)
      | Refuse \<Rightarrow> (Inl ''the user did not allow this; nothing executed'', s, d))"

definition ask :: "front \<Rightarrow> string \<Rightarrow> string \<Rightarrow> unit action" where
  "ask fr tool why s d =
     (case check_call tool why (at_rules s) of
        Denied reason \<Rightarrow> (Inl reason, s\<lparr>at_refused := True\<rparr>, d)
      | Allowed \<Rightarrow> (Inr (), s, d)
      | Asks \<Rightarrow>
          if at_mode s = Plan_Mode \<and> (is_edit tool \<or> tool = ''run_command'' \<or> contains tool '':'') then (Inl plan_refusal, s, d)
          else if at_mode s = Accept_Edits \<and> is_edit tool \<and> \<not> at_strict s then (Inr (), s, d)
          else if \<not> is_memory tool \<and> (at_allow_all s \<or> tool \<in> set (at_always s)) then (Inr (), s, d)
          else if \<not> fr_screen fr
          then (Inl (if is_memory tool then fr_prompt fr ''workspace.remember_refused'' else nobody_can_approve), s\<lparr>at_refused := True\<rparr>, d)
          else (let r = (if is_memory tool then None else suggest tool why (at_rules s))
                in case fr_approve fr tool why r d of (answer, d') \<Rightarrow> answered_call fr tool r answer s d'))"

definition check_running :: "front \<Rightarrow> unit action" where
  "check_running fr s d =
     (if fr_stops fr then (Inl ''Cancelled before execution; nothing changed'', s\<lparr>at_cancelled := True\<rparr>, d) else (Inr (), s, d))"

text \<open>\<open>Path::starts_with\<close> and \<open>strip_prefix\<close> of the folder.\<close>

definition folder_start :: "string \<Rightarrow> string" where
  "folder_start root = (if root = ''/'' then root else root @ ''/'')"

definition in_root :: "string \<Rightarrow> string \<Rightarrow> bool" where
  "in_root root path \<longleftrightarrow> path = root \<or> prefix (folder_start root) path"

definition show_path :: "front \<Rightarrow> string \<Rightarrow> string \<Rightarrow> string" where
  "show_path fr root path =
     (if path = root then ''.''
      else case strip_prefix (folder_start root) path of Some rel \<Rightarrow> slashes rel | None \<Rightarrow> fr_display fr path)"

definition with_details :: "string \<Rightarrow> string \<Rightarrow> string" where
  "with_details first details = (if details = [] then first else first @ [linefeed_char] @ details)"

definition allow_outside :: "front \<Rightarrow> string \<Rightarrow> string \<Rightarrow> string \<Rightarrow> unit action" where
  "allow_outside fr tool path details s d =
     (if in_root (at_root s) path then (Inr (), s, d)
      else ask fr tool (with_details (''outside the working folder: '' @ fr_display fr path) details) s d)"

definition authorize_read :: "front \<Rightarrow> string \<Rightarrow> string \<Rightarrow> string \<Rightarrow> unit action" where
  "authorize_read fr tool path details s d =
     (if at_strict s then ask fr tool (with_details (fr_display fr path) details) s d
      else allow_outside fr tool path details s d)"

section \<open>The tools\<close>

definition resolve_path :: "front \<Rightarrow> string \<Rightarrow> string action" where
  "resolve_path fr path = (case fr_resolve fr path of Inl e \<Rightarrow> fails e | Inr file \<Rightarrow> gives file)"

definition io_failure :: "front \<Rightarrow> string \<Rightarrow> string \<Rightarrow> string" where
  "io_failure fr root file = show_path fr root file @ '': '' @ fr_io fr"

text \<open>\<open>before_write\<close> and the write itself.\<close>

definition store_file :: "front \<Rightarrow> string \<Rightarrow> string \<Rightarrow> unit action" where
  "store_file fr file content s d =
     (let s = s\<lparr>at_checkpoints := before_write file d (at_checkpoints s)\<rparr>
      in if dk_locked d file then (Inl (io_failure fr (at_root s) file), s, d) else (Inr (), s, put_file file content d))"

definition write_question :: "front \<Rightarrow> bool \<Rightarrow> string \<Rightarrow> string \<Rightarrow> string" where
  "write_question fr replaces file diff =
     (if replaces then ''replace'' else ''create'') @ '' '' @ fr_display fr file @ [linefeed_char] @ diff"

definition old_text :: "front \<Rightarrow> string option \<Rightarrow> string" where
  "old_text fr was = (case was of Some b \<Rightarrow> if fr_utf8 fr b then b else [] | None \<Rightarrow> [])"

definition write_file :: "front \<Rightarrow> string \<Rightarrow> string \<Rightarrow> (string \<times> string) action" where
  "write_file fr path content =
     and_then (resolve_path fr path) (\<lambda>file s d.
       let replaces = (dk_files d file \<noteq> None);
           lines = nat_text (length (lines_of content));
           what = (if replaces then ''replaced'' else ''created'')
       in and_then (ask fr ''write_file'' (write_question fr replaces file (diff_lines (old_text fr (dk_files d file)) content)))
            (\<lambda>_. and_then (check_running fr)
            (\<lambda>_. and_then (store_file fr file content)
            (\<lambda>_ s. gives (what @ '', '' @ lines @ '' lines'', show_path fr (at_root s) file @ '' '' @ what @ '' ('' @ lines @ '' lines).'') s))) s d)"

lemma find_sub_shorter: "pat \<noteq> [] \<Longrightarrow> find_sub pat s = Some i \<Longrightarrow> length s - (i + length pat) < length s"
proof -
  assume "pat \<noteq> []" "find_sub pat s = Some i"
  then have "0 < length pat" "i + length pat \<le> length s" by (auto dest: find_sub_Some)
  then show ?thesis by linarith
qed

text \<open>\<open>str::replace\<close>, \<open>replacen(1)\<close> and \<open>matches().count()\<close> of a text that is not empty.\<close>

function replace_text :: "string \<Rightarrow> string \<Rightarrow> string \<Rightarrow> string" where
  "replace_text pat new s =
     (if pat = [] then s
      else case find_sub pat s of
        None \<Rightarrow> s
      | Some i \<Rightarrow> take i s @ new @ replace_text pat new (drop (i + length pat) s))"
  by pat_completeness auto
termination
  by (relation "measure (\<lambda>(pat, new, s). length s)") (auto intro: find_sub_shorter)

function count_text :: "string \<Rightarrow> string \<Rightarrow> nat" where
  "count_text pat s =
     (if pat = [] then 0
      else case find_sub pat s of None \<Rightarrow> 0 | Some i \<Rightarrow> Suc (count_text pat (drop (i + length pat) s)))"
  by pat_completeness auto
termination
  by (relation "measure (\<lambda>(pat, s). length s)") (auto intro: find_sub_shorter)

declare replace_text.simps [simp del] count_text.simps [simp del]

definition replace_first :: "string \<Rightarrow> string \<Rightarrow> string \<Rightarrow> string" where
  "replace_first pat new s = (case find_sub pat s of None \<Rightarrow> s | Some i \<Rightarrow> take i s @ new @ drop (i + length pat) s)"

definition crlf :: string where "crlf = [CHR 0x0D, linefeed_char]"

text \<open>A file with Windows line breaks matches text with plain ones.\<close>

definition windows_text :: "string \<Rightarrow> string" where
  "windows_text t = replace_text [linefeed_char] crlf (replace_text crlf [linefeed_char] t)"

definition edit_texts :: "string \<Rightarrow> string \<Rightarrow> string \<Rightarrow> string \<times> string" where
  "edit_texts t old new =
     (if \<not> contains t old \<and> contains t crlf then (windows_text old, windows_text new) else (old, new))"

definition read_text :: "front \<Rightarrow> string \<Rightarrow> string action" where
  "read_text fr file s d =
     (case dk_files d file of
        Some b \<Rightarrow> if fr_utf8 fr b then (Inr b, s, d) else (Inl (fr_io fr), s, d)
      | None \<Rightarrow> (Inl (fr_io fr), s, d))"

definition read_shown :: "front \<Rightarrow> string \<Rightarrow> string action" where
  "read_shown fr file s d =
     (case read_text fr file s d of
        (Inl e, s', d') \<Rightarrow> (Inl (show_path fr (at_root s) file @ '': '' @ e), s', d')
      | (Inr t, s', d') \<Rightarrow> (Inr t, s', d'))"

definition edit_problem :: "string \<Rightarrow> string \<Rightarrow> bool \<Rightarrow> string option" where
  "edit_problem t old everywhere =
     (if old = [] then Some ''old_text is empty''
      else if count_text old t = 0 then Some ''old_text is not in the file; read the file and copy the text exactly''
      else if count_text old t > 1 \<and> \<not> everywhere
      then Some (''old_text is in the file '' @ nat_text (count_text old t) @ '' times; add the lines around it, or set replace_all'')
      else None)"

definition edit_question :: "front \<Rightarrow> string \<Rightarrow> string \<Rightarrow> string" where
  "edit_question fr file diff = ''edit '' @ fr_display fr file @ [linefeed_char] @ diff"

definition changed_meanwhile :: string where
  "changed_meanwhile = ''File changed while awaiting approval; read it again before editing''"

definition edit_result :: "string \<Rightarrow> string \<Rightarrow> bool \<Rightarrow> string \<Rightarrow> string" where
  "edit_result old new everywhere t = (if everywhere then replace_text old new t else replace_first old new t)"

definition edit_file :: "front \<Rightarrow> string \<Rightarrow> string \<Rightarrow> string \<Rightarrow> bool \<Rightarrow> (string \<times> string) action" where
  "edit_file fr path old0 new0 everywhere =
     and_then (resolve_path fr path) (\<lambda>file.
     and_then (allow_outside fr ''edit_file'' file []) (\<lambda>_.
     and_then (read_shown fr file) (\<lambda>t.
       let old = fst (edit_texts t old0 new0); new = snd (edit_texts t old0 new0)
       in case edit_problem t old everywhere of
          Some e \<Rightarrow> fails e
        | None \<Rightarrow>
            and_then (ask fr ''edit_file'' (edit_question fr file (diff_lines old new))) (\<lambda>_.
            and_then (check_running fr) (\<lambda>_.
            and_then (read_text fr file) (\<lambda>now.
              if now \<noteq> t then fails changed_meanwhile
              else and_then (store_file fr file (edit_result old new everywhere t)) (\<lambda>_ s.
                let n = nat_text (if everywhere then count_text old t else 1)
                in gives (n @ '' replaced'', show_path fr (at_root s) file @ '' edited ('' @ n @ '' replaced).'') s)))))))"

section \<open>Reading\<close>

definition READ_LINES :: nat where "READ_LINES = 400"

text \<open>\<open>{:>5}\<close>, a tab and the line.\<close>

definition pad5 :: "string \<Rightarrow> string" where
  "pad5 t = replicate (5 - length t) (CHR '' '') @ t"

definition numbered :: "nat \<times> string \<Rightarrow> string" where
  "numbered il = pad5 (nat_text (fst il)) @ [CHR 0x09] @ snd il"

definition shown_lines :: "string list \<Rightarrow> nat \<Rightarrow> nat \<Rightarrow> (nat \<times> string) list" where
  "shown_lines lines first count = take count (drop (first - 1) (enumerate 1 lines))"

definition read_page :: "string list \<Rightarrow> nat option \<Rightarrow> nat option \<Rightarrow> string" where
  "read_page lines offset count =
     (let first = max (case offset of Some n \<Rightarrow> n | None \<Rightarrow> 1) 1;
          shown = shown_lines lines first (max (case count of Some n \<Rightarrow> n | None \<Rightarrow> READ_LINES) 1);
          final = first - 1 + length shown
      in if lines = [] then ''(empty file)''
         else join_lines (map numbered shown) @
           (if final < length lines
            then [linefeed_char] @ ''('' @ nat_text (length lines - final) @ '' more lines: read with offset '' @ nat_text (final + 1) @ '')''
            else []))"

definition page_size :: "string list \<Rightarrow> nat option \<Rightarrow> nat option \<Rightarrow> nat" where
  "page_size lines offset count =
     length (shown_lines lines (max (case offset of Some n \<Rightarrow> n | None \<Rightarrow> 1) 1) (max (case count of Some n \<Rightarrow> n | None \<Rightarrow> READ_LINES) 1))"

definition read_range :: "nat option \<Rightarrow> nat option \<Rightarrow> string" where
  "read_range offset count =
     (if offset = None \<and> count = None then []
      else ''lines: from '' @ nat_text (case offset of Some n \<Rightarrow> n | None \<Rightarrow> 1) @ '', at most '' @
        nat_text (case count of Some n \<Rightarrow> n | None \<Rightarrow> READ_LINES))"

definition read_bytes :: "front \<Rightarrow> string \<Rightarrow> string action" where
  "read_bytes fr file s d =
     (case dk_files d file of Some b \<Rightarrow> (Inr b, s, d) | None \<Rightarrow> (Inl (io_failure fr (at_root s) file), s, d))"

definition read_file :: "front \<Rightarrow> string \<Rightarrow> nat option \<Rightarrow> nat option \<Rightarrow> (string \<times> string) action" where
  "read_file fr path offset count =
     and_then (resolve_path fr path) (\<lambda>file.
     and_then (authorize_read fr ''read_file'' file (read_range offset count)) (\<lambda>_.
     and_then (read_bytes fr file) (\<lambda>bytes.
       if list_ex (\<lambda>b. b = CHR 0x00) (take 8000 bytes) then fails ''a binary file, not text''
       else (let lines = lines_of (fr_lossy fr bytes)
             in gives (nat_text (page_size lines offset count) @ '' lines'', read_page lines offset count)))))"

section \<open>Commands\<close>

definition int_text :: "int \<Rightarrow> string" where
  "int_text i = (if i < 0 then CHR ''-'' # nat_text (nat (- i)) else nat_text (nat i))"

definition command_text :: "command_run \<Rightarrow> string" where
  "command_text r =
     ''Exit code '' @ int_text (cr_exit r) @ (if cr_cancelled r then '' (stopped)'' else []) @
     (case cr_signal r of Some info \<Rightarrow> '' ('' @ info @ '')'' | None \<Rightarrow> []) @
     (if trim (cr_stdout r) = [] then [] else [linefeed_char] @ ''stdout:'' @ [linefeed_char] @ trim_end (cr_stdout r)) @
     (if trim (cr_stderr r) = [] then [] else [linefeed_char] @ ''stderr:'' @ [linefeed_char] @ trim_end (cr_stderr r))"

definition execute_command :: "front \<Rightarrow> string \<Rightarrow> security_mode \<Rightarrow> nat \<Rightarrow> bool \<Rightarrow> (string \<times> string) action" where
  "execute_command fr command mode timeout interactive =
     and_then (check_running fr) (\<lambda>_ s d.
       case fr_execute fr command mode timeout interactive d of
         (Inl e, d') \<Rightarrow> (Inl e, s, d')
       | (Inr r, d') \<Rightarrow>
           (let s = s\<lparr>at_cancelled := cr_cancelled r\<rparr>; out = command_text r
            in if cr_cancelled r \<or> cr_exit r \<noteq> 0 then (Inl out, s, d')
               else (Inr (''exit '' @ int_text (cr_exit r) @ '', '' @
                  nat_text (length (lines_of (cr_stdout r)) + length (lines_of (cr_stderr r))) @ '' lines of output'', out), s, d')))"

definition command_question :: "front \<Rightarrow> string \<Rightarrow> string \<Rightarrow> string" where
  "command_question fr root command = command @ [linefeed_char] @ ''in '' @ fr_display fr root"

definition run_command :: "front \<Rightarrow> string \<Rightarrow> nat \<Rightarrow> bool \<Rightarrow> (string \<times> string) action" where
  "run_command fr command timeout interactive s =
     (case evaluate command (fr_cwd fr) (at_root s) RequireApproval of
        Deny reason \<Rightarrow> fails (''refused: '' @ reason) s
      | Allow \<Rightarrow>
          and_then (if at_strict s then ask fr ''run_command'' command else gives ())
            (\<lambda>_. execute_command fr command RequireApproval timeout interactive) s
      | AskConfirmation action details \<Rightarrow>
          and_then (ask fr ''run_command'' (command_question fr (at_root s) command))
            (\<lambda>_. execute_command fr command AlwaysAllow timeout interactive) s)"

text \<open>\<open>!command\<close> of the user.\<close>

definition run_user_command :: "front \<Rightarrow> string \<Rightarrow> agent_tools \<Rightarrow> disk \<Rightarrow> (bool \<times> string) \<times> agent_tools \<times> disk" where
  "run_user_command fr command s d =
     (case execute_command fr command AlwaysAllow 600 True s d of
        (Inl out, s', d') \<Rightarrow> ((False, out), s', d')
      | (Inr (_, out), s', d') \<Rightarrow> ((True, out), s', d'))"

section \<open>A call\<close>

definition MAX_RESULT :: nat where "MAX_RESULT = 16000"

text \<open>\<open>is_char_boundary\<close>, and the loops that look for one downwards and upwards.\<close>

definition char_boundary :: "string \<Rightarrow> nat \<Rightarrow> bool" where
  "char_boundary t i \<longleftrightarrow> i = 0 \<or> i = length t \<or> (i < length t \<and> \<not> continuation (t ! i))"

fun boundary_down :: "string \<Rightarrow> nat \<Rightarrow> nat" where
  "boundary_down t 0 = 0"
| "boundary_down t (Suc i) = (if char_boundary t (Suc i) then Suc i else boundary_down t i)"

function boundary_up :: "string \<Rightarrow> nat \<Rightarrow> nat" where
  "boundary_up t i = (if char_boundary t i \<or> length t \<le> i then i else boundary_up t (i + 1))"
  by pat_completeness auto
termination
  by (relation "measure (\<lambda>(t, i). length t - i)") auto

declare boundary_up.simps [simp del]

definition ellipsis :: string where "ellipsis = [CHR 0xE2, CHR 0x80, CHR 0xA6]"

definition clip :: "string \<Rightarrow> string" where
  "clip t =
     (if length t \<le> MAX_RESULT then t
      else let head = boundary_down t (MAX_RESULT * 3 div 4);
               tail = boundary_up t (length t - MAX_RESULT div 4)
           in take head t @ [linefeed_char] @ ellipsis @ '' ('' @ nat_text (tail - head) @ '' characters left out) '' @ ellipsis @
              [linefeed_char] @ drop tail t)"

definition text_arg :: "(string \<times> json) list \<Rightarrow> string \<Rightarrow> string option" where
  "text_arg m key = Option.bind (obj_get key m) json_str"

definition number_arg :: "(string \<times> json) list \<Rightarrow> string \<Rightarrow> nat option" where
  "number_arg m key = Option.bind (obj_get key m) json_u64"

definition bool_arg :: "(string \<times> json) list \<Rightarrow> string \<Rightarrow> bool" where
  "bool_arg m key = (case obj_get key m of Some (JBool b) \<Rightarrow> b | _ \<Rightarrow> False)"

definition seconds_arg :: "(string \<times> json) list \<Rightarrow> nat" where
  "seconds_arg m = min 600 (max 1 (case number_arg m ''timeout'' of Some n \<Rightarrow> n | None \<Rightarrow> 120))"

text \<open>\<open>read_item\<close> asks the rules itself; the rest of it and the other tools are in \<open>front\<close>.\<close>

definition dispatch_call :: "front \<Rightarrow> string \<Rightarrow> (string \<times> json) list \<Rightarrow> (string \<times> string) action" where
  "dispatch_call fr name m s =
     (if name = ''read_file''
      then (case text_arg m ''path'' of
              Some path \<Rightarrow> read_file fr path (number_arg m ''offset'') (number_arg m ''limit'') s
            | None \<Rightarrow> fails ''give a path'' s)
      else if name = ''write_file''
      then (case (text_arg m ''path'', text_arg m ''content'') of
              (Some path, Some content) \<Rightarrow> write_file fr path content s
            | _ \<Rightarrow> fails ''give a path and content'' s)
      else if name = ''edit_file''
      then (case (text_arg m ''path'', text_arg m ''old_text'', text_arg m ''new_text'') of
              (Some path, Some old, Some new) \<Rightarrow> edit_file fr path old new (bool_arg m ''replace_all'') s
            | _ \<Rightarrow> fails ''give a path, old_text and new_text'' s)
      else if name = ''run_command''
      then (case text_arg m ''command'' of
              Some command \<Rightarrow> run_command fr command (seconds_arg m) (bool_arg m ''interactive'') s
            | None \<Rightarrow> fails ''give a command'' s)
      else if name = ''read_item'' \<or> name = ''use_skill''
      then (case text_arg m ''name'' of
              Some item \<Rightarrow> (case check_call ''read_item'' item (at_rules s) of
                             Denied reason \<Rightarrow> fails reason s
                           | _ \<Rightarrow> fr_other fr name (JObj m) s)
            | None \<Rightarrow> fails ''give the name, as listed'' s)
      else fr_other fr name (JObj m) s)"

text \<open>The rules of a glob that fits the file come with the result.\<close>

definition with_glob_rules :: "front \<Rightarrow> string \<Rightarrow> (string \<times> json) list \<Rightarrow> string \<times> string \<Rightarrow> string" where
  "with_glob_rules fr name m result =
     (case text_arg m ''path'' of
        Some path \<Rightarrow> if name = ''read_file'' \<or> name = ''write_file'' \<or> name = ''edit_file'' then snd result @ fr_glob_rules fr path else snd result
      | None \<Rightarrow> snd result)"

definition run_tool :: "front \<Rightarrow> string \<Rightarrow> string \<Rightarrow> agent_tools \<Rightarrow> disk \<Rightarrow> string \<times> agent_tools \<times> disk" where
  "run_tool fr name arguments s d =
     (let s = s\<lparr>at_cancelled := False\<rparr> in
      if fr_stops fr then (''Error: cancelled before tool execution'', s\<lparr>at_cancelled := True\<rparr>, d)
      else case fr_parse fr arguments of
        Inr (JObj m) \<Rightarrow>
          (case dispatch_call fr name m s d of
             (Inr result, s', d') \<Rightarrow> (clip (with_glob_rules fr name m result), s', d')
           | (Inl e, s', d') \<Rightarrow> (''Error: '' @ e, s', d'))
      | _ \<Rightarrow> (''Error: Tool arguments are not a complete JSON object; nothing executed'', s, d))"

section \<open>What the gate keeps\<close>

lemma and_then_Inr:
  "and_then m f s d = (Inr y, s2, d2) \<longleftrightarrow> (\<exists>x s1 d1. m s d = (Inr x, s1, d1) \<and> f x s1 d1 = (Inr y, s2, d2))"
  by (auto simp: and_then_def split: prod.splits sum.splits)

lemma and_then_steps:
  "m s d = (Inl e, s1, d1) \<Longrightarrow> and_then m f s d = (Inl e, s1, d1)"
  "m s d = (Inr x, s1, d1) \<Longrightarrow> and_then m f s d = f x s1 d1"
  by (simp_all add: and_then_def)

lemmas action_defs = fails_def gives_def

text \<open>What an answer never changes: the deny rules, the mode and the checkpoints.\<close>

definition same_gate :: "agent_tools \<Rightarrow> agent_tools \<Rightarrow> bool" where
  "same_gate s s' \<longleftrightarrow>
     rl_denied (at_rules s') = rl_denied (at_rules s) \<and> rl_root (at_rules s') = rl_root (at_rules s) \<and> at_root s' = at_root s \<and>
     at_mode s' = at_mode s \<and> at_strict s' = at_strict s \<and> at_allow_all s' = at_allow_all s \<and> at_checkpoints s' = at_checkpoints s"

lemma same_gate_refl [simp]: "same_gate s s" "same_gate s (s\<lparr>at_refused := r\<rparr>)" "same_gate s (s\<lparr>at_cancelled := c\<rparr>)"
  by (simp_all add: same_gate_def)

lemma same_gate_trans: "same_gate s s' \<Longrightarrow> same_gate s' s'' \<Longrightarrow> same_gate s s''"
  by (simp add: same_gate_def)

lemma ask_gate: "ask fr tool why s d = (r, s', d') \<Longrightarrow> same_gate s s'"
  by (auto simp: ask_def answered_call_def remember_rule_def same_gate_def allow_rule_def Let_def
      split: verdict.splits if_splits prod.splits response.splits option.splits sum.splits)

lemma allow_outside_gate: "allow_outside fr tool path details s d = (r, s', d') \<Longrightarrow> same_gate s s'"
  by (auto simp: allow_outside_def dest: ask_gate split: if_splits)

lemma read_text_state: "read_text fr file s d = (r, s', d') \<Longrightarrow> s' = s \<and> d' = d"
  by (auto simp: read_text_def split: option.splits if_splits)

lemma read_shown_state: "read_shown fr file s d = (r, s', d') \<Longrightarrow> s' = s \<and> d' = d"
  by (auto simp: read_shown_def dest: read_text_state split: prod.splits sum.splits)

lemma read_text_Inr [simp]:
  "read_text fr file s d = (Inr t, s', d') \<longleftrightarrow> dk_files d file = Some t \<and> fr_utf8 fr t \<and> s' = s \<and> d' = d"
  by (auto simp: read_text_def split: option.splits if_splits)

lemma read_shown_Inr [simp]:
  "read_shown fr file s d = (Inr t, s', d') \<longleftrightarrow> dk_files d file = Some t \<and> fr_utf8 fr t \<and> s' = s \<and> d' = d"
  by (auto simp: read_shown_def read_text_def split: prod.splits sum.splits option.splits if_splits)

section \<open>A denied file is never written\<close>

text \<open>A path as it is shown: one line that does not end in white space.\<close>

definition plain_path :: "string \<Rightarrow> bool" where
  "plain_path p \<longleftrightarrow> p \<noteq> [] \<and> linefeed_char \<notin> set p \<and> \<not> is_ws (last p)"

definition file_target :: "string \<Rightarrow> string \<Rightarrow> string" where
  "file_target root p = (case strip_prefix root (slashes p) of Some rel \<Rightarrow> rel | None \<Rightarrow> slashes p)"

lemma first_line_question:
  assumes "linefeed_char \<notin> set l" and "l \<noteq> []" and "\<not> is_ws (hd l)" and "\<not> is_ws (last l)"
  shows "first_line (l @ linefeed_char # rest) = l"
proof -
  have "split_on (\<lambda>c. c = CHR 0x0A) (l @ linefeed_char # rest) = l # split_on (\<lambda>c. c = CHR 0x0A) rest"
    using assms(1) by (induction l) (auto simp: linefeed_char_def)
  moreover have "chomp l = l"
    using assms(2,4) by (auto simp: chomp_def strip_suffix_def suffix_def is_ws_def)
  ultimately have "lines_of (l @ linefeed_char # rest) = l # tl (lines_of (l @ linefeed_char # rest))"
    by (simp add: lines_of_def Let_def)
  then have "first_line (l @ linefeed_char # rest) = trim l"
    by (metis first_line_def list.simps(5))
  with assms show ?thesis by (simp add: trim_fixed)
qed

lemma target_of_question:
  assumes "plain_path p" and "word \<in> {''edit'', ''create'', ''replace''}" and "is_edit tool"
  shows "target root tool (word @ '' '' @ p @ [linefeed_char] @ diff) = file_target root p"
proof -
  have "first_line ((word @ '' '' @ p) @ linefeed_char # diff) = word @ '' '' @ p"
    by (rule first_line_question) (use assms in \<open>auto simp: plain_path_def linefeed_char_def is_ws_def\<close>)
  then have fl: "first_line (word @ '' '' @ p @ [linefeed_char] @ diff) = word @ '' '' @ p" by simp
  have sp: "split_once (CHR '' '') (word @ '' '' @ p) = Some (word, p)"
    using assms(2) by (auto simp: split_once_Some)
  have "tool \<noteq> ''run_command''" using assms(3) by (auto simp: is_edit_def)
  with assms(3) show ?thesis
    unfolding target_def fl sp is_edit_def file_target_def by (simp add: Let_def)
qed

lemma check_denied_file:
  assumes "plain_path p" and "word \<in> {''edit'', ''create'', ''replace''}" and "is_edit tool"
    and "r \<in> set (rl_denied rl)" and "rule_matches r tool (file_target (rl_root rl) p)"
  shows "\<exists>reason. check_call tool (word @ '' '' @ p @ [linefeed_char] @ diff) rl = Denied reason"
  unfolding check_denied_iff target_of_question [OF assms(1-3)]
  using assms(4,5) by (auto simp: call_parts_def)

lemma ask_denied: "check_call tool why (at_rules s) = Denied reason \<Longrightarrow> ask fr tool why s d = (Inl reason, s\<lparr>at_refused := True\<rparr>, d)"
  by (simp add: ask_def)


text \<open>A front end whose user says yes once; paths, UTF-8 and JSON as plain as they get.\<close>

definition demo_front :: front where
  "demo_front =
     \<lparr>fr_screen = True, fr_stops = False, fr_approve = (\<lambda>_ _ _ d. (Once, d)), fr_resolve = Inr, fr_display = id, fr_lossy = id,
      fr_utf8 = (\<lambda>_. True), fr_io = ''denied'', fr_prompt = id, fr_parse = (\<lambda>_. Inl ''no JSON''), fr_pretty = (\<lambda>_. []),
      fr_local = ''/w/.agents/settings.local.json'', fr_exclude = None, fr_cwd = True,
      fr_execute = (\<lambda>_ _ _ _ d. (Inr \<lparr>cr_exit = 0, cr_cancelled = False, cr_signal = None, cr_stdout = [], cr_stderr = []\<rparr>, d)),
      fr_other = (\<lambda>_ _. fails ''no such tool''), fr_glob_rules = (\<lambda>_. [])\<rparr>"

definition demo_checkpoints :: checkpoints where
  "demo_checkpoints = \<lparr>cs_dir = False, cs_current = [], cs_too_large = [], cs_title = [], cs_messages_before = 0, cs_done = []\<rparr>"

definition demo_agent :: "agent_mode \<Rightarrow> string list \<Rightarrow> string list \<Rightarrow> agent_tools" where
  "demo_agent m allowed denied =
     (set_mode m (tools_new id ''/w'' False demo_checkpoints))
       \<lparr>at_rules := add_rules ''.agents/settings.json'' allowed denied (rules_new id ''/w'')\<rparr>"

definition demo_disk :: disk where
  "demo_disk = \<lparr>dk_files = (\<lambda>_. None)(''/w/.env'' := Some ''KEY=1'', ''/w/a.txt'' := Some ''one two''), dk_locked = (\<lambda>_. False), dk_saved = []\<rparr>"

definition env_rule :: rule where
  "env_rule = \<lparr>ru_tool = ''edit_file'', ru_pattern = Some ''.env'', ru_source = ''.agents/settings.json''\<rparr>"


section \<open>An edit changes what was shown and nothing else\<close>

text \<open>The text between the occurrences, from left to right.\<close>

lemma replaced_parts:
  "pat \<noteq> [] \<Longrightarrow> \<exists>parts. s = join pat parts \<and> replace_text pat new s = join new parts \<and> length parts = Suc (count_text pat s)"
proof (induction pat s rule: count_text.induct)
  case (1 pat s)
  show ?case
  proof (cases "find_sub pat s")
    case None
    with "1.prems" show ?thesis
      by (intro exI [of _ "[s]"]) (simp add: count_text.simps [of pat s] replace_text.simps [of pat new s])
  next
    case (Some i)
    with 1 obtain parts where parts: "drop (i + length pat) s = join pat parts"
      "replace_text pat new (drop (i + length pat) s) = join new parts"
      "length parts = Suc (count_text pat (drop (i + length pat) s))" by blast
    from parts(3) obtain p ps where ps: "parts = p # ps" by (cases parts) auto
    have "s = join pat (take i s # parts)"
      using find_sub_Some [OF Some] parts(1) ps by simp
    moreover have "replace_text pat new s = join new (take i s # parts)"
      using Some "1.prems" parts(2) ps by (simp add: replace_text.simps [of pat new s])
    moreover have "length (take i s # parts) = Suc (count_text pat s)"
      using Some "1.prems" parts(3) by (simp add: count_text.simps [of pat s])
    ultimately show ?thesis by blast
  qed
qed

lemma replaced_once: "pat \<noteq> [] \<Longrightarrow> count_text pat s = 1 \<Longrightarrow> replace_first pat new s = replace_text pat new s"
proof -
  assume p: "pat \<noteq> []" and c: "count_text pat s = 1"
  then obtain i where i: "find_sub pat s = Some i" by (auto simp: count_text.simps [of pat s] split: option.splits)
  with p c have "count_text pat (drop (i + length pat) s) = 0" by (simp add: count_text.simps [of pat s])
  with p have "find_sub pat (drop (i + length pat) s) = None"
    by (subst (asm) count_text.simps) (simp split: option.splits)
  with p i show ?thesis
    by (simp add: replace_first_def replace_text.simps [of pat new s] replace_text.simps [of pat new "drop (i + length pat) s"])
qed

lemma store_file_Inr:
  "store_file fr file content s d = (Inr u, s', d') \<longleftrightarrow>
     \<not> dk_locked d file \<and> s' = s\<lparr>at_checkpoints := before_write file d (at_checkpoints s)\<rparr> \<and> d' = put_file file content d"
  by (auto simp: store_file_def Let_def)

lemma check_running_Inr: "check_running fr s d = (Inr u, s', d') \<longleftrightarrow> \<not> fr_stops fr \<and> s' = s \<and> d' = d"
  by (auto simp: check_running_def)

text \<open>
  C16. When an edit succeeds, the user was asked with the very lines it takes out and puts in (or a rule or mode
  lets edits run), the file still held the text the edit was worked out from when it was written, and the new text is
  that text with each occurrence of the old lines, which is only one unless all were to be replaced, exchanged for the new
  lines. No other file is touched, and the checkpoint of the request got the file as it was.
\<close>

theorem edit_is_exact:
  assumes "edit_file fr path old0 new0 everywhere s d = (Inr result, s', d')"
  shows "\<exists>file t old new parts s1 d1 s2 d2.
    fr_resolve fr path = Inr file \<and> (in_root (at_root s) file \<longrightarrow> s1 = s \<and> d1 = d) \<and> (old, new) = edit_texts t old0 new0 \<and>
    ask fr ''edit_file'' (edit_question fr file (diff_lines old new)) s1 d1 = (Inr (), s2, d2) \<and>
    dk_files d1 file = Some t \<and> dk_files d2 file = Some t \<and>
    t = join old parts \<and> d' = put_file file (join new parts) d2 \<and>
    length parts = Suc (count_text old t) \<and> count_text old t \<ge> 1 \<and> (everywhere \<or> count_text old t = 1) \<and>
    at_checkpoints s' = before_write file d2 (at_checkpoints s)"
proof -
  from assms obtain fl s1 d1 t where res: "fr_resolve fr path = Inr fl"
    and out: "allow_outside fr ''edit_file'' fl [] s d = (Inr (), s1, d1)"
    and t: "dk_files d1 fl = Some t"
    and rest: "(let old = fst (edit_texts t old0 new0); new = snd (edit_texts t old0 new0)
       in case edit_problem t old everywhere of
          Some e \<Rightarrow> fails e
        | None \<Rightarrow>
            and_then (ask fr ''edit_file'' (edit_question fr fl (diff_lines old new))) (\<lambda>_.
            and_then (check_running fr) (\<lambda>_.
            and_then (read_text fr fl) (\<lambda>now.
              if now \<noteq> t then fails changed_meanwhile
              else and_then (store_file fr fl (edit_result old new everywhere t)) (\<lambda>_ s.
                let n = nat_text (if everywhere then count_text old t else 1)
                in gives (n @ '' replaced'', show_path fr (at_root s) fl @ '' edited ('' @ n @ '' replaced).'') s))))) s1 d1 = (Inr result, s', d')"
    unfolding edit_file_def and_then_Inr by (auto simp: resolve_path_def gives_def fails_def split: sum.splits)
  define old new where "old = fst (edit_texts t old0 new0)" and "new = snd (edit_texts t old0 new0)"
  from rest have ok: "edit_problem t old everywhere = None"
    by (auto simp: old_def Let_def fails_def split: option.splits)
  with rest obtain s2 d2 where asked: "ask fr ''edit_file'' (edit_question fr fl (diff_lines old new)) s1 d1 = (Inr (), s2, d2)"
    and now: "dk_files d2 fl = Some t"
    and d': "d' = put_file fl (edit_result old new everywhere t) d2"
    and s': "at_checkpoints s' = before_write fl d2 (at_checkpoints s2)"
    unfolding old_def [symmetric] new_def [symmetric] Let_def
    by (auto simp: and_then_Inr check_running_Inr store_file_Inr gives_def fails_def Let_def split: if_splits)
  from ok have o: "old \<noteq> []" "count_text old t \<ge> 1" "everywhere \<or> count_text old t = 1"
    by (auto simp: edit_problem_def split: if_splits)
  from replaced_parts [OF o(1), of t new] obtain parts where parts: "t = join old parts"
    "replace_text old new t = join new parts" "length parts = Suc (count_text old t)" by blast
  have "edit_result old new everywhere t = join new parts"
    using o replaced_once parts(2) by (auto simp: edit_result_def)
  moreover have "in_root (at_root s) fl \<longrightarrow> s1 = s \<and> d1 = d" using out by (auto simp: allow_outside_def)
  moreover have "at_checkpoints s2 = at_checkpoints s"
    using allow_outside_gate [OF out] ask_gate [OF asked] by (simp add: same_gate_def)
  ultimately show ?thesis
    using res asked t now d' s' parts o old_def new_def by (metis prod.collapse)
qed

text \<open>With full access and no rule for the tool nothing is asked.\<close>

lemma demo_ask: "ask fr ''edit_file'' q (demo_agent Full_Mode [] []) d = (Inr (), demo_agent Full_Mode [] [], d)"
  by (simp add: ask_def check_call_def demo_agent_def add_rules_def rules_new_def set_mode_def require_approval_def tools_new_def
      is_edit_def is_memory_def REMEMBER_def FORGET_def Let_def)

lemma edit_is_exact_witness:
  "\<exists>parts s'. edit_file demo_front ''/w/a.txt'' ''two'' ''three'' False (demo_agent Full_Mode [] []) demo_disk =
      (Inr (''1 replaced'', ''a.txt edited (1 replaced).''), s', put_file ''/w/a.txt'' (join ''three'' parts) demo_disk) \<and>
    ''one two'' = join ''two'' parts \<and> length parts = 2"
proof -
  let ?s = "demo_agent Full_Mode [] []" and ?t = "''one two''"
  have t: "edit_texts ?t ''two'' ''three'' = (''two'', ''three'')" "edit_problem ?t ''two'' False = None" "count_text ''two'' ?t = 1"
    by code_simp+
  have shown: "show_path demo_front ''/w'' ''/w/a.txt'' = ''a.txt''" "nat_text 1 = ''1''"
    unfolding demo_front_def by code_simp+
  have root: "at_root ?s = ''/w''" "in_root ''/w'' ''/w/a.txt''"
    by (simp_all add: demo_agent_def set_mode_def require_approval_def tools_new_def in_root_def folder_start_def)
  have f: "fr_resolve demo_front ''/w/a.txt'' = Inr ''/w/a.txt''" "dk_files demo_disk ''/w/a.txt'' = Some ?t"
    "fr_utf8 demo_front ?t" "\<not> fr_stops demo_front" "\<not> dk_locked demo_disk ''/w/a.txt''"
    by (simp_all add: demo_front_def demo_disk_def)
  obtain s' d' where run: "edit_file demo_front ''/w/a.txt'' ''two'' ''three'' False ?s demo_disk =
      (Inr (''1 replaced'', ''a.txt edited (1 replaced).''), s', d')"
    by (simp add: edit_file_def and_then_def resolve_path_def gives_def allow_outside_def read_shown_def read_text_def f root t
        demo_ask check_running_def store_file_def Let_def shown shown [unfolded One_nat_def])
  from edit_is_exact [OF this] obtain old new parts d2 where
    "(old, new) = edit_texts ?t ''two'' ''three''" "ask demo_front ''edit_file'' (edit_question demo_front ''/w/a.txt'' (diff_lines old new)) ?s demo_disk = (Inr (), ?s, d2)"
    "?t = join old parts" "d' = put_file ''/w/a.txt'' (join new parts) d2" "length parts = Suc (count_text old ?t)"
    using root f(1,2) demo_ask by (auto simp del: join.simps)
  with t run demo_ask show ?thesis by (intro exI [of _ parts] exI [of _ s']) auto
qed

section \<open>Where the rules are not asked\<close>



text \<open>
  C40. Plan mode runs what an allow rule covers: for an edit, a command that asks or an installed tool the gate opens in plan mode
  exactly when a rule allows the call, without a question and without a change of its own; and a command that counts as read-only is run
  in plan mode as in any other.
\<close>

theorem plan_mode_follows_allow_rules:
  assumes "at_mode s = Plan_Mode" and "is_edit tool \<or> tool = ''run_command'' \<or> contains tool '':''"
  shows "(fst (ask fr tool why s d) = Inr () \<longleftrightarrow> check_call tool why (at_rules s) = Allowed) \<and> snd (snd (ask fr tool why s d)) = d \<and>
    (evaluate command (fr_cwd fr) (at_root s) RequireApproval = Allow \<and> \<not> at_strict s \<longrightarrow>
       run_command fr command timeout interactive s d = execute_command fr command RequireApproval timeout interactive s d)"
  using assms by (auto simp: ask_def run_command_def and_then_def gives_def split: verdict.split)

lemma plan_mode_follows_allow_rules_witness:
  "\<exists>s. at_mode s = Plan_Mode \<and> fst (ask demo_front ''edit_file'' (''edit /w/src/a.rs'' @ [linefeed_char]) s demo_disk) = Inr () \<and>
     run_command demo_front ''find . -delete'' 120 False s demo_disk = execute_command demo_front ''find . -delete'' RequireApproval 120 False s demo_disk"
proof -
  let ?s = "demo_agent Plan_Mode [''edit_file(src/*)''] []"
  have m: "at_mode ?s = Plan_Mode" "is_edit ''edit_file''"
    by (simp_all add: demo_agent_def set_mode_def is_edit_def)
  have root: "at_root ?s = ''/w''" "fr_cwd demo_front" "\<not> at_strict ?s" "at_rules ?s = add_rules ''.agents/settings.json'' [''edit_file(src/*)''] [] (rules_new id ''/w'')"
    by (simp_all add: demo_agent_def set_mode_def require_approval_def tools_new_def demo_front_def)
  have e: "evaluate ''find . -delete'' (fr_cwd demo_front) (at_root ?s) RequireApproval = Allow"
    unfolding root(1) eqTrueI [OF root(2)] by code_simp
  have c: "check_call ''edit_file'' (''edit /w/src/a.rs'' @ [linefeed_char]) (at_rules ?s) = Allowed"
    unfolding root(4) by code_simp
  show ?thesis
    using plan_mode_follows_allow_rules [OF m(1), of "''edit_file''" demo_front "''edit /w/src/a.rs'' @ [linefeed_char]" demo_disk "''find . -delete''" 120 False]
      m e c root(3) by (intro exI [of _ ?s]) blast
qed

section \<open>A request of tool calls can be undone\<close>

fun run_tools :: "front \<Rightarrow> (string \<times> string) list \<Rightarrow> agent_tools \<Rightarrow> disk \<Rightarrow> agent_tools \<times> disk" where
  "run_tools fr [] s d = (s, d)"
| "run_tools fr ((name, arguments) # cs) s d = (case run_tool fr name arguments s d of (_, s', d') \<Rightarrow> run_tools fr cs s' d')"

text \<open>The user answers once at a time and nobody else writes files meanwhile.\<close>

definition quiet :: "front \<Rightarrow> bool" where
  "quiet fr \<longleftrightarrow> (\<forall>tool why r d. snd (fr_approve fr tool why r d) = d \<and> fst (fr_approve fr tool why r d) \<noteq> Remember)"

lemma ask_quiet: "quiet fr \<Longrightarrow> ask fr tool why s d = (r, s', d') \<Longrightarrow> d' = d"
proof -
  assume q: "quiet fr" and a: "ask fr tool why s d = (r, s', d')"
  have "snd (fr_approve fr tool why x d) = d" "fst (fr_approve fr tool why x d) \<noteq> Remember" for x
    using q by (auto simp: quiet_def)
  with a show ?thesis
    by (auto simp: ask_def answered_call_def Let_def split: verdict.splits if_splits prod.splits response.splits) (metis fst_conv snd_conv)+
qed

lemma allow_outside_quiet: "quiet fr \<Longrightarrow> allow_outside fr tool path details s d = (r, s', d') \<Longrightarrow> d' = d"
  by (auto simp: allow_outside_def dest: ask_quiet split: if_splits)

text \<open>What a call does to the checkpoints and the disk: changes of files, each shown to \<open>before_write\<close>.\<close>

definition checkpointed :: "agent_tools \<Rightarrow> disk \<Rightarrow> agent_tools \<Rightarrow> disk \<Rightarrow> bool" where
  "checkpointed s d s' d' \<longleftrightarrow> (\<exists>edits. change_files (at_checkpoints s) d edits = (at_checkpoints s', d'))"

lemma checkpointed_refl: "at_checkpoints s' = at_checkpoints s \<Longrightarrow> checkpointed s d s' d"
  unfolding checkpointed_def by (intro exI [of _ "[]"]) (simp add: change_files_def)

lemma checkpointed_trans: "checkpointed s d s1 d1 \<Longrightarrow> checkpointed s1 d1 s2 d2 \<Longrightarrow> checkpointed s d s2 d2"
  unfolding checkpointed_def change_files_def by (metis foldl_append)

definition only_checkpointed :: "'a action \<Rightarrow> bool" where
  "only_checkpointed m \<longleftrightarrow> (\<forall>s d r s' d'. m s d = (r, s', d') \<longrightarrow> checkpointed s d s' d')"

lemma only_checkpointedI: "(\<And>s d r s' d'. m s d = (r, s', d') \<Longrightarrow> checkpointed s d s' d') \<Longrightarrow> only_checkpointed m"
  by (simp add: only_checkpointed_def)

lemma only_and_then: "only_checkpointed m \<Longrightarrow> (\<And>x. only_checkpointed (f x)) \<Longrightarrow> only_checkpointed (and_then m f)"
  unfolding only_checkpointed_def and_then_def
  by (fastforce intro: checkpointed_trans split: prod.splits sum.splits)

lemma only_idle: "(\<And>s d r s' d'. m s d = (r, s', d') \<Longrightarrow> d' = d \<and> at_checkpoints s' = at_checkpoints s) \<Longrightarrow> only_checkpointed m"
  by (rule only_checkpointedI) (metis checkpointed_refl)

lemma only_ask: "quiet fr \<Longrightarrow> only_checkpointed (ask fr tool why)"
  by (rule only_idle) (auto dest: ask_quiet ask_gate simp: same_gate_def)

lemma only_allow_outside: "quiet fr \<Longrightarrow> only_checkpointed (allow_outside fr tool path details)"
  by (rule only_idle) (auto dest: allow_outside_quiet allow_outside_gate simp: same_gate_def)

lemma only_authorize: "quiet fr \<Longrightarrow> only_checkpointed (authorize_read fr tool path details)"
  using only_ask [of fr tool "with_details (fr_display fr path) details"] only_allow_outside [of fr tool path details]
  by (auto simp: only_checkpointed_def authorize_read_def)

lemma only_plain:
  "only_checkpointed (fails e)" "only_checkpointed (gives x)" "only_checkpointed (check_running fr)" "only_checkpointed (resolve_path fr p)"
  "only_checkpointed (read_text fr p)" "only_checkpointed (read_shown fr p)" "only_checkpointed (read_bytes fr p)"
  by (rule only_idle; auto simp: action_defs check_running_def resolve_path_def read_bytes_def
        dest: read_text_state read_shown_state split: if_splits sum.splits option.splits)+

lemma only_store: "only_checkpointed (store_file fr p content)"
proof (rule only_checkpointedI)
  fix s d r s' d'
  assume "store_file fr p content s d = (r, s', d')"
  then have "change_files (at_checkpoints s) d [(p, if dk_locked d p then dk_files d p else Some content)] = (at_checkpoints s', d')"
    by (auto simp: store_file_def change_files_def change_file_def put_file_def Let_def split: if_splits)
  then show "checkpointed s d s' d'" unfolding checkpointed_def by blast
qed

lemmas only_rules = only_and_then only_ask only_allow_outside only_authorize only_plain only_store

lemma only_state: "(\<And>s. only_checkpointed (m s)) \<Longrightarrow> only_checkpointed (\<lambda>s. m s s)"
  by (simp add: only_checkpointed_def)

lemma only_disk: "(\<And>s d. only_checkpointed (m s d)) \<Longrightarrow> only_checkpointed (\<lambda>s d. m s d s d)"
  by (simp add: only_checkpointed_def)

lemma only_write: "quiet fr \<Longrightarrow> only_checkpointed (write_file fr path content)"
proof (unfold write_file_def, rule only_and_then)
  fix p
  assume q: "quiet fr"
  show "only_checkpointed (\<lambda>s d.
       let replaces = (dk_files d p \<noteq> None);
           lines = nat_text (length (lines_of content));
           what = (if replaces then ''replaced'' else ''created'')
       in and_then (ask fr ''write_file'' (write_question fr replaces p (diff_lines (old_text fr (dk_files d p)) content)))
            (\<lambda>_. and_then (check_running fr)
            (\<lambda>_. and_then (store_file fr p content)
            (\<lambda>_ s. gives (what @ '', '' @ lines @ '' lines'', show_path fr (at_root s) p @ '' '' @ what @ '' ('' @ lines @ '' lines).'') s))) s d)"
    unfolding Let_def by (rule only_disk, rule only_and_then [OF only_ask [OF q]], rule only_and_then [OF only_plain(3)],
        rule only_and_then [OF only_store], rule only_state, rule only_plain(2))
qed (rule only_plain(4))

lemma only_edit: "quiet fr \<Longrightarrow> only_checkpointed (edit_file fr path old new everywhere)"
proof -
  assume q: "quiet fr"
  have stored: "only_checkpointed (and_then (store_file fr p c) (\<lambda>_ s. gives (g s) s))" for p c and g :: "agent_tools \<Rightarrow> string \<times> string"
    by (rule only_and_then [OF only_store], rule only_state, rule only_plain(2))
  have last_step: "only_checkpointed (if now \<noteq> t then fails changed_meanwhile else and_then (store_file fr p c) (\<lambda>_ s. gives (g s) s))"
    for now t p c and g :: "agent_tools \<Rightarrow> string \<times> string"
    by (cases "now = t") (simp_all add: only_plain(1) stored)
  have later: "only_checkpointed (and_then (ask fr ''edit_file'' w) (\<lambda>_. and_then (check_running fr) (\<lambda>_. and_then (read_text fr p) (\<lambda>now.
      if now \<noteq> t then fails changed_meanwhile else and_then (store_file fr p c) (\<lambda>_ s. gives (g s) s)))))" for w p t c and g :: "agent_tools \<Rightarrow> string \<times> string"
    by (rule only_and_then [OF only_ask [OF q]], rule only_and_then [OF only_plain(3)], rule only_and_then [OF only_plain(5)], rule last_step)
  have decided: "only_checkpointed (case problem of Some e \<Rightarrow> fails e | None \<Rightarrow> and_then (ask fr ''edit_file'' w) (\<lambda>_. and_then (check_running fr) (\<lambda>_. and_then (read_text fr p) (\<lambda>now.
      if now \<noteq> t then fails changed_meanwhile else and_then (store_file fr p c) (\<lambda>_ s. gives (g s) s)))))" for problem w p t c and g :: "agent_tools \<Rightarrow> string \<times> string"
    by (cases problem) (simp_all only: option.case later only_plain(1))
  show ?thesis
    unfolding edit_file_def Let_def
    by (rule only_and_then [OF only_plain(4)], rule only_and_then [OF only_allow_outside [OF q]], rule only_and_then [OF only_plain(6)], rule decided)
qed

lemma only_read: "quiet fr \<Longrightarrow> only_checkpointed (read_file fr path offset count)"
  unfolding read_file_def Let_def
  by (rule only_and_then [OF only_plain(4)], rule only_and_then [OF only_authorize], assumption, rule only_and_then [OF only_plain(7)])
     (auto intro: only_plain(1,2))

text \<open>The tools of the agent that work on files.\<close>

definition FILE_TOOLS :: "string set" where
  "FILE_TOOLS = {''read_file'', ''write_file'', ''edit_file''}"

lemma dispatch_files:
  "dispatch_call fr ''read_file'' m =
     (case text_arg m ''path'' of Some path \<Rightarrow> read_file fr path (number_arg m ''offset'') (number_arg m ''limit'') | None \<Rightarrow> fails ''give a path'')"
  "dispatch_call fr ''write_file'' m =
     (case (text_arg m ''path'', text_arg m ''content'') of
        (Some path, Some content) \<Rightarrow> write_file fr path content | _ \<Rightarrow> fails ''give a path and content'')"
  "dispatch_call fr ''edit_file'' m =
     (case (text_arg m ''path'', text_arg m ''old_text'', text_arg m ''new_text'') of
        (Some path, Some old, Some new) \<Rightarrow> edit_file fr path old new (bool_arg m ''replace_all'')
      | _ \<Rightarrow> fails ''give a path, old_text and new_text'')"
  by (rule ext; simp add: dispatch_call_def split: option.split)+

lemma only_dispatch:
  assumes "quiet fr" and "name \<in> FILE_TOOLS"
  shows "only_checkpointed (dispatch_call fr name m)"
proof -
  note only = only_read [OF assms(1)] only_write [OF assms(1)] only_edit [OF assms(1)] only_plain(1)
  have "only_checkpointed (dispatch_call fr ''read_file'' m)"
    unfolding dispatch_files(1) by (cases "text_arg m ''path''") (simp_all add: only)
  moreover have "only_checkpointed (dispatch_call fr ''write_file'' m)"
    unfolding dispatch_files(2) by (cases "text_arg m ''path''"; cases "text_arg m ''content''") (simp_all add: only)
  moreover have "only_checkpointed (dispatch_call fr ''edit_file'' m)"
    unfolding dispatch_files(3)
    by (cases "text_arg m ''path''"; cases "text_arg m ''old_text''"; cases "text_arg m ''new_text''") (simp_all add: only)
  ultimately show ?thesis using assms(2) by (auto simp: FILE_TOOLS_def)
qed

lemma run_tool_checkpointed:
  assumes "quiet fr" and "name \<in> FILE_TOOLS" and "run_tool fr name arguments s d = (out, s', d')"
  shows "checkpointed s d s' d'"
proof -
  have same: "checkpointed s d s1 d1" if "at_checkpoints s1 = at_checkpoints s" "d1 = d" for s1 d1
    using that by (simp add: checkpointed_refl)
  have "checkpointed (s\<lparr>at_cancelled := False\<rparr>) d s' d'"
    if "dispatch_call fr name m (s\<lparr>at_cancelled := False\<rparr>) d = (r, s', d')" for m r
    using only_dispatch [OF assms(1,2)] that by (auto simp: only_checkpointed_def)
  moreover have "checkpointed s d s' d' \<longleftrightarrow> checkpointed (s\<lparr>at_cancelled := False\<rparr>) d s' d'"
    by (simp add: checkpointed_def)
  ultimately show ?thesis
    using assms(3) same by (auto simp: run_tool_def Let_def split: if_splits sum.splits json.splits prod.splits)
qed

lemma run_tools_checkpointed:
  "quiet fr \<Longrightarrow> fst ` set calls \<subseteq> FILE_TOOLS \<Longrightarrow> run_tools fr calls s d = (s', d') \<Longrightarrow> checkpointed s d s' d'"
proof (induction calls arbitrary: s d)
  case Nil
  then show ?case by (simp add: checkpointed_refl)
next
  case (Cons c calls)
  obtain name arguments where c: "c = (name, arguments)" by (cases c)
  obtain out s1 d1 where r: "run_tool fr name arguments s d = (out, s1, d1)" by (metis prod_cases3)
  from Cons.prems c have n: "name \<in> FILE_TOOLS" by simp
  from run_tool_checkpointed [OF Cons.prems(1) n r] have "checkpointed s d s1 d1" .
  moreover have "checkpointed s1 d1 s' d'" using Cons.IH [of s1 d1] Cons.prems c r by simp
  ultimately show ?case by (rule checkpointed_trans)
qed

lemma last_keep_last: "last (keep_last (xs @ [x])) = x"
proof -
  have "keep_last (xs @ [x]) = drop (length xs + 1 - KEEP) xs @ [x]"
    by (auto simp: keep_last_def KEEP_def)
  then show ?thesis by simp
qed


text \<open>A front end that parses one call.\<close>

definition demo_call :: "(string \<times> json) list" where
  "demo_call = [(''path'', JStr ''/w/a.txt''), (''content'', JStr ''three'')]"

definition call_front :: front where
  "call_front = demo_front\<lparr>fr_parse := (\<lambda>_. Inr (JObj demo_call))\<rparr>"


end
