(* ===== verification/Plugin_Net.thy ===== *)
theory Plugin_Net
  imports Json "HOL-Library.Word"
begin

unbundle bit_operations_syntax

text \<open>
  agents/src/plugins/net.rs: the network of a WebAssembly plugin. The crates \<open>url\<close> and \<open>reqwest\<close>, the
  name lookup and the servers are the record \<open>net_lib\<close>; a lookup and an answer may differ each time, so both
  get the number of the hop. Every request that leaves is kept in the list \<open>fetch\<close> returns. Times are seconds.
\<close>

section \<open>Addresses\<close>

datatype ip = V4 "32 word" | V6 "128 word"

definition octet :: "nat \<Rightarrow> 32 word \<Rightarrow> nat" where
  "octet i a = unat (drop_bit (24 - 8 * i) a) mod 256"

definition segment :: "nat \<Rightarrow> 128 word \<Rightarrow> nat" where
  "segment i a = unat (drop_bit (112 - 16 * i) a) mod 65536"

definition public_v4 :: "32 word \<Rightarrow> bool" where
  "public_v4 v4 \<longleftrightarrow>
     (let a = octet 0 v4; b = octet 1 v4; c = octet 2 v4 in
      \<not> (a = 0 \<or> a = 10 \<or> a = 127 \<or> a \<ge> 224 \<or> (a = 100 \<and> 64 \<le> b \<and> b < 128) \<or> (a = 169 \<and> b = 254) \<or>
         (a = 172 \<and> 16 \<le> b \<and> b < 32) \<or> (a = 192 \<and> b = 0 \<and> c = 0) \<or> (a = 192 \<and> b = 0 \<and> c = 2) \<or> (a = 192 \<and> b = 168) \<or>
         (a = 198 \<and> (b = 18 \<or> b = 19)) \<or> (a = 198 \<and> b = 51 \<and> c = 100) \<or> (a = 203 \<and> b = 0 \<and> c = 113)))"

text \<open>\<open>to_ipv4_mapped\<close>: the last 32 bits of an address in \<open>::ffff:0:0/96\<close>.\<close>

definition ipv4_mapped :: "128 word \<Rightarrow> 32 word option" where
  "ipv4_mapped v6 = (if drop_bit 32 v6 = 0xffff then Some (ucast v6) else None)"

definition is_public :: "ip \<Rightarrow> bool" where
  "is_public i =
     (case i of
        V4 v4 \<Rightarrow> public_v4 v4
      | V6 v6 \<Rightarrow>
          (case ipv4_mapped v6 of
             Some v4 \<Rightarrow> public_v4 v4
           | None \<Rightarrow>
               let first = segment 0 v6 in
               if first = 0x0064 \<and> segment 1 v6 = 0xff9b \<and> map (\<lambda>i. segment i v6) [2, 3, 4, 5] = [0, 0, 0, 0]
               then public_v4 (ucast v6)
               else \<not> (v6 = 1 \<or> v6 = 0 \<or> first AND 0xfe00 = 0xfc00 \<or> first AND 0xffc0 = 0xfe80 \<or> first AND 0xff00 = 0xff00 \<or>
                       first = 0x0064 \<or> first = 0x2002 \<or> (first = 0x2001 \<and> segment 1 v6 = 0x0db8))))"

section \<open>The world around a plugin\<close>

definition MAX_BODY_BYTES :: nat where "MAX_BODY_BYTES = 5 * 1024 * 1024"
definition MAX_REQUESTS :: nat where "MAX_REQUESTS = 16"
definition MAX_REDIRECTS :: nat where "MAX_REDIRECTS = 5"
definition CALL_DEADLINE :: nat where "CALL_DEADLINE = 60"
definition REQUEST_TIMEOUT :: nat where "REQUEST_TIMEOUT = 20"

record refused =
  rf_code :: string
  rf_message :: string

definition refuse :: "string \<Rightarrow> string \<Rightarrow> refused + 'a" where
  "refuse code message = Inl \<lparr>rf_code = code, rf_message = message\<rparr>"

datatype http_method = GET | POST

type_synonym headers = "(string, string) hmap"

record 'u outgoing =
  og_method :: http_method
  og_url :: 'u
  og_headers :: headers
  og_body :: "string option"
  og_addresses :: "(ip \<times> nat) list"
  og_timeout :: nat

record http_response =
  rs_status :: nat
  rs_location :: "string option"
  rs_content_type :: "string option"
  rs_body :: "string + string"

record 'u net_lib =
  nl_parse :: "string \<Rightarrow> string + 'u"
  nl_host :: "'u \<Rightarrow> string option"
  nl_port :: "'u \<Rightarrow> nat option"
  nl_username :: "'u \<Rightarrow> string"
  nl_password :: "'u \<Rightarrow> string option"
  nl_scheme :: "'u \<Rightarrow> string"
  nl_join :: "'u \<Rightarrow> string \<Rightarrow> string + 'u"
  nl_text :: "'u \<Rightarrow> string"
  nl_lookup :: "nat \<Rightarrow> string \<Rightarrow> nat \<Rightarrow> string + (ip \<times> nat) list"
  nl_client :: "'u \<Rightarrow> string + unit"
  nl_send :: "nat \<Rightarrow> 'u outgoing \<Rightarrow> string + http_response"
  nl_header_name :: "string \<Rightarrow> bool"
  nl_header_value :: "string \<Rightarrow> bool"
  nl_lossy :: "string \<Rightarrow> string"

record net_request =
  nr_method :: "string option"
  nr_url :: string
  nr_headers :: "(string \<times> string) list"
  nr_body :: "string option"
  nr_max_bytes :: "nat option"

record permissions =
  pm_network_access :: bool
  pm_secrets :: "(string, string) hmap"
  pm_user_urls :: "string list"

record net_access =
  na_allowed :: bool
  na_secrets :: "(string, string) hmap"
  na_user_urls :: "string list"
  na_settings :: "(string, string) hmap"
  na_requests :: nat
  na_started :: nat

definition net_new :: "permissions option \<Rightarrow> (string, string) hmap \<Rightarrow> nat \<Rightarrow> net_access" where
  "net_new pm settings now =
     \<lparr>na_allowed = (case pm of Some p \<Rightarrow> pm_network_access p | None \<Rightarrow> False),
      na_secrets = (case pm of Some p \<Rightarrow> pm_secrets p | None \<Rightarrow> []),
      na_user_urls = (case pm of Some p \<Rightarrow> pm_user_urls p | None \<Rightarrow> []),
      na_settings = settings, na_requests = 0, na_started = now\<rparr>"

definition net_none :: "nat \<Rightarrow> net_access" where
  "net_none now = net_new None [] now"

section \<open>A request\<close>

definition setting_of :: "string \<Rightarrow> net_access \<Rightarrow> string option" where
  "setting_of name a = (case hm_get name (na_settings a) of Some v \<Rightarrow> if trim v = [] then None else Some v | None \<Rightarrow> None)"

text \<open>\<open>split_once\<close> on two closing braces.\<close>

definition closing_braces :: string where "closing_braces = ''}}''"

definition split_braces :: "string \<Rightarrow> (string \<times> string) option" where
  "split_braces t = map_option (\<lambda>i. (take i t, drop (i + length closing_braces) t)) (find_sub closing_braces t)"

definition resolve_url :: "'u net_lib \<Rightarrow> string \<Rightarrow> net_access \<Rightarrow> refused + 'u \<times> (string \<times> nat) option" where
  "resolve_url lib raw a =
     (case strip_prefix ''{{url:'' raw of
        None \<Rightarrow> (case nl_parse lib raw of Inl e \<Rightarrow> refuse ''bad_request'' (''Bad URL: '' @ e) | Inr url \<Rightarrow> Inr (url, None))
      | Some rest \<Rightarrow>
          (case split_braces rest of
             None \<Rightarrow> refuse ''bad_request'' ''An unfinished {{url:NAME}}''
           | Some (name, path) \<Rightarrow>
               if name \<notin> set (na_user_urls a) then refuse ''no_permission'' (name @ '' is not in permissions.user_urls'')
               else (case setting_of name a of
                  None \<Rightarrow> refuse ''missing_setting'' (name @ '' is not set'')
                | Some base \<Rightarrow>
                    (case nl_parse lib (rev (dropWhile (\<lambda>c. c = CHR ''/'') (rev (trim base))) @ path) of
                       Inl e \<Rightarrow> refuse ''bad_request'' (name @ '' is not a valid URL: '' @ e)
                     | Inr url \<Rightarrow>
                         (case (nl_host lib url, nl_port lib url) of
                            (Some host, Some port) \<Rightarrow> Inr (url, Some (host, port))
                          | _ \<Rightarrow> refuse ''bad_request'' (name @ '' has no host''))))))"

definition secret_mark :: string where "secret_mark = ''{{secret:''"

text \<open>The value that replaces a secret's name, for the host it may go to.\<close>

definition secret_value :: "string option \<Rightarrow> string \<Rightarrow> net_access \<Rightarrow> refused + string" where
  "secret_value host name a =
     (case hm_get name (na_secrets a) of
        None \<Rightarrow> refuse ''no_permission'' (name @ '' is not in permissions.secrets'')
      | Some h \<Rightarrow>
          if host = Some h
          then (case setting_of name a of None \<Rightarrow> refuse ''missing_setting'' (name @ '' is not set'') | Some v \<Rightarrow> Inr (trim v))
          else refuse ''no_permission'' (name @ '' may only be sent to '' @ h))"

lemma split_braces_shorter: "split_braces t = Some (name, rest) \<Longrightarrow> length rest < length t"
  by (auto simp: split_braces_def closing_braces_def dest!: find_sub_Some)

text \<open>The \<open>while\<close> loop of \<open>fill_secrets\<close>: \<open>filled\<close> is what is done.\<close>

function fill_from :: "string option \<Rightarrow> net_access \<Rightarrow> string \<Rightarrow> string \<Rightarrow> refused + string" where
  "fill_from host a filled rest =
     (case find_sub secret_mark rest of
        None \<Rightarrow> Inr (filled @ rest)
      | Some start \<Rightarrow>
          (case split_braces (drop (start + length secret_mark) rest) of
             None \<Rightarrow> refuse ''bad_request'' ''An unfinished {{secret:NAME}}''
           | Some (name, tail) \<Rightarrow>
               (case secret_value host name a of
                  Inl e \<Rightarrow> Inl e
                | Inr v \<Rightarrow> fill_from host a (filled @ take start rest @ v) tail)))"
  by pat_completeness auto
termination
  by (relation "measure (\<lambda>(host, a, filled, rest). length rest)") (auto dest!: split_braces_shorter)

declare fill_from.simps [simp del]

definition fill_secrets :: "string option \<Rightarrow> string \<Rightarrow> net_access \<Rightarrow> refused + string" where
  "fill_secrets host t a = fill_from host a [] t"

fun resolve_headers :: "'u net_lib \<Rightarrow> (string \<times> string) list \<Rightarrow> string option \<Rightarrow> net_access \<Rightarrow> headers \<Rightarrow> refused + headers" where
  "resolve_headers lib [] host a out = Inr out"
| "resolve_headers lib ((name, value) # wanted) host a out =
     (if eq_ignore_case name ''user-agent'' \<or> eq_ignore_case name ''host'' then resolve_headers lib wanted host a out
      else case fill_secrets host value a of
        Inl e \<Rightarrow> Inl e
      | Inr filled \<Rightarrow>
          if \<not> nl_header_name lib name then refuse ''bad_request'' (''Bad header name: '' @ name)
          else if \<not> nl_header_value lib filled then refuse ''bad_request'' (''Bad value for header '' @ to_lower name)
          else resolve_headers lib wanted host a (hm_insert (to_lower name) filled out))"

definition check_target :: "'u net_lib \<Rightarrow> nat \<Rightarrow> 'u \<Rightarrow> (string \<times> nat) option \<Rightarrow> refused + (ip \<times> nat) list" where
  "check_target lib hop url trusted =
     (case (nl_host lib url, nl_port lib url) of
        (Some host, Some port) \<Rightarrow>
          if nl_username lib url \<noteq> [] \<or> nl_password lib url \<noteq> None
          then refuse ''blocked'' ''A URL with a user name or password is not allowed''
          else let is_trusted = (trusted = Some (host, port)) in
            if \<not> (nl_scheme lib url = ''https'' \<or> nl_scheme lib url = ''http'' \<and> is_trusted)
            then refuse ''blocked'' (''Only https is allowed, not '' @ nl_scheme lib url)
            else (case nl_lookup lib hop (rev (dropWhile (\<lambda>c. c = CHR '']'') (rev (dropWhile (\<lambda>c. c = CHR ''['') host)))) port of
                Inl e \<Rightarrow> refuse ''network'' (''Could not find '' @ host @ '': '' @ e)
              | Inr addresses \<Rightarrow>
                  if addresses = [] then refuse ''network'' (''Could not find '' @ host)
                  else if \<not> is_trusted \<and> list_ex (\<lambda>(i, p). \<not> is_public i) addresses
                  then refuse ''blocked'' (host @ '' is a local or private address'')
                  else Inr addresses)
      | _ \<Rightarrow> refuse ''blocked'' ''The URL has no host'')"

record 'u journey =
  jn_method :: http_method
  jn_url :: 'u
  jn_headers :: headers
  jn_body :: "string option"

text \<open>What a redirect changes.\<close>

definition redirected :: "'u net_lib \<Rightarrow> nat \<Rightarrow> 'u \<Rightarrow> 'u journey \<Rightarrow> 'u journey" where
  "redirected lib status next_url j =
     (let j = (if nl_host lib next_url \<noteq> nl_host lib (jn_url j) then j\<lparr>jn_headers := []\<rparr> else j);
          j = (if status = 303 \<or> (status \<in> {301, 302} \<and> jn_method j = POST) then j\<lparr>jn_method := GET, jn_body := None\<rparr> else j)
      in j\<lparr>jn_url := next_url\<rparr>)"

definition answer_json :: "'u net_lib \<Rightarrow> nat \<Rightarrow> 'u \<Rightarrow> http_response \<Rightarrow> string \<Rightarrow> json" where
  "answer_json lib limit url r bytes =
     JObj [(''status'', json_nat (rs_status r)), (''final_url'', JStr (nl_text lib url)),
       (''content_type'', JStr (case rs_content_type r of Some t \<Rightarrow> t | None \<Rightarrow> [])),
       (''body'', JStr (nl_lossy lib (take limit bytes))), (''truncated'', JBool (length (take (limit + 1) bytes) > limit))]"

text \<open>The loop over the hops that are left; the list is what was sent.\<close>

fun follow ::
  "'u net_lib \<Rightarrow> (string \<times> nat) option \<Rightarrow> nat \<Rightarrow> nat \<Rightarrow> nat \<Rightarrow> nat \<Rightarrow> 'u journey \<Rightarrow> (refused + json) \<times> 'u outgoing list" where
  "follow lib trusted timeout limit 0 hop j = (refuse ''network'' (''More than '' @ nat_text MAX_REDIRECTS @ '' redirects''), [])"
| "follow lib trusted timeout limit (Suc left) hop j =
     (case check_target lib hop (jn_url j) trusted of
        Inl e \<Rightarrow> (Inl e, [])
      | Inr addresses \<Rightarrow>
          (case nl_client lib (jn_url j) of
             Inl e \<Rightarrow> (refuse ''network'' e, [])
           | Inr _ \<Rightarrow>
               (let out = \<lparr>og_method = jn_method j, og_url = jn_url j, og_headers = jn_headers j, og_body = jn_body j,
                           og_addresses = addresses, og_timeout = timeout\<rparr>
                in case nl_send lib hop out of
                  Inl e \<Rightarrow> (refuse ''network'' e, [out])
                | Inr r \<Rightarrow>
                    (case (if 300 \<le> rs_status r \<and> rs_status r < 400 then rs_location r else None) of
                       Some location \<Rightarrow>
                         (case nl_join lib (jn_url j) location of
                            Inl e \<Rightarrow> (refuse ''network'' (''Bad redirect: '' @ e), [out])
                          | Inr next_url \<Rightarrow>
                              (case follow lib trusted timeout limit left (hop + 1) (redirected lib (rs_status r) next_url j) of
                                 (answer, outs) \<Rightarrow> (answer, out # outs)))
                     | None \<Rightarrow>
                         (case rs_body r of
                            Inl e \<Rightarrow> (refuse ''network'' e, [out])
                          | Inr bytes \<Rightarrow> (Inr (answer_json lib limit (jn_url j) r bytes), [out]))))))"

definition method_of :: "string option \<Rightarrow> refused + http_method" where
  "method_of m =
     (case m of None \<Rightarrow> Inr GET | Some t \<Rightarrow>
        if t = ''GET'' then Inr GET else if t = ''POST'' then Inr POST
        else refuse ''bad_request'' (''Method '' @ t @ '' is not supported''))"

definition try_fetch ::
  "'u net_lib \<Rightarrow> (string \<Rightarrow> string + net_request) \<Rightarrow> nat \<Rightarrow> string \<Rightarrow> net_access \<Rightarrow> (refused + json) \<times> 'u outgoing list \<times> net_access" where
  "try_fetch lib parse now raw a =
     (if \<not> na_allowed a then (refuse ''no_permission'' ''This plugin does not have network access in its package.json'', [], a)
      else case parse raw of
        Inl e \<Rightarrow> (refuse ''bad_request'' (''The request is not valid: '' @ e), [], a)
      | Inr request \<Rightarrow>
          if na_requests a \<ge> MAX_REQUESTS
          then (refuse ''limit'' (''A plugin call may make '' @ nat_text MAX_REQUESTS @ '' requests at most''), [], a)
          else if CALL_DEADLINE - (now - na_started a) = 0 then (refuse ''limit'' ''This plugin call ran out of time'', [], a)
          else
            let remaining = CALL_DEADLINE - (now - na_started a);
                a = a\<lparr>na_requests := na_requests a + 1\<rparr>
            in case resolve_url lib (nr_url request) a of
              Inl e \<Rightarrow> (Inl e, [], a)
            | Inr (url, trusted) \<Rightarrow>
                (case resolve_headers lib (nr_headers request) (nl_host lib url) a [] of
                   Inl e \<Rightarrow> (Inl e, [], a)
                 | Inr headers \<Rightarrow>
                     (case method_of (nr_method request) of
                        Inl e \<Rightarrow> (Inl e, [], a)
                      | Inr m \<Rightarrow>
                          (case follow lib trusted (min remaining REQUEST_TIMEOUT)
                                  (min (case nr_max_bytes request of Some n \<Rightarrow> n | None \<Rightarrow> MAX_BODY_BYTES) MAX_BODY_BYTES)
                                  (MAX_REDIRECTS + 1) 0
                                  \<lparr>jn_method = m, jn_url = url, jn_headers = headers, jn_body = nr_body request\<rparr> of
                             (answer, outs) \<Rightarrow> (answer, outs, a)))))"

definition fetch ::
  "'u net_lib \<Rightarrow> (string \<Rightarrow> string + net_request) \<Rightarrow> nat \<Rightarrow> string \<Rightarrow> net_access \<Rightarrow> json \<times> 'u outgoing list \<times> net_access" where
  "fetch lib parse now raw a =
     (case try_fetch lib parse now raw a of
        (Inr v, outs, a') \<Rightarrow> (v, outs, a')
      | (Inl r, outs, a') \<Rightarrow> (JObj [(''code'', JStr (rf_code r)), (''error'', JStr (rf_message r))], outs, a'))"

section \<open>The settings of plugins\<close>

text \<open>\<open>config/tool_settings.json\<close> as its text. A section is read only if all of its values are strings.\<close>

definition json_strings :: "json \<Rightarrow> (string, string) hmap option" where
  "json_strings v =
     (case v of
        JObj m \<Rightarrow> if list_all (\<lambda>(k, v). json_str v \<noteq> None) m then Some (map (\<lambda>(k, v). (k, the (json_str v))) m) else None
      | _ \<Rightarrow> None)"

definition read_settings :: "(string \<Rightarrow> json option) \<Rightarrow> string \<Rightarrow> string option \<Rightarrow> (string, string) hmap" where
  "read_settings parse plugin content =
     (case Option.bind (Option.bind content parse) (\<lambda>all. Option.bind (member_of plugin all) json_strings) of
        Some m \<Rightarrow> m
      | None \<Rightarrow> [])"

definition with_setting :: "string \<Rightarrow> string \<Rightarrow> string \<Rightarrow> (string \<times> json) list \<Rightarrow> (string \<times> json) list" where
  "with_setting plugin name value all =
     (let section = (case obj_get plugin all of Some (JObj m) \<Rightarrow> m | _ \<Rightarrow> []);
          section = (if value = [] then obj_remove name section else obj_insert name (JStr value) section)
      in obj_insert plugin (JObj section) all)"

definition save_setting :: "(string \<Rightarrow> json option) \<Rightarrow> (json \<Rightarrow> string) \<Rightarrow> string \<Rightarrow> string \<Rightarrow> string \<Rightarrow> string option \<Rightarrow> string" where
  "save_setting parse pretty plugin name value content =
     pretty (JObj (with_setting plugin name value (case Option.bind content parse of Some (JObj m) \<Rightarrow> m | _ \<Rightarrow> [])))"

definition settings_set :: "(string \<Rightarrow> json option) \<Rightarrow> string \<Rightarrow> string option \<Rightarrow> string list" where
  "settings_set parse plugin content = map fst (read_settings parse plugin content)"

definition net_for_plugin ::
  "(string \<Rightarrow> json option) \<Rightarrow> string \<Rightarrow> permissions option \<Rightarrow> string option \<Rightarrow> nat \<Rightarrow> net_access" where
  "net_for_plugin parse plugin pm content now =
     (let allowed = (case pm of Some p \<Rightarrow> pm_network_access p | None \<Rightarrow> False)
      in net_new pm (if allowed then read_settings parse plugin content else []) now)"

section \<open>Public addresses are those in no reserved block\<close>

text \<open>A block is a network and the length of its prefix.\<close>

definition in_block4 :: "32 word \<Rightarrow> 32 word \<times> nat \<Rightarrow> bool" where
  "in_block4 a nl \<longleftrightarrow> drop_bit (32 - snd nl) a = drop_bit (32 - snd nl) (fst nl)"

definition in_block6 :: "128 word \<Rightarrow> 128 word \<times> nat \<Rightarrow> bool" where
  "in_block6 a nl \<longleftrightarrow> drop_bit (128 - snd nl) a = drop_bit (128 - snd nl) (fst nl)"

definition quad :: "nat \<Rightarrow> nat \<Rightarrow> nat \<Rightarrow> nat \<Rightarrow> 32 word" where
  "quad a b c d = of_nat (a * 2 ^ 24 + b * 2 ^ 16 + c * 2 ^ 8 + d)"

definition reserved4 :: "(32 word \<times> nat) list" where
  "reserved4 =
     [(quad 0 0 0 0, 8), (quad 10 0 0 0, 8), (quad 127 0 0 0, 8), (quad 224 0 0 0, 3), (quad 100 64 0 0, 10),
      (quad 169 254 0 0, 16), (quad 172 16 0 0, 12), (quad 192 0 0 0, 24), (quad 192 0 2 0, 24), (quad 192 168 0 0, 16),
      (quad 198 18 0 0, 15), (quad 198 51 100 0, 24), (quad 203 0 113 0, 24)]"

definition reserved6 :: "(128 word \<times> nat) list" where
  "reserved6 =
     [(1, 128), (0, 128), (0xfc00 * 2 ^ 112, 7), (0xfe80 * 2 ^ 112, 10), (0xff00 * 2 ^ 112, 8), (0x0064 * 2 ^ 112, 16),
      (0x2002 * 2 ^ 112, 16), (0x2001 * 2 ^ 112 + 0x0db8 * 2 ^ 96, 32)]"

definition MAPPED :: "128 word \<times> nat" where "MAPPED = (0xffff * 2 ^ 32, 96)"
definition NAT64 :: "128 word \<times> nat" where "NAT64 = (0x0064 * 2 ^ 112 + 0xff9b * 2 ^ 96, 96)"

definition special4 :: "32 word \<Rightarrow> bool" where
  "special4 a \<longleftrightarrow> list_ex (in_block4 a) reserved4"

definition special :: "ip \<Rightarrow> bool" where
  "special i =
     (case i of
        V4 a \<Rightarrow> special4 a
      | V6 a \<Rightarrow> if in_block6 a MAPPED \<or> in_block6 a NAT64 then special4 (ucast a) else list_ex (in_block6 a) reserved6)"

lemma unat_drop: "unat (drop_bit k w) = unat w div 2 ^ k" for w :: "'a::len word"
  by (simp only: unat_drop_bit_eq) (simp only: drop_bit_eq_div)

lemma in_block4_nat: "in_block4 a (n, l) \<longleftrightarrow> unat a div 2 ^ (32 - l) = unat n div 2 ^ (32 - l)"
  by (simp only: in_block4_def fst_conv snd_conv word_unat_eq_iff unat_drop)

lemma in_block6_nat: "in_block6 a (n, l) \<longleftrightarrow> unat a div 2 ^ (128 - l) = unat n div 2 ^ (128 - l)"
  by (simp only: in_block6_def fst_conv snd_conv word_unat_eq_iff unat_drop)

lemma unat_quad:
  assumes "a < 256" "b < 256" "c < 256" "d < 256"
  shows "unat (quad a b c d) = a * 2 ^ 24 + b * 2 ^ 16 + c * 2 ^ 8 + d"
proof -
  have "a * 2 ^ 24 + b * 2 ^ 16 + c * 2 ^ 8 + d < 2 ^ LENGTH(32)" using assms by simp
  then show ?thesis unfolding quad_def unat_of_nat take_bit_eq_mod by (rule mod_less)
qed

lemma in_block4_quad:
  assumes "a < 256" "b < 256" "c < 256" "d < 256"
  shows "in_block4 v (quad a b c d, l) \<longleftrightarrow> unat v div 2 ^ (32 - l) = (a * 2 ^ 24 + b * 2 ^ 16 + c * 2 ^ 8 + d) div 2 ^ (32 - l)"
  unfolding in_block4_nat unat_quad [OF assms] by (rule refl)

lemma octets:
  fixes v :: "32 word"
  defines "x \<equiv> unat v div 256"
  shows "octet 0 v = x div 65536" "octet 1 v = x div 256 mod 256" "octet 2 v = x mod 256" "x < 2 ^ 24"
proof -
  have v: "unat v < 2 ^ 32" using unsigned_less [of v] by simp
  then have "unat v div 16777216 < 256" by (simp add: div_less_iff_less_mult)
  then show "octet 0 v = x div 65536"
    by (simp add: octet_def unat_drop x_def div_mult2_eq [symmetric])
  show "octet 1 v = x div 256 mod 256" "octet 2 v = x mod 256"
    by (simp_all add: octet_def unat_drop x_def div_mult2_eq [symmetric])
  show "x < 2 ^ 24" using v by (simp add: x_def div_less_iff_less_mult)
qed

text \<open>The blocks as conditions on the first three octets, as one number.\<close>

lemma blocks4:
  fixes v :: "32 word"
  defines "x \<equiv> unat v div 256"
  shows "special4 v \<longleftrightarrow>
    x div 65536 = 0 \<or> x div 65536 = 10 \<or> x div 65536 = 127 \<or> x div 2097152 = 7 \<or> x div 16384 = 401 \<or> x div 256 = 43518 \<or>
    x div 4096 = 2753 \<or> x = 12582912 \<or> x = 12582914 \<or> x div 256 = 49320 \<or> x div 512 = 25353 \<or> x = 12989284 \<or> x = 13303921"
proof -
  have d: "unat v div 2 ^ (8 + k) = x div 2 ^ k" for k
    by (simp add: x_def div_mult2_eq [symmetric] power_add)
  have e: "unat v div 16777216 = x div 65536" "unat v div 4194304 = x div 16384" "unat v div 65536 = x div 256"
    "unat v div 1048576 = x div 4096" "unat v div 256 = x" "unat v div 131072 = x div 512" "unat v div 536870912 = x div 2097152"
    using d [of 16] d [of 14] d [of 8] d [of 12] d [of 0] d [of 9] d [of 21] by simp_all
  have n: "in_block4 v (quad 0 0 0 0, 8) \<longleftrightarrow> x div 65536 = 0" "in_block4 v (quad 10 0 0 0, 8) \<longleftrightarrow> x div 65536 = 10"
    "in_block4 v (quad 127 0 0 0, 8) \<longleftrightarrow> x div 65536 = 127" "in_block4 v (quad 224 0 0 0, 3) \<longleftrightarrow> x div 2097152 = 7"
    "in_block4 v (quad 100 64 0 0, 10) \<longleftrightarrow> x div 16384 = 401" "in_block4 v (quad 169 254 0 0, 16) \<longleftrightarrow> x div 256 = 43518"
    "in_block4 v (quad 172 16 0 0, 12) \<longleftrightarrow> x div 4096 = 2753" "in_block4 v (quad 192 0 0 0, 24) \<longleftrightarrow> x = 12582912"
    "in_block4 v (quad 192 0 2 0, 24) \<longleftrightarrow> x = 12582914" "in_block4 v (quad 192 168 0 0, 16) \<longleftrightarrow> x div 256 = 49320"
    "in_block4 v (quad 198 18 0 0, 15) \<longleftrightarrow> x div 512 = 25353" "in_block4 v (quad 198 51 100 0, 24) \<longleftrightarrow> x = 12989284"
    "in_block4 v (quad 203 0 113 0, 24) \<longleftrightarrow> x = 13303921"
    by (simp_all add: in_block4_quad e)
  show ?thesis unfolding special4_def reserved4_def list_ex_iff by (simp only: list.set bex_simps n) (simp only: simp_thms)
qed

lemma base256: "c < 256 \<Longrightarrow> y * 256 + c = n \<longleftrightarrow> y = n div 256 \<and> c = n mod 256" for n :: nat
  by auto

lemma numeral_pos: "(0::nat) < numeral k"
  by simp

lemma div_is:
  fixes k m n :: nat
  assumes "0 < k"
  shows "m div k = n \<longleftrightarrow> n * k \<le> m \<and> m < n * k + k"
proof -
  have "m div k = n \<longleftrightarrow> n \<le> m div k \<and> m div k < n + 1" by linarith
  then show ?thesis unfolding less_eq_div_iff_mult_less_eq [OF assms] div_less_iff_less_mult [OF assms] by (simp add: add.commute)
qed

lemma public_v4_iff: "public_v4 v \<longleftrightarrow> \<not> special4 v"
proof -
  define x where "x = unat v div 256"
  define a b c where "a = x div 65536" and "b = x div 256 mod 256" and "c = x mod 256"
  define y where "y = x div 256"
  note o = octets [of v, folded x_def, folded a_def b_def c_def]
  have ya: "y div 256 = a" by (simp add: y_def a_def div_mult2_eq [symmetric])
  have y: "y = a * 256 + b" using div_mult_mod_eq [of y 256] by (simp only: ya) (simp add: b_def y_def)
  have x: "x = y * 256 + c" using div_mult_mod_eq [of x 256] by (simp add: y_def c_def)
  have less: "b < 256" "c < 256" by (simp_all add: b_def c_def)
  have q: "x div (256 * k) = y div k" for k by (simp add: y_def div_mult2_eq)
  have e: "x div 16384 = y div 64" "x div 4096 = y div 16" "x div 512 = y div 2" "x div 2097152 = y div 8192"
    using q [of 64] q [of 16] q [of 2] q [of 8192] by simp_all
  have n1: "y div 64 = 401 \<longleftrightarrow> a = 100 \<and> 64 \<le> b \<and> b < 128" using less(1) unfolding div_is [OF numeral_pos] y by (cases "a = 100") auto
  have n2: "y div 16 = 2753 \<longleftrightarrow> a = 172 \<and> 16 \<le> b \<and> b < 32" using less(1) unfolding div_is [OF numeral_pos] y by (cases "a = 172") auto
  have n3: "y div 2 = 25353 \<longleftrightarrow> a = 198 \<and> (b = 18 \<or> b = 19)" using less(1) unfolding div_is [OF numeral_pos] y by (cases "a = 198") auto
  have n4: "y div 8192 = 7 \<longleftrightarrow> a \<ge> 224" using less o(4) unfolding div_is [OF numeral_pos] x y by auto
  have n5: "y = 43518 \<longleftrightarrow> a = 169 \<and> b = 254" "y = 49320 \<longleftrightarrow> a = 192 \<and> b = 168"
    unfolding y base256 [OF less(1)] by simp_all
  have n6: "x = 12582912 \<longleftrightarrow> a = 192 \<and> b = 0 \<and> c = 0" "x = 12582914 \<longleftrightarrow> a = 192 \<and> b = 0 \<and> c = 2"
    "x = 12989284 \<longleftrightarrow> a = 198 \<and> b = 51 \<and> c = 100" "x = 13303921 \<longleftrightarrow> a = 203 \<and> b = 0 \<and> c = 113"
    unfolding x base256 [OF less(2)] y base256 [OF less(1)] by auto
  show ?thesis
    unfolding public_v4_def blocks4 [of v, folded x_def] o Let_def a_def [symmetric] y_def [symmetric] e n1 n2 n3 n4 n5 n6
    by (rule refl)
qed

lemma and_high: "f AND push_bit k (mask n) = push_bit k (take_bit n (drop_bit k f))" for f :: nat
  by (rule bit_eqI) (auto simp: bit_simps)

lemma and_prefix:
  fixes f :: nat
  assumes "f < 65536"
  shows "f AND 0xfe00 = 0xfc00 \<longleftrightarrow> f div 512 = 126" "f AND 0xffc0 = 0xfe80 \<longleftrightarrow> f div 64 = 1018" "f AND 0xff00 = 0xff00 \<longleftrightarrow> f div 256 = 255"
proof -
  have m: "0xfe00 = push_bit 9 (mask 7 :: nat)" "0xffc0 = push_bit 6 (mask 10 :: nat)" "0xff00 = push_bit 8 (mask 8 :: nat)"
    by (simp_all add: push_bit_eq_mult mask_eq_exp_minus_1)
  have l: "f div 512 < 128" "f div 64 < 1024" "f div 256 < 256" using assms by (simp_all add: div_less_iff_less_mult)
  have "f AND 0xfe00 = f div 512 * 512" "f AND 0xffc0 = f div 64 * 64" "f AND 0xff00 = f div 256 * 256"
    using l unfolding m and_high by (simp_all add: push_bit_eq_mult take_bit_eq_mod drop_bit_eq_div)
  then show "f AND 0xfe00 = 0xfc00 \<longleftrightarrow> f div 512 = 126" "f AND 0xffc0 = 0xfe80 \<longleftrightarrow> f div 64 = 1018" "f AND 0xff00 = 0xff00 \<longleftrightarrow> f div 256 = 255"
    by auto
qed

lemma segment_nat: "i \<le> 7 \<Longrightarrow> segment i v = unat v div 2 ^ (112 - 16 * i) mod 65536"
  by (simp only: segment_def unat_drop)

lemma unat128: "unat v < 2 ^ 128" for v :: "128 word"
  using unsigned_less [of v] by simp

lemma segment0: "segment 0 v = unat v div 2 ^ 112" "segment 0 v < 65536"
proof -
  have "unat v div 2 ^ 112 < 65536" using unat128 [of v] by (simp add: div_less_iff_less_mult)
  then show "segment 0 v = unat v div 2 ^ 112" "segment 0 v < 65536" by (simp_all add: segment_nat)
qed

lemma split_segment: "m div 2 ^ k = n \<longleftrightarrow> m div 2 ^ (k + 16) = n div 65536 \<and> m div 2 ^ k mod 65536 = n mod 65536" for m k n :: nat
proof -
  have "m div 2 ^ (k + 16) = m div 2 ^ k div 65536" by (simp add: power_add div_mult2_eq)
  then show ?thesis using div_mult_mod_eq [of "m div 2 ^ k" 65536] div_mult_mod_eq [of n 65536] by metis
qed

lemma mapped_block: "in_block6 v MAPPED \<longleftrightarrow> drop_bit 32 v = 0xffff"
  by (simp add: in_block6_def MAPPED_def drop_bit_eq_div word_unat_eq_iff)

lemma nat64_block:
  "in_block6 v NAT64 \<longleftrightarrow> segment 0 v = 0x0064 \<and> segment 1 v = 0xff9b \<and> map (\<lambda>i. segment i v) [2, 3, 4, 5] = [0, 0, 0, 0]"
proof -
  have "in_block6 v NAT64 \<longleftrightarrow> unat v div 2 ^ 32 = 0x0064 * 2 ^ 80 + 0xff9b * 2 ^ 64"
    by (simp add: in_block6_nat NAT64_def)
  also have "\<dots> \<longleftrightarrow> unat v div 2 ^ 112 = 0x0064 \<and> segment 1 v = 0xff9b \<and> segment 2 v = 0 \<and> segment 3 v = 0 \<and> segment 4 v = 0 \<and> segment 5 v = 0"
    unfolding split_segment [of "unat v" 32] split_segment [of "unat v" "32 + 16"] split_segment [of "unat v" "32 + 16 + 16"]
      split_segment [of "unat v" "32 + 16 + 16 + 16"] split_segment [of "unat v" "32 + 16 + 16 + 16 + 16"]
    by (simp add: segment_nat conj_ac)
  finally show ?thesis by (simp add: segment0)
qed


lemma blocks6:
  "list_ex (in_block6 v) reserved6 \<longleftrightarrow>
     v = 1 \<or> v = 0 \<or> segment 0 v AND 0xfe00 = 0xfc00 \<or> segment 0 v AND 0xffc0 = 0xfe80 \<or> segment 0 v AND 0xff00 = 0xff00 \<or>
     segment 0 v = 0x0064 \<or> segment 0 v = 0x2002 \<or> (segment 0 v = 0x2001 \<and> segment 1 v = 0x0db8)"
proof -
  have e: "in_block6 v (1, 128) \<longleftrightarrow> v = 1" "in_block6 v (0, 128) \<longleftrightarrow> v = 0" by (simp_all add: in_block6_def)
  have d: "unat v div 2 ^ (112 + k) = segment 0 v div 2 ^ k" for k by (simp add: segment0 div_mult2_eq power_add)
  have f: "in_block6 v (0xfc00 * 2 ^ 112, 7) \<longleftrightarrow> segment 0 v div 512 = 126" "in_block6 v (0xfe80 * 2 ^ 112, 10) \<longleftrightarrow> segment 0 v div 64 = 1018"
    "in_block6 v (0xff00 * 2 ^ 112, 8) \<longleftrightarrow> segment 0 v div 256 = 255" "in_block6 v (0x0064 * 2 ^ 112, 16) \<longleftrightarrow> segment 0 v = 0x0064"
    "in_block6 v (0x2002 * 2 ^ 112, 16) \<longleftrightarrow> segment 0 v = 0x2002"
    using d [of 9] d [of 6] d [of 8] d [of 0] by (simp_all add: in_block6_nat)
  have "in_block6 v (0x2001 * 2 ^ 112 + 0x0db8 * 2 ^ 96, 32) \<longleftrightarrow> unat v div 2 ^ 96 = 0x2001 * 2 ^ 16 + 0x0db8"
    by (simp add: in_block6_nat)
  also have "\<dots> \<longleftrightarrow> segment 0 v = 0x2001 \<and> segment 1 v = 0x0db8"
    unfolding split_segment [of _ 96] by (simp add: segment0 segment_nat)
  finally have g: "in_block6 v (0x2001 * 2 ^ 112 + 0x0db8 * 2 ^ 96, 32) \<longleftrightarrow> segment 0 v = 0x2001 \<and> segment 1 v = 0x0db8" .
  show ?thesis
    unfolding reserved6_def list_ex_iff and_prefix [OF segment0(2)] by (simp only: list.set bex_simps e f g) (simp only: simp_thms)
qed

text \<open>C27. An address is public exactly if it lies in none of the reserved blocks (this network, private, loopback, link-local,
  shared, documentation, benchmarking, multicast and the like), each written as a network with the length of
  its prefix; an IPv6 address that carries an IPv4 address (mapped or NAT64) is judged by the one inside.\<close>

theorem public_is_no_reserved_block: "is_public i = (\<not> special i)"
proof (cases i)
  case (V4 a)
  then show ?thesis by (simp add: is_public_def special_def public_v4_iff)
next
  case (V6 a)
  have none: "ipv4_mapped a = None" if "\<not> in_block6 a MAPPED" using that by (simp add: mapped_block ipv4_mapped_def)
  consider (mapped) "in_block6 a MAPPED" | (nat64) "in_block6 a NAT64" "\<not> in_block6 a MAPPED"
    | (neither) "\<not> in_block6 a NAT64" "\<not> in_block6 a MAPPED" by blast
  then show ?thesis
  proof cases
    case mapped
    then show ?thesis by (simp add: V6 is_public_def special_def mapped_block ipv4_mapped_def public_v4_iff)
  next
    case nat64
    then show ?thesis
      unfolding V6 is_public_def special_def ip.case none [OF nat64(2)] option.case Let_def nat64_block
      by (simp only: if_True simp_thms public_v4_iff)
  next
    case neither
    then show ?thesis
      unfolding V6 is_public_def special_def ip.case none [OF neither(2)] option.case Let_def nat64_block blocks6
      by (simp only: if_False simp_thms)
  qed
qed


section \<open>Where a request may go\<close>

text \<open>The host and the port of an address the user set, as the code reads them: of the whole URL, with the plugin's path.\<close>

definition own_target :: "'u net_lib \<Rightarrow> net_access \<Rightarrow> string \<times> nat \<Rightarrow> bool" where
  "own_target lib a hp \<longleftrightarrow>
     (\<exists>name \<in> set (na_user_urls a). \<exists>base path url. setting_of name a = Some base \<and>
        nl_parse lib (rev (dropWhile (\<lambda>c. c = CHR ''/'') (rev (trim base))) @ path) = Inr url \<and>
        nl_host lib url = Some (fst hp) \<and> nl_port lib url = Some (snd hp))"

lemma resolve_url_trusted: "resolve_url lib raw a = Inr (url, Some hp) \<Longrightarrow> own_target lib a hp"
  by (auto simp: resolve_url_def own_target_def refuse_def split: option.splits sum.splits if_splits prod.splits) blast

lemma check_target_ok:
  assumes "check_target lib hop url trusted = Inr addresses"
  shows "\<exists>host port. nl_host lib url = Some host \<and> nl_port lib url = Some port \<and> nl_username lib url = [] \<and> nl_password lib url = None \<and>
    addresses \<noteq> [] \<and>
    (nl_scheme lib url = ''https'' \<and> (\<forall>(i, p) \<in> set addresses. is_public i) \<or>
     nl_scheme lib url \<in> {''http'', ''https''} \<and> trusted = Some (host, port))"
  using assms
  by (auto simp: check_target_def refuse_def Let_def list_ex_iff split: option.splits sum.splits if_splits)

definition may_leave :: "'u net_lib \<Rightarrow> (string \<times> nat) option \<Rightarrow> 'u outgoing \<Rightarrow> bool" where
  "may_leave lib trusted out \<longleftrightarrow> (\<exists>hop. check_target lib hop (og_url out) trusted = Inr (og_addresses out))"

definition hop_out :: "nat \<Rightarrow> 'u journey \<Rightarrow> (ip \<times> nat) list \<Rightarrow> 'u outgoing" where
  "hop_out timeout j addresses =
     \<lparr>og_method = jn_method j, og_url = jn_url j, og_headers = jn_headers j, og_body = jn_body j, og_addresses = addresses, og_timeout = timeout\<rparr>"

lemma follow_step:
  assumes "follow lib trusted timeout limit (Suc left) hop j = (answer, outs)"
  shows "outs = [] \<or> (\<exists>addresses. check_target lib hop (jn_url j) trusted = Inr addresses \<and>
    (outs = [hop_out timeout j addresses] \<or>
     (\<exists>status next_url outs'. outs = hop_out timeout j addresses # outs' \<and>
        follow lib trusted timeout limit left (hop + 1) (redirected lib status next_url j) = (answer, outs'))))"
  using assms by (auto simp: refuse_def hop_out_def [symmetric] Let_def split: sum.splits option.splits prod.splits if_splits)

lemma redirected_headers:
  "jn_headers (redirected lib status next_url j) \<noteq> [] \<Longrightarrow>
     jn_headers (redirected lib status next_url j) = jn_headers j \<and> nl_host lib (jn_url (redirected lib status next_url j)) = nl_host lib (jn_url j)"
  by (auto simp: redirected_def Let_def split: if_splits)

definition hop_ok :: "'u net_lib \<Rightarrow> (string \<times> nat) option \<Rightarrow> nat \<Rightarrow> 'u journey \<Rightarrow> 'u outgoing \<Rightarrow> bool" where
  "hop_ok lib trusted timeout j out \<longleftrightarrow> may_leave lib trusted out \<and> og_timeout out = timeout \<and>
     (og_headers out \<noteq> [] \<longrightarrow> og_headers out = jn_headers j \<and> nl_host lib (og_url out) = nl_host lib (jn_url j))"

lemma hop_out_ok: "check_target lib hop (jn_url j) trusted = Inr addresses \<Longrightarrow> hop_ok lib trusted timeout j (hop_out timeout j addresses)"
  by (auto simp: hop_ok_def hop_out_def may_leave_def)

lemma hop_ok_redirected: "hop_ok lib trusted timeout (redirected lib status next_url j) out \<Longrightarrow> hop_ok lib trusted timeout j out"
  using redirected_headers [of lib status next_url j] by (auto simp: hop_ok_def)

declare follow.simps(2) [simp del]

lemma follow_outs:
  "follow lib trusted timeout limit left hop j = (answer, outs) \<Longrightarrow> length outs \<le> left \<and> (\<forall>out \<in> set outs. hop_ok lib trusted timeout j out)"
proof (induction left arbitrary: hop j outs)
  case (Suc left)
  from follow_step [OF Suc.prems] show ?case
  proof (elim disjE exE conjE)
    fix addresses status next_url outs'
    assume "check_target lib hop (jn_url j) trusted = Inr addresses" and o: "outs = hop_out timeout j addresses # outs'"
      and "follow lib trusted timeout limit left (hop + 1) (redirected lib status next_url j) = (answer, outs')"
    with Suc.IH [OF this(3)] show ?thesis by (auto intro: hop_out_ok dest: hop_ok_redirected)
  qed (auto intro: hop_out_ok)
qed (simp add: refuse_def)

text \<open>How a fetch that sends something begins.\<close>

lemma try_fetch_sends:
  assumes "try_fetch lib parse now raw a = (answer, outs, a')" "outs \<noteq> []"
  shows "\<exists>request url trusted headers m. na_allowed a \<and> na_requests a < MAX_REQUESTS \<and> now - na_started a < CALL_DEADLINE \<and>
    parse raw = Inr request \<and> a' = a\<lparr>na_requests := na_requests a + 1\<rparr> \<and> resolve_url lib (nr_url request) a' = Inr (url, trusted) \<and>
    resolve_headers lib (nr_headers request) (nl_host lib url) a' [] = Inr headers \<and>
    follow lib trusted (min (CALL_DEADLINE - (now - na_started a)) REQUEST_TIMEOUT)
      (min (case nr_max_bytes request of Some n \<Rightarrow> n | None \<Rightarrow> MAX_BODY_BYTES) MAX_BODY_BYTES) (MAX_REDIRECTS + 1) 0
      \<lparr>jn_method = m, jn_url = url, jn_headers = headers, jn_body = nr_body request\<rparr> = (answer, outs)"
  using assms unfolding try_fetch_def
  by (auto simp: Let_def simp del: One_nat_def split: if_splits sum.splits prod.splits)

lemma try_fetch_access:
  "try_fetch lib parse now raw a = (answer, outs, a') \<Longrightarrow> a' = a \<or> na_requests a < MAX_REQUESTS \<and> a' = a\<lparr>na_requests := na_requests a + 1\<rparr>"
  unfolding try_fetch_def by (auto simp: Let_def split: if_splits sum.splits prod.splits)

lemma fetch_is: "fetch lib parse now raw a = (v, outs, a') \<Longrightarrow> \<exists>answer. try_fetch lib parse now raw a = (answer, outs, a')"
  by (auto simp: fetch_def split: prod.splits sum.splits)


text \<open>A library for the examples: \<open>scheme://host:port/path\<close>, and a lookup that knows one public server.\<close>

definition mark_slashes :: string where "mark_slashes = ''://''"

definition demo_number :: "string \<Rightarrow> nat" where
  "demo_number t = foldl (\<lambda>n c. 10 * n + (of_char c - 48)) 0 t"

definition demo_parse :: "string \<Rightarrow> string + (string \<times> string \<times> nat)" where
  "demo_parse t =
     (case find_sub mark_slashes t of
        None \<Rightarrow> Inl ''relative URL without a base''
      | Some i \<Rightarrow>
          let scheme = take i t; authority = takeWhile (\<lambda>c. c \<noteq> CHR ''/'') (drop (i + 3) t);
              host = takeWhile (\<lambda>c. c \<noteq> CHR '':'') authority; port = drop (length host + 1) authority
          in Inr (scheme, host, if port = [] then (if scheme = ''https'' then 443 else 80) else demo_number port))"

definition demo_lib :: "(nat \<Rightarrow> (string \<times> string \<times> nat) outgoing \<Rightarrow> string + http_response) \<Rightarrow> (string \<times> string \<times> nat) net_lib" where
  "demo_lib send =
     \<lparr>nl_parse = demo_parse, nl_host = (\<lambda>(s, h, p). Some h), nl_port = (\<lambda>(s, h, p). Some p), nl_username = (\<lambda>u. []),
      nl_password = (\<lambda>u. None), nl_scheme = fst, nl_join = (\<lambda>u t. demo_parse t), nl_text = (\<lambda>(s, h, p). s @ ''://'' @ h),
      nl_lookup = (\<lambda>hop h p. Inr [(if h = ''api.example.com'' then V4 0x5db8d822 else V4 0x7f000001, p)]),
      nl_client = (\<lambda>u. Inr ()), nl_send = send, nl_header_name = (\<lambda>t. True), nl_header_value = (\<lambda>t. True), nl_lossy = (\<lambda>t. t)\<rparr>"

definition demo_answer :: http_response where
  "demo_answer = \<lparr>rs_status = 200, rs_location = None, rs_content_type = None, rs_body = Inr ''ok''\<rparr>"

definition demo_access :: net_access where
  "demo_access = net_new (Some \<lparr>pm_network_access = True, pm_secrets = [(''KEY'', ''api.example.com'')], pm_user_urls = [''OWN_URL'']\<rparr>)
     [(''KEY'', ''abc''), (''OWN_URL'', ''http://127.0.0.1'')] 0"

lemma demo_target: "check_target (demo_lib send) hop (''https'', ''api.example.com'', 443) trusted = Inr [(V4 0x5db8d822, 443)]"
proof -
  have "is_public (V4 0x5db8d822)" by (simp add: is_public_def public_v4_def octet_def drop_bit_eq_div unat_div)
  then show ?thesis by (simp add: check_target_def demo_lib_def)
qed

lemma demo_url: "resolve_url (demo_lib send) ''https://api.example.com/v1'' a = Inr ((''https'', ''api.example.com'', 443), None)"
proof -
  have "strip_prefix ''{{url:'' ''https://api.example.com/v1'' = None"
    "demo_parse ''https://api.example.com/v1'' = Inr (''https'', ''api.example.com'', 443)" by code_simp+
  then show ?thesis by (simp add: resolve_url_def demo_lib_def)
qed

definition demo_wanted :: "(string \<times> string) list" where
  "demo_wanted = [(''X-Key'', ''{{secret:KEY}}'')]"

lemma demo_headers:
  "resolve_headers (demo_lib send) demo_wanted (Some ''api.example.com'') (demo_access\<lparr>na_requests := Suc 0\<rparr>) [] = Inr [(''x-key'', ''abc'')]"
proof -
  have e: "eq_ignore_case ''X-Key'' ''user-agent'' = False" "eq_ignore_case ''X-Key'' ''host'' = False" "to_lower ''X-Key'' = ''x-key''"
    "fill_secrets (Some ''api.example.com'') ''{{secret:KEY}}'' (demo_access\<lparr>na_requests := Suc 0\<rparr>) = Inr ''abc''"
    by code_simp+
  show ?thesis by (simp add: e demo_lib_def hm_insert_def demo_wanted_def)
qed

definition demo_outgoing :: "(string \<times> string \<times> nat) outgoing" where
  "demo_outgoing = \<lparr>og_method = GET, og_url = (''https'', ''api.example.com'', 443), og_headers = [(''x-key'', ''abc'')], og_body = None,
     og_addresses = [(V4 0x5db8d822, 443)], og_timeout = 10\<rparr>"

definition demo_request :: net_request where
  "demo_request = \<lparr>nr_method = None, nr_url = ''https://api.example.com/v1'', nr_headers = demo_wanted, nr_body = None, nr_max_bytes = None\<rparr>"

lemma demo_fetch: "fst (snd (fetch (demo_lib (\<lambda>hop out. Inr demo_answer)) (\<lambda>t. Inr demo_request) 50 [] demo_access)) = [demo_outgoing]"
proof -
  have a: "na_allowed demo_access" "na_requests demo_access = 0" "na_started demo_access = 0"
    by (simp_all add: demo_access_def net_new_def)
  have l: "nl_host (demo_lib send) (s, h, p) = Some h" "nl_client (demo_lib send) u = Inr ()" "nl_send (demo_lib send) = send" for send s h p u
    by (simp_all add: demo_lib_def)
  show ?thesis
    by (simp add: fetch_def try_fetch_def a MAX_REQUESTS_def CALL_DEADLINE_def REQUEST_TIMEOUT_def demo_request_def demo_url l demo_headers
      method_of_def follow.simps demo_target demo_answer_def demo_outgoing_def)
qed


section \<open>The properties\<close>



lemma secret_value_other:
  assumes "hm_get name (na_secrets a) = Some h" "host \<noteq> Some h"
    "b = a\<lparr>na_settings := s\<rparr>" "\<And>n. n \<noteq> name \<Longrightarrow> hm_get n s = hm_get n (na_settings a)"
  shows "secret_value host n b = secret_value host n a"
  using assms by (cases "n = name") (auto simp: secret_value_def setting_of_def split: option.splits)

lemma fill_from_cong:
  assumes "\<And>n. secret_value host n b = secret_value host n a"
  shows "fill_from host b filled rest = fill_from host a filled rest"
proof (induction rest arbitrary: filled rule: measure_induct_rule [of length])
  case (less rest)
  have "fill_from host b f r = fill_from host a f r" if "split_braces (drop k rest) = Some (n, r)" for f r k n
    using split_braces_shorter [OF that] by (auto intro: less)
  then show ?case
    unfolding fill_from.simps [of host b filled rest] fill_from.simps [of host a filled rest]
    by (auto simp: assms split: option.splits sum.splits prod.splits)
qed

lemma resolve_headers_cong:
  assumes "\<And>n. secret_value host n b = secret_value host n a"
  shows "resolve_headers lib wanted host b out = resolve_headers lib wanted host a out"
  by (induction wanted arbitrary: out) (auto simp: fill_secrets_def fill_from_cong [OF assms] split: sum.splits)

lemma resolve_url_cong:
  assumes "name \<notin> set (na_user_urls a)" "\<And>n. n \<noteq> name \<Longrightarrow> hm_get n s = hm_get n (na_settings a)"
  shows "resolve_url lib raw (a\<lparr>na_settings := s\<rparr>) = resolve_url lib raw a"
proof -
  have "setting_of n (a\<lparr>na_settings := s\<rparr>) = setting_of n a" if "n \<in> set (na_user_urls a)" for n
    using that assms by (cases "n = name") (auto simp: setting_of_def)
  then show ?thesis by (auto simp: resolve_url_def split: option.splits)
qed

lemma resolve_url_requests: "resolve_url lib raw (a\<lparr>na_requests := k\<rparr>) = resolve_url lib raw a"
  by (simp add: resolve_url_def setting_of_def split: option.splits)

lemma secret_value_requests: "secret_value host n (a\<lparr>na_requests := k\<rparr>) = secret_value host n a"
proof -
  have "setting_of n (a\<lparr>na_requests := k\<rparr>) = setting_of n a" by (simp add: setting_of_def)
  then show ?thesis by (simp add: secret_value_def split: option.splits)
qed

text \<open>C15. A secret that the manifest binds to one host is sent nowhere else. If the plugin calls another host, what is sent and what the plugin
  gets back do not depend on the secret's value, redirects included; and whichever host it calls, a
  request with headers in it goes to that host.\<close>

theorem secret_reaches_its_host_only:
  assumes "fetch lib parse now raw a = (v, outs, a')" "parse raw = Inr request" "resolve_url lib (nr_url request) a = Inr (url, trusted)"
    and "hm_get name (na_secrets a) = Some h" "name \<notin> set (na_user_urls a)"
    and "\<And>n. n \<noteq> name \<Longrightarrow> hm_get n s = hm_get n (na_settings a)"
  shows "(nl_host lib url \<noteq> Some h \<longrightarrow> fetch lib parse now raw (a\<lparr>na_settings := s\<rparr>) = (v, outs, a'\<lparr>na_settings := s\<rparr>)) \<and>
    (\<forall>out \<in> set outs. og_headers out \<noteq> [] \<longrightarrow> nl_host lib (og_url out) = nl_host lib url)"
proof
  obtain answer where t: "try_fetch lib parse now raw a = (answer, outs, a')" using fetch_is [OF assms(1)] ..
  show "nl_host lib url \<noteq> Some h \<longrightarrow> fetch lib parse now raw (a\<lparr>na_settings := s\<rparr>) = (v, outs, a'\<lparr>na_settings := s\<rparr>)"
  proof
    assume n: "nl_host lib url \<noteq> Some h"
    have u: "resolve_url lib (nr_url request) (a\<lparr>na_settings := s\<rparr>) = Inr (url, trusted)"
      using assms(3) resolve_url_cong [of name a s lib "nr_url request", OF assms(5,6)] by simp
    have c: "secret_value (nl_host lib url) m (a\<lparr>na_settings := s, na_requests := k\<rparr>) =
      secret_value (nl_host lib url) m (a\<lparr>na_requests := k\<rparr>)" for m k
      unfolding secret_value_requests by (rule secret_value_other [OF assms(4) n refl assms(6)])
    have "try_fetch lib parse now raw (a\<lparr>na_settings := s\<rparr>) = (answer, outs, a'\<lparr>na_settings := s\<rparr>)"
      using t assms(2,3) unfolding try_fetch_def
      by (auto simp: Let_def u resolve_url_requests resolve_headers_cong [OF c] split: if_splits sum.splits prod.splits)
    then show "fetch lib parse now raw (a\<lparr>na_settings := s\<rparr>) = (v, outs, a'\<lparr>na_settings := s\<rparr>)"
      using assms(1) t by (auto simp: fetch_def split: sum.splits)
  qed
  show "\<forall>out \<in> set outs. og_headers out \<noteq> [] \<longrightarrow> nl_host lib (og_url out) = nl_host lib url"
  proof (cases "outs = []")
    case False
    from try_fetch_sends [OF t this] assms(2,3) show ?thesis by (auto simp: resolve_url_requests hop_ok_def simp del: One_nat_def dest!: follow_outs)
  qed simp
qed


definition demo_secret :: "(string, string) hmap" where
  "demo_secret = [(''KEY'', ''changed''), (''OWN_URL'', ''http://127.0.0.1'')]"

theorem secret_reaches_its_host_only_witness:
  "nl_host (demo_lib (\<lambda>hop out. Inr demo_answer)) (og_url demo_outgoing) = Some ''api.example.com''"
proof -
  let ?lib = "demo_lib (\<lambda>hop out. Inr demo_answer)"
  obtain v outs a' where f: "fetch ?lib (\<lambda>t. Inr demo_request) 50 [] demo_access = (v, outs, a')" by (metis prod_cases3)
  have u: "resolve_url ?lib (nr_url demo_request) demo_access = Inr ((''https'', ''api.example.com'', 443), None)"
    by (simp add: demo_request_def demo_url)
  have k: "hm_get ''KEY'' (na_secrets demo_access) = Some ''api.example.com''" "''KEY'' \<notin> set (na_user_urls demo_access)"
    by (simp_all add: demo_access_def net_new_def hm_get_def)
  have s: "hm_get n demo_secret = hm_get n (na_settings demo_access)" if "n \<noteq> ''KEY''" for n
    using that by (simp add: demo_secret_def demo_access_def net_new_def hm_get_def)
  from f demo_fetch have "outs = [demo_outgoing]" by simp
  then show ?thesis
    using secret_reaches_its_host_only [OF f refl u k s] by (simp add: demo_outgoing_def demo_lib_def)
qed

text \<open>One plugin call: its fetches, each with the library, the time and the request.\<close>

fun fetches ::
  "('u net_lib \<times> (string \<Rightarrow> string + net_request) \<times> nat \<times> string) list \<Rightarrow> net_access \<Rightarrow> json list \<times> 'u outgoing list \<times> net_access" where
  "fetches [] a = ([], [], a)"
| "fetches ((lib, parse, now, raw) # rest) a =
     (case fetch lib parse now raw a of
        (v, outs, a') \<Rightarrow> (case fetches rest a' of (vs, later, a'') \<Rightarrow> (v # vs, outs @ later, a'')))"

lemma fetch_outs:
  assumes "fetch lib parse now raw a = (v, outs, a')"
  shows "length outs \<le> (na_requests a' - na_requests a) * (MAX_REDIRECTS + 1) \<and> na_requests a \<le> na_requests a' \<and> na_requests a' \<le> max (na_requests a) MAX_REQUESTS"
proof -
  from fetch_is [OF assms] obtain answer where t: "try_fetch lib parse now raw a = (answer, outs, a')" ..
  show ?thesis
  proof (cases "outs = []")
    case True
    then show ?thesis using try_fetch_access [OF t] by auto
  next
    case False
    from try_fetch_sends [OF t this] show ?thesis by (auto simp del: One_nat_def dest!: follow_outs)
  qed
qed

lemma fetches_outs:
  "fetches calls a = (vs, outs, a') \<Longrightarrow>
     length outs \<le> (na_requests a' - na_requests a) * (MAX_REDIRECTS + 1) \<and> na_requests a \<le> na_requests a' \<and> na_requests a' \<le> max (na_requests a) MAX_REQUESTS"
proof (induction calls a arbitrary: vs outs a' rule: fetches.induct)
  case (2 lib parse now raw rest a)
  obtain v o1 a1 where f: "fetch lib parse now raw a = (v, o1, a1)" by (metis prod_cases3)
  obtain vs' o2 a2 where r: "fetches rest a1 = (vs', o2, a2)" by (metis prod_cases3)
  have p: "outs = o1 @ o2" "a' = a2" using "2.prems" f r by simp_all
  note x = fetch_outs [OF f] "2.IH" [OF f [symmetric] refl r]
  then have "length outs \<le> ((na_requests a1 - na_requests a) + (na_requests a2 - na_requests a1)) * (MAX_REDIRECTS + 1)"
    unfolding p length_append add_mult_distrib by linarith
  moreover have "(na_requests a1 - na_requests a) + (na_requests a2 - na_requests a1) = na_requests a2 - na_requests a" using x by simp
  ultimately show ?case using x by (auto simp: p max_def simp del: mult_Suc_right add_Suc_right split: if_splits)
qed simp

text \<open>C29. The fetches of one plugin call, however many there are, send at most 96 requests: sixteen fetches of six hops each.
  The limit of sixteen counts fetches, not the hops of their redirects.\<close>

theorem plugin_call_is_bounded: "length (fst (snd (fetches calls (net_for_plugin parse plugin pm content now)))) \<le> 96"
proof -
  obtain vs outs a' where f: "fetches calls (net_for_plugin parse plugin pm content now) = (vs, outs, a')" by (metis prod_cases3)
  have "na_requests (net_for_plugin parse plugin pm content now) = 0" by (simp add: net_for_plugin_def net_new_def)
  with fetches_outs [OF f] have l: "length outs \<le> na_requests a' * 6" "na_requests a' \<le> 16"
    by (simp_all add: MAX_REDIRECTS_def MAX_REQUESTS_def)
  then have "length outs \<le> 96" by linarith
  then show ?thesis by (simp add: f)
qed


text \<open>C26. The host and the port that may be local are read from the user's address with the plugin's path appended, and nothing asks that
  the path begins with a slash: whatever URL the two texts together parse to, its host and
  port are trusted, over http and at any address, so a path such as \<open>:6379/\<close> reaches another port of the user's host.\<close>

theorem plugin_moves_the_chosen_address:
  assumes "name \<in> set (na_user_urls a)" "split_braces (name @ ''}}'' @ path) = Some (name, path)" "setting_of name a = Some base"
    and "nl_parse lib (rev (dropWhile (\<lambda>c. c = CHR ''/'') (rev (trim base))) @ path) = Inr url"
    and "nl_host lib url = Some host" "nl_port lib url = Some port"
    and "nl_username lib url = []" "nl_password lib url = None" "nl_scheme lib url \<in> {''http'', ''https''}"
    and "nl_lookup lib hop (rev (dropWhile (\<lambda>c. c = CHR '']'') (rev (dropWhile (\<lambda>c. c = CHR ''['') host)))) port = Inr (address # addresses)"
  shows "\<exists>trusted. resolve_url lib (''{{url:'' @ name @ ''}}'' @ path) a = Inr (url, trusted) \<and>
    check_target lib hop url trusted = Inr (address # addresses)"
proof -
  have "strip_prefix ''{{url:'' (''{{url:'' @ name @ ''}}'' @ path) = Some (name @ ''}}'' @ path)" by (simp add: strip_prefix_def)
  with assms have "resolve_url lib (''{{url:'' @ name @ ''}}'' @ path) a = Inr (url, Some (host, port))"
    unfolding resolve_url_def by (simp only: option.case prod.case sum.case) simp
  moreover have "check_target lib hop url (Some (host, port)) = Inr (address # addresses)"
    using assms by (auto simp: check_target_def)
  ultimately show ?thesis by blast
qed

theorem plugin_moves_the_chosen_address_witness:
  "\<exists>trusted. resolve_url (demo_lib (\<lambda>hop out. Inr demo_answer)) ''{{url:OWN_URL}}:6379/'' demo_access = Inr ((''http'', ''127.0.0.1'', 6379), trusted) \<and>
    check_target (demo_lib (\<lambda>hop out. Inr demo_answer)) 0 (''http'', ''127.0.0.1'', 6379) trusted = Inr [(V4 0x7f000001, 6379)]"
proof -
  have "''OWN_URL'' \<in> set (na_user_urls demo_access)" "split_braces (''OWN_URL'' @ ''}}'' @ '':6379/'') = Some (''OWN_URL'', '':6379/'')"
    "setting_of ''OWN_URL'' demo_access = Some ''http://127.0.0.1''"
    "demo_parse (rev (dropWhile (\<lambda>c. c = CHR ''/'') (rev (trim ''http://127.0.0.1''))) @ '':6379/'') = Inr (''http'', ''127.0.0.1'', 6379)"
    by code_simp+
  then show ?thesis
    using plugin_moves_the_chosen_address [of "''OWN_URL''" demo_access "'':6379/''" "''http://127.0.0.1''" "demo_lib (\<lambda>hop out. Inr demo_answer)"
      "(''http'', ''127.0.0.1'', 6379)" "''127.0.0.1''" 6379 0 "(V4 0x7f000001, 6379)" "[]"]
    by (simp add: demo_lib_def)
qed

text \<open>A redirect to another host drops the headers but, when it keeps the method, sends the body there.\<close>

lemma body_follows_redirect:
  assumes "status \<in> {307, 308}" "nl_host lib next_url \<noteq> nl_host lib (jn_url j)"
  shows "redirected lib status next_url j = \<lparr>jn_method = jn_method j, jn_url = next_url, jn_headers = [], jn_body = jn_body j\<rparr>"
  using assms by (auto simp: redirected_def Let_def)

definition all_strings :: "(string \<times> json) list \<Rightarrow> bool" where
  "all_strings m \<longleftrightarrow> list_all (\<lambda>(k, v). json_str v \<noteq> None) m"

lemma json_strings_obj: "json_strings (JObj m) = (if all_strings m then Some (map (\<lambda>(k, v). (k, the (json_str v))) m) else None)"
  by (simp add: json_strings_def all_strings_def)

lemma get_strings: "hm_get k (map (\<lambda>(k, v). (k, the (json_str v))) m) = map_option (\<lambda>v. the (json_str v)) (obj_get k m)"
  by (induction m) (auto simp: hm_get_def obj_get_def)

lemma all_strings_insert: "all_strings m \<Longrightarrow> all_strings (obj_insert k (JStr v) m)"
  by (induction m) (auto simp: all_strings_def obj_insert_def)

lemma all_strings_remove: "all_strings m \<Longrightarrow> all_strings (obj_remove k m)"
  by (auto simp: all_strings_def obj_remove_def list_all_iff)

lemma read_saved:
  assumes "parse content = Some (JObj (obj_insert plugin (JObj m) all))" "all_strings m"
  shows "hm_get k (read_settings parse plugin (Some content)) = map_option (\<lambda>v. the (json_str v)) (obj_get k m)"
    and "plugin \<noteq> other \<Longrightarrow> read_settings parse other (Some content) =
      (case Option.bind (obj_get other all) json_strings of Some s \<Rightarrow> s | None \<Rightarrow> [])"
  using assms by (auto simp: read_settings_def member_of_def json_strings_obj get_strings)

text \<open>A value the user saves for a plugin is what the plugin's next call reads, and an empty value removes it; the plugin's
  other values stay, and no other plugin's settings change. The plugin's section may be new, but must hold only strings.\<close>

theorem saved_setting_is_read:
  assumes "\<And>v. v \<in> {value, []} \<Longrightarrow> parse (pretty (JObj (with_setting plugin name v all))) = Some (JObj (with_setting plugin name v all))"
    and "parse content = Some (JObj all)"
    and "case obj_get plugin all of None \<Rightarrow> True | Some v \<Rightarrow> json_strings v \<noteq> None"
    and "value \<noteq> []" "plugin \<noteq> other" "name \<noteq> other_name"
  defines "saved \<equiv> Some (save_setting parse pretty plugin name value (Some content))"
    and "removed \<equiv> Some (save_setting parse pretty plugin name [] (Some content))"
  shows "hm_get name (read_settings parse plugin saved) = Some value \<and> hm_get name (read_settings parse plugin removed) = None \<and>
    hm_get other_name (read_settings parse plugin saved) = hm_get other_name (read_settings parse plugin (Some content)) \<and>
    hm_get other_name (read_settings parse plugin removed) = hm_get other_name (read_settings parse plugin (Some content)) \<and>
    read_settings parse other saved = read_settings parse other (Some content)"
proof -
  obtain m where m: "(case obj_get plugin all of Some (JObj m) \<Rightarrow> m | _ \<Rightarrow> []) = m" "all_strings m"
    and g: "hm_get k (read_settings parse plugin (Some content)) = map_option (\<lambda>v. the (json_str v)) (obj_get k m)" for k
  proof (cases "obj_get plugin all")
    case None
    then show ?thesis using that [of "[]"] assms(2) by (simp add: all_strings_def read_settings_def member_of_def obj_get_def)
  next
    case (Some v)
    with assms(3) obtain m where "v = JObj m" by (auto simp: json_strings_def split: json.splits)
    with Some show ?thesis
      using that [of m] assms(2,3) by (auto simp: json_strings_obj read_settings_def member_of_def get_strings split: if_splits)
  qed
  have other: "read_settings parse other (Some content) = (case Option.bind (obj_get other all) json_strings of Some s \<Rightarrow> s | None \<Rightarrow> [])"
    using assms(2) by (simp add: read_settings_def member_of_def)
  have w: "with_setting plugin name value all = obj_insert plugin (JObj (obj_insert name (JStr value) m)) all"
    "with_setting plugin name [] all = obj_insert plugin (JObj (obj_remove name m)) all"
    using assms(4) m(1) by (simp_all add: with_setting_def)
  have s: "saved = Some (pretty (JObj (with_setting plugin name value all)))"
    "removed = Some (pretty (JObj (with_setting plugin name [] all)))"
    using assms(2) by (simp_all add: saved_def removed_def save_setting_def)
  have p: "parse (pretty (JObj (with_setting plugin name value all))) = Some (JObj (obj_insert plugin (JObj (obj_insert name (JStr value) m)) all))"
    "parse (pretty (JObj (with_setting plugin name [] all))) = Some (JObj (obj_insert plugin (JObj (obj_remove name m)) all))"
    using assms(1) [of "value"] assms(1) [of "[]"] by (simp_all add: w)
  note r = read_saved [of parse "pretty (JObj (with_setting plugin name value all))", OF p(1) all_strings_insert [OF m(2)]]
    read_saved [of parse "pretty (JObj (with_setting plugin name [] all))", OF p(2) all_strings_remove [OF m(2)]]
  show ?thesis unfolding s r(1) r(3) g other r(2) [OF assms(5)] using assms(6) by simp
qed

definition demo_all :: "(string \<times> json) list" where
  "demo_all = [(''p'', JObj [(''A'', JStr ''x'')]), (''q'', JObj [(''B'', JStr ''y'')])]"

definition demo_settings :: "json \<Rightarrow> string" where
  "demo_settings v = (if v = JObj (with_setting ''p'' ''A'' ''z'' demo_all) then ''saved'' else ''removed'')"

definition demo_read :: "string \<Rightarrow> json option" where
  "demo_read t =
     (if t = ''saved'' then Some (JObj (with_setting ''p'' ''A'' ''z'' demo_all))
      else if t = ''removed'' then Some (JObj (with_setting ''p'' ''A'' [] demo_all)) else Some (JObj demo_all))"

theorem saved_setting_is_read_witness:
  "hm_get ''A'' (read_settings demo_read ''p'' (Some (save_setting demo_read demo_settings ''p'' ''A'' ''z'' (Some ''old'')))) = Some ''z''"
proof -
  have h: "demo_read (demo_settings (JObj (with_setting ''p'' ''A'' v demo_all))) = Some (JObj (with_setting ''p'' ''A'' v demo_all))"
    if "v \<in> {''z'', []}" for v
  proof -
    have "demo_read (demo_settings (JObj (with_setting ''p'' ''A'' ''z'' demo_all))) = Some (JObj (with_setting ''p'' ''A'' ''z'' demo_all))"
      "demo_read (demo_settings (JObj (with_setting ''p'' ''A'' [] demo_all))) = Some (JObj (with_setting ''p'' ''A'' [] demo_all))"
      by code_simp+
    with that show ?thesis by auto
  qed
  have o: "demo_read ''old'' = Some (JObj demo_all)" by code_simp
  have a: "case obj_get ''p'' demo_all of None \<Rightarrow> True | Some v \<Rightarrow> json_strings v \<noteq> None" by code_simp
  show ?thesis
    using saved_setting_is_read [of "''z''" demo_read demo_settings "''p''" "''A''" demo_all "''old''" "''q''" "''B''", OF h o a] by simp
qed


definition REFUSAL_CODES :: "string list" where
  "REFUSAL_CODES = [''no_permission'', ''bad_request'', ''limit'', ''missing_setting'', ''blocked'', ''network'']"

lemma refusal_codes_refuse: "refuse c m = Inl r \<Longrightarrow> rf_code r = c"
  by (auto simp: refuse_def)

definition refusal_ok :: "refused + 'a \<Rightarrow> bool" where
  "refusal_ok x \<longleftrightarrow> (case x of Inl r \<Rightarrow> rf_code r \<in> set REFUSAL_CODES | Inr _ \<Rightarrow> True)"

lemma refusal_ok_simps [simp]:
  "refusal_ok (Inr x)" "refusal_ok (Inl r) \<longleftrightarrow> rf_code r \<in> set REFUSAL_CODES" "refusal_ok (refuse c m) \<longleftrightarrow> c \<in> set REFUSAL_CODES"
  by (auto simp: refusal_ok_def refuse_def)

lemma codes [simp]:
  "''no_permission'' \<in> set REFUSAL_CODES" "''bad_request'' \<in> set REFUSAL_CODES" "''limit'' \<in> set REFUSAL_CODES"
  "''missing_setting'' \<in> set REFUSAL_CODES" "''blocked'' \<in> set REFUSAL_CODES" "''network'' \<in> set REFUSAL_CODES"
  by (simp_all add: REFUSAL_CODES_def)

lemma refusal_ok_url: "refusal_ok (resolve_url lib raw a)"
  by (simp add: resolve_url_def split: option.splits sum.splits prod.splits)

lemma refusal_ok_value: "refusal_ok (secret_value host n a)"
  by (simp add: secret_value_def split: option.splits)

lemma refusal_ok_InlD: "x = Inl e \<Longrightarrow> refusal_ok x \<Longrightarrow> rf_code e \<in> set REFUSAL_CODES"
  by simp

lemma refusal_ok_fill: "refusal_ok (fill_from host a filled rest)"
  by (induction host a filled rest rule: fill_from.induct)
    (subst fill_from.simps, auto split: option.splits sum.splits prod.splits intro: refusal_ok_InlD [OF _ refusal_ok_value])

lemma refusal_ok_headers: "refusal_ok (resolve_headers lib wanted host a out)"
  by (induction wanted arbitrary: out)
    (auto simp: fill_secrets_def split: sum.splits intro: refusal_ok_InlD [OF _ refusal_ok_fill])

lemma refusal_ok_target: "refusal_ok (check_target lib hop url trusted)"
  by (simp add: check_target_def Let_def split: option.splits sum.splits)

lemma refusal_ok_method: "refusal_ok (method_of m)"
  by (simp add: method_of_def split: option.splits)

definition answer_ok :: "'u net_lib \<Rightarrow> refused + json \<Rightarrow> bool" where
  "answer_ok lib x \<longleftrightarrow>
     (case x of
        Inl r \<Rightarrow> rf_code r \<in> set REFUSAL_CODES
      | Inr v \<Rightarrow> \<exists>status url content bytes cut. length bytes \<le> MAX_BODY_BYTES \<and>
          v = JObj [(''status'', json_nat status), (''final_url'', JStr url), (''content_type'', JStr content),
            (''body'', JStr (nl_lossy lib bytes)), (''truncated'', JBool cut)])"

lemma answer_ok_refuse [simp]: "answer_ok lib (refuse c m) \<longleftrightarrow> c \<in> set REFUSAL_CODES"
  by (simp add: answer_ok_def refuse_def)

lemma answer_ok_Inl: "x = Inl e \<Longrightarrow> refusal_ok x \<Longrightarrow> answer_ok lib (Inl e)"
  by (simp add: answer_ok_def)

lemma answer_ok_json: "lim \<le> MAX_BODY_BYTES \<Longrightarrow> answer_ok lib (Inr (answer_json lib lim url r bytes))"
  by (auto simp: answer_ok_def answer_json_def intro!: exI [of _ "take lim bytes"])

lemma follow_answer_ok: "lim \<le> MAX_BODY_BYTES \<Longrightarrow> answer_ok lib (fst (follow lib trusted timeout lim left hop j))"
proof (induction left arbitrary: hop j)
  case (Suc left)
  then show ?case
    by (auto simp: follow.simps(2) Let_def answer_ok_json split: sum.splits option.splits prod.splits
        intro: answer_ok_Inl [OF _ refusal_ok_target]) (metis fst_conv)+
qed simp

lemma follow_answer_okD: "follow lib trusted timeout (min n MAX_BODY_BYTES) left hop j = (answer, outs) \<Longrightarrow> answer_ok lib answer"
  using follow_answer_ok [of "min n MAX_BODY_BYTES" lib trusted timeout left hop j] by simp

lemma try_fetch_answer_ok: "answer_ok lib (fst (try_fetch lib parse now raw a))"
  unfolding try_fetch_def
  by (auto simp: Let_def split: sum.splits prod.splits
      intro: answer_ok_Inl [OF _ refusal_ok_url] answer_ok_Inl [OF _ refusal_ok_headers] answer_ok_Inl [OF _ refusal_ok_method]
      dest: follow_answer_okD)

text \<open>C28. Whatever a plugin asks for, it gets one of two JSON objects: the answer of a server, with its status, its URL, its content type and at
  most 5 MB of its body, or a code of a fixed list with a text.\<close>

theorem fetch_answers_json:
  "(\<exists>status url content bytes cut. length bytes \<le> MAX_BODY_BYTES \<and>
      fst (fetch lib parse now raw a) = JObj [(''status'', json_nat status), (''final_url'', JStr url), (''content_type'', JStr content),
        (''body'', JStr (nl_lossy lib bytes)), (''truncated'', JBool cut)]) \<or>
   (\<exists>code error. code \<in> set REFUSAL_CODES \<and> fst (fetch lib parse now raw a) = JObj [(''code'', JStr code), (''error'', JStr error)])"
proof -
  obtain answer outs a' where t: "try_fetch lib parse now raw a = (answer, outs, a')" by (metis prod_cases3)
  have "answer_ok lib answer" using try_fetch_answer_ok [of lib parse now raw a] by (simp add: t)
  then show ?thesis by (cases answer) (auto simp: fetch_def t answer_ok_def)
qed

end
